(* ===== verification/Lws_Prelude.thy ===== *)
theory Lws_Prelude
  imports Main "HOL-Library.Word" "HOL-Library.Monad_Syntax"
begin

text \<open>
  Shared vocabulary of the development: the machine types of the C code, checked reads and
  writes of C arrays (an access outside the array is undefined behaviour in C and the value
  \<open>None\<close> here), C strings as byte lists, and the generic lemmas on lists, options and
  words that the component theories use.
\<close>

unbundle bit_operations_syntax

type_synonym byte = "8 word"
type_synonym u16 = "16 word"
type_synonym u32 = "32 word"
type_synonym size_t = "64 word"

named_theorems mem_simps \<open>checked array accesses\<close>
named_theorems c_defs \<open>the numeric constants of the C code\<close>
named_theorems st_defs \<open>state updates that symbolic execution unfolds\<close>

section \<open>Byte strings\<close>

definition bytes :: "string \<Rightarrow> byte list" where
  "bytes s = map of_char s"

lemma bytes_Nil [simp]: "bytes [] = []"
  by (simp add: bytes_def)

lemma bytes_Cons [simp]: "bytes (c # s) = of_char c # bytes s"
  by (simp add: bytes_def)

lemma bytes_append [simp]: "bytes (s @ t) = bytes s @ bytes t"
  by (simp add: bytes_def)

lemma length_bytes [simp]: "length (bytes s) = length s"
  by (simp add: bytes_def)

text \<open>The characters of a C string stored in a buffer: everything before the first NUL.\<close>

definition cstr :: "byte list \<Rightarrow> byte list" where
  "cstr xs = takeWhile (\<lambda>c. c \<noteq> 0) xs"

lemma cstr_Nil [simp]: "cstr [] = []"
  by (simp add: cstr_def)

lemma cstr_Cons [simp]: "cstr (c # xs) = (if c = 0 then [] else c # cstr xs)"
  by (simp add: cstr_def)

lemma cstr_append_NUL: "0 \<notin> set xs \<Longrightarrow> cstr (xs @ 0 # ys) = xs"
  by (induction xs) auto

lemma cstr_no_NUL: "0 \<notin> set (cstr xs)"
  by (induction xs) auto

section \<open>Checked array accesses\<close>

definition rd :: "'a list \<Rightarrow> nat \<Rightarrow> 'a option" where
  "rd xs i = (if i < length xs then Some (xs ! i) else None)"

definition wr :: "'a list \<Rightarrow> nat \<Rightarrow> 'a \<Rightarrow> 'a list option" where
  "wr xs i v = (if i < length xs then Some (xs[i := v]) else None)"

lemma rd_in [mem_simps]: "i < length xs \<Longrightarrow> rd xs i = Some (xs ! i)"
  by (simp add: rd_def)

lemma wr_in [mem_simps]: "i < length xs \<Longrightarrow> wr xs i v = Some (xs[i := v])"
  by (simp add: wr_def)

lemma rd_out [mem_simps]: "length xs \<le> i \<Longrightarrow> rd xs i = None"
  by (simp add: rd_def)

lemma wr_out [mem_simps]: "length xs \<le> i \<Longrightarrow> wr xs i v = None"
  by (simp add: wr_def)

lemma rd_eq_Some_iff: "rd xs i = Some v \<longleftrightarrow> i < length xs \<and> xs ! i = v"
  by (auto simp: rd_def)

lemma wr_eq_Some_iff: "wr xs i v = Some ys \<longleftrightarrow> i < length xs \<and> ys = xs[i := v]"
  by (auto simp: wr_def)

lemma length_wr: "wr xs i v = Some ys \<Longrightarrow> length ys = length xs"
  by (auto simp: wr_eq_Some_iff)

text \<open>
  \<open>memcpy(&mem[i], src, length src)\<close>: all of the destination has to lie in the array.
\<close>

definition blit :: "'a list \<Rightarrow> nat \<Rightarrow> 'a list \<Rightarrow> 'a list option" where
  "blit mem i src = (if i + length src \<le> length mem
     then Some (take i mem @ src @ drop (i + length src) mem) else None)"

lemma length_blit: "blit mem i src = Some mem' \<Longrightarrow> length mem' = length mem"
  by (auto simp: blit_def split: if_splits)

lemma blit_in [mem_simps]:
  "i + length src \<le> length mem \<Longrightarrow>
   blit mem i src = Some (take i mem @ src @ drop (i + length src) mem)"
  by (simp add: blit_def)

text \<open>The low \<open>n\<close> bytes of a number, most significant first.\<close>

definition be_bytes :: "nat \<Rightarrow> nat \<Rightarrow> byte list" where
  "be_bytes n v = map (\<lambda>i. of_nat (v div 256 ^ i)) (rev [0..<n])"

lemma length_be_bytes [simp]: "length (be_bytes n v) = n"
  by (simp add: be_bytes_def)

section \<open>Conversions between integer types\<close>

text \<open>
  A value stored in an \<open>int\<close> keeps its low 32 bits, read as two's complement; an \<open>int\<close> used as a \<open>size_t\<close>
  is taken modulo $2^{64}$.
\<close>

definition c_int :: "int \<Rightarrow> int" where
  "c_int k = sint (of_int k :: u32)"

definition c_size :: "int \<Rightarrow> nat" where
  "c_size k = unat (of_int k :: size_t)"

lemma c_int_shift: "c_int k = (k + 2 ^ 31) mod 2 ^ 32 - 2 ^ 31"
  by (simp add: c_int_def signed_of_int signed_take_bit_eq_take_bit_shift) (simp add: take_bit_eq_mod)

lemma c_int_id: "- (2 ^ 31) \<le> k \<Longrightarrow> k < 2 ^ 31 \<Longrightarrow> c_int k = k"
  by (simp add: c_int_shift)

lemma c_int_nonneg [simp]: "0 \<le> k \<Longrightarrow> k < 2147483648 \<Longrightarrow> c_int k = k"
  by (simp add: c_int_id)

lemma c_int_less: "c_int k < 2 ^ 31"
  by (simp add: c_int_shift)

lemma c_int_le: "0 \<le> k \<Longrightarrow> c_int k \<le> k"
  using zmod_le_nonneg_dividend[of "k + 2 ^ 31" "2 ^ 32"] by (simp add: c_int_shift)

lemma c_int_mod:
  assumes "n mod 2 ^ 32 < 2 ^ 31"
  shows "c_int (int n) = int (n mod 2 ^ 32)"
proof -
  have "(int n + 2 ^ 31) mod 2 ^ 32 = (int (n mod 2 ^ 32) + 2 ^ 31) mod 2 ^ 32"
    by (simp add: zmod_int mod_add_left_eq)
  also have "\<dots> = int (n mod 2 ^ 32) + 2 ^ 31" using assms by simp
  finally show ?thesis by (simp add: c_int_shift)
qed

lemma c_size_0 [simp]: "c_size 0 = 0"
  by (simp add: c_size_def)

lemma c_size_nat: "n < 2 ^ 64 \<Longrightarrow> c_size (int n) = n"
  by (simp add: c_size_def unat_of_nat)

section \<open>Shifts and masks as arithmetic\<close>

lemma nat_shift_or: "(n::nat) < 2 ^ k \<Longrightarrow> push_bit k m OR n = m * 2 ^ k + n"
proof -
  assume "n < 2 ^ k"
  then have "take_bit k n = n" by (simp add: take_bit_nat_eq_self_iff)
  then have b: "bit n i \<Longrightarrow> i < k" for i by (metis bit_take_bit_iff)
  have "push_bit k m AND n = 0"
    by (rule bit_eqI) (auto simp: bit_simps dest: b)
  then have "push_bit k m + n = push_bit k m OR n" by (rule disjunctive_add_eq_or)
  then show ?thesis by (simp add: push_bit_eq_mult)
qed

lemma unat_push_bit:
  fixes x :: "'a::len word"
  assumes "unat x * 2 ^ k < 2 ^ LENGTH('a)"
  shows "unat (push_bit k x) = unat x * 2 ^ k"
  using assms by (simp add: unsigned_push_bit_eq take_bit_nat_eq_self) (simp add: push_bit_eq_mult take_bit_nat_eq_self)

lemma unat_shift_or:
  fixes x y :: "'a::len word"
  assumes "unat y < 2 ^ k" "unat x * 2 ^ k < 2 ^ LENGTH('a)"
  shows "unat (push_bit k x OR y) = unat x * 2 ^ k + unat y"
  using nat_shift_or[OF assms(1), of "unat x"] unat_push_bit[OF assms(2)]
  by (simp add: unsigned_or_eq) (simp add: push_bit_eq_mult)

lemma unat_take_bit: "unat (take_bit k (x :: 'a::len word)) = unat x mod 2 ^ k"
  by (simp add: unsigned_take_bit_eq) (simp add: take_bit_eq_mod)

lemma unat_and_mask: "unat ((x :: 'a::len word) AND mask k) = unat x mod 2 ^ k"
  using unat_take_bit[of k x] by (simp add: take_bit_eq_mask)

lemma unat_drop_bit: "unat (drop_bit k (x::'a::len word)) = unat x div 2 ^ k"
  by (simp add: unat_drop_bit_eq) (simp add: drop_bit_eq_div)

lemma drop_bit_and_high:
  fixes b :: "'a::len word"
  shows "LENGTH('a) \<le> k + m \<Longrightarrow> drop_bit k (b AND push_bit k (mask m)) = drop_bit k b"
  by (rule bit_word_eqI) (auto simp: bit_simps dest: bit_imp_le_length)

lemma byte_masks:
  "(3 :: byte) = mask 2" "(15 :: byte) = mask 4" "(63 :: byte) = mask 6" "(127 :: byte) = mask 7"
  by (simp_all add: mask_eq_exp_minus_1)

lemma unat_byte_less: "unat (b :: byte) < 256"
  using unsigned_less[of b] by simp

end
