(* ===== verification/Lextable.thy ===== *)
theory Lextable
  imports Lws_Prelude
begin

text \<open>
  The header-name lexer of \<^verbatim>\<open>lib/parsers.c\<close>: the byte table \<open>lextable\<close>, a serialised trie, and
  \<open>lextable_decode\<close>, one step through it. Every position the parser can reach is proved safe, and
  the table is proved to accept exactly the header names it was generated from.
\<close>

section \<open>The program\<close>

definition lextable_lo :: "byte list" where
  "lextable_lo = [
     0x47, 0x07, 0x48, 0x0A, 0x43, 0x0F, 0x53, 0x19, 0x55, 0x3F, 0x4F, 0x46, 0x8D, 0x52,
     0xC5, 0x01, 0xD4, 0x01, 0xA0, 0x01, 0x80, 0x00, 0x6F, 0x02, 0xD4, 0x76, 0xF3, 0x01,
     0xF4, 0x01, 0xBA, 0x01, 0x81, 0x00, 0xEF, 0x01, 0xEE, 0x01, 0xEE, 0x01, 0xE5, 0x01,
     0xE3, 0x01, 0xF4, 0x01, 0xE9, 0x01, 0xEF, 0x01, 0xEE, 0x01, 0xBA, 0x01, 0x82, 0x00,
     0xE5, 0x01, 0xE3, 0x01, 0xAD, 0x01, 0xD7, 0x01, 0xE5, 0x01, 0xE2, 0x01, 0xD3, 0x01,
     0xEF, 0x01, 0xE3, 0x01, 0xEB, 0x01, 0xE5, 0x01, 0xF4, 0x01, 0xAD, 0x01, 0x4B, 0x08,
     0x50, 0x10, 0x44, 0x27, 0x56, 0x2F, 0x4F, 0x36, 0x45, 0x3C, 0x41, 0x46, 0xCE, 0x4C,
     0xE5, 0x01, 0xF9, 0x01, 0x31, 0x03, 0x32, 0x04, 0xBA, 0x25, 0xBA, 0x01, 0x83, 0x00,
     0xBA, 0x01, 0x84, 0x00, 0xF2, 0x01, 0xEF, 0x01, 0xF4, 0x01, 0xEF, 0x01, 0xE3, 0x01,
     0xEF, 0x01, 0xEC, 0x01, 0xBA, 0x01]"

definition lextable_hi :: "byte list" where
  "lextable_hi = [
     0x85, 0x00, 0xF0, 0x01, 0xE7, 0x01, 0xF2, 0x01, 0xE1, 0x01, 0xE4, 0x01, 0xE5, 0x01,
     0xBA, 0x01, 0x86, 0x00, 0xF2, 0x01, 0xE9, 0x01, 0xE7, 0x01, 0xE9, 0x01, 0xEE, 0x01,
     0xBA, 0x01, 0x87, 0x00, 0xF2, 0x01, 0xE1, 0x01, 0xE6, 0x01, 0xF4, 0x01, 0xBA, 0x01,
     0x88, 0x00, 0x8A, 0x01, 0x89, 0x00, 0x8A, 0x00, 0xE5, 0x01, 0xF2, 0x01, 0xF3, 0x01,
     0xE9, 0x01, 0xEF, 0x01, 0xEE, 0x01, 0xBA, 0x01, 0x8B, 0x00, 0xF2, 0x01, 0xE9, 0x01,
     0xE7, 0x01, 0xE9, 0x01, 0xEE, 0x01, 0xBA, 0x01, 0x8C, 0x00, 0xF8, 0x01, 0xF4, 0x01,
     0xE5, 0x01, 0xEE, 0x01, 0xF3, 0x01, 0xE9, 0x01, 0xEF, 0x01, 0xEE, 0x01, 0xF3, 0x01,
     0xBA, 0x01, 0x8D, 0x00, 0xE3, 0x01, 0xE3, 0x01, 0xE5, 0x01, 0xF0, 0x01, 0xF4, 0x01,
     0xBA, 0x01, 0x8E, 0x00, 0xEF, 0x01, 0xEE, 0x01, 0xE3, 0x01, 0xE5, 0x01, 0xBA, 0x01,
     0x8F, 0x00, 0xD4, 0x01, 0xD0, 0x01, 0xAF, 0x01, 0xB1, 0x01, 0xAE, 0x01, 0xB1, 0x01,
     0xA0, 0x01, 0x90, 0x00]"

definition lextable :: "byte list" where
  "lextable = lextable_lo @ lextable_hi"

text \<open>
  \<open>lextable_decode\<close> on any table. A position outside the table is undefined behaviour (\<open>None\<close>);
  a C \<open>char\<close> above 127 matches nothing, whether \<open>char\<close> is signed or not.
\<close>

function decode_in :: "byte list \<Rightarrow> int \<Rightarrow> byte \<Rightarrow> int option" where
  "decode_in tab pos ch =
    (if pos < 0 then Some pos else
     do { nxt \<leftarrow> rd tab (nat pos + 1);
          cur \<leftarrow> rd tab (nat pos);
          if nxt = 0 then Some pos
          else if cur AND 0x7f = ch then Some (pos + 2 * int (unat nxt))
          else if cur AND 0x80 \<noteq> 0 then Some (-1)
          else decode_in tab (pos + 2) ch })"
  by pat_completeness auto
termination
  by (relation "measure (\<lambda>(tab, pos, ch). length tab - nat pos)") (auto simp: rd_eq_Some_iff)

declare decode_in.simps [simp del]

definition lextable_decode :: "int \<Rightarrow> byte \<Rightarrow> int option" where
  "lextable_decode pos ch = decode_in lextable pos ch"

section \<open>The language of the table\<close>

text \<open>The names the table is generated from: \<open>set\<close> of \<^verbatim>\<open>lib/minilex.c\<close>.\<close>

definition set_names :: "byte list list" where
  "set_names = map bytes [''GET '', ''Host:'', ''Connection:'', ''Sec-WebSocket-Key1:'',
     ''Sec-WebSocket-Key2:'', ''Sec-WebSocket-Protocol:'', ''Upgrade:'', ''Origin:'',
     ''Sec-WebSocket-Draft:'', [CHR 0x0D, CHR 0x0A], ''Sec-WebSocket-Key:'', ''Sec-WebSocket-Version:'',
     ''Sec-WebSocket-Origin:'', ''Sec-WebSocket-Extensions:'', ''Sec-WebSocket-Accept:'',
     ''Sec-WebSocket-Nonce:'', ''HTTP/1.1 '']"

text \<open>
  One byte of a name as the parser reads it (\<open>WSI_TOKEN_NAME_PART\<close>): a decoding step, then the
  test for a terminal entry; and a whole name, which has to end at a terminal.
\<close>

datatype lex = Unknown | More int | Token nat

definition lex_step :: "byte list \<Rightarrow> int \<Rightarrow> byte \<Rightarrow> lex option" where
  "lex_step tab pos ch = do { p \<leftarrow> decode_in tab pos ch;
     if p < 0 then Some Unknown
     else do { nxt \<leftarrow> rd tab (nat p + 1); cur \<leftarrow> rd tab (nat p);
       Some (if nxt = 0 then Token (unat (cur AND 0x7f)) else More p) } }"

fun lex_name :: "byte list \<Rightarrow> int \<Rightarrow> byte list \<Rightarrow> nat option" where
  "lex_name tab pos [] = None"
| "lex_name tab pos (ch # s) = (case lex_step tab pos ch of
      Some (Token n) \<Rightarrow> (if s = [] then Some n else None)
    | Some (More p) \<Rightarrow> lex_name tab p s
    | _ \<Rightarrow> None)"

text \<open>
  The edges out of a trie node, read off the suffix of the table that starts there, and the names
  accepted from it. All jumps go forward, so suffixes are all that is needed.
\<close>

fun edges :: "nat \<Rightarrow> byte list \<Rightarrow> (byte \<times> nat \<times> byte list) list option" where
  "edges p (cur # nxt # xs) =
     (if nxt = 0 then None else
      do { es \<leftarrow> (if cur AND 0x80 \<noteq> 0 then Some [] else edges (p + 2) xs);
           Some ((cur AND 0x7f, p + 2 * unat nxt, drop (2 * unat nxt) (cur # nxt # xs)) # es) })"
| "edges p _ = None"

fun those_concat :: "'a list option list \<Rightarrow> 'a list option" where
  "those_concat [] = Some []"
| "those_concat (None # xs) = None"
| "those_concat (Some x # xs) = map_option ((@) x) (those_concat xs)"

fun via :: "(nat \<Rightarrow> byte list \<Rightarrow> (byte list \<times> nat) list option) \<Rightarrow> byte \<times> nat \<times> byte list
    \<Rightarrow> (byte list \<times> nat) list option" where
  "via r (ch, t, cur # nxt # zs) = (if nxt = 0 then Some [([ch], unat (cur AND 0x7f))]
     else map_option (map (\<lambda>(s, n). (ch # s, n))) (r t (cur # nxt # zs)))"
| "via r _ = None"

primrec residual :: "nat \<Rightarrow> nat \<Rightarrow> byte list \<Rightarrow> (byte list \<times> nat) list option" where
  "residual 0 = (\<lambda>p xs. None)"
| "residual (Suc f) = (\<lambda>p xs. do { es \<leftarrow> edges p xs;
     if distinct (map fst es) then those_concat (map (via (residual f)) es) else None })"

lemma residual_numeral: "residual (numeral k) p xs = do { es \<leftarrow> edges p xs;
     if distinct (map fst es) then those_concat (map (via (residual (pred_numeral k))) es) else None }"
  by (simp add: numeral_eq_Suc)

lemma residual_lextable:
  "residual 30 0 lextable
   = Some (map (\<lambda>n. (set_names ! n, n)) [0, 1, 16, 2, 3, 4, 10, 5, 8, 11, 12, 13, 14, 15, 6, 7, 9])"
  by (simp add: residual_numeral lextable_def lextable_lo_def lextable_hi_def set_names_def)

lemma drop_Cons2:
  assumes "cur # nxt # xs = drop p tab"
  shows "xs = drop (p + 2) tab" "rd tab p = Some cur" "rd tab (p + 1) = Some nxt"
proof -
  have l: "p + 1 < length tab" using arg_cong[OF assms, of length] by simp
  show "xs = drop (p + 2) tab" using arg_cong[OF assms, of "drop 2"] by (simp add: add.commute)
  show "rd tab p = Some cur" "rd tab (p + 1) = Some nxt"
    using l arg_cong[OF assms, of "\<lambda>l. l ! 0"] arg_cong[OF assms, of "\<lambda>l. l ! 1"] by (simp_all add: rd_def)
qed

lemma edges_suffix:
  "edges p xs = Some es \<Longrightarrow> xs = drop p tab \<Longrightarrow> (ch, t, ys) \<in> set es \<Longrightarrow> ys = drop t tab"
proof (induction p xs arbitrary: es rule: edges.induct)
  case (1 p cur nxt xs)
  note d = drop_Cons2[OF 1(3)]
  have t: "drop (2 * unat nxt) (cur # nxt # xs) = drop (p + 2 * unat nxt) tab"
    unfolding 1(3) by (simp add: add.commute)
  from 1(2,4) t show ?case
    by (auto split: if_splits bind_splits dest: 1(1)[OF _ _ _ d(1)] simp del: drop_Suc_Cons)
next
  case "2_1" from this(1) show ?case by simp
next
  case "2_2" from this(1) show ?case by simp
qed

lemma decode_edges:
  "edges p xs = Some es \<Longrightarrow> xs = drop p tab \<Longrightarrow>
   decode_in tab (int p) ch = Some (case map_of es ch of Some (t, _) \<Rightarrow> int t | None \<Rightarrow> -1)"
proof (induction p xs arbitrary: es rule: edges.induct)
  case (1 p cur nxt xs)
  note d = drop_Cons2[OF 1(3)]
  have n: "nxt \<noteq> 0" using 1(2) by (auto split: if_splits)
  show ?case
  proof (cases "cur AND 0x80 = 0")
    case True
    then obtain es' where es': "edges (p + 2) xs = Some es'"
        "es = (cur AND 0x7f, p + 2 * unat nxt, drop (2 * unat nxt) (cur # nxt # xs)) # es'"
      using 1(2) n by (auto split: bind_splits)
    from 1(1)[OF n _ es'(1) d(1)] True show ?thesis
      by (subst decode_in.simps) (use d n es' in \<open>simp add: nat_add_distrib add.commute\<close>)
  next
    case False
    then show ?thesis using 1(2) n
      by (subst decode_in.simps) (use d n False in \<open>auto simp: nat_add_distrib\<close>)
  qed
next
  case "2_1" from this(1) show ?case by simp
next
  case "2_2" from this(1) show ?case by simp
qed

lemma those_concat_Some:
  "those_concat (map g es) = Some L \<Longrightarrow>
   (\<forall>e \<in> set es. g e \<noteq> None) \<and> (x \<in> set L \<longleftrightarrow> (\<exists>e \<in> set es. \<exists>l. g e = Some l \<and> x \<in> set l))"
proof (induction es arbitrary: L)
  case (Cons e es)
  then show ?case by (cases "g e") auto
qed simp

lemma via_Some:
  "via r (ch, t, ys) \<noteq> None \<Longrightarrow> \<exists>cur nxt zs. ys = cur # nxt # zs \<and> (nxt \<noteq> 0 \<longrightarrow> r t ys \<noteq> None)"
  by (cases "(r, ch, t, ys)" rule: via.cases) (auto split: if_splits)

lemma via_head: "via r e = Some l \<Longrightarrow> (s, n) \<in> set l \<Longrightarrow> \<exists>s'. s = fst e # s'"
  by (cases "(r, e)" rule: via.cases) (auto split: if_splits)

lemma residual_names:
  "residual f p xs = Some L \<Longrightarrow> xs = drop p tab \<Longrightarrow> lex_name tab (int p) s = Some n \<longleftrightarrow> (s, n) \<in> set L"
proof (induction f arbitrary: p xs L s)
  case (Suc f)
  obtain es where es: "edges p xs = Some es" "distinct (map fst es)"
      "those_concat (map (via (residual f)) es) = Some L"
    using Suc(2) by (auto split: bind_splits if_splits)
  note L = those_concat_Some[OF es(3)]
  show ?case
  proof (cases s)
    case Nil
    have "(s, n) \<notin> set L"
    proof
      assume "(s, n) \<in> set L"
      then obtain e l where "via (residual f) e = Some l" "(s, n) \<in> set l" using L by blast
      from via_head[OF this] Nil show False by simp
    qed
    then show ?thesis using Nil by simp
  next
    case (Cons ch s')
    have dec: "decode_in tab (int p) ch = Some (case map_of es ch of Some (t, _) \<Rightarrow> int t | None \<Rightarrow> -1)"
      by (rule decode_edges[OF es(1) Suc(3)])
    show ?thesis
    proof (cases "map_of es ch")
      case None
      then have "ch \<notin> fst ` set es" by (simp add: map_of_eq_None_iff)
      have "(s, n) \<notin> set L"
      proof
        assume "(s, n) \<in> set L"
        then obtain e l where e: "e \<in> set es" "via (residual f) e = Some l" "(s, n) \<in> set l"
          using L by blast
        from via_head[OF e(2,3)] Cons have "fst e = ch" by simp
        with e(1) \<open>ch \<notin> fst ` set es\<close> show False by blast
      qed
      then show ?thesis using None dec Cons by (simp add: lex_step_def)
    next
      case (Some ty)
      obtain t ys where ty: "ty = (t, ys)" by (cases ty)
      then have e: "(ch, t, ys) \<in> set es" using Some map_of_SomeD by fast
      then have "via (residual f) (ch, t, ys) \<noteq> None" using L by blast
      from via_Some[OF this] obtain cur nxt zs where ys: "ys = cur # nxt # zs"
        and r: "nxt \<noteq> 0 \<longrightarrow> residual f t ys \<noteq> None" by blast
      have yd: "ys = drop t tab" by (rule edges_suffix[OF es(1) Suc(3) e])
      note rds = drop_Cons2(2,3)[OF trans[OF ys[symmetric] yd]]
      have uniq: "e' = (ch, t, ys)" if "e' \<in> set es" "fst e' = ch" for e'
        using that es(2) e by (metis eq_key_imp_eq_value prod.collapse)
      have mem: "(s, n) \<in> set L \<longleftrightarrow> (\<exists>l. via (residual f) (ch, t, ys) = Some l \<and> (s, n) \<in> set l)"
      proof
        assume "(s, n) \<in> set L"
        then obtain e' l where e': "e' \<in> set es" "via (residual f) e' = Some l" "(s, n) \<in> set l"
          using L by blast
        from via_head[OF e'(2,3)] Cons have "fst e' = ch" by simp
        with uniq[OF e'(1)] e' show "\<exists>l. via (residual f) (ch, t, ys) = Some l \<and> (s, n) \<in> set l"
          by blast
      qed (use L e in blast)
      show ?thesis
      proof (cases "nxt = 0")
        case True
        then show ?thesis unfolding mem using ty Some dec Cons rds ys by (auto simp: lex_step_def)
      next
        case False
        then obtain L' where L': "residual f t ys = Some L'" using r by auto
        have "lex_name tab (int t) s' = Some n \<longleftrightarrow> (s', n) \<in> set L'" by (rule Suc.IH[OF L' yd])
        then show ?thesis unfolding mem using ty Some dec Cons rds ys False L'
          by (auto simp: lex_step_def)
      qed
    qed
  qed
qed simp

lemma lex_name_lextable:
  "lex_name lextable 0 s = Some n \<longleftrightarrow> n < length set_names \<and> s = set_names ! n"
proof -
  have n: "n \<in> set [0, 1, 16, 2, 3, 4, 10, 5, 8, 11, 12, 13, 14, 15, 6, 7, 9] \<longleftrightarrow> n < 17" for n :: nat
    by simp presburger
  have l: "length set_names = 17" by (simp add: set_names_def)
  let ?ks = "[0, 1, 16, 2, 3, 4, 10, 5, 8, 11, 12, 13, 14, 15, 6, 7, 9] :: nat list"
  have "lex_name lextable (int 0) s = Some n \<longleftrightarrow> (s, n) \<in> set (map (\<lambda>n. (set_names ! n, n)) ?ks)"
    by (rule residual_names[OF residual_lextable]) simp
  also have "\<dots> \<longleftrightarrow> n \<in> set ?ks \<and> s = set_names ! n" unfolding set_map image_iff by blast
  finally show ?thesis unfolding l n by simp
qed


section \<open>Safety of every position\<close>

definition lex_pos :: "int \<Rightarrow> bool" where
  "lex_pos p \<longleftrightarrow> 0 \<le> p \<and> even p \<and> p < 276"

definition lex_entry_ok :: "nat \<Rightarrow> bool" where
  "lex_entry_ok p = (let cur = lextable ! p; nxt = lextable ! (p + 1) in
     if nxt = 0 then unat (cur AND 0x7f) < 17
     else p + 2 * unat nxt < 276 \<and> (cur AND 0x80 \<noteq> 0 \<or> p + 2 < 276))"

lemma length_lextable: "length lextable = 276"
  by (simp add: lextable_def lextable_lo_def lextable_hi_def)

lemma lex_entries_ok: "\<forall>p \<in> set [0..<138]. lex_entry_ok (2 * p)"
  by code_simp

lemma lex_pos_entry:
  assumes "lex_pos p"
  shows "rd lextable (nat p + 1) = Some (lextable ! (nat p + 1))"
    "rd lextable (nat p) = Some (lextable ! nat p)" "lex_entry_ok (nat p)"
proof -
  from assms obtain b where "p = 2 * b" "0 \<le> b" "b < 138"
    unfolding lex_pos_def by (auto elim!: evenE)
  then obtain k where k: "nat p = 2 * k" "k < 138"
    by (metis mult_2 nat_2 nat_less_iff nat_mult_distrib zero_le_numeral of_nat_numeral nat_numeral)
  then show "rd lextable (nat p + 1) = Some (lextable ! (nat p + 1))"
    "rd lextable (nat p) = Some (lextable ! nat p)"
    by (simp_all add: rd_def length_lextable)
  show "lex_entry_ok (nat p)" using lex_entries_ok k by simp
qed

lemma lextable_decode_safe:
  "lex_pos p \<Longrightarrow> \<exists>q. lextable_decode p ch = Some q \<and> (q = -1 \<or> lex_pos q)"
  unfolding lextable_decode_def
proof (induction "nat (276 - p)" arbitrary: p rule: less_induct)
  case less
  let ?cur = "lextable ! nat p" and ?nxt = "lextable ! (nat p + 1)"
  note e = lex_pos_entry[OF less(2)]
  consider "?nxt = 0" | "?nxt \<noteq> 0" "?cur AND 0x7f = ch" | "?nxt \<noteq> 0" "?cur AND 0x7f \<noteq> ch" "?cur AND 0x80 \<noteq> 0"
    | "?nxt \<noteq> 0" "?cur AND 0x7f \<noteq> ch" "?cur AND 0x80 = 0" by blast
  then show ?case
  proof cases
    case 2
    then have "nat p + 2 * unat ?nxt < 276" using e(3) by (simp add: lex_entry_ok_def Let_def)
    then have "p + 2 * int (unat ?nxt) < 276" using less(2) unfolding lex_pos_def by linarith
    then have "lex_pos (p + 2 * int (unat ?nxt))" using less(2) by (simp add: lex_pos_def)
    then show ?thesis using less(2) e 2 by (subst decode_in.simps) (simp add: lex_pos_def)
  next
    case 4
    then have "lex_pos (p + 2)" using less(2) e(3) by (auto simp: lex_pos_def lex_entry_ok_def Let_def)
    then show ?thesis using less(1)[of "p + 2"] less(2) e 4
      by (subst decode_in.simps) (auto simp: lex_pos_def)
  qed (use less(2) e in \<open>subst decode_in.simps; auto simp: lex_pos_def lex_entry_ok_def Let_def\<close>)+
qed

lemma lex_token_bound:
  "lex_pos p \<Longrightarrow> lextable ! (nat p + 1) = 0 \<Longrightarrow> unat (lextable ! nat p AND 0x7f) < 17"
  using lex_pos_entry(3)[of p] by (simp add: lex_entry_ok_def)

section \<open>Properties\<close>

text \<open>
  C20. The lexer accepts exactly the header names of \<open>set\<close>: reading a string byte by byte through
  the table ends at a terminal entry carrying token \<open>n\<close>, at the last byte and not before, exactly
  when the string is the \<open>n\<close>-th name.
\<close>

theorem lextable_accepts:
  "lex_name lextable 0 s = Some n \<longleftrightarrow> n < length set_names \<and> s = set_names ! n"
  by (rule lex_name_lextable)

end
