(* ===== verification/Minilex.thy ===== *)
theory Minilex
  imports Lextable
begin

text \<open>
  \<^verbatim>\<open>lib/minilex.c\<close>, the offline generator of the header-name table: it builds a trie from the
  names, lays the nodes out and prints them as bytes, then tries every name on its own copy of
  the table. The table in \<^verbatim>\<open>lib/parsers.c\<close> is proved to be its output.
\<close>

section \<open>The program\<close>

definition gen_lextable_lo :: "byte list" where
  "gen_lextable_lo = [
     0x47, 0x07, 0x48, 0x0A, 0x43, 0x0F, 0x53, 0x19, 0x55, 0x3F, 0x4F, 0x46, 0x8D, 0x52,
     0xC5, 0x01, 0xD4, 0x01, 0xA0, 0x01, 0x80, 0x00, 0x6F, 0x02, 0xD4, 0x76, 0xF3, 0x01,
     0xF4, 0x01, 0xBA, 0x01, 0x81, 0x00, 0xEF, 0x01, 0xEE, 0x01, 0xEE, 0x01, 0xE5, 0x01,
     0xE3, 0x01, 0xF4, 0x01, 0xE9, 0x01, 0xEF, 0x01, 0xEE, 0x01, 0xBA, 0x01, 0x82, 0x00,
     0xE5, 0x01, 0xE3, 0x01, 0xAD, 0x01, 0xD7, 0x01, 0xE5, 0x01, 0xE2, 0x01, 0xD3, 0x01,
     0xEF, 0x01, 0xE3, 0x01, 0xEB, 0x01, 0xE5, 0x01, 0xF4, 0x01, 0xAD, 0x01, 0x4B, 0x08,
     0x50, 0x10, 0x44, 0x27, 0x56, 0x2F, 0x4F, 0x36, 0x45, 0x3C, 0x41, 0x46, 0xCE, 0x4C,
     0xE5, 0x01, 0xF9, 0x01, 0x31, 0x03, 0x32, 0x04, 0xBA, 0x25, 0xBA, 0x01, 0x83, 0x00,
     0xBA, 0x01, 0x84, 0x00, 0xF2, 0x01, 0xEF, 0x01, 0xF4, 0x01, 0xEF, 0x01, 0xE3, 0x01,
     0xEF, 0x01, 0xEC, 0x01, 0xBA, 0x01]"

definition gen_lextable_hi :: "byte list" where
  "gen_lextable_hi = [
     0x85, 0x00, 0xF0, 0x01, 0xE7, 0x01, 0xF2, 0x01, 0xE1, 0x01, 0xE4, 0x01, 0xE5, 0x01,
     0xBA, 0x01, 0x86, 0x00, 0xF2, 0x01, 0xE9, 0x01, 0xE7, 0x01, 0xE9, 0x01, 0xEE, 0x01,
     0xBA, 0x01, 0x87, 0x00, 0xF2, 0x01, 0xE1, 0x01, 0xE6, 0x01, 0xF4, 0x01, 0xBA, 0x01,
     0x88, 0x00, 0x8A, 0x01, 0x89, 0x00, 0x8A, 0x00, 0xE5, 0x01, 0xF2, 0x01, 0xF3, 0x01,
     0xE9, 0x01, 0xEF, 0x01, 0xEE, 0x01, 0xBA, 0x01, 0x8B, 0x00, 0xF2, 0x01, 0xE9, 0x01,
     0xE7, 0x01, 0xE9, 0x01, 0xEE, 0x01, 0xBA, 0x01, 0x8C, 0x00, 0xF8, 0x01, 0xF4, 0x01,
     0xE5, 0x01, 0xEE, 0x01, 0xF3, 0x01, 0xE9, 0x01, 0xEF, 0x01, 0xEE, 0x01, 0xF3, 0x01,
     0xBA, 0x01, 0x8D, 0x00, 0xE3, 0x01, 0xE3, 0x01, 0xE5, 0x01, 0xF0, 0x01, 0xF4, 0x01,
     0xBA, 0x01, 0x8E, 0x00, 0xEF, 0x01, 0xEE, 0x01, 0xE3, 0x01, 0xE5, 0x01, 0xBA, 0x01,
     0x8F, 0x00, 0xD4, 0x01, 0xD0, 0x01, 0xAF, 0x01, 0xB1, 0x01, 0xAE, 0x01, 0xB1, 0x01,
     0xA0, 0x01, 0x90, 0x00]"

definition gen_lextable :: "byte list" where
  "gen_lextable = gen_lextable_lo @ gen_lextable_hi"

text \<open>
  \<open>struct state\<close> by its used part: the first \<open>count\<close> entries of \<open>c\<close> and \<open>state\<close>. The array
  \<open>state\<close> is the list of the nodes numbered below \<open>next\<close>; the nodes from \<open>next\<close> on are still zero. Running
  over \<open>PARALLEL\<close> entries or 1000 nodes is \<open>None\<close>.
\<close>

type_synonym node = "(byte \<times> nat) list"

definition PARALLEL :: nat where "PARALLEL = 30"

fun find_edge :: "node \<Rightarrow> byte \<Rightarrow> nat option" where
  "find_edge [] ch = None"
| "find_edge ((c, s) # es) ch = (if c = ch then Some s else find_edge es ch)"

fun add_name :: "byte list \<Rightarrow> node list \<times> nat \<Rightarrow> (node list \<times> nat) option" where
  "add_name [] (states, walk) = Some (states, walk)"
| "add_name (ch # name) (states, walk) =
    (case find_edge (states ! walk) ch of
       Some w \<Rightarrow> add_name name (states, w)
     | None \<Rightarrow>
        if length (states ! walk) < PARALLEL \<and> length states < 1000 then
          add_name name ((states[walk := states ! walk @ [(ch, length states)]]) @ [[]], length states)
        else None)"

fun build :: "byte list list \<Rightarrow> nat \<Rightarrow> node list \<Rightarrow> node list option" where
  "build [] n states = Some states"
| "build (name # names) n states = do { (states, walk) \<leftarrow> add_name name (states, 0);
     build names (n + 1) (states[walk := [(of_nat n, 0)]]) }"

fun byteposs :: "nat \<Rightarrow> node list \<Rightarrow> nat list" where
  "byteposs walk [] = []"
| "byteposs walk (st # states) = walk # byteposs (walk + 2 * length st) states"

fun emit_node :: "nat list \<Rightarrow> nat \<Rightarrow> node \<Rightarrow> byte list option" where
  "emit_node bp walk [] = Some []"
| "emit_node bp walk ((c, saw) # es) =
    (let y = (if es = [] then c OR 0x80 else c) in
     if saw = 0 then map_option (\<lambda>r. y # 0 # r) (emit_node bp (walk + 2) es)
     else if (int (bp ! saw) - int walk) div 2 > 0xff then None
     else map_option (\<lambda>r. y # of_int ((int (bp ! saw) - int walk) div 2) # r) (emit_node bp (walk + 2) es))"

fun emit :: "nat list \<Rightarrow> nat \<Rightarrow> node list \<Rightarrow> byte list option" where
  "emit bp walk [] = Some []"
| "emit bp walk (st # states) = do { a \<leftarrow> emit_node bp walk st; b \<leftarrow> emit bp (walk + 2 * length st) states; Some (a @ b) }"

definition minilex :: "byte list list \<Rightarrow> byte list option" where
  "minilex names = do { states \<leftarrow> build names 0 [[]]; emit (byteposs 0 states) 0 states }"

text \<open>The self-test at the end of \<open>main\<close>: the token a name decodes to.\<close>

fun try_name :: "byte list \<Rightarrow> int \<Rightarrow> byte list \<Rightarrow> nat option" where
  "try_name tab walk [] = None"
| "try_name tab walk (ch # s) = do { walk \<leftarrow> decode_in tab walk ch;
     if walk < 0 then None
     else do { nxt \<leftarrow> rd tab (nat walk + 1); cur \<leftarrow> rd tab (nat walk);
       if nxt = 0 then Some (unat (cur AND 0x7f)) else try_name tab walk s } }"

section \<open>Properties\<close>

lemma try_name_lex_name: "lex_name tab walk s = Some n \<Longrightarrow> try_name tab walk s = Some n"
  by (induction tab walk s rule: lex_name.induct)
     (auto simp: lex_step_def split: option.splits lex.splits if_splits bind_splits)

lemma gen_lextable_eq: "gen_lextable = lextable"
  by (simp add: gen_lextable_def gen_lextable_lo_def gen_lextable_hi_def
      lextable_def lextable_lo_def lextable_hi_def)

text \<open>
  Run on its list of header names, the generator succeeds within its array bounds and its output
  is byte for byte the table compiled into the parser, which is also the generator's own copy.
\<close>

theorem minilex_generates_lextable: "minilex set_names = Some lextable \<and> gen_lextable = lextable"
proof
  show "minilex set_names = Some lextable" by code_simp
qed (rule gen_lextable_eq)

text \<open>
  The generator's self-test reports the right token for every name.
\<close>

theorem minilex_selftest: "map (try_name gen_lextable 0) set_names = map Some [0..<length set_names]"
  unfolding gen_lextable_eq
  by (auto intro!: nth_equalityI try_name_lex_name simp: lex_name_lextable)

end
