(* ===== verification/Json.thy ===== *)
theory Json
  imports Lws_Prelude
begin

text \<open>
  \<^verbatim>\<open>jni/neof5/picojson.h\<close>, the JSON library of the client: values, \<open>serialize\<close> and \<open>parse\<close> with the default context. The
  conversions between \<open>double\<close> and text (\<open>strtod\<close>, \<open>snprintf\<close>) are parameters.
\<close>

section \<open>Values\<close>

text \<open>An object is a \<open>std::map\<close>, here the list of its pairs in the order of their keys; \<open>obj_put\<close> and \<open>obj_ref\<close> are its \<open>operator[]\<close>.\<close>

datatype 'd json =
    JNull
  | JBool bool
  | JNumber 'd
  | JString "byte list"
  | JArray "'d json list"
  | JObject "(byte list \<times> 'd json) list"

text \<open>\<open>strtod\<close>: the value and how many characters it took; \<open>num_str\<close>: the text that \<open>to_str\<close> prints.\<close>

record 'd numfmt =
  strtod :: "byte list \<Rightarrow> 'd \<times> nat"
  num_str :: "'d \<Rightarrow> byte list"

fun key_less :: "byte list \<Rightarrow> byte list \<Rightarrow> bool" where
  "key_less xs [] = False"
| "key_less [] (y # ys) = True"
| "key_less (x # xs) (y # ys) = (x < y \<or> x = y \<and> key_less xs ys)"

fun obj_put :: "byte list \<Rightarrow> 'd json \<Rightarrow> (byte list \<times> 'd json) list \<Rightarrow> (byte list \<times> 'd json) list" where
  "obj_put k v [] = [(k, v)]"
| "obj_put k v ((k', v') # obj) =
    (if k = k' then (k, v) # obj else if key_less k k' then (k, v) # (k', v') # obj else (k', v') # obj_put k v obj)"

definition obj_ref :: "byte list \<Rightarrow> (byte list \<times> 'd json) list \<Rightarrow> 'd json" where
  "obj_ref k obj = (case map_of obj k of None \<Rightarrow> JNull | Some v \<Rightarrow> v)"

section \<open>Printing\<close>

text \<open>The characters with an escape of one letter, and that letter.\<close>

definition escapes :: "(byte \<times> byte) list" where
  "escapes = [(0x22, 0x22), (0x5c, 0x5c), (0x2f, 0x2f), (8, 0x62), (12, 0x66), (10, 0x6e), (13, 0x72), (9, 0x74)]"

definition hex_digit :: "nat \<Rightarrow> byte" where
  "hex_digit n = (if n < 10 then of_nat (0x30 + n) else of_nat (0x57 + n))"

definition serialize_char :: "byte \<Rightarrow> byte list" where
  "serialize_char c = (case map_of escapes c of
      Some e \<Rightarrow> [0x5c, e]
    | None \<Rightarrow> if c < 0x20 \<or> c = 0x7f
        then [0x5c, 0x75, 0x30, 0x30, hex_digit (unat c div 16), hex_digit (unat c mod 16)] else [c])"

definition serialize_str :: "byte list \<Rightarrow> byte list" where
  "serialize_str s = 0x22 # concat (map serialize_char s) @ [0x22]"

fun commas :: "byte list list \<Rightarrow> byte list" where
  "commas [] = []"
| "commas (x # xs) = x @ concat (map (\<lambda>y. 0x2c # y) xs)"

fun serialize :: "'d numfmt \<Rightarrow> 'd json \<Rightarrow> byte list" where
  "serialize N JNull = bytes ''null''"
| "serialize N (JBool b) = (if b then bytes ''true'' else bytes ''false'')"
| "serialize N (JNumber d) = num_str N d"
| "serialize N (JString s) = serialize_str s"
| "serialize N (JArray vs) = 0x5b # commas (map (serialize N) vs) @ [0x5d]"
| "serialize N (JObject obj) = 0x7b # commas (map (\<lambda>(k, v). serialize_str k @ 0x3a # serialize N v) obj) @ [0x7d]"

section \<open>Parsing\<close>

text \<open>
  The input is what is left of the text; \<open>ungetc\<close> after \<open>getc\<close> gives the list before. A function that fails leaves the
  input where the code leaves it.
\<close>

definition skip_ws :: "byte list \<Rightarrow> byte list" where
  "skip_ws s = dropWhile (\<lambda>c. c \<in> {0x20, 9, 10, 13}) s"

definition expect :: "byte \<Rightarrow> byte list \<Rightarrow> bool \<times> byte list" where
  "expect e s = (case skip_ws s of [] \<Rightarrow> (False, []) | c # r \<Rightarrow> if c = e then (True, r) else (False, c # r))"

fun match_text :: "byte list \<Rightarrow> byte list \<Rightarrow> bool \<times> byte list" where
  "match_text [] s = (True, s)"
| "match_text (p # ps) s = (case s of [] \<Rightarrow> (False, []) | c # r \<Rightarrow> if c = p then match_text ps r else (False, s))"

definition hex_value :: "byte \<Rightarrow> int option" where
  "hex_value c = (if 0x30 \<le> c \<and> c \<le> 0x39 then Some (uint c - 0x30)
     else if 0x41 \<le> c \<and> c \<le> 0x46 then Some (uint c - 0x37)
     else if 0x61 \<le> c \<and> c \<le> 0x66 then Some (uint c - 0x57) else None)"

fun quadhex :: "nat \<Rightarrow> int \<Rightarrow> byte list \<Rightarrow> int \<times> byte list" where
  "quadhex 0 uni s = (uni, s)"
| "quadhex (Suc n) uni [] = (- 1, [])"
| "quadhex (Suc n) uni (c # r) = (case hex_value c of None \<Rightarrow> (- 1, c # r) | Some h \<Rightarrow> quadhex n (uni * 16 + h) r)"

definition utf8 :: "int \<Rightarrow> byte list" where
  "utf8 u = (if u < 0x80 then [of_int u]
     else (if u < 0x800 then [of_int (0xc0 OR drop_bit 6 u)]
           else (if u < 0x10000 then [of_int (0xe0 OR drop_bit 12 u)]
                 else [of_int (0xf0 OR drop_bit 18 u), of_int (0x80 OR (drop_bit 12 u AND 0x3f))])
                @ [of_int (0x80 OR (drop_bit 6 u AND 0x3f))])
          @ [of_int (0x80 OR (u AND 0x3f))])"

definition parse_codepoint :: "byte list \<Rightarrow> byte list option \<times> byte list" where
  "parse_codepoint s = (case quadhex 4 0 s of (uni, r) \<Rightarrow>
     if uni = - 1 then (None, r)
     else if 0xd800 \<le> uni \<and> uni \<le> 0xdfff then
       if 0xdc00 \<le> uni then (None, r)
       else (case r of [] \<Rightarrow> (None, [])
         | c # r' \<Rightarrow> if c \<noteq> 0x5c then (None, r)
             else (case r' of [] \<Rightarrow> (None, [])
               | d # r'' \<Rightarrow> if d \<noteq> 0x75 then (None, r')
                   else (case quadhex 4 0 r'' of (second, q) \<Rightarrow>
                     if \<not> (0xdc00 \<le> second \<and> second \<le> 0xdfff) then (None, q)
                     else (Some (utf8 ((push_bit 10 (uni - 0xd800) OR ((second - 0xdc00) AND 0x3ff)) + 0x10000)), q))))
     else (Some (utf8 uni), r))"

lemma quadhex_length: "length (snd (quadhex n uni s)) \<le> length s"
  by (induction n uni s rule: quadhex.induct) (auto split: option.split intro: le_SucI)

lemma codepoint_length: "parse_codepoint s = (x, r) \<Longrightarrow> length r \<le> length s"
  using quadhex_length[of 4 0 s] quadhex_length[of 4 0 "tl (tl (snd (quadhex 4 0 s)))"]
  by (auto simp: parse_codepoint_def split: prod.splits if_splits list.splits)

function parse_string :: "byte list \<Rightarrow> byte list \<Rightarrow> bool \<times> byte list \<times> byte list" where
  "parse_string out [] = (False, out, [])"
| "parse_string out (c # r) =
    (if c < 0x20 then (False, out, c # r)
     else if c = 0x22 then (True, out, r)
     else if c = 0x5c then
       (case r of [] \<Rightarrow> (False, out, [])
        | e # r' \<Rightarrow>
            if e = 0x75 then (case parse_codepoint r' of (None, q) \<Rightarrow> (False, out, q) | (Some u, q) \<Rightarrow> parse_string (out @ u) q)
            else (case map_of (map prod.swap escapes) e of None \<Rightarrow> (False, out, r') | Some v \<Rightarrow> parse_string (out @ [v]) r'))
     else parse_string (out @ [c]) r)"
  by pat_completeness auto

termination
  by (relation "measure (\<lambda>(out, s). length s)") (auto dest!: codepoint_length[OF sym])

definition num_char :: "byte \<Rightarrow> bool" where
  "num_char c \<longleftrightarrow> 0x30 \<le> c \<and> c \<le> 0x39 \<or> c \<in> {0x2b, 0x2d, 0x2e, 0x65, 0x45}"

text \<open>
  \<open>_parse\<close> with \<open>default_parse_context\<close>, and the loops of \<open>_parse_array\<close> and \<open>_parse_object\<close>. \<open>out\<close> is the value the context points at.
  The first number bounds how deep the calls are nested, one loop turn inside the other; out of it is \<open>None\<close>.
\<close>

fun parse_val :: "'d numfmt \<Rightarrow> nat \<Rightarrow> 'd json \<Rightarrow> byte list \<Rightarrow> (bool \<times> 'd json \<times> byte list) option"
  and parse_items :: "'d numfmt \<Rightarrow> nat \<Rightarrow> 'd json list \<Rightarrow> byte list \<Rightarrow> (bool \<times> 'd json \<times> byte list) option"
  and parse_members :: "'d numfmt \<Rightarrow> nat \<Rightarrow> (byte list \<times> 'd json) list \<Rightarrow> byte list \<Rightarrow> (bool \<times> 'd json \<times> byte list) option" where
  "parse_val N 0 out s = None"
| "parse_val N (Suc f) out s = (case skip_ws s of [] \<Rightarrow> Some (False, out, [])
    | c # r \<Rightarrow>
       if c = 0x6e then (case match_text (bytes ''ull'') r of (ok, r) \<Rightarrow> Some (ok, if ok then JNull else out, r))
       else if c = 0x66 then (case match_text (bytes ''alse'') r of (ok, r) \<Rightarrow> Some (ok, if ok then JBool False else out, r))
       else if c = 0x74 then (case match_text (bytes ''rue'') r of (ok, r) \<Rightarrow> Some (ok, if ok then JBool True else out, r))
       else if c = 0x22 then (case parse_string [] r of (ok, str, r) \<Rightarrow> Some (ok, JString str, r))
       else if c = 0x5b then (case expect 0x5d r of (True, r) \<Rightarrow> Some (True, JArray [], r) | (False, r) \<Rightarrow> parse_items N f [] r)
       else if c = 0x7b then (case expect 0x7d r of (True, r) \<Rightarrow> Some (True, JObject [], r) | (False, r) \<Rightarrow> parse_members N f [] r)
       else if 0x30 \<le> c \<and> c \<le> 0x39 \<or> c = 0x2d then
         (let txt = takeWhile num_char (c # r); rest = dropWhile num_char (c # r); (d, k) = strtod N txt
          in Some (if k = length txt then (True, JNumber d, rest) else (False, out, rest)))
       else Some (False, out, c # r))"
| "parse_items N 0 acc s = None"
| "parse_items N (Suc f) acc s = (case parse_val N f JNull s of None \<Rightarrow> None
    | Some (ok, v, r) \<Rightarrow>
       if \<not> ok then Some (False, JArray (acc @ [v]), r)
       else (case expect 0x2c r of (True, r) \<Rightarrow> parse_items N f (acc @ [v]) r
             | (False, r) \<Rightarrow> (case expect 0x5d r of (ok, r) \<Rightarrow> Some (ok, JArray (acc @ [v]), r))))"
| "parse_members N 0 obj s = None"
| "parse_members N (Suc f) obj s = (case expect 0x22 s of (False, r) \<Rightarrow> Some (False, JObject obj, r)
    | (True, r) \<Rightarrow> (case parse_string [] r of (ok, k, r) \<Rightarrow>
       if \<not> ok then Some (False, JObject obj, r)
       else (case expect 0x3a r of (False, r) \<Rightarrow> Some (False, JObject obj, r)
         | (True, r) \<Rightarrow> (case parse_val N f (obj_ref k obj) r of None \<Rightarrow> None
            | Some (ok, v, r) \<Rightarrow>
                if \<not> ok then Some (False, JObject (obj_put k v obj), r)
                else (case expect 0x2c r of (True, r) \<Rightarrow> parse_members N f (obj_put k v obj) r
                      | (False, r) \<Rightarrow> (case expect 0x7d r of (ok, r) \<Rightarrow> Some (ok, JObject (obj_put k v obj), r)))))))"

definition json_parse :: "'d numfmt \<Rightarrow> byte list \<Rightarrow> (bool \<times> 'd json \<times> byte list) option" where
  "json_parse N s = parse_val N (2 * length s + 1) JNull s"

section \<open>Reading back a string\<close>

lemma hex_value_digit: "n < 16 \<Longrightarrow> hex_value (hex_digit n) = Some (int n)"
proof -
  assume "n < 16"
  moreover have "\<forall>n\<in>set [0..<16]. hex_value (hex_digit n) = Some (int n)" by code_simp
  ultimately show ?thesis by simp
qed

lemma codepoint_low:
  assumes "c < 0x80"
  shows "parse_codepoint (0x30 # 0x30 # hex_digit (unat c div 16) # hex_digit (unat c mod 16) # s) = (Some [c], s)"
proof -
  have c: "unat c < 128" using assms by (simp add: word_less_nat_alt)
  have zero: "hex_value 0x30 = Some 0" by code_simp
  have hi: "hex_value (hex_digit (unat c div 16)) = Some (int (unat c div 16))" using c by (intro hex_value_digit) simp
  have lo: "hex_value (hex_digit (unat c mod 16)) = Some (int (unat c mod 16))" by (intro hex_value_digit) simp
  have four: "(4 :: nat) = Suc (Suc (Suc (Suc 0)))" by simp
  have "int (unat c div 16) * 16 + int (unat c mod 16) = int (unat c)" by (metis div_mult_mod_eq of_nat_add of_nat_mult of_nat_numeral)
  then have "quadhex 4 0 (0x30 # 0x30 # hex_digit (unat c div 16) # hex_digit (unat c mod 16) # s) = (int (unat c), s)"
    unfolding four quadhex.simps zero hi lo option.case by simp
  moreover have "uint c \<noteq> - 1" "uint c < 128" using assms uint_nonnegative[of c] by (linarith, simp add: word_less_def)
  ultimately show ?thesis by (simp add: parse_codepoint_def utf8_def)
qed

lemma escape_letter: "map_of escapes c = Some e \<Longrightarrow> e \<noteq> 0x75 \<and> map_of (map prod.swap escapes) e = Some c"
  by (auto simp: escapes_def split: if_splits)

lemma no_escape: "map_of escapes c = None \<Longrightarrow> c \<noteq> 0x22 \<and> c \<noteq> 0x5c"
  by (auto simp: escapes_def split: if_splits)

lemma parse_string_char: "parse_string out (serialize_char c @ s) = parse_string (out @ [c]) s"
proof (cases "map_of escapes c")
  case (Some e)
  then show ?thesis using escape_letter by (simp add: serialize_char_def)
next
  case None
  have "c < 0x80" if "c < 0x20 \<or> c = 0x7f" using that by (auto simp: word_less_nat_alt)
  then show ?thesis using no_escape[OF None] None codepoint_low[of c s] by (auto simp: serialize_char_def)
qed

lemma parse_string_str: "parse_string out (concat (map serialize_char str) @ 0x22 # s) = (True, out @ str, s)"
  by (induction str arbitrary: out) (simp_all add: parse_string_char)

section \<open>Reading back a value\<close>

text \<open>A number that prints as a JSON number and is read back as itself.\<close>

definition num_ok :: "'d numfmt \<Rightarrow> 'd \<Rightarrow> bool" where
  "num_ok N d \<longleftrightarrow> num_str N d \<noteq> [] \<and> list_all num_char (num_str N d) \<and>
     (let c = hd (num_str N d) in 0x30 \<le> c \<and> c \<le> 0x39 \<or> c = 0x2d) \<and> strtod N (num_str N d) = (d, length (num_str N d))"

fun sorted_keys :: "byte list list \<Rightarrow> bool" where
  "sorted_keys [] = True"
| "sorted_keys (k # ks) = (list_all (key_less k) ks \<and> sorted_keys ks)"

fun json_ok :: "'d numfmt \<Rightarrow> 'd json \<Rightarrow> bool" where
  "json_ok N (JNumber d) = num_ok N d"
| "json_ok N (JArray vs) = (\<forall>v\<in>set vs. json_ok N v)"
| "json_ok N (JObject obj) = (sorted_keys (map fst obj) \<and> (\<forall>(k, v)\<in>set obj. json_ok N v))"
| "json_ok N _ = True"

lemma key_less_irrefl: "\<not> key_less k k" by (induction k) auto

lemma key_less_asym: "key_less k l \<Longrightarrow> \<not> key_less l k"
  by (induction k l rule: key_less.induct) auto

lemma obj_put_last: "list_all (\<lambda>l. key_less l k) (map fst obj) \<Longrightarrow> obj_put k v obj = obj @ [(k, v)]"
  by (induction obj) (auto dest: key_less_asym simp: key_less_irrefl)

lemma obj_ref_new: "list_all (\<lambda>l. key_less l k) (map fst obj) \<Longrightarrow> obj_ref k obj = JNull"
  by (auto simp: obj_ref_def list_all_iff key_less_irrefl split: option.split dest!: map_of_SomeD)

text \<open>What may follow a value: nothing a number could swallow.\<close>

definition ends :: "byte list \<Rightarrow> bool" where "ends s \<longleftrightarrow> s = [] \<or> \<not> num_char (hd s)"

lemma ends_punct [simp]: "ends (0x2c # s)" "ends (0x5d # s)" "ends (0x7d # s)" "ends []"
  by (simp_all add: ends_def num_char_def)

lemma expect_here: "skip_ws (c # s) = c # s \<Longrightarrow> expect e (c # s) = (if c = e then (True, s) else (False, c # s))"
  by (simp add: expect_def)

lemma skip_ws_solid: "c \<notin> {0x20, 9, 10, 13} \<Longrightarrow> skip_ws (c # s) = c # s"
  by (simp add: skip_ws_def)

text \<open>The first character of a printed value.\<close>

lemma serialize_start:
  "json_ok N v \<Longrightarrow> \<exists>c s. serialize N v = c # s \<and> c \<notin> {0x20, 9, 10, 13, 0x5d, 0x7d}"
proof (cases v)
  case (JNumber d)
  assume "json_ok N v"
  then show ?thesis using JNumber by (cases "num_str N d") (auto simp: num_ok_def Let_def)
qed (simp_all add: serialize_str_def)

lemma number_here:
  assumes "list_all num_char (c # t)" "0x30 \<le> c \<and> c \<le> 0x39 \<or> c = 0x2d" "strtod N (c # t) = (d, length (c # t))" "ends s"
  shows "parse_val N (Suc f) out (c # t @ s) = Some (True, JNumber d, s)"
proof -
  have stop: "takeWhile num_char s = []" "dropWhile num_char s = s" using assms(4) by (cases s; simp add: ends_def)+
  have "takeWhile num_char (c # t @ s) = c # t" "dropWhile num_char (c # t @ s) = s"
    using takeWhile_append2[of "c # t" num_char s] dropWhile_append2[of "c # t" num_char s] assms(1) stop by (auto simp: list_all_iff)
  moreover have "skip_ws (c # t @ s) = c # t @ s" by (rule skip_ws_solid) (use assms(2) in auto)
  moreover have "c \<notin> {0x6e, 0x66, 0x74, 0x22, 0x5b, 0x7b}" using assms(2) by auto
  ultimately show ?thesis using assms(2,3) by (simp add: Let_def)
qed

lemma parse_number:
  assumes "num_ok N d" "ends s"
  shows "parse_val N (Suc f) out (num_str N d @ s) = Some (True, JNumber d, s)"
proof -
  obtain c t where "num_str N d = c # t" using assms(1) by (cases "num_str N d") (auto simp: num_ok_def)
  then show ?thesis using number_here[of c t N d s f out] assms by (simp add: num_ok_def Let_def)
qed

definition parses :: "'d numfmt \<Rightarrow> 'd json \<Rightarrow> bool" where
  "parses N v \<longleftrightarrow> (\<forall>f out s. 2 * length (serialize N v) \<le> f \<longrightarrow> ends s \<longrightarrow> parse_val N f out (serialize N v @ s) = Some (True, v, s))"

lemma parsesI:
  assumes "serialize N v \<noteq> []"
    and "\<And>f out s. 2 * length (serialize N v) \<le> Suc f \<Longrightarrow> ends s \<Longrightarrow> parse_val N (Suc f) out (serialize N v @ s) = Some (True, v, s)"
  shows "parses N v"
  unfolding parses_def
proof (intro allI impI)
  fix f out s assume f: "2 * length (serialize N v) \<le> f" "ends s"
  then obtain f' where "f = Suc f'" using assms(1) by (cases f) auto
  then show "parse_val N f out (serialize N v @ s) = Some (True, v, s)" using f assms(2) by simp
qed

lemma parse_items_ok:
  assumes "vs \<noteq> []" "\<forall>v\<in>set vs. parses N v" "2 * length (commas (map (serialize N) vs)) < f"
  shows "parse_items N f acc (commas (map (serialize N) vs) @ 0x5d # s) = Some (True, JArray (acc @ vs), s)"
  using assms
proof (induction vs arbitrary: acc f)
  case (Cons v vs)
  obtain f' where f: "f = Suc f'" using Cons.prems(3) by (cases f) auto
  show ?case
  proof (cases vs)
    case Nil
    have "parse_val N f' JNull (serialize N v @ 0x5d # s) = Some (True, v, 0x5d # s)"
      using Cons.prems(2,3) by (simp add: parses_def f Nil)
    then show ?thesis by (simp add: f Nil expect_here skip_ws_solid)
  next
    case vs: (Cons w ws)
    let ?rest = "commas (map (serialize N) vs) @ 0x5d # s"
    have str: "commas (map (serialize N) (v # vs)) @ 0x5d # s = serialize N v @ 0x2c # ?rest" by (simp add: vs)
    have "parse_val N f' JNull (serialize N v @ 0x2c # ?rest) = Some (True, v, 0x2c # ?rest)"
      using Cons.prems(2,3) by (simp add: parses_def f)
    moreover have "parse_items N f' (acc @ [v]) ?rest = Some (True, JArray ((acc @ [v]) @ vs), s)"
      by (rule Cons.IH) (use Cons.prems vs f in auto)
    ultimately show ?thesis unfolding str by (simp add: f expect_here skip_ws_solid)
  qed
qed simp

definition member_text :: "'d numfmt \<Rightarrow> byte list \<times> 'd json \<Rightarrow> byte list" where
  "member_text N kv = (case kv of (k, v) \<Rightarrow> serialize_str k @ 0x3a # serialize N v)"

lemma parse_members_ok:
  assumes "obj \<noteq> []" "\<forall>(k, v)\<in>set obj. parses N v" "2 * length (commas (map (member_text N) obj)) < f"
    and "sorted_keys (map fst (pre @ obj))"
  shows "parse_members N f pre (commas (map (member_text N) obj) @ 0x7d # s) = Some (True, JObject (pre @ obj), s)"
  using assms
proof (induction obj arbitrary: pre f)
  case (Cons kv obj)
  obtain k v where kv: "kv = (k, v)" by (cases kv)
  obtain f' where f: "f = Suc f'" using Cons.prems(3) by (cases f) auto
  have sorted_app: "sorted_keys (xs @ k # ys) \<Longrightarrow> list_all (\<lambda>l. key_less l k) xs" for xs ys by (induction xs) auto
  have new: "list_all (\<lambda>l. key_less l k) (map fst pre)" using Cons.prems(4) sorted_app[of "map fst pre" "map fst obj"] by (simp add: kv)
  let ?key = "\<lambda>r. 0x22 # concat (map serialize_char k) @ 0x22 # 0x3a # r"
  have head: "parse_members N f pre (?key r) = (case parse_val N f' JNull r of None \<Rightarrow> None
            | Some (ok, v, r) \<Rightarrow>
                if \<not> ok then Some (False, JObject (pre @ [(k, v)]), r)
                else (case expect 0x2c r of (True, r) \<Rightarrow> parse_members N f' (pre @ [(k, v)]) r
                      | (False, r) \<Rightarrow> (case expect 0x7d r of (ok, r) \<Rightarrow> Some (ok, JObject (pre @ [(k, v)]), r))))" for r
    by (simp add: f expect_here skip_ws_solid parse_string_str obj_ref_new[OF new]) (unfold obj_put_last[OF new], rule refl)
  have val: "ends r \<Longrightarrow> parse_val N f' JNull (serialize N v @ r) = Some (True, v, r)" for r
    using Cons.prems(2,3) by (simp add: parses_def f kv member_text_def)
  show ?case
  proof (cases obj)
    case Nil
    then show ?thesis using head val[of "0x7d # s"] by (simp add: kv member_text_def serialize_str_def expect_here skip_ws_solid)
  next
    case obj: (Cons w ws)
    let ?rest = "commas (map (member_text N) obj) @ 0x7d # s"
    have str: "commas (map (member_text N) (kv # obj)) @ 0x7d # s = ?key (serialize N v @ 0x2c # ?rest)"
      by (simp add: obj kv member_text_def serialize_str_def)
    have "parse_members N f' (pre @ [(k, v)]) ?rest = Some (True, JObject ((pre @ [(k, v)]) @ obj), s)"
      by (rule Cons.IH) (use Cons.prems obj f kv in auto)
    then show ?thesis unfolding str head using val[of "0x2c # ?rest"] by (simp add: expect_here skip_ws_solid kv)
  qed
qed simp

lemma not_closed:
  assumes "json_ok N v" shows "expect 0x5d (serialize N v @ s) = (False, serialize N v @ s)"
  using serialize_start[OF assms] by (auto simp: expect_here skip_ws_solid)

lemma json_ok_parses: "json_ok N v \<Longrightarrow> parses N v"
proof (induction v)
  case JNull show ?case by (rule parsesI) (simp_all add: skip_ws_solid)
next
  case (JBool b) show ?case by (rule parsesI) (cases b; simp add: skip_ws_solid)+
next
  case (JNumber d)
  then show ?case using parse_number[of N d] by (intro parsesI) (auto simp: num_ok_def)
next
  case (JString str) show ?case by (rule parsesI) (simp_all add: serialize_str_def skip_ws_solid parse_string_str)
next
  case (JArray vs)
  then have all: "\<forall>v\<in>set vs. parses N v" by simp
  show ?case
  proof (rule parsesI)
    fix f out s assume f: "2 * length (serialize N (JArray vs)) \<le> Suc f" and "ends s"
    show "parse_val N (Suc f) out (serialize N (JArray vs) @ s) = Some (True, JArray vs, s)"
    proof (cases vs)
      case Nil then show ?thesis by (simp add: skip_ws_solid expect_here)
    next
      case vs: (Cons v ws)
      have "expect 0x5d (commas (map (serialize N) vs) @ 0x5d # s) = (False, commas (map (serialize N) vs) @ 0x5d # s)"
        using not_closed[of N v] JArray.prems by (simp add: vs)
      moreover have "parse_items N f [] (commas (map (serialize N) vs) @ 0x5d # s) = Some (True, JArray vs, s)"
        using parse_items_ok[OF _ all, of f "[]" s] f by (simp add: vs)
      ultimately show ?thesis by (simp add: skip_ws_solid)
    qed
  qed simp
next
  case (JObject obj)
  then have all: "\<forall>(k, v)\<in>set obj. parses N v" by fastforce
  have str: "serialize N (JObject obj) = 0x7b # commas (map (member_text N) obj) @ [0x7d]" by (simp add: member_text_def[abs_def])
  show ?case
  proof (rule parsesI)
    fix f out s assume f: "2 * length (serialize N (JObject obj)) \<le> Suc f" and "ends s"
    show "parse_val N (Suc f) out (serialize N (JObject obj) @ s) = Some (True, JObject obj, s)"
    proof (cases obj)
      case Nil then show ?thesis by (simp add: skip_ws_solid expect_here)
    next
      case obj: (Cons kv ws)
      have "expect 0x7d (commas (map (member_text N) obj) @ 0x7d # s) = (False, commas (map (member_text N) obj) @ 0x7d # s)"
        by (cases kv) (simp add: obj member_text_def serialize_str_def expect_here skip_ws_solid)
      moreover have "parse_members N f [] (commas (map (member_text N) obj) @ 0x7d # s) = Some (True, JObject obj, s)"
        using parse_members_ok[OF _ all, of f "[]" s] f JObject.prems unfolding str by (simp add: obj)
      ultimately show ?thesis unfolding str by (simp add: skip_ws_solid)
    qed
  qed simp
qed

section \<open>Termination\<close>

lemma skip_ws_length: "length (skip_ws s) \<le> length s"
  by (simp add: skip_ws_def length_dropWhile_le)

lemma expect_length: "expect e s = (ok, r) \<Longrightarrow> length r + (if ok then 1 else 0) \<le> length s"
  using skip_ws_length[of s] by (cases "skip_ws s") (auto simp: expect_def skip_ws_length split: if_splits)

lemma match_length: "match_text p s = (ok, r) \<Longrightarrow> length r \<le> length s"
  by (induction p s rule: match_text.induct) (fastforce split: list.splits if_splits)+

lemma parse_string_length: "parse_string out s = (ok, str, r) \<Longrightarrow> length r \<le> length s"
proof (induction out s rule: parse_string.induct)
  case (2 out c s)
  then show ?case
    by (auto split: if_splits list.splits option.splits prod.splits dest!: codepoint_length intro: le_SucI) fastforce+
qed simp

definition returns :: "(bool \<times> 'd json \<times> byte list) option \<Rightarrow> byte list \<Rightarrow> bool" where
  "returns p s \<longleftrightarrow> (\<exists>ok v r. p = Some (ok, v, r) \<and> length r \<le> length s)"

lemma returns_some: "length r \<le> length s \<Longrightarrow> returns (Some (ok, v, r)) s"
  by (simp add: returns_def)

lemma returns_mono: "returns p s \<Longrightarrow> length s \<le> length t \<Longrightarrow> returns p t"
  by (force simp: returns_def)

lemma returns_if: "returns a s \<Longrightarrow> returns b s \<Longrightarrow> returns (if c then a else b) s"
  by simp

lemma val_returns:
  assumes "\<And>s. 2 * length s + 2 \<le> f \<Longrightarrow> returns (parse_items N f [] s) s" "\<And>s. 2 * length s + 2 \<le> f \<Longrightarrow> returns (parse_members N f [] s) s"
    and f: "2 * length s + 1 \<le> Suc f"
  shows "returns (parse_val N (Suc f) out s) s"
proof (cases "skip_ws s")
  case Nil then show ?thesis by (simp add: returns_some)
next
  case (Cons c r)
  then have r: "length r + 1 \<le> length s" using skip_ws_length[of s] by simp
  have items: "returns (case expect e r of (True, r) \<Rightarrow> Some (True, w, r) | (False, r) \<Rightarrow> p r) s"
    if p: "\<And>q. 2 * length q + 2 \<le> f \<Longrightarrow> returns (p q) q" for e w and p :: "byte list \<Rightarrow> (bool \<times> 'a json \<times> byte list) option"
  proof -
    obtain ok q where e: "expect e r = (ok, q)" by fastforce
    have q: "length q \<le> length r" using expect_length[OF e] by (simp split: if_splits)
    then have "returns (p q) q" using r f by (intro p) simp
    then show ?thesis using e q r by (cases ok) (auto intro: returns_some returns_mono)
  qed
  have word: "returns (case match_text p r of (ok, r) \<Rightarrow> Some (ok, if ok then w else out, r)) s" for p and w :: "'a json"
    using match_length[of p r] r by (auto simp: returns_def split: prod.split)
  have str: "returns (case parse_string [] r of (ok, str, r) \<Rightarrow> Some (ok, JString str, r)) s"
    using parse_string_length[of "[]" r] r by (fastforce simp: returns_def split: prod.split)
  have num: "length (dropWhile num_char (c # r)) \<le> length s" using length_dropWhile_le[of num_char "c # r"] r by simp
  then have number: "returns (let txt = takeWhile num_char (c # r); rest = dropWhile num_char (c # r); (d, k) = strtod N txt
          in Some (if k = length txt then (True, JNumber d, rest) else (False, out, rest))) s"
    by (auto simp: returns_def Let_def split: prod.split)
  have whole: "length (c # r) \<le> length s" using r by simp
  show ?thesis unfolding parse_val.simps Cons list.case
    by (intro returns_if word str items[OF assms(1)] items[OF assms(2)] number returns_some[OF whole])
qed

lemma items_return:
  assumes "\<And>s. 2 * length s + 1 \<le> f \<Longrightarrow> returns (parse_val N f JNull s) s" "\<And>s acc. 2 * length s + 2 \<le> f \<Longrightarrow> returns (parse_items N f acc s) s"
    and f: "2 * length s + 2 \<le> Suc f"
  shows "returns (parse_items N (Suc f) acc s) s"
proof -
  obtain ok v r where v: "parse_val N f JNull s = Some (ok, v, r)" "length r \<le> length s" using assms(1)[of s] f by (auto simp: returns_def)
  obtain ok1 r1 where e1: "expect 0x2c r = (ok1, r1)" by fastforce
  obtain ok2 r2 where e2: "expect 0x5d r1 = (ok2, r2)" by fastforce
  have "length r1 + (if ok1 then 1 else 0) \<le> length s" "length r2 \<le> length r1" using expect_length[OF e1] expect_length[OF e2] v(2) by (auto split: if_splits)
  moreover from this have "ok1 \<Longrightarrow> returns (parse_items N f (acc @ [v]) r1) r1" using f by (intro assms(2)) simp
  ultimately show ?thesis using v e1 e2 by (cases ok; cases ok1) (auto intro: returns_some returns_mono)
qed

lemma members_return:
  assumes "\<And>s out. 2 * length s + 1 \<le> f \<Longrightarrow> returns (parse_val N f out s) s" "\<And>s obj. 2 * length s + 2 \<le> f \<Longrightarrow> returns (parse_members N f obj s) s"
    and f: "2 * length s + 2 \<le> Suc f"
  shows "returns (parse_members N (Suc f) obj s) s"
proof -
  obtain ok1 r1 where e1: "expect 0x22 s = (ok1, r1)" by fastforce
  obtain ok2 k r2 where e2: "parse_string [] r1 = (ok2, k, r2)" by (metis prod_cases3)
  obtain ok3 r3 where e3: "expect 0x3a r2 = (ok3, r3)" by fastforce
  have l: "length r1 \<le> length s" "length r2 \<le> length s" "length r3 \<le> length s"
    using expect_length[OF e1] parse_string_length[OF e2] expect_length[OF e3] by (auto split: if_splits)
  obtain ok v r where v: "parse_val N f (obj_ref k obj) r3 = Some (ok, v, r)" "length r \<le> length r3" using assms(1)[of r3 "obj_ref k obj"] f l(3) by (auto simp: returns_def)
  obtain ok4 r4 where e4: "expect 0x2c r = (ok4, r4)" by fastforce
  obtain ok5 r5 where e5: "expect 0x7d r4 = (ok5, r5)" by fastforce
  have l4: "length r4 + (if ok4 then 1 else 0) \<le> length s" "length r5 \<le> length r4"
    using expect_length[OF e4] expect_length[OF e5] v(2) l(3) by (auto split: if_splits)
  then have "ok4 \<Longrightarrow> returns (parse_members N f (obj_put k v obj) r4) r4" using f by (intro assms(2)) simp
  then show ?thesis using v(1) v(2) e1 e2 e3 e4 e5 l l4
    by (cases ok1; cases ok2; cases ok3; cases ok; cases ok4) (auto intro: returns_some returns_mono)
qed

lemma parser_returns:
  "(2 * length s + 1 \<le> f \<longrightarrow> returns (parse_val N f out s) s) \<and>
   (2 * length s + 2 \<le> f \<longrightarrow> returns (parse_items N f acc s) s \<and> returns (parse_members N f obj s) s)"
proof (induction f arbitrary: s out acc obj)
  case (Suc f)
  then show ?case using val_returns[of f N s out] items_return[of f N s acc] members_return[of f N s obj] by blast
qed simp

section \<open>Properties\<close>

lemma json_text_parses: "json_ok N v \<Longrightarrow> json_parse N (serialize N v) = Some (True, v, [])"
  using json_ok_parses unfolding parses_def json_parse_def by (metis append_Nil2 ends_punct(4) le_add1)

text \<open>
  C36. Parsing what \<open>serialize\<close> prints for a value gives the value back and reads all of it, provided its numbers are
  printed as JSON numbers that are read back as themselves and the keys of its objects are in order without repetition.
\<close>

theorem json_roundtrip:
  assumes "json_ok N v"
  shows "json_parse N (serialize N v) = Some (True, v, [])"
  using assms by (rule json_text_parses)

definition sample_numfmt :: "bool numfmt" where
  "sample_numfmt = \<lparr>strtod = (\<lambda>s. (s = [0x31], if s = [0x31] \<or> s = [0x30] then 1 else 0)), num_str = (\<lambda>b. [if b then 0x31 else 0x30])\<rparr>"

theorem json_roundtrip_witness:
  "json_parse sample_numfmt (serialize sample_numfmt (JObject [(bytes ''a/b'', JArray [JNumber True, JString [7, 34], JNull])])) =
   Some (True, JObject [(bytes ''a/b'', JArray [JNumber True, JString [7, 34], JNull])], [])"
  by (rule json_roundtrip) (simp add: sample_numfmt_def num_ok_def num_char_def)

end
