(* ===== verification/Json_Grammar.thy ===== *)
theory Json_Grammar
  imports Json
begin

text \<open>
  The language of the parser of \<open>Json\<close>: the grammar of RFC 8259 with the value each text stands for, the escapes of strings and the
  white space between tokens, where a number is whatever run of digits, signs, points and exponent letters \<open>strtod\<close> reads to its end and a
  control character is what is below a space. The parser accepts exactly that, and returns on every input.
\<close>

section \<open>Characters\<close>

text \<open>Four hexadecimal digits, and the number they are.\<close>

definition hex4 :: "int \<Rightarrow> byte list \<Rightarrow> bool" where
  "hex4 n h \<longleftrightarrow> length h = 4 \<and> list_all (\<lambda>c. hex_value c \<noteq> None) h \<and> n = foldl (\<lambda>a c. a * 16 + the (hex_value c)) 0 h"

text \<open>The bytes of a code point in UTF-8, RFC 3629.\<close>

definition utf8_bytes :: "int \<Rightarrow> byte list" where
  "utf8_bytes u = (if u < 0x80 then [of_int u]
     else if u < 0x800 then [of_int (0xc0 + u div 64), of_int (0x80 + u mod 64)]
     else if u < 0x10000 then [of_int (0xe0 + u div 4096), of_int (0x80 + u div 64 mod 64), of_int (0x80 + u mod 64)]
     else [of_int (0xf0 + u div 262144), of_int (0x80 + u div 4096 mod 64), of_int (0x80 + u div 64 mod 64), of_int (0x80 + u mod 64)])"

inductive jchars :: "byte list \<Rightarrow> byte list \<Rightarrow> bool" where
  empty: "jchars [] []"
| plain: "0x20 \<le> c \<Longrightarrow> c \<noteq> 0x22 \<Longrightarrow> c \<noteq> 0x5c \<Longrightarrow> jchars u t \<Longrightarrow> jchars (c # u) (c # t)"
| escape: "(v, e) \<in> set escapes \<Longrightarrow> jchars u t \<Longrightarrow> jchars (v # u) (0x5c # e # t)"
| unicode: "hex4 n h \<Longrightarrow> \<not> (0xd800 \<le> n \<and> n \<le> 0xdfff) \<Longrightarrow> jchars u t \<Longrightarrow> jchars (utf8_bytes n @ u) (0x5c # 0x75 # h @ t)"
| surrogates: "hex4 n h \<Longrightarrow> 0xd800 \<le> n \<Longrightarrow> n < 0xdc00 \<Longrightarrow> hex4 m h' \<Longrightarrow> 0xdc00 \<le> m \<Longrightarrow> m \<le> 0xdfff \<Longrightarrow> jchars u t \<Longrightarrow>
    jchars (utf8_bytes (0x10000 + (n - 0xd800) * 0x400 + (m - 0xdc00)) @ u) (0x5c # 0x75 # h @ 0x5c # 0x75 # h' @ t)"

section \<open>Values\<close>

definition ws :: "byte list \<Rightarrow> bool" where
  "ws w \<longleftrightarrow> list_all (\<lambda>c. c \<in> {0x20, 9, 10, 13}) w"

text \<open>What an object with these members is: a later one with the same key replaces the earlier.\<close>

definition members :: "(byte list \<times> 'd json) list \<Rightarrow> (byte list \<times> 'd json) list \<Rightarrow> (byte list \<times> 'd json) list" where
  "members = foldl (\<lambda>obj (k, v). obj_put k v obj)"

text \<open>The items of an array, and the members of an object, with the bracket that closes them.\<close>

inductive jval :: "'d numfmt \<Rightarrow> 'd json \<Rightarrow> byte list \<Rightarrow> bool"
  and jitems :: "'d numfmt \<Rightarrow> 'd json list \<Rightarrow> byte list \<Rightarrow> bool"
  and jmembers :: "'d numfmt \<Rightarrow> (byte list \<times> 'd json) list \<Rightarrow> byte list \<Rightarrow> bool" for N where
  jnull: "ws w \<Longrightarrow> jval N JNull (w @ bytes ''null'')"
| jtrue: "ws w \<Longrightarrow> jval N (JBool True) (w @ bytes ''true'')"
| jfalse: "ws w \<Longrightarrow> jval N (JBool False) (w @ bytes ''false'')"
| jnumber: "ws w \<Longrightarrow> list_all num_char (c # t) \<Longrightarrow> 0x30 \<le> c \<and> c \<le> 0x39 \<or> c = 0x2d \<Longrightarrow> strtod N (c # t) = (d, length (c # t)) \<Longrightarrow>
    jval N (JNumber d) (w @ c # t)"
| jstring: "ws w \<Longrightarrow> jchars str t \<Longrightarrow> jval N (JString str) (w @ 0x22 # t @ [0x22])"
| jarray0: "ws w \<Longrightarrow> ws w' \<Longrightarrow> jval N (JArray []) (w @ 0x5b # w' @ [0x5d])"
| jarray: "ws w \<Longrightarrow> ws w' \<Longrightarrow> jitems N vs t \<Longrightarrow> jval N (JArray vs) (w @ 0x5b # w' @ t)"
| jobject0: "ws w \<Longrightarrow> ws w' \<Longrightarrow> jval N (JObject []) (w @ 0x7b # w' @ [0x7d])"
| jobject: "ws w \<Longrightarrow> ws w' \<Longrightarrow> jmembers N ps t \<Longrightarrow> jval N (JObject (members [] ps)) (w @ 0x7b # w' @ t)"
| jlast: "jval N v t \<Longrightarrow> ws w \<Longrightarrow> jitems N [v] (t @ w @ [0x5d])"
| jmore: "jval N v t \<Longrightarrow> ws w \<Longrightarrow> jitems N vs u \<Longrightarrow> jitems N (v # vs) (t @ w @ 0x2c # u)"
| jlast_member: "ws w \<Longrightarrow> jchars k kt \<Longrightarrow> ws w' \<Longrightarrow> jval N v t \<Longrightarrow> ws w'' \<Longrightarrow>
    jmembers N [(k, v)] (w @ 0x22 # kt @ 0x22 # w' @ 0x3a # t @ w'' @ [0x7d])"
| jmore_members: "ws w \<Longrightarrow> jchars k kt \<Longrightarrow> ws w' \<Longrightarrow> jval N v t \<Longrightarrow> ws w'' \<Longrightarrow> jmembers N ps u \<Longrightarrow>
    jmembers N ((k, v) # ps) (w @ 0x22 # kt @ 0x22 # w' @ 0x3a # t @ w'' @ 0x2c # u)"

section \<open>Tokens\<close>

lemma skip_ws_split: "\<exists>w. ws w \<and> s = w @ skip_ws s"
  by (rule exI[of _ "takeWhile (\<lambda>c. c \<in> {0x20, 9, 10, 13}) s"]) (auto simp: ws_def skip_ws_def list_all_iff dest: set_takeWhileD)

lemma expect_split: "expect e s = (ok, r) \<Longrightarrow> \<exists>w. ws w \<and> s = w @ (if ok then e # r else r)"
  using skip_ws_split[of s] by (auto simp: expect_def split: list.splits if_splits)

lemma match_split: "match_text p s = (True, r) \<Longrightarrow> s = p @ r"
  by (induction p s rule: match_text.induct) (auto split: list.splits if_splits)

lemma quadhex_split:
  "quadhex n a s = (u, r) \<Longrightarrow> u \<noteq> - 1 \<Longrightarrow> \<exists>h. length h = n \<and> s = h @ r \<and> list_all (\<lambda>c. hex_value c \<noteq> None) h \<and>
     u = foldl (\<lambda>a c. a * 16 + the (hex_value c)) a h"
proof (induction n a s rule: quadhex.induct)
  case (3 n a c s)
  then obtain d where d: "hex_value c = Some d" "quadhex n (a * 16 + d) s = (u, r)" by (auto split: option.splits)
  from 3(1)[OF d 3(3)] obtain h where "length h = n" "s = h @ r" "list_all (\<lambda>c. hex_value c \<noteq> None) h"
    "u = foldl (\<lambda>a c. a * 16 + the (hex_value c)) (a * 16 + d) h" by blast
  then show ?case using d(1) by (intro exI[of _ "c # h"]) simp
qed auto

lemma int_shift_or: "0 \<le> b \<Longrightarrow> b < 2 ^ k \<Longrightarrow> 0 \<le> a \<Longrightarrow> push_bit k a OR b = a * 2 ^ k + (b :: int)"
  using nat_shift_or[of "nat b" k "nat a"]
  by (metis (no_types, lifting) int_nat_eq nat_less_numeral_power_cancel_iff of_nat_add of_nat_mult of_nat_numeral of_nat_or_eq of_nat_power of_nat_push_bit)

lemma and_low: "v AND (2 ^ k - 1) = v mod 2 ^ (k :: nat)" for v :: int
  by (simp add: take_bit_eq_mod flip: take_bit_eq_mask mask_eq_exp_minus_1)

lemma utf8_eq:
  assumes "0 \<le> u" "u < 0x110000"
  shows "utf8 u = utf8_bytes u"
proof -
  have lo: "0x80 OR (v AND 0x3f) = 0x80 + v mod 64" for v :: int
    using int_shift_or[of "v mod 64" 6 2] by (simp add: and_low[of v 6, simplified])
  have hi: "0xc0 OR v = 0xc0 + v" if "0 \<le> v" "v < 32" for v :: int using int_shift_or[of v 5 6] that by simp
  have hi3: "0xe0 OR v = 0xe0 + v" if "0 \<le> v" "v < 16" for v :: int using int_shift_or[of v 4 14] that by simp
  have hi4: "0xf0 OR v = 0xf0 + v" if "0 \<le> v" "v < 8" for v :: int using int_shift_or[of v 3 30] that by simp
  show ?thesis using assms
    by (auto simp: utf8_def utf8_bytes_def lo hi hi3 hi4 drop_bit_eq_div)
qed

section \<open>Strings\<close>

lemma hex_value_range: "hex_value c = Some d \<Longrightarrow> 0 \<le> d \<and> d < 16"
  by (auto simp: hex_value_def word_le_def split: if_splits)

lemma hex_fold_range:
  "list_all (\<lambda>c. hex_value c \<noteq> None) h \<Longrightarrow> 0 \<le> a \<Longrightarrow>
   0 \<le> foldl (\<lambda>a c. a * 16 + the (hex_value c)) a h \<and> foldl (\<lambda>a c. a * 16 + the (hex_value c)) a h < (a + 1) * 16 ^ length h"
proof (induction h arbitrary: a)
  case (Cons c h)
  then obtain d where d: "hex_value c = Some d" "0 \<le> d" "d < 16" using hex_value_range by auto
  let ?g = "foldl (\<lambda>a c. a * 16 + the (hex_value c))"
  have "?g (a * 16 + d) h < (a * 16 + d + 1) * 16 ^ length h" using Cons d by simp
  also have "\<dots> \<le> (a + 1) * 16 * 16 ^ length h" using d by (intro mult_right_mono) auto
  also have "\<dots> = (a + 1) * 16 ^ length (c # h)" by simp
  finally show ?case using Cons.IH[of "a * 16 + d"] Cons.prems d by (simp del: length_Cons)
qed simp

lemma hex4_range: "hex4 n h \<Longrightarrow> 0 \<le> n \<and> n < 0x10000"
  using hex_fold_range[of h 0] by (auto simp: hex4_def)

lemma quadhex4_split: "quadhex 4 0 s = (u, r) \<Longrightarrow> u \<noteq> - 1 \<Longrightarrow> \<exists>h. s = h @ r \<and> hex4 u h"
  using quadhex_split[of 4 0 s u r] by (auto simp: hex4_def)

lemma surrogate_pair:
  assumes "0xd800 \<le> n" "n < 0xdc00" "0xdc00 \<le> m" "m \<le> 0xdfff"
  shows "utf8 ((push_bit 10 (n - 0xd800) OR ((m - 0xdc00) AND 0x3ff)) + 0x10000) = utf8_bytes (0x10000 + (n - 0xd800) * 0x400 + (m - 0xdc00))"
proof -
  have "(m - 0xdc00) AND 0x3ff = m - 0xdc00" using and_low[of "m - 0xdc00" 10] assms by simp
  then have "(push_bit 10 (n - 0xd800) OR ((m - 0xdc00) AND 0x3ff)) + 0x10000 = 0x10000 + (n - 0xd800) * 0x400 + (m - 0xdc00)"
    using int_shift_or[of "m - 0xdc00" 10 "n - 0xd800"] assms by simp
  then show ?thesis using assms by (simp only:) (rule utf8_eq, auto)
qed

lemma codepoint_split:
  assumes "parse_codepoint s = (Some u, r)"
  shows "\<exists>e. s = e @ r \<and> (\<forall>us t. jchars us t \<longrightarrow> jchars (u @ us) (0x5c # 0x75 # e @ t))"
proof -
  obtain n q where n: "quadhex 4 0 s = (n, q)" by fastforce
  then have n1: "n \<noteq> - 1" using assms by (auto simp: parse_codepoint_def)
  then obtain h where h: "s = h @ q" "hex4 n h" using quadhex4_split n by blast
  show ?thesis
  proof (cases "0xd800 \<le> n \<and> n \<le> 0xdfff")
    case True
    then obtain q' m where q: "q = 0x5c # 0x75 # q'" "n < 0xdc00" "quadhex 4 0 q' = (m, r)" "0xdc00 \<le> m" "m \<le> 0xdfff"
      "u = utf8 ((push_bit 10 (n - 0xd800) OR ((m - 0xdc00) AND 0x3ff)) + 0x10000)"
      using assms n n1 by (auto simp: parse_codepoint_def split: list.splits if_splits prod.splits)
    then obtain h' where h': "q' = h' @ r" "hex4 m h'" using quadhex4_split[of q' m r] by auto
    show ?thesis
      using jchars.surrogates[OF h(2) _ q(2) h'(2) q(4,5)] True surrogate_pair[of n m] q h h' by (intro exI[of _ "h @ 0x5c # 0x75 # h'"]) auto
  next
    case False
    then have "u = utf8_bytes n" "r = q" using assms n n1 hex4_range[OF h(2)] utf8_eq[of n] by (auto simp: parse_codepoint_def split: if_splits)
    then show ?thesis using jchars.unicode[OF h(2) False] h by (intro exI[of _ h]) auto
  qed
qed

lemma escape_pair: "map_of (map prod.swap escapes) e = Some v \<Longrightarrow> (v, e) \<in> set escapes"
  by (auto dest!: map_of_SomeD)

lemma string_split: "parse_string out s = (True, str, r) \<Longrightarrow> \<exists>u t. str = out @ u \<and> s = t @ 0x22 # r \<and> jchars u t"
proof (induction out s rule: parse_string.induct)
  case (2 out c s)
  consider (close) "c = 0x22" | (esc) e s' where "c = 0x5c" "s = e # s'" "e \<noteq> 0x75" | (uni) s' where "c = 0x5c" "s = 0x75 # s'"
    | (plain) "0x20 \<le> c" "c \<noteq> 0x22" "c \<noteq> 0x5c"
    using 2(4) by (auto split: if_splits list.splits)
  then show ?case
  proof cases
    case close
    then show ?thesis using 2(4) jchars.empty by auto
  next
    case esc
    then obtain v where v: "map_of (map prod.swap escapes) e = Some v" "parse_string (out @ [v]) s' = (True, str, r)"
      using 2(4) by (auto split: option.splits)
    from 2(2)[OF _ _ _ esc(2,3) v] esc(1) obtain u t where "str = (out @ [v]) @ u" "s' = t @ 0x22 # r" "jchars u t" by auto
    then show ?thesis using jchars.escape[OF escape_pair[OF v(1)]] esc
      by (intro exI[of _ "v # u"] exI[of _ "0x5c # e # t"]) auto
  next
    case uni
    then obtain w q where q: "parse_codepoint s' = (Some w, q)" "parse_string (out @ w) q = (True, str, r)"
      using 2(4) by (auto split: option.splits prod.splits)
    from 2(1)[OF _ _ _ uni(2) refl q(1)[symmetric] refl q(2)] uni(1) obtain u t where IH: "str = (out @ w) @ u" "q = t @ 0x22 # r" "jchars u t" by auto
    from codepoint_split[OF q(1)] obtain e where "s' = e @ q" "\<And>us t. jchars us t \<Longrightarrow> jchars (w @ us) (0x5c # 0x75 # e @ t)" by blast
    then show ?thesis using IH uni by (intro exI[of _ "w @ u"] exI[of _ "0x5c # 0x75 # e @ t"]) auto
  next
    case plain
    then have "\<not> c < 0x20" by (simp add: not_less)
    then have "parse_string (out @ [c]) s = (True, str, r)" "\<not> c < 0x20" using 2(4) plain by simp_all
    with 2(3) plain obtain u t where "str = (out @ [c]) @ u" "s = t @ 0x22 # r" "jchars u t" by blast
    then show ?thesis using jchars.plain plain by (intro exI[of _ "c # u"] exI[of _ "c # t"]) auto
  qed
qed simp

section \<open>What the parser accepts\<close>

lemma val_sound:
  assumes items: "\<And>acc s v r. parse_items N f acc s = Some (True, v, r) \<Longrightarrow> \<exists>vs t. v = JArray (acc @ vs) \<and> s = t @ r \<and> jitems N vs t"
    and mems: "\<And>obj s v r. parse_members N f obj s = Some (True, v, r) \<Longrightarrow> \<exists>ps t. v = JObject (members obj ps) \<and> s = t @ r \<and> jmembers N ps t"
    and p: "parse_val N (Suc f) out s = Some (True, v, r)"
  shows "\<exists>t. s = t @ r \<and> jval N v t"
proof -
  obtain w where w: "ws w" "s = w @ skip_ws s" using skip_ws_split by blast
  obtain c q where s: "s = w @ c # q" "skip_ws s = c # q" using w p by (cases "skip_ws s") auto
  have words: "bytes ''null'' = 0x6e # bytes ''ull''" "bytes ''false'' = 0x66 # bytes ''alse''" "bytes ''true'' = 0x74 # bytes ''rue''" by simp_all
  consider (null) "c = 0x6e" | (false) "c = 0x66" | (true) "c = 0x74" | (string) "c = 0x22" | (array) "c = 0x5b" | (obj) "c = 0x7b"
    | (num) "c \<notin> {0x6e, 0x66, 0x74, 0x22, 0x5b, 0x7b}" by blast
  then show ?thesis
  proof cases
    case null
    then have "v = JNull" "q = bytes ''ull'' @ r" using p s match_split[of "bytes ''ull''" q r] by (auto split: prod.splits)
    then show ?thesis using jnull[OF w(1), of N] s null by (auto simp: words)
  next
    case false
    then have "v = JBool False" "q = bytes ''alse'' @ r" using p s match_split[of "bytes ''alse''" q r] by (auto split: prod.splits)
    then show ?thesis using jfalse[OF w(1), of N] s false by (auto simp: words)
  next
    case true
    then have "v = JBool True" "q = bytes ''rue'' @ r" using p s match_split[of "bytes ''rue''" q r] by (auto split: prod.splits)
    then show ?thesis using jtrue[OF w(1), of N] s true by (auto simp: words)
  next
    case string
    then obtain str where str: "v = JString str" "parse_string [] q = (True, str, r)" using p s by (auto split: prod.splits)
    then obtain t where "q = t @ 0x22 # r" "jchars str t" using string_split by fastforce
    then show ?thesis using jstring[OF w(1)] s str string by (intro exI[of _ "w @ 0x22 # t @ [0x22]"]) auto
  next
    case array
    obtain ok q' where e: "expect 0x5d q = (ok, q')" by fastforce
    then obtain w' where w': "ws w'" "q = w' @ (if ok then 0x5d # q' else q')" using expect_split by blast
    show ?thesis
    proof (cases ok)
      case True
      then show ?thesis using p s e w' array jarray0[OF w(1) w'(1), of N] by (intro exI[of _ "w @ 0x5b # w' @ [0x5d]"]) auto
    next
      case False
      then have "parse_items N f [] q' = Some (True, v, r)" using p s e array by simp
      from items[OF this] obtain vs t where "v = JArray vs" "q' = t @ r" "jitems N vs t" by auto
      then show ?thesis using s w' array False jarray[OF w(1) w'(1)] by (intro exI[of _ "w @ 0x5b # w' @ t"]) auto
    qed
  next
    case obj
    obtain ok q' where e: "expect 0x7d q = (ok, q')" by fastforce
    then obtain w' where w': "ws w'" "q = w' @ (if ok then 0x7d # q' else q')" using expect_split by blast
    show ?thesis
    proof (cases ok)
      case True
      then show ?thesis using p s e w' obj jobject0[OF w(1) w'(1), of N] by (intro exI[of _ "w @ 0x7b # w' @ [0x7d]"]) auto
    next
      case False
      then have "parse_members N f [] q' = Some (True, v, r)" using p s e obj by simp
      from mems[OF this] obtain ps t where "v = JObject (members [] ps)" "q' = t @ r" "jmembers N ps t" by auto
      then show ?thesis using s w' obj False jobject[OF w(1) w'(1)] by (intro exI[of _ "w @ 0x7b # w' @ t"]) auto
    qed
  next
    case num
    let ?t = "takeWhile num_char (c # q)"
    obtain d where d: "0x30 \<le> c \<and> c \<le> 0x39 \<or> c = 0x2d" "v = JNumber d" "strtod N ?t = (d, length ?t)" "r = dropWhile num_char (c # q)"
      using p num unfolding parse_val.simps s(2) list.case by (auto simp: Let_def split: if_splits prod.splits)
    have t: "?t = c # takeWhile num_char q" using d(1) by (auto simp: num_char_def)
    have "list_all num_char ?t" by (auto simp: list_all_iff dest: set_takeWhileD)
    then have "jval N v (w @ ?t)" using jnumber[OF w(1), of c "takeWhile num_char q" N d] d unfolding t by simp
    moreover have "s = (w @ ?t) @ r" using s(1) d(4) by (simp del: takeWhile.simps dropWhile.simps)
    ultimately show ?thesis by blast
  qed
qed

lemma items_sound:
  assumes val: "\<And>s v r. parse_val N f JNull s = Some (True, v, r) \<Longrightarrow> \<exists>t. s = t @ r \<and> jval N v t"
    and items: "\<And>acc s v r. parse_items N f acc s = Some (True, v, r) \<Longrightarrow> \<exists>vs t. v = JArray (acc @ vs) \<and> s = t @ r \<and> jitems N vs t"
    and p: "parse_items N (Suc f) acc s = Some (True, v, r)"
  shows "\<exists>vs t. v = JArray (acc @ vs) \<and> s = t @ r \<and> jitems N vs t"
proof -
  obtain x q where x: "parse_val N f JNull s = Some (True, x, q)" using p by (auto split: option.splits if_splits)
  obtain t where t: "s = t @ q" "jval N x t" using val[OF x] by blast
  obtain ok1 q1 where e1: "expect 0x2c q = (ok1, q1)" by fastforce
  obtain w where w: "ws w" "q = w @ (if ok1 then 0x2c # q1 else q1)" using expect_split[OF e1] by blast
  show ?thesis
  proof (cases ok1)
    case True
    then obtain vs u where "v = JArray ((acc @ [x]) @ vs)" "q1 = u @ r" "jitems N vs u" using items p x e1 by fastforce
    then show ?thesis using jmore[OF t(2) w(1)] t(1) w(2) True by (intro exI[of _ "x # vs"] exI[of _ "t @ w @ 0x2c # u"]) auto
  next
    case False
    then have e2: "expect 0x5d q1 = (True, r)" "v = JArray (acc @ [x])" using p x e1 by (auto split: prod.splits)
    obtain w' where "ws w'" "q1 = w' @ 0x5d # r" using expect_split[OF e2(1)] by auto
    then show ?thesis using jlast[OF t(2), of "w @ w'"] t(1) w e2(2) False
      by (intro exI[of _ "[x]"] exI[of _ "t @ (w @ w') @ [0x5d]"]) (auto simp: ws_def)
  qed
qed

lemma members_sound:
  assumes val: "\<And>out s v r. parse_val N f out s = Some (True, v, r) \<Longrightarrow> \<exists>t. s = t @ r \<and> jval N v t"
    and mems: "\<And>obj s v r. parse_members N f obj s = Some (True, v, r) \<Longrightarrow> \<exists>ps t. v = JObject (members obj ps) \<and> s = t @ r \<and> jmembers N ps t"
    and p: "parse_members N (Suc f) obj s = Some (True, v, r)"
  shows "\<exists>ps t. v = JObject (members obj ps) \<and> s = t @ r \<and> jmembers N ps t"
proof -
  obtain q1 where e1: "expect 0x22 s = (True, q1)" using p by (auto split: prod.splits bool.splits)
  obtain k q2 where e2: "parse_string [] q1 = (True, k, q2)" using p e1 by (auto split: prod.splits if_splits)
  obtain q3 where e3: "expect 0x3a q2 = (True, q3)" using p e1 e2 by (auto split: prod.splits bool.splits)
  obtain x q where x: "parse_val N f (obj_ref k obj) q3 = Some (True, x, q)" using p e1 e2 e3 by (auto split: option.splits if_splits)
  obtain w where w: "ws w" "s = w @ 0x22 # q1" using expect_split[OF e1] by auto
  obtain kt where kt: "q1 = kt @ 0x22 # q2" "jchars k kt" using string_split[OF e2] by auto
  obtain w' where w': "ws w'" "q2 = w' @ 0x3a # q3" using expect_split[OF e3] by auto
  obtain t where t: "q3 = t @ q" "jval N x t" using val[OF x] by blast
  obtain ok q4 where e4: "expect 0x2c q = (ok, q4)" by fastforce
  obtain w'' where w'': "ws w''" "q = w'' @ (if ok then 0x2c # q4 else q4)" using expect_split[OF e4] by blast
  show ?thesis
  proof (cases ok)
    case True
    then obtain ps u where "v = JObject (members (obj_put k x obj) ps)" "q4 = u @ r" "jmembers N ps u" using mems p x e1 e2 e3 e4 by fastforce
    then show ?thesis using jmore_members[OF w(1) kt(2) w'(1) t(2) w''(1)] w(2) kt(1) w'(2) t(1) w''(2) True
      by (intro exI[of _ "(k, x) # ps"] exI[of _ "w @ 0x22 # kt @ 0x22 # w' @ 0x3a # t @ w'' @ 0x2c # u"]) (auto simp: members_def)
  next
    case False
    then have e5: "expect 0x7d q4 = (True, r)" "v = JObject (obj_put k x obj)" using p x e1 e2 e3 e4 by (auto split: prod.splits)
    obtain u where "ws u" "q4 = u @ 0x7d # r" using expect_split[OF e5(1)] by auto
    then show ?thesis using jlast_member[OF w(1) kt(2) w'(1) t(2), of "w'' @ u"] w(2) kt(1) w'(2) t(1) w'' e5(2) False
      by (intro exI[of _ "[(k, x)]"] exI[of _ "w @ 0x22 # kt @ 0x22 # w' @ 0x3a # t @ (w'' @ u) @ [0x7d]"]) (auto simp: members_def ws_def)
  qed
qed

lemma parser_sound:
  "(\<forall>out s v r. parse_val N f out s = Some (True, v, r) \<longrightarrow> (\<exists>t. s = t @ r \<and> jval N v t)) \<and>
   (\<forall>acc s v r. parse_items N f acc s = Some (True, v, r) \<longrightarrow> (\<exists>vs t. v = JArray (acc @ vs) \<and> s = t @ r \<and> jitems N vs t)) \<and>
   (\<forall>obj s v r. parse_members N f obj s = Some (True, v, r) \<longrightarrow> (\<exists>ps t. v = JObject (members obj ps) \<and> s = t @ r \<and> jmembers N ps t))"
proof (induction f)
  case (Suc f)
  note IH = Suc[THEN conjunct1, rule_format] Suc[THEN conjunct2, THEN conjunct1, rule_format] Suc[THEN conjunct2, THEN conjunct2, rule_format]
  show ?case using val_sound[OF IH(2,3)] items_sound[OF IH(1,2)] members_sound[OF IH(1,3)] by auto
qed simp

section \<open>Depth\<close>

text \<open>A call that returns does so with any larger bound on the nesting, with the same result.\<close>

definition below :: "'a option \<Rightarrow> 'a option \<Rightarrow> bool" where
  "below p q \<longleftrightarrow> (\<forall>x. p = Some x \<longrightarrow> q = Some x)"

lemma below_refl: "below p p"
  by (simp add: below_def)

lemma below_if: "below p p' \<Longrightarrow> below q q' \<Longrightarrow> below (if c then p else q) (if c then p' else q')"
  by simp

lemma below_expect: "(\<And>r. below (p r) (p' r)) \<Longrightarrow> (\<And>r. below (q r) (q' r)) \<Longrightarrow>
    below (case x of (True, r) \<Rightarrow> p r | (False, r) \<Rightarrow> q r) (case x of (True, r) \<Rightarrow> p' r | (False, r) \<Rightarrow> q' r)"
  by (auto split: prod.split bool.split)

lemma below_val: "below p p' \<Longrightarrow> (\<And>ok v r. below (k ok v r) (k' ok v r)) \<Longrightarrow>
    below (case p of None \<Rightarrow> None | Some (ok, v, r) \<Rightarrow> k ok v r) (case p' of None \<Rightarrow> None | Some (ok, v, r) \<Rightarrow> k' ok v r)"
  by (cases p; cases p') (auto simp: below_def split: prod.splits)

lemma below_string: "(\<And>ok u r. below (p ok u r) (p' ok u r)) \<Longrightarrow> below (case x of (ok, u, r) \<Rightarrow> p ok u r) (case x of (ok, u, r) \<Rightarrow> p' ok u r)"
  by (simp split: prod.split)

lemmas below_intros = below_if below_expect below_val below_refl

lemma parser_deeper:
  "below (parse_val N f out s) (parse_val N (Suc f) out s) \<and> below (parse_items N f acc s) (parse_items N (Suc f) acc s) \<and>
   below (parse_members N f obj s) (parse_members N (Suc f) obj s)"
proof (induction f arbitrary: out s acc obj)
  case 0 show ?case by (simp add: below_def)
next
  case (Suc f)
  obtain g where g: "Suc f = g" by blast
  have val: "below (parse_val N f out s) (parse_val N g out s)" for out s using Suc g by blast
  have items: "below (parse_items N f acc s) (parse_items N g acc s)" for acc s using Suc g by blast
  have mems: "below (parse_members N f obj s) (parse_members N g obj s)" for obj s using Suc g by blast
  have "below (parse_val N (Suc f) out s) (parse_val N (Suc g) out s)"
    unfolding parse_val.simps by (cases "skip_ws s"; simp only: list.case; intro below_intros items mems)
  moreover have "below (parse_items N (Suc f) acc s) (parse_items N (Suc g) acc s)"
    unfolding parse_items.simps by (intro below_intros items val)
  moreover have "below (parse_members N (Suc f) obj s) (parse_members N (Suc g) obj s)"
    unfolding parse_members.simps by (intro below_intros below_string mems val)
  ultimately show ?case unfolding g by blast
qed

lemma some_deeper: "(\<And>g. below (p g) (p (Suc g))) \<Longrightarrow> p f = Some x \<Longrightarrow> p (f + k) = Some x"
  by (induction k) (auto simp: below_def)

lemma parse_val_deeper: "parse_val N f out s = Some x \<Longrightarrow> parse_val N (f + k) out s = Some x"
  using some_deeper[of "\<lambda>f. parse_val N f out s"] parser_deeper by blast

lemma parse_items_deeper: "parse_items N f acc s = Some x \<Longrightarrow> parse_items N (f + k) acc s = Some x"
  using some_deeper[of "\<lambda>f. parse_items N f acc s"] parser_deeper by blast

lemma parse_members_deeper: "parse_members N f obj s = Some x \<Longrightarrow> parse_members N (f + k) obj s = Some x"
  using some_deeper[of "\<lambda>f. parse_members N f obj s"] parser_deeper by blast

section \<open>The whole language is accepted\<close>

lemma quadhex_reads: "list_all (\<lambda>c. hex_value c \<noteq> None) h \<Longrightarrow> quadhex (length h) a (h @ s) = (foldl (\<lambda>a c. a * 16 + the (hex_value c)) a h, s)"
  by (induction h arbitrary: a) auto

lemma quadhex4_reads: "hex4 n h \<Longrightarrow> quadhex 4 0 (h @ s) = (n, s)"
  using quadhex_reads[of h 0 s] by (simp add: hex4_def)

lemma escape_back: "(v, e) \<in> set escapes \<Longrightarrow> e \<noteq> 0x75 \<and> map_of (map prod.swap escapes) e = Some v"
  by (auto simp: escapes_def)

lemma string_reads: "jchars u t \<Longrightarrow> parse_string out (t @ 0x22 # s) = (True, out @ u, s)"
proof (induction u t arbitrary: out rule: jchars.induct)
  case (escape v e u t)
  then show ?case using escape_back[OF escape(1)] by simp
next
  case (unicode n h u t)
  have "parse_codepoint (h @ t @ 0x22 # s) = (Some (utf8_bytes n), t @ 0x22 # s)"
    using quadhex4_reads[OF unicode(1)] unicode(2) hex4_range[OF unicode(1)] utf8_eq[of n] by (auto simp: parse_codepoint_def)
  then show ?case using unicode(4) by simp
next
  case (surrogates n h m h' u t)
  have "parse_codepoint (h @ 0x5c # 0x75 # h' @ t @ 0x22 # s) = (Some (utf8_bytes (0x10000 + (n - 0xd800) * 0x400 + (m - 0xdc00))), t @ 0x22 # s)"
    using quadhex4_reads[OF surrogates(1)] quadhex4_reads[OF surrogates(4)] surrogates(2,3,5,6) surrogate_pair[of n m] by (auto simp: parse_codepoint_def)
  then show ?case using surrogates(8) by simp
qed (auto simp: not_less[symmetric])

lemma skip_ws_pre: "ws w \<Longrightarrow> skip_ws (w @ s) = skip_ws s"
  by (auto simp: ws_def skip_ws_def list_all_iff)

lemma expect_pre: "ws w \<Longrightarrow> expect e (w @ s) = expect e s"
  by (simp add: expect_def skip_ws_pre)

lemma skip_ws_idem [simp]: "skip_ws (skip_ws s) = skip_ws s"
  by (simp add: skip_ws_def)

lemma expect_skip: "expect e (skip_ws s) = expect e s"
  by (simp add: expect_def)

lemma parse_val_skip: "parse_val N f out (skip_ws s) = parse_val N f out s"
  by (cases f) simp_all

lemma parse_items_skip: "parse_items N f acc (skip_ws s) = parse_items N f acc s"
  by (cases f) (simp_all add: parse_val_skip)

lemma parse_members_skip: "parse_members N f obj (skip_ws s) = parse_members N f obj s"
  by (cases f) (simp_all add: expect_skip)

text \<open>A value and the items of an array do not begin with a closing bracket.\<close>

definition starts :: "byte list \<Rightarrow> bool" where
  "starts t \<longleftrightarrow> (\<exists>w c q. ws w \<and> t = w @ c # q \<and> c \<notin> {0x20, 9, 10, 13, 0x5d})"

lemma startsI: "ws w \<Longrightarrow> c \<notin> {0x20, 9, 10, 13, 0x5d} \<Longrightarrow> starts (w @ c # q)"
  unfolding starts_def by blast

lemma starts_append: "starts t \<Longrightarrow> starts (t @ s)"
  by (auto simp: starts_def)

lemma jval_starts: "jval N v t \<Longrightarrow> starts t"
  by (erule jval.cases) (auto intro!: startsI)

lemma jitems_starts: "jitems N vs t \<Longrightarrow> starts t"
  by (erule jitems.cases) (auto intro: starts_append jval_starts)

lemma starts_open: "starts t \<Longrightarrow> expect 0x5d (t @ s) = (False, skip_ws (t @ s))"
  by (auto simp: starts_def expect_def skip_ws_pre skip_ws_solid)

lemma expect_token: "ws w \<Longrightarrow> c \<notin> {0x20, 9, 10, 13} \<Longrightarrow> expect e (w @ c # s) = (if c = e then (True, s) else (False, c # s))"
  by (simp add: expect_pre expect_here skip_ws_solid)

lemma ends_token: "ws w \<Longrightarrow> \<not> num_char c \<Longrightarrow> ends (w @ c # s)"
  by (cases w) (auto simp: ends_def ws_def num_char_def)

text \<open>A text is read as a value, as items or as members, whatever follows it and with enough room for the calls.\<close>

definition reads_val :: "'d numfmt \<Rightarrow> 'd json \<Rightarrow> byte list \<Rightarrow> bool" where
  "reads_val N v t \<longleftrightarrow> (\<forall>out r. ends r \<longrightarrow> (\<exists>f. parse_val N f out (t @ r) = Some (True, v, r)))"

definition reads_items :: "'d numfmt \<Rightarrow> 'd json list \<Rightarrow> byte list \<Rightarrow> bool" where
  "reads_items N vs t \<longleftrightarrow> (\<forall>acc r. \<exists>f. parse_items N f acc (t @ r) = Some (True, JArray (acc @ vs), r))"

definition reads_members :: "'d numfmt \<Rightarrow> (byte list \<times> 'd json) list \<Rightarrow> byte list \<Rightarrow> bool" where
  "reads_members N ps t \<longleftrightarrow> (\<forall>obj r. \<exists>f. parse_members N f obj (t @ r) = Some (True, JObject (members obj ps), r))"

lemma reads_valI: "(\<And>out r. ends r \<Longrightarrow> parse_val N (Suc 0) out (t @ r) = Some (True, v, r)) \<Longrightarrow> reads_val N v t"
  unfolding reads_val_def by blast

lemma parse_text: "match_text p (p @ s) = (True, s)"
  by (induction p) simp_all

lemma leaf_reads:
  assumes "ws w"
  shows "reads_val N JNull (w @ bytes ''null'')" "reads_val N (JBool True) (w @ bytes ''true'')" "reads_val N (JBool False) (w @ bytes ''false'')"
    and "jchars str t \<Longrightarrow> reads_val N (JString str) (w @ 0x22 # t @ [0x22])"
    and "ws w' \<Longrightarrow> reads_val N (JArray []) (w @ 0x5b # w' @ [0x5d])"
    and "ws w' \<Longrightarrow> reads_val N (JObject []) (w @ 0x7b # w' @ [0x7d])"
  using assms parse_text[of "bytes ''ull''"] parse_text[of "bytes ''rue''"] parse_text[of "bytes ''alse''"]
  by (auto intro!: reads_valI simp: skip_ws_pre skip_ws_solid string_reads expect_token)

lemma number_reads:
  assumes "ws w" "list_all num_char (c # t)" "0x30 \<le> c \<and> c \<le> 0x39 \<or> c = 0x2d" "strtod N (c # t) = (d, length (c # t))"
  shows "reads_val N (JNumber d) (w @ c # t)"
proof (rule reads_valI)
  fix out r assume "ends r"
  then have "parse_val N (Suc 0) out (c # t @ r) = Some (True, JNumber d, r)" using number_here[OF assms(2-4)] by blast
  then show "parse_val N (Suc 0) out ((w @ c # t) @ r) = Some (True, JNumber d, r)"
    using skip_ws_pre[OF assms(1), of "c # t @ r"] by (metis append_Cons append_assoc parse_val_skip)
qed

lemma array_reads:
  assumes "ws w" "ws w'" "jitems N vs t" "reads_items N vs t"
  shows "reads_val N (JArray vs) (w @ 0x5b # w' @ t)"
  unfolding reads_val_def
proof (intro allI impI)
  fix out r
  obtain f where "parse_items N f [] (t @ r) = Some (True, JArray vs, r)"
    using assms(4) unfolding reads_items_def by (metis append_Nil)
  then show "\<exists>f. parse_val N f out ((w @ 0x5b # w' @ t) @ r) = Some (True, JArray vs, r)"
    using assms(1,2) starts_open[OF jitems_starts[OF assms(3)], of r]
    by (intro exI[of _ "Suc f"]) (simp add: skip_ws_pre skip_ws_solid expect_pre parse_items_skip)
qed

lemma jmembers_shape: "jmembers N ps t \<Longrightarrow> \<exists>w q. ws w \<and> t = w @ 0x22 # q"
  by (erule jmembers.cases) auto

lemma object_reads:
  assumes "ws w" "ws w'" "jmembers N ps t" "reads_members N ps t"
  shows "reads_val N (JObject (members [] ps)) (w @ 0x7b # w' @ t)"
  unfolding reads_val_def
proof (intro allI impI)
  fix out r
  obtain u q where t: "ws u" "t = u @ 0x22 # q" using jmembers_shape[OF assms(3)] by blast
  obtain f where "parse_members N f [] (t @ r) = Some (True, JObject (members [] ps), r)" using assms(4) by (force simp: reads_members_def)
  then show "\<exists>f. parse_val N f out ((w @ 0x7b # w' @ t) @ r) = Some (True, JObject (members [] ps), r)"
    using assms(1,2) t parse_members_skip[of N f "[]" "t @ r"]
    by (intro exI[of _ "Suc f"]) (simp add: skip_ws_pre skip_ws_solid expect_pre expect_here)
qed

lemma val_then:
  assumes "reads_val N v t" "ws w" "c \<in> {0x2c, 0x5d, 0x7d}"
  shows "\<exists>f. parse_val N f out (t @ w @ c # r) = Some (True, v, w @ c # r)"
  using assms ends_token[OF assms(2), of c r] by (auto simp: reads_val_def num_char_def)

lemma last_item_reads:
  assumes "reads_val N v t" "ws w"
  shows "reads_items N [v] (t @ w @ [0x5d])"
  unfolding reads_items_def
proof (intro allI)
  fix acc r
  obtain f where "parse_val N f JNull (t @ w @ 0x5d # r) = Some (True, v, w @ 0x5d # r)" using val_then[OF assms, of "0x5d"] by auto
  then show "\<exists>f. parse_items N f acc ((t @ w @ [0x5d]) @ r) = Some (True, JArray (acc @ [v]), r)"
    using assms(2) by (intro exI[of _ "Suc f"]) (simp add: expect_token expect_here skip_ws_solid)
qed

lemma more_items_read:
  assumes "reads_val N v t" "ws w" "reads_items N vs u"
  shows "reads_items N (v # vs) (t @ w @ 0x2c # u)"
  unfolding reads_items_def
proof (intro allI)
  fix acc r
  obtain f where f: "parse_val N f JNull (t @ w @ 0x2c # u @ r) = Some (True, v, w @ 0x2c # u @ r)" using val_then[OF assms(1,2), of "0x2c"] by auto
  obtain g where g: "parse_items N g (acc @ [v]) (u @ r) = Some (True, JArray ((acc @ [v]) @ vs), r)" using assms(3) unfolding reads_items_def by blast
  show "\<exists>f. parse_items N f acc ((t @ w @ 0x2c # u) @ r) = Some (True, JArray (acc @ v # vs), r)"
    using parse_val_deeper[OF f, of g] parse_items_deeper[OF g, of f, unfolded add.commute[of g f]] assms(2)
    by (intro exI[of _ "Suc (f + g)"]) (simp add: expect_token)
qed

lemma member_reads:
  assumes "ws w" "jchars k kt" "ws w'" "parse_val N f (obj_ref k obj) s = Some (True, v, r)"
  shows "parse_members N (Suc f) obj (w @ 0x22 # kt @ 0x22 # w' @ 0x3a # s) =
    (case expect 0x2c r of (True, r) \<Rightarrow> parse_members N f (obj_put k v obj) r
     | (False, r) \<Rightarrow> (case expect 0x7d r of (ok, r) \<Rightarrow> Some (ok, JObject (obj_put k v obj), r)))"
  using assms by (simp add: expect_token string_reads)

lemma last_member_reads:
  assumes "ws w" "jchars k kt" "ws w'" "reads_val N v t" "ws w''"
  shows "reads_members N [(k, v)] (w @ 0x22 # kt @ 0x22 # w' @ 0x3a # t @ w'' @ [0x7d])"
  unfolding reads_members_def
proof (intro allI)
  fix obj r
  obtain f where f: "parse_val N f (obj_ref k obj) (t @ w'' @ 0x7d # r) = Some (True, v, w'' @ 0x7d # r)" using val_then[OF assms(4,5), of "0x7d"] by auto
  show "\<exists>f. parse_members N f obj ((w @ 0x22 # kt @ 0x22 # w' @ 0x3a # t @ w'' @ [0x7d]) @ r) = Some (True, JObject (members obj [(k, v)]), r)"
    using member_reads[OF assms(1-3) f] assms(5)
    by (intro exI[of _ "Suc f"]) (simp add: expect_token expect_here skip_ws_solid members_def del: parse_members.simps)
qed

lemma more_members_read:
  assumes "ws w" "jchars k kt" "ws w'" "reads_val N v t" "ws w''" "reads_members N ps u"
  shows "reads_members N ((k, v) # ps) (w @ 0x22 # kt @ 0x22 # w' @ 0x3a # t @ w'' @ 0x2c # u)"
  unfolding reads_members_def
proof (intro allI)
  fix obj r
  obtain f where f: "parse_val N f (obj_ref k obj) (t @ w'' @ 0x2c # u @ r) = Some (True, v, w'' @ 0x2c # u @ r)" using val_then[OF assms(4,5), of "0x2c"] by auto
  obtain g where g: "parse_members N g (obj_put k v obj) (u @ r) = Some (True, JObject (members (obj_put k v obj) ps), r)"
    using assms(6) unfolding reads_members_def by blast
  show "\<exists>f. parse_members N f obj ((w @ 0x22 # kt @ 0x22 # w' @ 0x3a # t @ w'' @ 0x2c # u) @ r) = Some (True, JObject (members obj ((k, v) # ps)), r)"
    using member_reads[OF assms(1-3) parse_val_deeper[OF f, of g]] parse_members_deeper[OF g, of f, unfolded add.commute[of g f]] assms(5)
    by (intro exI[of _ "Suc (f + g)"]) (simp add: expect_token members_def del: parse_members.simps)
qed

lemma parser_accepts: "(jval N v t \<longrightarrow> reads_val N v t) \<and> (jitems N vs u \<longrightarrow> reads_items N vs u) \<and> (jmembers N ps m \<longrightarrow> reads_members N ps m)"
  by (induction rule: jval_jitems_jmembers.induct)
    (blast intro: leaf_reads number_reads array_reads object_reads last_item_reads more_items_read last_member_reads more_members_read)+

lemma parse_accepts:
  assumes "jval N v t" "ends r"
  shows "json_parse N (t @ r) = Some (True, v, r)"
proof -
  obtain f where f: "parse_val N f JNull (t @ r) = Some (True, v, r)" using parser_accepts[of N v t] assms unfolding reads_val_def by blast
  obtain x where x: "json_parse N (t @ r) = Some x"
    using parser_returns[of "t @ r" "2 * length (t @ r) + 1" N JNull] by (auto simp: returns_def json_parse_def)
  then have "parse_val N (2 * length (t @ r) + 1 + f) JNull (t @ r) = Some x" unfolding json_parse_def by (rule parse_val_deeper)
  moreover have "parse_val N (f + (2 * length (t @ r) + 1)) JNull (t @ r) = Some (True, v, r)" using f by (rule parse_val_deeper)
  ultimately show ?thesis using x by (simp only: add.commute option.inject)
qed

section \<open>Properties\<close>

lemma parse_returns: "\<exists>ok v r. json_parse N s = Some (ok, v, r) \<and> length r \<le> length s"
  using parser_returns[of s "2 * length s + 1" N JNull] by (auto simp: returns_def json_parse_def)

text \<open>
  The depth is enough: a larger one makes no difference.
\<close>

lemma json_parse_depth: "parse_val N (2 * length s + 1 + k) JNull s = json_parse N s"
  using parse_returns[of N s] parse_val_deeper[of N "2 * length s + 1" JNull s] unfolding json_parse_def by fastforce

text \<open>
  C37. The parser returns on every input, accepts exactly the language of the grammar, and reports what the text means. When \<open>parse\<close> succeeds,
  the bytes it took from the input are white space and one value: a literal, a number that \<open>strtod\<close> reads whole, a string whose escapes stand for
  the bytes of the result (a \<open>u\<close> escape, or a pair of surrogates, for the UTF-8 of its code point), an array with its items in order and a comma
  between them, or an object with a string, a colon and a value for each member, in which a later member replaces an earlier one with the same
  key; the value that is returned is the one the text stands for, and the rest of the input is left unread. Conversely every such text, followed
  by nothing a number could run into, is accepted with its value and its end. On any other input the parser returns with a failure.
\<close>

theorem json_parse_exact:
  "(\<exists>ok w q. json_parse N s = Some (ok, w, q) \<and> length q \<le> length s) \<and>
   (json_parse N s = Some (True, v, r) \<longrightarrow> (\<exists>t. s = t @ r \<and> jval N v t)) \<and>
   (jval N v t \<and> ends r \<longrightarrow> json_parse N (t @ r) = Some (True, v, r))"
  using parse_returns[of N s] parser_sound[of N] parse_accepts[of N v t r] unfolding json_parse_def by blast

theorem json_parse_exact_witness:
  "(\<exists>t. bytes '' {\"a\":[1,true ]} x'' = t @ bytes '' x'' \<and> jval sample_numfmt (JObject [(bytes ''a'', JArray [JNumber True, JBool True])]) t) \<and>
   json_parse sample_numfmt (([0x20] @ bytes ''null'') @ []) = Some (True, JNull, [])"
proof -
  have "json_parse sample_numfmt (bytes '' {\"a\":[1,true ]} x'') = Some (True, JObject [(bytes ''a'', JArray [JNumber True, JBool True])], bytes '' x'')"
    by code_simp
  moreover have "jval sample_numfmt JNull ([0x20] @ bytes ''null'')" by (rule jnull) (simp add: ws_def)
  ultimately show ?thesis using json_parse_exact[of sample_numfmt] ends_punct(4) by blast
qed

end
