(* ===== verification/Lws_Types.thy ===== *)
theory Lws_Types
  imports Lws_Prelude
begin

text \<open>
  The data of \<^verbatim>\<open>lib/private-libwebsockets.h\<close> and \<^verbatim>\<open>lib/libwebsockets.h\<close> that the
  components share: the header table, the websocket part of a connection, the connection
  itself, and the surroundings of a connection (system calls, user code, extensions) as a record of
  functions. The build modelled is LP64 little-endian, client and server, extensions
  compiled in, no OpenSSL.
\<close>

section \<open>Constants\<close>

definition LWS_MAX_HEADER_LEN :: nat where "LWS_MAX_HEADER_LEN = 1024"
definition LWS_MAX_SOCKET_IO_BUF :: nat where "LWS_MAX_SOCKET_IO_BUF = 4096"
definition LWS_SEND_BUFFER_PRE_PADDING :: nat where "LWS_SEND_BUFFER_PRE_PADDING = 18"
definition LWS_SEND_BUFFER_POST_PADDING :: nat where "LWS_SEND_BUFFER_POST_PADDING = 4"

lemmas lws_consts = LWS_MAX_HEADER_LEN_def LWS_MAX_SOCKET_IO_BUF_def
  LWS_SEND_BUFFER_PRE_PADDING_def LWS_SEND_BUFFER_POST_PADDING_def

text \<open>\<open>enum lws_token_indexes\<close>: the tokens by number, the parser's additions as a datatype.\<close>

definition WSI_TOKEN_GET_URI :: nat where [c_defs]: "WSI_TOKEN_GET_URI = 0"
definition WSI_TOKEN_HOST :: nat where [c_defs]: "WSI_TOKEN_HOST = 1"
definition WSI_TOKEN_CONNECTION :: nat where [c_defs]: "WSI_TOKEN_CONNECTION = 2"
definition WSI_TOKEN_PROTOCOL :: nat where [c_defs]: "WSI_TOKEN_PROTOCOL = 5"
definition WSI_TOKEN_UPGRADE :: nat where [c_defs]: "WSI_TOKEN_UPGRADE = 6"
definition WSI_TOKEN_ORIGIN :: nat where [c_defs]: "WSI_TOKEN_ORIGIN = 7"
definition WSI_TOKEN_CHALLENGE :: nat where [c_defs]: "WSI_TOKEN_CHALLENGE = 9"
definition WSI_TOKEN_KEY :: nat where [c_defs]: "WSI_TOKEN_KEY = 10"
definition WSI_TOKEN_VERSION :: nat where [c_defs]: "WSI_TOKEN_VERSION = 11"
definition WSI_TOKEN_SWORIGIN :: nat where [c_defs]: "WSI_TOKEN_SWORIGIN = 12"
definition WSI_TOKEN_EXTENSIONS :: nat where [c_defs]: "WSI_TOKEN_EXTENSIONS = 13"
definition WSI_TOKEN_ACCEPT :: nat where [c_defs]: "WSI_TOKEN_ACCEPT = 14"
definition WSI_TOKEN_HTTP :: nat where [c_defs]: "WSI_TOKEN_HTTP = 16"
definition WSI_TOKEN_COUNT :: nat where [c_defs]: "WSI_TOKEN_COUNT = 23"

datatype parser_state =
    WSI_TOKEN nat
  | WSI_TOKEN_NAME_PART
  | WSI_TOKEN_SKIPPING
  | WSI_TOKEN_SKIPPING_SAW_CR
  | WSI_PARSING_COMPLETE
  | WSI_INIT_TOKEN_MUXURL

datatype conn_state =
    WSI_STATE_HTTP | WSI_STATE_HTTP_ISSUING_FILE | WSI_STATE_HTTP_HEADERS
  | WSI_STATE_DEAD_SOCKET | WSI_STATE_ESTABLISHED | WSI_STATE_CLIENT_UNCONNECTED
  | WSI_STATE_RETURNED_CLOSE_ALREADY | WSI_STATE_AWAITING_CLOSE_ACK

datatype rx_parse_state =
    LWS_RXPS_NEW
  | LWS_RXPS_04_MASK_NONCE_1 | LWS_RXPS_04_MASK_NONCE_2 | LWS_RXPS_04_MASK_NONCE_3
  | LWS_RXPS_04_FRAME_HDR_1 | LWS_RXPS_04_FRAME_HDR_LEN
  | LWS_RXPS_04_FRAME_HDR_LEN16_2 | LWS_RXPS_04_FRAME_HDR_LEN16_1
  | LWS_RXPS_04_FRAME_HDR_LEN64_8 | LWS_RXPS_04_FRAME_HDR_LEN64_7
  | LWS_RXPS_04_FRAME_HDR_LEN64_6 | LWS_RXPS_04_FRAME_HDR_LEN64_5
  | LWS_RXPS_04_FRAME_HDR_LEN64_4 | LWS_RXPS_04_FRAME_HDR_LEN64_3
  | LWS_RXPS_04_FRAME_HDR_LEN64_2 | LWS_RXPS_04_FRAME_HDR_LEN64_1
  | LWS_RXPS_07_COLLECT_FRAME_KEY_1 | LWS_RXPS_07_COLLECT_FRAME_KEY_2
  | LWS_RXPS_07_COLLECT_FRAME_KEY_3 | LWS_RXPS_07_COLLECT_FRAME_KEY_4
  | LWS_RXPS_PAYLOAD_UNTIL_LENGTH_EXHAUSTED

datatype connection_mode =
    LWS_CONNMODE_HTTP_SERVING | LWS_CONNMODE_HTTP_SERVING_ACCEPTED
  | LWS_CONNMODE_PRE_WS_SERVING_ACCEPT
  | LWS_CONNMODE_WS_SERVING | LWS_CONNMODE_WS_CLIENT | LWS_CONNMODE_SSL_ACK_PENDING
  | LWS_CONNMODE_WS_CLIENT_WAITING_CONNECT | LWS_CONNMODE_WS_CLIENT_WAITING_PROXY_REPLY
  | LWS_CONNMODE_WS_CLIENT_ISSUE_HANDSHAKE | LWS_CONNMODE_WS_CLIENT_WAITING_SSL
  | LWS_CONNMODE_WS_CLIENT_WAITING_SERVER_REPLY
  | LWS_CONNMODE_WS_CLIENT_WAITING_EXTENSION_CONNECT
  | LWS_CONNMODE_WS_CLIENT_PENDING_CANDIDATE_CHILD | LWS_CONNMODE_SERVER_LISTENER

text \<open>\<open>enum libwebsocket_write_protocol\<close> and the opcodes of RFC 6455.\<close>

definition LWS_WRITE_TEXT :: nat where [c_defs]: "LWS_WRITE_TEXT = 0"
definition LWS_WRITE_BINARY :: nat where [c_defs]: "LWS_WRITE_BINARY = 1"
definition LWS_WRITE_CONTINUATION :: nat where [c_defs]: "LWS_WRITE_CONTINUATION = 2"
definition LWS_WRITE_HTTP :: nat where [c_defs]: "LWS_WRITE_HTTP = 3"
definition LWS_WRITE_CLOSE :: nat where [c_defs]: "LWS_WRITE_CLOSE = 4"
definition LWS_WRITE_PING :: nat where [c_defs]: "LWS_WRITE_PING = 5"
definition LWS_WRITE_PONG :: nat where [c_defs]: "LWS_WRITE_PONG = 6"
definition LWS_WRITE_NO_FIN :: nat where [c_defs]: "LWS_WRITE_NO_FIN = 0x40"

definition OPC_CONTINUATION :: byte where [c_defs]: "OPC_CONTINUATION = 0"
definition OPC_TEXT_FRAME :: byte where [c_defs]: "OPC_TEXT_FRAME = 1"
definition OPC_BINARY_FRAME :: byte where [c_defs]: "OPC_BINARY_FRAME = 2"
definition OPC_CLOSE :: byte where [c_defs]: "OPC_CLOSE = 8"
definition OPC_PING :: byte where [c_defs]: "OPC_PING = 9"
definition OPC_PONG :: byte where [c_defs]: "OPC_PONG = 0xa"

definition LWS_RXFLOW_ALLOW :: "2 word" where [c_defs]: "LWS_RXFLOW_ALLOW = 1"
definition LWS_RXFLOW_PENDING_CHANGE :: "2 word" where [c_defs]: "LWS_RXFLOW_PENDING_CHANGE = 2"

datatype callback_reason =
    LWS_CALLBACK_ESTABLISHED | LWS_CALLBACK_CLIENT_CONNECTION_ERROR
  | LWS_CALLBACK_CLIENT_FILTER_PRE_ESTABLISH | LWS_CALLBACK_CLIENT_ESTABLISHED
  | LWS_CALLBACK_CLOSED | LWS_CALLBACK_CLOSED_HTTP
  | LWS_CALLBACK_RECEIVE | LWS_CALLBACK_CLIENT_RECEIVE | LWS_CALLBACK_CLIENT_RECEIVE_PONG
  | LWS_CALLBACK_CLIENT_WRITEABLE | LWS_CALLBACK_SERVER_WRITEABLE | LWS_CALLBACK_HTTP
  | LWS_CALLBACK_HTTP_FILE_COMPLETION | LWS_CALLBACK_HTTP_WRITEABLE
  | LWS_CALLBACK_FILTER_NETWORK_CONNECTION | LWS_CALLBACK_FILTER_PROTOCOL_CONNECTION
  | LWS_CALLBACK_CLIENT_APPEND_HANDSHAKE_HEADER | LWS_CALLBACK_CONFIRM_EXTENSION_OKAY
  | LWS_CALLBACK_CLIENT_CONFIRM_EXTENSION_SUPPORTED
  | LWS_CALLBACK_PROTOCOL_INIT | LWS_CALLBACK_PROTOCOL_DESTROY
  | LWS_CALLBACK_ADD_POLL_FD | LWS_CALLBACK_DEL_POLL_FD
  | LWS_CALLBACK_SET_MODE_POLL_FD | LWS_CALLBACK_CLEAR_MODE_POLL_FD

datatype ext_reason =
    LWS_EXT_CALLBACK_CONSTRUCT | LWS_EXT_CALLBACK_CLIENT_CONSTRUCT
  | LWS_EXT_CALLBACK_CHECK_OK_TO_REALLY_CLOSE | LWS_EXT_CALLBACK_CHECK_OK_TO_PROPOSE_EXTENSION
  | LWS_EXT_CALLBACK_DESTROY | LWS_EXT_CALLBACK_DESTROY_ANY_WSI_CLOSING
  | LWS_EXT_CALLBACK_ANY_WSI_ESTABLISHED | LWS_EXT_CALLBACK_PACKET_RX_PREPARSE
  | LWS_EXT_CALLBACK_PACKET_TX_PRESEND | LWS_EXT_CALLBACK_PACKET_TX_DO_SEND
  | LWS_EXT_CALLBACK_HANDSHAKE_REPLY_TX | LWS_EXT_CALLBACK_FLUSH_PENDING_TX
  | LWS_EXT_CALLBACK_EXTENDED_PAYLOAD_RX | LWS_EXT_CALLBACK_CAN_PROXY_CLIENT_CONNECTION
  | LWS_EXT_CALLBACK_1HZ | LWS_EXT_CALLBACK_REQUEST_ON_WRITEABLE
  | LWS_EXT_CALLBACK_IS_WRITEABLE
  | LWS_EXT_CALLBACK_PAYLOAD_TX | LWS_EXT_CALLBACK_PAYLOAD_RX

section \<open>The header table\<close>

record lws_fragments =
  frag_offset :: nat
  frag_len :: nat
  frag_next :: nat

record allocated_headers =
  ah_next_frag_index :: nat
  ah_pos :: nat
  ah_frag_index :: "nat list"
  ah_frags :: "lws_fragments list"
  ah_data :: "byte list"
  initial_handshake_hash_base64 :: "byte list"
  c_port :: u16

record lws_header_related =
  hdr_ah :: "allocated_headers option"
  lextable_pos :: int
  parser_state :: parser_state

section \<open>The websocket part of a connection\<close>

record lws_websocket_related =
  rx_user_buffer :: "byte list option"
  rx_user_buffer_head :: nat
  frame_masking_nonce_04 :: "byte list"
  frame_mask_index :: byte
  rx_packet_length :: size_t
  opcode :: byte
  final_frag :: bool
  rsv :: byte
  frame_is_binary :: bool
  all_zero_nonce :: bool
  close_reason :: u16
  rxflow_buffer :: "byte list option"
  rxflow_len :: nat
  rxflow_pos :: nat
  rxflow_change_to :: "2 word"
  this_frame_masked :: bool
  inside_frame :: bool
  clean_buffer :: bool
  truncated_send_malloc :: "byte list option"
  truncated_send_offset :: u32
  truncated_send_len :: u32

section \<open>A connection\<close>

text \<open>
  \<open>struct libwebsocket_protocols\<close>, as far as the connection code reads it.
\<close>

record libwebsocket_protocols =
  protocol_name :: "byte list"
  has_callback :: bool
  rx_buffer_size :: nat
  no_buffer_all_partial_tx :: bool

text \<open>
  \<open>struct libwebsocket\<close>. The members of the union \<open>u\<close> have disjoint lifetimes and are fields of their
  own. \<open>active_extensions\<close> holds the first \<open>count_active_extensions\<close> entries. \<open>pollin\<close> and \<open>pollout\<close> are
  the event bits of the connection's entry in the poll table, \<open>wire\<close> what the kernel has accepted
  for this socket so far, and \<open>sys_calls\<close> counts the system calls made, so that the environment may answer
  each one differently.
\<close>

record 'u lws =
  protocol :: libwebsocket_protocols
  active_extensions :: "nat list"
  extension_data_pending :: bool
  ietf_spec_revision :: byte
  mode :: connection_mode
  state :: conn_state
  lws_rx_parse_state :: rx_parse_state
  hdr_parsing_completed :: bool
  sock :: int
  position_in_fds_table :: int
  user_space :: 'u
  u_hdr :: lws_header_related
  u_ws :: lws_websocket_related
  pollin :: bool
  pollout :: bool
  wire :: "byte list"
  sys_calls :: nat

definition upd_ws :: "(lws_websocket_related \<Rightarrow> lws_websocket_related) \<Rightarrow> 'u lws \<Rightarrow> 'u lws" where
  [st_defs]: "upd_ws f wsi = wsi\<lparr>u_ws := f (u_ws wsi)\<rparr>"

definition upd_hdr :: "(lws_header_related \<Rightarrow> lws_header_related) \<Rightarrow> 'u lws \<Rightarrow> 'u lws" where
  [st_defs]: "upd_hdr f wsi = wsi\<lparr>u_hdr := f (u_hdr wsi)\<rparr>"

lemma upd_ws_fields [simp]:
  "protocol (upd_ws f wsi) = protocol wsi" "active_extensions (upd_ws f wsi) = active_extensions wsi"
  "extension_data_pending (upd_ws f wsi) = extension_data_pending wsi" "ietf_spec_revision (upd_ws f wsi) = ietf_spec_revision wsi"
  "mode (upd_ws f wsi) = mode wsi" "state (upd_ws f wsi) = state wsi"
  "lws_rx_parse_state (upd_ws f wsi) = lws_rx_parse_state wsi" "hdr_parsing_completed (upd_ws f wsi) = hdr_parsing_completed wsi"
  "sock (upd_ws f wsi) = sock wsi" "position_in_fds_table (upd_ws f wsi) = position_in_fds_table wsi"
  "user_space (upd_ws f wsi) = user_space wsi" "pollin (upd_ws f wsi) = pollin wsi"
  "pollout (upd_ws f wsi) = pollout wsi" "wire (upd_ws f wsi) = wire wsi"
  "sys_calls (upd_ws f wsi) = sys_calls wsi" "u_hdr (upd_ws f wsi) = u_hdr wsi"
  "u_ws (upd_ws f wsi) = f (u_ws wsi)" "upd_ws f (upd_ws g wsi) = upd_ws (f \<circ> g) wsi"
  by (simp_all add: upd_ws_def)

lemma upd_hdr_fields [simp]:
  "protocol (upd_hdr f wsi) = protocol wsi" "active_extensions (upd_hdr f wsi) = active_extensions wsi"
  "extension_data_pending (upd_hdr f wsi) = extension_data_pending wsi" "ietf_spec_revision (upd_hdr f wsi) = ietf_spec_revision wsi"
  "mode (upd_hdr f wsi) = mode wsi" "state (upd_hdr f wsi) = state wsi"
  "lws_rx_parse_state (upd_hdr f wsi) = lws_rx_parse_state wsi" "hdr_parsing_completed (upd_hdr f wsi) = hdr_parsing_completed wsi"
  "sock (upd_hdr f wsi) = sock wsi" "position_in_fds_table (upd_hdr f wsi) = position_in_fds_table wsi"
  "user_space (upd_hdr f wsi) = user_space wsi" "pollin (upd_hdr f wsi) = pollin wsi"
  "pollout (upd_hdr f wsi) = pollout wsi" "wire (upd_hdr f wsi) = wire wsi"
  "sys_calls (upd_hdr f wsi) = sys_calls wsi" "u_ws (upd_hdr f wsi) = u_ws wsi"
  "u_hdr (upd_hdr f wsi) = f (u_hdr wsi)"
  by (simp_all add: upd_hdr_def)

text \<open>Structures after \<open>memset(..., 0, sizeof ...)\<close>.\<close>

definition zero_hdr :: lws_header_related where
  "zero_hdr = \<lparr>hdr_ah = None, lextable_pos = 0, parser_state = WSI_TOKEN 0\<rparr>"

definition zero_ws :: lws_websocket_related where
  "zero_ws = \<lparr>rx_user_buffer = None, rx_user_buffer_head = 0, frame_masking_nonce_04 = replicate 4 0,
     frame_mask_index = 0, rx_packet_length = 0, opcode = 0, final_frag = False, rsv = 0,
     frame_is_binary = False, all_zero_nonce = False, close_reason = 0, rxflow_buffer = None,
     rxflow_len = 0, rxflow_pos = 0, rxflow_change_to = 0, this_frame_masked = False,
     inside_frame = False, clean_buffer = False, truncated_send_malloc = None,
     truncated_send_offset = 0, truncated_send_len = 0\<rparr>"

definition zero_lws :: "libwebsocket_protocols \<Rightarrow> 'u \<Rightarrow> 'u lws" where
  "zero_lws prot us = \<lparr>protocol = prot, active_extensions = [], extension_data_pending = False,
     ietf_spec_revision = 0, mode = LWS_CONNMODE_HTTP_SERVING, state = WSI_STATE_HTTP,
     lws_rx_parse_state = LWS_RXPS_NEW, hdr_parsing_completed = False, sock = 0,
     position_in_fds_table = 0, user_space = us, u_hdr = zero_hdr, u_ws = zero_ws,
     pollin = False, pollout = False, wire = [], sys_calls = 0\<rparr>"

section \<open>The surroundings\<close>

text \<open>
  \<open>struct lws_tokens\<close>: a pointer into a block of memory and a length. \<open>tok_moved\<close> tells that the
  pointer no longer is the one the token was created with.
\<close>

record lws_tokens =
  tok_mem :: "byte list"
  tok_off :: nat
  tok_len :: int
  tok_moved :: bool

text \<open>
  Code outside the model: the kernel (\<open>send\<close>, the random device, \<open>malloc\<close>, the writability poll), each
  asked with the number of the call; the protocol's user callback with its payload; the callback
  of protocol 0 that external poll loops use (its result is ignored); the extensions' callbacks.
\<close>

record 'u env =
  os_send :: "nat \<Rightarrow> byte list \<Rightarrow> int"
  os_random :: "nat \<Rightarrow> nat \<Rightarrow> byte list"
  os_malloc :: "nat \<Rightarrow> bool"
  os_pipe_choked :: "nat \<Rightarrow> bool"
  user_cb :: "callback_reason \<Rightarrow> byte list \<Rightarrow> 'u lws \<Rightarrow> int \<times> 'u lws"
  proto0_cb :: "callback_reason \<Rightarrow> int \<Rightarrow> nat \<Rightarrow> 'u lws \<Rightarrow> 'u lws"
  ext_cb :: "nat \<Rightarrow> ext_reason \<Rightarrow> lws_tokens \<Rightarrow> 'u lws \<Rightarrow> int \<times> lws_tokens \<times> 'u lws"

end
