(* ===== verification/Output.thy ===== *)
theory Output
  imports Lws_Types
begin

text \<open>
  \<^verbatim>\<open>lib/output.c\<close>: framing, masking and sending. \<open>libwebsocket_write\<close> works in place, in the padding
  around the caller's payload; the caller's block, the offset of the payload in it and its length are the
  arguments, and the block as it is left behind is part of the result. With them the parts of
  \<^verbatim>\<open>lib/libwebsockets.c\<close> that the send path calls.
\<close>

section \<open>The program\<close>

text \<open>The loops over the active extensions: one stops at a fatal error, one asks everybody.\<close>

fun ext_loop :: "'u env \<Rightarrow> ext_reason \<Rightarrow> nat list \<Rightarrow> lws_tokens \<Rightarrow> 'u lws
    \<Rightarrow> bool \<times> bool \<times> lws_tokens \<times> 'u lws" where
  "ext_loop E r [] tok wsi = (False, False, tok, wsi)"
| "ext_loop E r (x # xs) tok wsi = (case ext_cb E x r tok wsi of (k, tok, wsi) \<Rightarrow>
     if k < 0 then (True, False, tok, wsi)
     else (case ext_loop E r xs tok wsi of (fatal, again, tok, wsi) \<Rightarrow> (fatal, k \<noteq> 0 \<or> again, tok, wsi)))"

fun ext_each :: "'u env \<Rightarrow> ext_reason \<Rightarrow> nat list \<Rightarrow> lws_tokens \<Rightarrow> 'u lws \<Rightarrow> bool \<times> lws_tokens \<times> 'u lws" where
  "ext_each E r [] tok wsi = (False, tok, wsi)"
| "ext_each E r (x # xs) tok wsi = (case ext_cb E x r tok wsi of (k, tok, wsi) \<Rightarrow>
     (case ext_each E r xs tok wsi of (handled, tok, wsi) \<Rightarrow> (k \<noteq> 0 \<or> handled, tok, wsi)))"

definition no_tokens :: lws_tokens where
  "no_tokens = \<lparr>tok_mem = [], tok_off = 0, tok_len = 0, tok_moved = True\<rparr>"

text \<open>The bytes a token points at; a token outside its block is undefined behaviour.\<close>

definition tok_bytes :: "lws_tokens \<Rightarrow> byte list option" where
  "tok_bytes tok = (if 0 \<le> tok_len tok \<and> tok_off tok + nat (tok_len tok) \<le> length (tok_mem tok)
     then Some (take (nat (tok_len tok)) (drop (tok_off tok) (tok_mem tok))) else None)"

definition POLLIN :: nat where "POLLIN = 1"
definition POLLOUT :: nat where "POLLOUT = 4"

definition libwebsocket_callback_on_writable :: "'u env \<Rightarrow> 'u lws \<Rightarrow> int \<times> 'u lws" where
  "libwebsocket_callback_on_writable E wsi =
    (case ext_each E LWS_EXT_CALLBACK_REQUEST_ON_WRITEABLE (active_extensions wsi) no_tokens wsi of
      (handled, _, wsi) \<Rightarrow>
        if handled then (1, wsi)
        else if position_in_fds_table wsi < 0 then (-1, wsi)
        else (1, proto0_cb E LWS_CALLBACK_SET_MODE_POLL_FD (sock wsi) POLLOUT (wsi\<lparr>pollout := True\<rparr>)))"

definition lws_send_pipe_choked :: "'u env \<Rightarrow> 'u lws \<Rightarrow> bool \<times> 'u lws" where
  "lws_send_pipe_choked E wsi = (os_pipe_choked E (sys_calls wsi), wsi\<lparr>sys_calls := sys_calls wsi + 1\<rparr>)"

definition libwebsocket_0405_frame_mask_generate :: "'u env \<Rightarrow> 'u lws \<Rightarrow> int \<times> 'u lws" where
  "libwebsocket_0405_frame_mask_generate E wsi =
    (let bs = os_random E (sys_calls wsi) 4; wsi = wsi\<lparr>sys_calls := sys_calls wsi + 1\<rparr>;
         wsi = upd_ws (\<lambda>w. w\<lparr>frame_masking_nonce_04 :=
           take 4 bs @ drop (length (take 4 bs)) (frame_masking_nonce_04 w)\<rparr>) wsi
     in if length bs \<noteq> 4 then (1, wsi) else (0, upd_ws (\<lambda>w. w\<lparr>frame_mask_index := 0\<rparr>) wsi))"

text \<open>The label \<open>handle_truncated_send\<close>: \<open>n\<close> bytes of \<open>bs\<close> have gone out.\<close>

definition handle_truncated_send :: "'u env \<Rightarrow> byte list \<Rightarrow> int \<Rightarrow> 'u lws \<Rightarrow> int \<times> 'u lws" where
  "handle_truncated_send E bs n wsi =
    (case truncated_send_malloc (u_ws wsi) of
      Some _ \<Rightarrow>
        let wsi = upd_ws (\<lambda>w. w\<lparr>truncated_send_offset := truncated_send_offset w + of_int n,
                                truncated_send_len := truncated_send_len w - of_int n\<rparr>) wsi
        in if truncated_send_len (u_ws wsi) = 0
           then (n, upd_ws (\<lambda>w. w\<lparr>truncated_send_malloc := None\<rparr>) wsi)
           else (n, snd (libwebsocket_callback_on_writable E wsi))
    | None \<Rightarrow>
        if nat n < length bs then
          if clean_buffer (u_ws wsi) then (n, wsi)
          else
            let ok = os_malloc E (sys_calls wsi); wsi = wsi\<lparr>sys_calls := sys_calls wsi + 1\<rparr> in
            if \<not> ok then (-1, wsi)
            else
              let wsi = upd_ws (\<lambda>w. w\<lparr>truncated_send_malloc := Some (drop (nat n) bs),
                     truncated_send_offset := 0, truncated_send_len := of_nat (length bs - nat n)\<rparr>) wsi
              in (c_int (int (length bs)), snd (libwebsocket_callback_on_writable E wsi))
        else (n, wsi))"

text \<open>An extension that carries the data itself answers with the count it took.\<close>

fun ext_do_send :: "'u env \<Rightarrow> nat list \<Rightarrow> lws_tokens \<Rightarrow> 'u lws \<Rightarrow> int option \<times> lws_tokens \<times> 'u lws" where
  "ext_do_send E [] tok wsi = (None, tok, wsi)"
| "ext_do_send E (x # xs) tok wsi = (case ext_cb E x LWS_EXT_CALLBACK_PACKET_TX_DO_SEND tok wsi of
     (k, tok, wsi) \<Rightarrow> if k \<noteq> 0 then (Some k, tok, wsi) else ext_do_send E xs tok wsi)"

text \<open>
  \<open>lws_issue_raw\<close> keeps the answer of \<open>send\<close> in an \<open>int\<close>; \<open>wire\<close> grows by what the kernel has really taken.
\<close>

definition lws_issue_raw :: "'u env \<Rightarrow> lws_tokens \<Rightarrow> 'u lws \<Rightarrow> (int \<times> 'u lws) option" where
  "lws_issue_raw E buf wsi =
    (case ext_do_send E (active_extensions wsi) buf wsi of (handled, buf, wsi) \<Rightarrow>
      do { bs \<leftarrow> tok_bytes buf;
        case handled of
          Some k \<Rightarrow> if k < 0 then Some (-1, wsi) else Some (handle_truncated_send E bs k wsi)
        | None \<Rightarrow>
            let sent = os_send E (sys_calls wsi) bs; n = c_int sent;
                wsi = wsi\<lparr>sys_calls := sys_calls wsi + 1, wire := wire wsi @ take (nat sent) bs\<rparr> in
            if n < 0 then Some (-1, wsi) else Some (handle_truncated_send E bs n wsi) })"

text \<open>
  The loop of \<open>lws_issue_raw_ext_access\<close>; extensions may ask for another turn for ever. The result
  is -1 or, for the normal end, 0.
\<close>

partial_function (option) ext_access_loop :: "'u env \<Rightarrow> lws_tokens \<Rightarrow> 'u lws \<Rightarrow> (int \<times> 'u lws) option" where
  "ext_access_loop E tok wsi =
    (case ext_loop E LWS_EXT_CALLBACK_PACKET_TX_PRESEND (active_extensions wsi) tok wsi of
      (fatal, again, tok, wsi) \<Rightarrow>
        if fatal then Some (-1, wsi)
        else
          let wsi = (if tok_moved tok then upd_ws (\<lambda>w. w\<lparr>clean_buffer := False\<rparr>) wsi else wsi) in
          do { (n, wsi) \<leftarrow> (if tok_len tok \<noteq> 0 then lws_issue_raw E tok wsi else Some (0, wsi));
            if n < 0 then Some (-1, wsi)
            else if \<not> again then Some (0, wsi)
            else (case lws_send_pipe_choked E wsi of (choked, wsi) \<Rightarrow>
              if \<not> choked \<and> truncated_send_malloc (u_ws wsi) = None
              then ext_access_loop E no_tokens wsi
              else Some (0, (snd (libwebsocket_callback_on_writable E wsi))\<lparr>extension_data_pending := True\<rparr>)) })"

declare ext_access_loop.simps [code]

text \<open>The length arrives as a \<open>size_t\<close>; both \<open>token_len\<close> and the result are \<open>int\<close>.\<close>

definition lws_issue_raw_ext_access :: "'u env \<Rightarrow> lws_tokens \<Rightarrow> 'u lws \<Rightarrow> (int \<times> 'u lws) option" where
  "lws_issue_raw_ext_access E buf wsi = do {
     (n, wsi) \<leftarrow> ext_access_loop E (buf\<lparr>tok_len := c_int (tok_len buf)\<rparr>) wsi;
     Some (if n < 0 then (-1, wsi) else (c_int (tok_len buf), wsi)) }"

text \<open>The frame header for a payload of \<open>len\<close> bytes; \<open>n\<close> is the first byte.\<close>

definition frame_header :: "byte \<Rightarrow> nat \<Rightarrow> byte \<Rightarrow> byte list" where
  "frame_header n len is_masked_bit =
    (if len < 126 then [n, of_nat len OR is_masked_bit]
     else if len < 65536 then [n, 126 OR is_masked_bit, of_nat (len div 2 ^ 8), of_nat len]
     else [n, 127 OR is_masked_bit, of_nat (len div 2 ^ 56) AND 0x7f, of_nat (len div 2 ^ 48),
           of_nat (len div 2 ^ 40), of_nat (len div 2 ^ 32), of_nat (len div 2 ^ 24),
           of_nat (len div 2 ^ 16), of_nat (len div 2 ^ 8), of_nat len])"

text \<open>The opcode of a write; anything else is refused.\<close>

definition write_opcode :: "nat \<Rightarrow> byte option" where
  "write_opcode prot =
    (if prot AND 0xf = LWS_WRITE_TEXT then Some OPC_TEXT_FRAME
     else if prot AND 0xf = LWS_WRITE_BINARY then Some OPC_BINARY_FRAME
     else if prot AND 0xf = LWS_WRITE_CONTINUATION then Some OPC_CONTINUATION
     else if prot AND 0xf = LWS_WRITE_CLOSE then Some OPC_CLOSE
     else if prot AND 0xf = LWS_WRITE_PING then Some OPC_PING
     else if prot AND 0xf = LWS_WRITE_PONG then Some OPC_PONG
     else None)"

text \<open>
  The masking loop \<open>for (n = 4; n < (int)len + 4; n++)\<close> over \<open>dropmask[n]\<close>: \<open>cnt\<close> bytes from index \<open>i\<close>.
\<close>

fun mask_loop :: "nat \<Rightarrow> nat \<Rightarrow> byte list \<Rightarrow> byte \<Rightarrow> byte list \<Rightarrow> (byte list \<times> byte) option" where
  "mask_loop 0 i mem idx nonce = Some (mem, idx)"
| "mask_loop (Suc cnt) i mem idx nonce = do { ch \<leftarrow> rd mem i; k \<leftarrow> rd nonce (unat (idx AND 3));
     mem \<leftarrow> wr mem i (ch XOR k); mask_loop cnt (i + 1) mem (idx + 1) nonce }"

text \<open>The number of turns of that loop; the addition in its bound is signed and must not overflow.\<close>

definition mask_count :: "nat \<Rightarrow> nat option" where
  "mask_count len = (if c_int (int len) + 4 < 2 ^ 31 then Some (nat (c_int (int len))) else None)"

text \<open>
  What \<open>libwebsocket_write\<close> has put together before \<open>do_more_inside_frame\<close>: the block, the payload's
  place in it, the bytes in front of it (\<open>pre\<close>), and where the mask goes (\<open>dropmask\<close>).
\<close>

record write_buf =
  wb_mem :: "byte list"
  wb_off :: nat
  wb_len :: nat
  wb_pre :: nat
  wb_dropmask :: "nat option"

text \<open>\<open>case 13:\<close> of the switch on the spec revision; \<open>Inl\<close> is the early \<open>return -1\<close>.\<close>

definition build_frame :: "nat \<Rightarrow> 'u lws \<Rightarrow> write_buf \<Rightarrow> (unit + write_buf) option" where
  "build_frame prot wsi wb =
    (let masked7 = (mode wsi = LWS_CONNMODE_WS_CLIENT);
         pre = (if masked7 then 4 else 0);
         is_masked_bit = (if masked7 then 0x80 else 0 :: byte) in
     if masked7 \<and> wb_off wb < 4 then None
     else
       let dropmask = (if masked7 then Some (wb_off wb - 4) else None) in
       case write_opcode prot of None \<Rightarrow> Some (Inl ())
       | Some opc \<Rightarrow>
         do { wb \<leftarrow> (if prot AND 0xf = LWS_WRITE_CLOSE \<and> close_reason (u_ws wsi) \<noteq> 0 then
                (if wb_off wb < 2 then None
                 else do { mem \<leftarrow> blit (wb_mem wb) (wb_off wb - 2)
                             [ucast (drop_bit 8 (close_reason (u_ws wsi))), ucast (close_reason (u_ws wsi))];
                           Some (wb\<lparr>wb_mem := mem, wb_off := wb_off wb - 2, wb_len := (wb_len wb + 2) mod 2 ^ 64\<rparr>) })
              else Some wb);
              hdr \<leftarrow> Some (frame_header (if prot AND LWS_WRITE_NO_FIN = 0 then opc OR 0x80 else opc)
                             (wb_len wb) is_masked_bit);
              if wb_off wb < pre + length hdr then None
              else do { mem \<leftarrow> blit (wb_mem wb) (wb_off wb - (pre + length hdr)) hdr;
                Some (Inr (wb\<lparr>wb_mem := mem, wb_pre := pre + length hdr, wb_dropmask := dropmask\<rparr>)) } })"

text \<open>The label \<open>do_more_inside_frame\<close>: masking in client mode.\<close>

definition mask_frame :: "'u env \<Rightarrow> 'u lws \<Rightarrow> write_buf \<Rightarrow> ((int \<times> 'u lws) + ('u lws \<times> write_buf)) option" where
  "mask_frame E wsi wb =
    (if mode wsi = LWS_CONNMODE_WS_CLIENT then
       let (k, wsi) = (if \<not> inside_frame (u_ws wsi) then libwebsocket_0405_frame_mask_generate E wsi
                       else (0, wsi)) in
       if k \<noteq> 0 then Some (Inl (-1, wsi))
       else do { cnt \<leftarrow> mask_count (wb_len wb);
         if cnt = 0 \<and> wb_dropmask wb = None then Some (Inr (wsi, wb))
         else do { d \<leftarrow> wb_dropmask wb;
           (mem, idx) \<leftarrow> mask_loop cnt (d + 4) (wb_mem wb)
                          (frame_mask_index (u_ws wsi)) (frame_masking_nonce_04 (u_ws wsi));
           mem \<leftarrow> blit mem d (take 4 (frame_masking_nonce_04 (u_ws wsi)));
           Some (Inr (upd_ws (\<lambda>w. w\<lparr>frame_mask_index := idx\<rparr>) wsi, wb\<lparr>wb_mem := mem\<rparr>)) } }
     else Some (Inr (wsi, wb)))"

text \<open>
  The label \<open>send_raw\<close>. The length of what goes out is a \<open>size_t\<close>, what was sent and the result are \<open>int\<close>; a
  non-negative \<open>n\<close> is compared with the length as a \<open>size_t\<close>.
\<close>

definition send_raw :: "'u env \<Rightarrow> nat \<Rightarrow> nat \<Rightarrow> 'u lws \<Rightarrow> write_buf \<Rightarrow> (int \<times> 'u lws) option" where
  "send_raw E prot orig_len wsi wb =
    (if wb_off wb < wb_pre wb then None
     else
       let total = (wb_len wb + wb_pre wb) mod 2 ^ 64;
           buf = \<lparr>tok_mem = wb_mem wb, tok_off = wb_off wb - wb_pre wb,
                  tok_len = int total, tok_moved = False\<rparr> in
       if prot \<in> {LWS_WRITE_CLOSE, LWS_WRITE_HTTP, LWS_WRITE_PONG, LWS_WRITE_PING}
       then lws_issue_raw E buf wsi
       else do { (n, wsi) \<leftarrow> lws_issue_raw_ext_access E buf (upd_ws (\<lambda>w. w\<lparr>inside_frame := True\<rparr>) wsi);
         if n < 0 then Some (n, wsi)
         else if n = int total
         then Some (c_int (int orig_len), upd_ws (\<lambda>w. w\<lparr>inside_frame := False\<rparr>) wsi)
         else Some (n - int (wb_pre wb), wsi) })"

text \<open>
  \<open>libwebsocket_write(wsi, mem + off, len, protocol)\<close>. The last component of the result is the caller's
  block afterwards; an extension that moves the payload leaves the caller's block alone. Outside a frame the
  length goes through \<open>eff_buf.token_len\<close>, an \<open>int\<close>, and back into \<open>len\<close>, a \<open>size_t\<close>.
\<close>

definition libwebsocket_write ::
  "'u env \<Rightarrow> 'u lws \<Rightarrow> byte list \<Rightarrow> nat \<Rightarrow> nat \<Rightarrow> nat \<Rightarrow> (int \<times> 'u lws \<times> byte list) option" where
  "libwebsocket_write E wsi mem off len prot =
    (let wb0 = \<lparr>wb_mem = mem, wb_off = off, wb_len = len, wb_pre = 0, wb_dropmask = None\<rparr> in
     if len = 0 \<and> prot \<notin> {LWS_WRITE_CLOSE, LWS_WRITE_PING, LWS_WRITE_PONG} then Some (0, wsi, mem)
     else if prot = LWS_WRITE_HTTP then
       do { (n, wsi) \<leftarrow> send_raw E prot len wsi wb0; Some (n, wsi, mem) }
     else if state wsi \<noteq> WSI_STATE_ESTABLISHED then Some (-1, wsi, mem)
     else if inside_frame (u_ws wsi) then
       do { res \<leftarrow> mask_frame E wsi wb0;
            case res of Inl (r, wsi) \<Rightarrow> Some (r, wsi, mem)
            | Inr (wsi, wb) \<Rightarrow> do { (n, wsi) \<leftarrow> send_raw E prot len wsi wb; Some (n, wsi, wb_mem wb) } }
     else
       let wsi = upd_ws (\<lambda>w. w\<lparr>clean_buffer := \<not> no_buffer_all_partial_tx (protocol wsi)\<rparr>) wsi;
           tok0 = \<lparr>tok_mem = mem, tok_off = off, tok_len = c_int (int len), tok_moved = False\<rparr>;
           (fatal, _, tok, wsi) =
             (if prot \<in> {LWS_WRITE_PING, LWS_WRITE_PONG, LWS_WRITE_CLOSE} then (False, False, tok0, wsi)
              else ext_loop E LWS_EXT_CALLBACK_PAYLOAD_TX (active_extensions wsi) tok0 wsi);
           mem1 = (if tok_moved tok then mem else tok_mem tok) in
       if fatal then Some (-1, wsi, mem1)
       else
         let wsi = (if tok_moved tok then upd_ws (\<lambda>w. w\<lparr>clean_buffer := False\<rparr>) wsi else wsi);
             wb = \<lparr>wb_mem = tok_mem tok, wb_off = tok_off tok, wb_len = c_size (tok_len tok),
                   wb_pre = 0, wb_dropmask = None\<rparr>;
             left = (\<lambda>wb. if tok_moved tok then mem1 else wb_mem wb) in
         do { built \<leftarrow> (if ietf_spec_revision wsi = 13 then build_frame prot wsi wb else Some (Inr wb));
              case built of Inl _ \<Rightarrow> Some (-1, wsi, mem1)
              | Inr wb \<Rightarrow>
                do { res \<leftarrow> mask_frame E wsi wb;
                     case res of Inl (r, wsi) \<Rightarrow> Some (r, wsi, left wb)
                     | Inr (wsi, wb) \<Rightarrow>
                         do { (n, wsi) \<leftarrow> send_raw E prot len wsi wb; Some (n, wsi, left wb) } } })"

section \<open>Flow control and writability\<close>

text \<open>\<open>_libwebsocket_rx_flow_control\<close>: apply a pending change once nothing is buffered any more.\<close>

definition rx_flow_control_internal :: "'u env \<Rightarrow> 'u lws \<Rightarrow> int \<times> 'u lws" where
  "rx_flow_control_internal E wsi =
    (if rxflow_change_to (u_ws wsi) AND LWS_RXFLOW_PENDING_CHANGE = 0 then (0, wsi)
     else if rxflow_buffer (u_ws wsi) \<noteq> None then (0, snd (libwebsocket_callback_on_writable E wsi))
     else
       let wsi = upd_ws (\<lambda>w. w\<lparr>rxflow_change_to := rxflow_change_to w AND NOT LWS_RXFLOW_PENDING_CHANGE\<rparr>) wsi;
           allow = (rxflow_change_to (u_ws wsi) AND LWS_RXFLOW_ALLOW \<noteq> 0);
           wsi = wsi\<lparr>pollin := allow\<rparr>
       in (1, proto0_cb E (if allow then LWS_CALLBACK_SET_MODE_POLL_FD else LWS_CALLBACK_CLEAR_MODE_POLL_FD)
                (sock wsi) POLLIN wsi))"

definition libwebsocket_rx_flow_control :: "bool \<Rightarrow> 'u lws \<Rightarrow> int \<times> 'u lws" where
  "libwebsocket_rx_flow_control enable wsi =
    (if enable = (rxflow_change_to (u_ws wsi) AND LWS_RXFLOW_ALLOW \<noteq> 0) then (0, wsi)
     else (0, upd_ws (\<lambda>w. w\<lparr>rxflow_change_to := LWS_RXFLOW_PENDING_CHANGE OR (if enable then 1 else 0)\<rparr>) wsi))"

definition user_callback_handle_rxflow :: "'u env \<Rightarrow> callback_reason \<Rightarrow> byte list \<Rightarrow> 'u lws \<Rightarrow> int \<times> 'u lws" where
  "user_callback_handle_rxflow E reason bs wsi = (case user_cb E reason bs wsi of (n, wsi) \<Rightarrow>
     if n = 0 then rx_flow_control_internal E wsi else (n, wsi))"

text \<open>The spill loop of \<open>lws_handle_POLLOUT_event\<close>: -1 fatal, 0 choked, 1 nothing left to spill.\<close>

partial_function (option) pollout_spill :: "'u env \<Rightarrow> 'u lws \<Rightarrow> (int \<times> 'u lws) option" where
  "pollout_spill E wsi =
    (case ext_loop E LWS_EXT_CALLBACK_PACKET_TX_PRESEND (active_extensions wsi) no_tokens wsi of
      (fatal, again, tok, wsi) \<Rightarrow>
        if fatal then Some (-1, wsi)
        else if tok_len tok = 0 then (if again then pollout_spill E wsi else Some (1, wsi))
        else do { (n, wsi) \<leftarrow> lws_issue_raw E tok wsi;
          if n < 0 \<or> n \<noteq> tok_len tok then Some (-1, wsi)
          else if \<not> again then Some (1, wsi)
          else (case lws_send_pipe_choked E wsi of (choked, wsi) \<Rightarrow>
            if \<not> choked then pollout_spill E wsi else Some (0, wsi)) })"

declare pollout_spill.simps [code]

fun ext_is_writeable :: "'u env \<Rightarrow> nat list \<Rightarrow> int \<Rightarrow> 'u lws \<Rightarrow> int \<times> 'u lws" where
  "ext_is_writeable E [] handled wsi = (handled, wsi)"
| "ext_is_writeable E (x # xs) handled wsi =
     (case ext_cb E x LWS_EXT_CALLBACK_IS_WRITEABLE no_tokens wsi of (k, _, wsi) \<Rightarrow>
        ext_is_writeable E xs (max handled k) wsi)"

text \<open>The labels \<open>user_service\<close> and \<open>notify_action\<close>.\<close>

definition notify_action :: "'u env \<Rightarrow> 'u lws \<Rightarrow> int \<times> 'u lws" where
  "notify_action E wsi = user_callback_handle_rxflow E
     (if mode wsi = LWS_CONNMODE_WS_CLIENT then LWS_CALLBACK_CLIENT_WRITEABLE
      else LWS_CALLBACK_SERVER_WRITEABLE) [] wsi"

definition user_service :: "'u env \<Rightarrow> bool \<Rightarrow> 'u lws \<Rightarrow> int \<times> 'u lws" where
  "user_service E pollfd wsi = notify_action E
     (if pollfd then proto0_cb E LWS_CALLBACK_CLEAR_MODE_POLL_FD (sock wsi) POLLOUT (wsi\<lparr>pollout := False\<rparr>)
      else wsi)"

definition lws_handle_POLLOUT_event :: "'u env \<Rightarrow> bool \<Rightarrow> 'u lws \<Rightarrow> (int \<times> 'u lws) option" where
  "lws_handle_POLLOUT_event E pollfd wsi =
    (case truncated_send_malloc (u_ws wsi) of
      Some blk \<Rightarrow>
        do { (_, wsi) \<leftarrow> lws_issue_raw E \<lparr>tok_mem = blk, tok_off = unat (truncated_send_offset (u_ws wsi)),
                tok_len = int (unat (truncated_send_len (u_ws wsi))), tok_moved = False\<rparr> wsi;
             Some (0, wsi) }
    | None \<Rightarrow>
        (case ext_is_writeable E (active_extensions wsi) 0 wsi of (handled, wsi) \<Rightarrow>
          if handled = 1 then Some (notify_action E wsi)
          else if \<not> extension_data_pending wsi \<or> handled = 2 then Some (user_service E pollfd wsi)
          else do { (r, wsi) \<leftarrow> pollout_spill E wsi;
            if r \<le> 0 then Some (r, wsi)
            else Some (user_service E pollfd (wsi\<lparr>extension_data_pending := False\<rparr>)) }))"

section \<open>RFC 6455 frames as a specification\<close>

definition xor_key :: "byte list \<Rightarrow> byte list \<Rightarrow> byte list" where
  "xor_key key payload = map (\<lambda>j. payload ! j XOR key ! (j mod 4)) [0..<length payload]"

definition ws_length :: "nat \<Rightarrow> nat \<Rightarrow> byte list" where
  "ws_length mbit len = (if len < 126 then [of_nat (mbit + len)]
     else if len < 65536 then of_nat (mbit + 126) # be_bytes 2 len
     else of_nat (mbit + 127) # be_bytes 8 len)"

definition ws_frame :: "bool \<Rightarrow> byte \<Rightarrow> byte list option \<Rightarrow> byte list \<Rightarrow> byte list" where
  "ws_frame fin opc key payload = (if fin then opc OR 0x80 else opc) # (case key of
      None \<Rightarrow> ws_length 0 (length payload) @ payload
    | Some k \<Rightarrow> ws_length 128 (length payload) @ k @ xor_key k payload)"

lemma length_xor_key [simp]: "length (xor_key key payload) = length payload"
  by (simp add: xor_key_def)

lemma xor_key_involutive: "xor_key key (xor_key key payload) = payload"
  by (rule nth_equalityI) (simp_all add: xor_key_def xor.assoc)

section \<open>The header\<close>

lemma be_bytes_2_8:
  "be_bytes 2 v = [of_nat (v div 2 ^ 8), of_nat v]"
  "be_bytes 8 v = [of_nat (v div 2 ^ 56), of_nat (v div 2 ^ 48), of_nat (v div 2 ^ 40), of_nat (v div 2 ^ 32),
     of_nat (v div 2 ^ 24), of_nat (v div 2 ^ 16), of_nat (v div 2 ^ 8), of_nat v]"
  by (simp_all add: be_bytes_def upt_conv_Cons)

lemma or_0x80: "k < 128 \<Longrightarrow> (of_nat k :: byte) OR 0x80 = of_nat (128 + k)"
proof -
  assume "k < 128"
  then have "unat (of_nat k :: byte) < 2 ^ 7" by (simp add: unat_of_nat)
  then have "unat (push_bit 7 (1 :: byte) OR of_nat k) = unat (1 :: byte) * 2 ^ 7 + unat (of_nat k :: byte)"
    by (rule unat_shift_or) simp
  then have "unat ((of_nat k :: byte) OR 0x80) = 128 + k" using \<open>k < 128\<close> by (simp add: unat_of_nat or.commute)
  then show ?thesis using \<open>k < 128\<close> by (simp add: word_unat_eq_iff unat_of_nat del: of_nat_add)
qed

lemma top_bit_clear: "len < 2 ^ 63 \<Longrightarrow> (of_nat (len div 2 ^ 56) AND 0x7f :: byte) = of_nat (len div 2 ^ 56)"
proof -
  assume "len < 2 ^ 63"
  then have "len div 2 ^ 56 < 2 ^ 7" by (simp add: less_mult_imp_div_less)
  then have "take_bit 7 (of_nat (len div 2 ^ 56) :: byte) = of_nat (len div 2 ^ 56)"
    by (simp add: take_bit_of_nat take_bit_nat_eq_self)
  then show ?thesis by (simp add: take_bit_eq_mask mask_eq_exp_minus_1)
qed

lemma frame_header_eq:
  assumes "len < 2 ^ 63"
  shows "frame_header n len 0 = n # ws_length 0 len" "frame_header n len 0x80 = n # ws_length 128 len"
proof -
  have "(126 :: byte) OR 0x80 = of_nat (128 + 126)" "(127 :: byte) OR 0x80 = of_nat (128 + 127)"
    using or_0x80[of 126] or_0x80[of 127] by simp_all
  then show "frame_header n len 0 = n # ws_length 0 len" "frame_header n len 0x80 = n # ws_length 128 len"
    using or_0x80[of len] top_bit_clear[OF assms]
    by (simp_all add: frame_header_def ws_length_def be_bytes_2_8 del: of_nat_add)
qed

lemma length_ws_length: "length (ws_length b len) = (if len < 126 then 1 else if len < 65536 then 3 else 9)"
  by (simp add: ws_length_def)

section \<open>Masking\<close>

lemma idx_next: "unat (idx + 1 :: byte) mod 4 = (unat idx + 1) mod 4"
proof -
  have "unat (idx + 1) = (unat idx + 1) mod 256" by (simp add: unat_word_ariths)
  then have "unat (idx + 1) mod 4 = (unat idx + 1) mod 256 mod 4" by simp
  also have "\<dots> = (unat idx + 1) mod 4" by (rule mod_mod_cancel) simp
  finally show ?thesis .
qed

lemma idx_and_3: "unat (idx AND 3 :: byte) = unat idx mod 4"
  using unat_and_mask[of idx 2] by (simp add: mask_eq_exp_minus_1)

lemma mask_loop_eq:
  "length nonce = 4 \<Longrightarrow> i + cnt \<le> length mem \<Longrightarrow>
   mask_loop cnt i mem idx nonce = Some (take i mem @
     map (\<lambda>j. mem ! (i + j) XOR nonce ! ((unat idx + j) mod 4)) [0..<cnt] @ drop (i + cnt) mem, idx + of_nat cnt)"
proof (induction cnt arbitrary: i mem idx)
  case (Suc cnt)
  let ?m = "mem[i := mem ! i XOR nonce ! (unat idx mod 4)]"
  have i: "i < length mem" using Suc.prems by simp
  have "(unat (idx + 1) + j) mod 4 = (unat idx + Suc j) mod 4" for j
    using idx_next[of idx] by (metis add.assoc add.commute mod_add_left_eq plus_1_eq_Suc)
  then have "mask_loop cnt (i + 1) ?m (idx + 1) nonce = Some (take (i + 1) ?m @
     map (\<lambda>j. mem ! (i + Suc j) XOR nonce ! ((unat idx + Suc j) mod 4)) [0..<cnt] @ drop (i + 1 + cnt) ?m,
     idx + 1 + of_nat cnt)"
    using Suc.IH[of "i + 1" ?m "idx + 1"] Suc.prems i by simp
  moreover have "take (i + 1) ?m = take i mem @ [mem ! i XOR nonce ! (unat idx mod 4)]"
    using i by (simp add: take_Suc_conv_app_nth)
  moreover have "drop (i + 1 + cnt) ?m = drop (i + Suc cnt) mem" by simp
  moreover have "unat idx mod 4 < 4" by simp
  ultimately show ?case using i Suc.prems
    by (simp add: rd_def wr_def idx_and_3 upt_conv_Cons map_Suc_upt[symmetric] add.assoc o_def del: upt_Suc)
qed simp

lemma mask_loop_xor_key:
  assumes "length key = 4" "off + len \<le> length mem"
  shows "mask_loop len off mem 0 key = Some (take off mem @ xor_key key (take len (drop off mem)) @ drop (off + len) mem, of_nat len)"
proof -
  have "map (\<lambda>j. mem ! (off + j) XOR key ! (j mod 4)) [0..<len] = xor_key key (take len (drop off mem))"
    using assms by (simp add: xor_key_def)
  then show ?thesis using mask_loop_eq[OF assms, of 0] by simp
qed

lemma mask_count_eq: "len + 4 < 2 ^ 31 \<Longrightarrow> mask_count len = Some len"
  by (simp add: mask_count_def)

section \<open>Sending without extensions\<close>

lemma issue_raw_plain:
  assumes "active_extensions wsi = []" "tok_bytes buf = Some bs" "0 \<le> os_send E (sys_calls wsi) bs"
    "os_send E (sys_calls wsi) bs < 2 ^ 31"
  shows "lws_issue_raw E buf wsi = Some (handle_truncated_send E bs (os_send E (sys_calls wsi) bs)
     (wsi\<lparr>sys_calls := sys_calls wsi + 1, wire := wire wsi @ take (nat (os_send E (sys_calls wsi) bs)) bs\<rparr>))"
  using assms by (simp add: lws_issue_raw_def Let_def)

lemma issue_raw_all:
  assumes "active_extensions wsi = []" "tok_bytes buf = Some bs" "truncated_send_malloc (u_ws wsi) = None"
    "os_send E (sys_calls wsi) bs = int (length bs)" "length bs < 2 ^ 31"
  shows "lws_issue_raw E buf wsi = Some (int (length bs),
     wsi\<lparr>sys_calls := sys_calls wsi + 1, wire := wire wsi @ bs\<rparr>)"
  using assms by (simp add: issue_raw_plain handle_truncated_send_def)

lemma tok_bytes_len: "tok_bytes buf = Some bs \<Longrightarrow> tok_len buf = int (length bs)"
  by (auto simp: tok_bytes_def split: if_splits)

lemma ext_access_all:
  assumes "active_extensions wsi = []" "tok_bytes buf = Some bs" "truncated_send_malloc (u_ws wsi) = None"
    "os_send E (sys_calls wsi) bs = int (length bs)" "length bs < 2 ^ 31" "\<not> tok_moved buf"
  shows "lws_issue_raw_ext_access E buf wsi = Some (int (length bs),
     if bs = [] then wsi else wsi\<lparr>sys_calls := sys_calls wsi + 1, wire := wire wsi @ bs\<rparr>)"
  using assms tok_bytes_len[OF assms(2)] issue_raw_all[OF assms(1-5)]
  by (cases buf) (simp add: lws_issue_raw_ext_access_def ext_access_loop.simps[of E _ wsi])

lemma send_raw_all:
  assumes "active_extensions wsi = []" "truncated_send_malloc (u_ws wsi) = None" "wb_pre wb \<le> wb_off wb"
    and bs: "bs = take (wb_len wb + wb_pre wb) (drop (wb_off wb - wb_pre wb) (wb_mem wb))"
    and len: "wb_off wb + wb_len wb \<le> length (wb_mem wb)" "0 < wb_len wb + wb_pre wb"
      "wb_len wb + wb_pre wb < 2 ^ 31"
    and all: "os_send E (sys_calls wsi) bs = int (length bs)"
  shows "send_raw E prot orig_len wsi wb = Some
    (if prot \<in> {LWS_WRITE_CLOSE, LWS_WRITE_HTTP, LWS_WRITE_PONG, LWS_WRITE_PING}
     then (int (length bs), wsi\<lparr>sys_calls := sys_calls wsi + 1, wire := wire wsi @ bs\<rparr>)
     else (c_int (int orig_len), upd_ws (\<lambda>w. w\<lparr>inside_frame := False\<rparr>)
             (wsi\<lparr>sys_calls := sys_calls wsi + 1, wire := wire wsi @ bs\<rparr>)))"
proof -
  let ?buf = "\<lparr>tok_mem = wb_mem wb, tok_off = wb_off wb - wb_pre wb,
                  tok_len = int (wb_len wb + wb_pre wb), tok_moved = False\<rparr>"
  have tb: "tok_bytes ?buf = Some bs"
    using bs len(1) assms(3) by (simp add: tok_bytes_def nat_add_distrib)
  have lb: "length bs = wb_len wb + wb_pre wb" using bs len(1) assms(3) by simp
  then have ne: "bs \<noteq> []" "length bs < 2 ^ 31" using len(2,3) by auto
  let ?w = "upd_ws (\<lambda>w. w\<lparr>inside_frame := True\<rparr>) wsi"
  have "lws_issue_raw_ext_access E ?buf ?w = Some (int (length bs), ?w\<lparr>sys_calls := sys_calls wsi + 1, wire := wire wsi @ bs\<rparr>)"
    using ext_access_all[of ?w ?buf bs E] tb assms(1,2) all ne by (simp add: upd_ws_def)
  then show ?thesis
    using issue_raw_all[OF assms(1) tb assms(2) all ne(2)] assms(3) lb len(3)
    by (simp add: send_raw_def Let_def upd_ws_def)
qed

section \<open>Writing a frame\<close>

text \<open>A connection that is ready for a new frame and has no extensions.\<close>

definition tx_ready :: "'u lws \<Rightarrow> bool" where
  "tx_ready wsi \<longleftrightarrow> state wsi = WSI_STATE_ESTABLISHED \<and> ietf_spec_revision wsi = 13 \<and>
     \<not> inside_frame (u_ws wsi) \<and> active_extensions wsi = [] \<and> truncated_send_malloc (u_ws wsi) = None \<and>
     length (frame_masking_nonce_04 (u_ws wsi)) = 4"

definition fin_of :: "nat \<Rightarrow> bool" where
  "fin_of prot \<longleftrightarrow> prot AND LWS_WRITE_NO_FIN = 0"

text \<open>What a write returns when everything was sent: the bytes on the wire for a control frame, else the payload.\<close>

definition write_ret :: "nat \<Rightarrow> byte list \<Rightarrow> nat \<Rightarrow> int" where
  "write_ret prot frame len = (if prot \<in> {LWS_WRITE_CLOSE, LWS_WRITE_PONG, LWS_WRITE_PING}
     then int (length frame) else int len)"

text \<open>The connection after a frame has gone out whole.\<close>

definition tx_done :: "byte list \<Rightarrow> 'u lws \<Rightarrow> 'u lws" where
  "tx_done frame wsi = upd_ws (\<lambda>w. w\<lparr>clean_buffer := \<not> no_buffer_all_partial_tx (protocol wsi)\<rparr>)
     (wsi\<lparr>sys_calls := sys_calls wsi + 1, wire := wire wsi @ frame\<rparr>)"

definition tx_done_client :: "byte list \<Rightarrow> nat \<Rightarrow> byte list \<Rightarrow> 'u lws \<Rightarrow> 'u lws" where
  "tx_done_client key len frame wsi = upd_ws (\<lambda>w. w\<lparr>frame_masking_nonce_04 := key, frame_mask_index := of_nat len\<rparr>)
     (tx_done frame (wsi\<lparr>sys_calls := sys_calls wsi + 1\<rparr>))"

text \<open>
  A write on a server connection, down to the call that sends: the frame stands in front of and over the payload. What is
  framed is as much of the payload as the low 32 bits of the length tell.
\<close>

lemma write_server_built:
  assumes ready: "tx_ready wsi" and mode: "mode wsi \<noteq> LWS_CONNMODE_WS_CLIENT"
    and opc: "write_opcode prot = Some opc" "prot AND 0xf = LWS_WRITE_CLOSE \<longrightarrow> close_reason (u_ws wsi) = 0"
    and len: "0 < len \<or> prot \<in> {LWS_WRITE_CLOSE, LWS_WRITE_PING, LWS_WRITE_PONG}"
    and k: "len mod 2 ^ 32 = k" "k + 10 < 2 ^ 31"
    and pad: "10 \<le> off" "off + k \<le> length mem"
    and frame: "frame = ws_frame (fin_of prot) opc None (take k (drop off mem))"
  obtains wb where "libwebsocket_write E wsi mem off len prot = map_option (\<lambda>(n, w). (n, w, wb_mem wb))
      (send_raw E prot len (upd_ws (\<lambda>w. w\<lparr>clean_buffer := \<not> no_buffer_all_partial_tx (protocol wsi)\<rparr>) wsi) wb)"
    "frame = take (wb_len wb + wb_pre wb) (drop (wb_off wb - wb_pre wb) (wb_mem wb))"
    "wb_pre wb \<le> wb_off wb" "wb_off wb + wb_len wb \<le> length (wb_mem wb)" "0 < wb_pre wb"
    "wb_len wb + wb_pre wb < 2 ^ 31"
    "length (wb_mem wb) = length mem" "drop off (wb_mem wb) = drop off mem"
proof -
  define hdr where "hdr = frame_header (if fin_of prot then opc OR 0x80 else opc) k 0"
  define w1 where "w1 = upd_ws (\<lambda>w. w\<lparr>clean_buffer := \<not> no_buffer_all_partial_tx (protocol wsi)\<rparr>) wsi"
  define m1 where "m1 = take (off - length hdr) mem @ hdr @ drop off mem"
  define wb1 where "wb1 = \<lparr>wb_mem = m1, wb_off = off, wb_len = k, wb_pre = length hdr, wb_dropmask = None\<rparr>"
  have k63: "k < 2 ^ 63" using k(2) by simp
  have h: "hdr = (if fin_of prot then opc OR 0x80 else opc) # ws_length 0 k"
    unfolding hdr_def by (rule frame_header_eq(1)[OF k63])
  have lh: "0 < length hdr" "length hdr \<le> 10" unfolding h by (simp_all add: length_ws_length)
  have nh: "prot \<noteq> LWS_WRITE_HTTP" using opc(1) by (auto simp: write_opcode_def c_defs)
  have r: "state wsi = WSI_STATE_ESTABLISHED" "ietf_spec_revision w1 = 13" "\<not> inside_frame (u_ws wsi)"
     "active_extensions w1 = []" "mode w1 = mode wsi" "close_reason (u_ws w1) = close_reason (u_ws wsi)"
    using ready by (auto simp: tx_ready_def w1_def)
  have build: "build_frame prot w1 \<lparr>wb_mem = mem, wb_off = off, wb_len = k, wb_pre = 0, wb_dropmask = None\<rparr> = Some (Inr wb1)"
    using mode opc lh pad r(5,6)
    by (cases "prot AND 0xf = LWS_WRITE_CLOSE") (simp_all add: build_frame_def Let_def blit_def fin_of_def[symmetric] hdr_def[symmetric] wb1_def m1_def)
  have mask: "mask_frame E w1 wb1 = Some (Inr (w1, wb1))" using mode r(5) by (simp add: mask_frame_def)
  have c: "\<not> (len = 0 \<and> prot \<notin> {LWS_WRITE_CLOSE, LWS_WRITE_PING, LWS_WRITE_PONG})" using len by auto
  have tl: "c_size (c_int (int len)) = k"
    using c_int_mod[of len] c_size_nat[of k] k by simp
  have w: "libwebsocket_write E wsi mem off len prot = map_option (\<lambda>(n, w). (n, w, wb_mem wb1)) (send_raw E prot len w1 wb1)"
    unfolding libwebsocket_write_def using c nh r(1-4) build mask tl
    by (simp only: Let_def w1_def[symmetric] if_False not_not) (simp add: map_conv_bind_option split_def comp_def)
  show thesis
    by (rule that[OF w[unfolded w1_def]]) (use frame h lh pad k in \<open>simp_all add: ws_frame_def wb1_def m1_def\<close>)
qed

lemma write_server_mod:
  assumes ready: "tx_ready wsi" and mode: "mode wsi \<noteq> LWS_CONNMODE_WS_CLIENT"
    and opc: "write_opcode prot = Some opc" "prot AND 0xf = LWS_WRITE_CLOSE \<longrightarrow> close_reason (u_ws wsi) = 0"
    and len: "0 < len \<or> prot \<in> {LWS_WRITE_CLOSE, LWS_WRITE_PING, LWS_WRITE_PONG}"
    and k: "len mod 2 ^ 32 = k" "k + 10 < 2 ^ 31"
    and pad: "10 \<le> off" "off + k \<le> length mem"
    and frame: "frame = ws_frame (fin_of prot) opc None (take k (drop off mem))"
    and all: "os_send E (sys_calls wsi) frame = int (length frame)"
  shows "\<exists>mem'. libwebsocket_write E wsi mem off len prot = Some (write_ret prot frame k, tx_done frame wsi, mem') \<and>
     length mem' = length mem \<and> drop off mem' = drop off mem"
proof -
  define w1 where "w1 = upd_ws (\<lambda>w. w\<lparr>clean_buffer := \<not> no_buffer_all_partial_tx (protocol wsi)\<rparr>) wsi"
  define w2 where "w2 = w1\<lparr>sys_calls := sys_calls w1 + 1, wire := wire w1 @ frame\<rparr>"
  obtain wb where w: "libwebsocket_write E wsi mem off len prot = map_option (\<lambda>(n, w). (n, w, wb_mem wb)) (send_raw E prot len w1 wb)"
    and fr: "frame = take (wb_len wb + wb_pre wb) (drop (wb_off wb - wb_pre wb) (wb_mem wb))"
    and wb: "wb_pre wb \<le> wb_off wb" "wb_off wb + wb_len wb \<le> length (wb_mem wb)" "0 < wb_pre wb" "wb_len wb + wb_pre wb < 2 ^ 31"
      "length (wb_mem wb) = length mem" "drop off (wb_mem wb) = drop off mem"
    unfolding w1_def by (rule write_server_built[OF assms(1-10)])
  have r: "active_extensions w1 = []" "truncated_send_malloc (u_ws w1) = None" "\<not> inside_frame (u_ws wsi)" "sys_calls w1 = sys_calls wsi"
    using ready by (auto simp: tx_ready_def w1_def)
  have nh: "prot \<noteq> LWS_WRITE_HTTP" using opc(1) by (auto simp: write_opcode_def c_defs)
  have "send_raw E prot len w1 wb = Some
    (if prot \<in> {LWS_WRITE_CLOSE, LWS_WRITE_HTTP, LWS_WRITE_PONG, LWS_WRITE_PING}
     then (int (length frame), w2) else (c_int (int len), upd_ws (\<lambda>w. w\<lparr>inside_frame := False\<rparr>) w2))"
    unfolding w2_def by (rule send_raw_all[OF r(1,2) wb(1) fr wb(2)]) (use wb(3,4) all r(4) in auto)
  moreover have "c_int (int len) = int k" using c_int_mod[of len] k by simp
  moreover have "w2 = tx_done frame wsi" "upd_ws (\<lambda>w. w\<lparr>inside_frame := False\<rparr>) w2 = tx_done frame wsi"
    using r(3) by (cases wsi; cases "u_ws wsi"; auto simp: w2_def w1_def tx_done_def upd_ws_def)+
  ultimately show ?thesis using w wb(5,6) nh by (auto simp: write_ret_def)
qed

lemma write_server:
  assumes "tx_ready wsi" "mode wsi \<noteq> LWS_CONNMODE_WS_CLIENT"
    and "write_opcode prot = Some opc" "prot AND 0xf = LWS_WRITE_CLOSE \<longrightarrow> close_reason (u_ws wsi) = 0"
    and "0 < len \<or> prot \<in> {LWS_WRITE_CLOSE, LWS_WRITE_PING, LWS_WRITE_PONG}" "len + 10 < 2 ^ 31"
    and "10 \<le> off" "off + len \<le> length mem"
    and "frame = ws_frame (fin_of prot) opc None (take len (drop off mem))"
    and "os_send E (sys_calls wsi) frame = int (length frame)"
  shows "\<exists>mem'. libwebsocket_write E wsi mem off len prot = Some (write_ret prot frame len, tx_done frame wsi, mem') \<and>
     length mem' = length mem \<and> drop off mem' = drop off mem"
  by (rule write_server_mod[OF assms(1-5) _ assms(6-)]) (use assms(6) in simp)

lemma mask_frame_client:
  assumes "mode wsi = LWS_CONNMODE_WS_CLIENT" "\<not> inside_frame (u_ws wsi)" "wb_dropmask wb = Some d"
    "length (frame_masking_nonce_04 (u_ws wsi)) = 4"
    and key: "os_random E (sys_calls wsi) 4 = key" "length key = 4"
    and len: "wb_len wb + 4 < 2 ^ 31" "d + 4 + wb_len wb \<le> length (wb_mem wb)"
  shows "mask_frame E wsi wb = Some (Inr (upd_ws (\<lambda>w. w\<lparr>frame_masking_nonce_04 := key,
      frame_mask_index := of_nat (wb_len wb)\<rparr>) (wsi\<lparr>sys_calls := sys_calls wsi + 1\<rparr>),
     wb\<lparr>wb_mem := take d (wb_mem wb) @ key @ xor_key key (take (wb_len wb) (drop (d + 4) (wb_mem wb)))
        @ drop (d + 4 + wb_len wb) (wb_mem wb)\<rparr>))"
proof -
  have "libwebsocket_0405_frame_mask_generate E wsi = (0, upd_ws (\<lambda>w. w\<lparr>frame_masking_nonce_04 := key,
      frame_mask_index := 0\<rparr>) (wsi\<lparr>sys_calls := sys_calls wsi + 1\<rparr>))"
    using key assms(4) by (simp add: libwebsocket_0405_frame_mask_generate_def Let_def upd_ws_def)
  moreover note mask_loop_xor_key[OF key(2) len(2)]
  moreover have "blit (take (d + 4) (wb_mem wb) @ ys) d key = Some (take d (wb_mem wb) @ key @ ys)" for ys
    using key(2) len(2) by (simp add: blit_def)
  ultimately show ?thesis
    using assms(1-3) key(2) mask_count_eq[OF len(1)] by (simp add: mask_frame_def upd_ws_def)
qed

lemma write_client:
  assumes ready: "tx_ready wsi" and mode: "mode wsi = LWS_CONNMODE_WS_CLIENT"
    and opc: "write_opcode prot = Some opc" "prot AND 0xf = LWS_WRITE_CLOSE \<longrightarrow> close_reason (u_ws wsi) = 0"
    and len: "0 < len \<or> prot \<in> {LWS_WRITE_CLOSE, LWS_WRITE_PING, LWS_WRITE_PONG}" "len + 14 < 2 ^ 31"
    and pad: "14 \<le> off" "off + len \<le> length mem"
    and key: "os_random E (sys_calls wsi) 4 = key" "length key = 4"
    and frame: "frame = ws_frame (fin_of prot) opc (Some key) (take len (drop off mem))"
    and all: "os_send E (sys_calls wsi + 1) frame = int (length frame)"
  shows "\<exists>mem'. libwebsocket_write E wsi mem off len prot =
      Some (write_ret prot frame len, tx_done_client key len frame wsi, mem') \<and> length mem' = length mem \<and>
      drop (off + len) mem' = drop (off + len) mem"
proof -
  define hdr where "hdr = frame_header (if fin_of prot then opc OR 0x80 else opc) len 0x80"
  define w1 where "w1 = upd_ws (\<lambda>w. w\<lparr>clean_buffer := \<not> no_buffer_all_partial_tx (protocol wsi)\<rparr>) wsi"
  define m1 where "m1 = take (off - (4 + length hdr)) mem @ hdr @ drop (off - 4) mem"
  define wb1 where "wb1 = \<lparr>wb_mem = m1, wb_off = off, wb_len = len, wb_pre = 4 + length hdr, wb_dropmask = Some (off - 4)\<rparr>"
  define w2 where "w2 = upd_ws (\<lambda>w. w\<lparr>frame_masking_nonce_04 := key, frame_mask_index := of_nat len\<rparr>)
      (w1\<lparr>sys_calls := sys_calls w1 + 1\<rparr>)"
  define m2 where "m2 = take (off - 4) m1 @ key @ xor_key key (take len (drop off mem)) @ drop (off + len) mem"
  define wb2 where "wb2 = wb1\<lparr>wb_mem := m2\<rparr>"
  define w3 where "w3 = w2\<lparr>sys_calls := sys_calls w2 + 1, wire := wire w2 @ frame\<rparr>"
  have l63: "len < 2 ^ 63" using len(2) by simp
  have h: "hdr = (if fin_of prot then opc OR 0x80 else opc) # ws_length 128 len"
    unfolding hdr_def by (rule frame_header_eq(2)[OF l63])
  have lh: "0 < length hdr" "length hdr \<le> 10" unfolding h by (simp_all add: length_ws_length)
  have nh: "prot \<noteq> LWS_WRITE_HTTP" using opc(1) by (auto simp: write_opcode_def c_defs)
  have r: "state wsi = WSI_STATE_ESTABLISHED" "ietf_spec_revision w1 = 13" "\<not> inside_frame (u_ws wsi)"
     "active_extensions w1 = []" "truncated_send_malloc (u_ws w1) = None" "mode w1 = mode wsi" "wire w1 = wire wsi"
     "sys_calls w1 = sys_calls wsi" "\<not> inside_frame (u_ws w1)" "length (frame_masking_nonce_04 (u_ws w1)) = 4"
     "close_reason (u_ws w1) = close_reason (u_ws wsi)" "state w1 = state wsi"
    using ready by (auto simp: tx_ready_def w1_def)
  have build: "build_frame prot w1 \<lparr>wb_mem = mem, wb_off = off, wb_len = len, wb_pre = 0, wb_dropmask = None\<rparr> = Some (Inr wb1)"
  proof -
    have "off - (4 + length hdr) + length hdr = off - 4" "off - 4 \<le> length mem" using lh pad by linarith+
    then have b: "blit mem (off - (4 + length hdr)) hdr = Some m1" by (simp only: blit_def m1_def if_True)
    have "\<not> off < 4" "\<not> off < 4 + length hdr" using lh pad by linarith+
    then show ?thesis using mode opc r(6,11) b
      by (cases "prot AND 0xf = LWS_WRITE_CLOSE")
        (simp_all add: build_frame_def Let_def fin_of_def[symmetric] hdr_def[symmetric] wb1_def)
  qed
  have m1: "drop off m1 = drop off mem" "length m1 = length mem" "drop (off + len) m1 = drop (off + len) mem"
      "take (off - 4) m1 = take (off - (4 + length hdr)) mem @ hdr"
    using lh pad by (auto simp: m1_def add.commute)
  have mask: "mask_frame E w1 wb1 = Some (Inr (w2, wb2))"
    using mask_frame_client[of w1 wb1 "off - 4" E key] r mode key len(2) pad m1
    by (simp add: wb1_def wb2_def m2_def w2_def)
  have m2: "length m2 = length mem" "drop (off + len) m2 = drop (off + len) mem"
    using m1 lh pad key(2) by (auto simp: m2_def)
  have fr: "frame = take (wb_len wb2 + wb_pre wb2) (drop (wb_off wb2 - wb_pre wb2) (wb_mem wb2))"
  proof -
    have f: "frame = hdr @ key @ xor_key key (take len (drop off mem))"
      using frame h pad by (simp add: ws_frame_def)
    have "m2 = take (off - (4 + length hdr)) mem @ frame @ drop (off + len) mem"
      unfolding m2_def m1(4) f by simp
    moreover have "length (take (off - (4 + length hdr)) mem) = off - (4 + length hdr)" using pad by simp
    moreover have "length frame = len + (4 + length hdr)" using f key(2) pad by simp
    ultimately show ?thesis by (simp add: wb2_def wb1_def)
  qed
  have w2: "active_extensions w2 = []" "truncated_send_malloc (u_ws w2) = None" "sys_calls w2 = sys_calls wsi + 1"
    using r by (simp_all add: w2_def)
  have send: "send_raw E prot len w2 wb2 = Some
    (if prot \<in> {LWS_WRITE_CLOSE, LWS_WRITE_HTTP, LWS_WRITE_PONG, LWS_WRITE_PING}
     then (int (length frame), w3) else (c_int (int len), upd_ws (\<lambda>w. w\<lparr>inside_frame := False\<rparr>) w3))"
    unfolding w3_def
    by (rule send_raw_all[OF w2(1,2) _ fr]) (use lh pad all m2 w2(3) len(2) in \<open>auto simp: wb2_def wb1_def\<close>)
  have "libwebsocket_write E wsi mem off len prot = Some (write_ret prot frame len,
      (if prot \<in> {LWS_WRITE_CLOSE, LWS_WRITE_PONG, LWS_WRITE_PING} then w3
       else upd_ws (\<lambda>w. w\<lparr>inside_frame := False\<rparr>) w3), wb_mem wb2)"
  proof -
    have c: "\<not> (len = 0 \<and> prot \<notin> {LWS_WRITE_CLOSE, LWS_WRITE_PING, LWS_WRITE_PONG})" using len(1) by auto
    have tl: "c_int (int len) = int len" "c_size (int len) = len" using c_size_nat[of len] len(2) by simp_all
    show ?thesis unfolding libwebsocket_write_def
      using c nh r build mask send tl
      by (simp only: Let_def w1_def[symmetric] if_False not_not) (simp add: write_ret_def)
  qed
  moreover have "(if prot \<in> {LWS_WRITE_CLOSE, LWS_WRITE_PONG, LWS_WRITE_PING} then w3
       else upd_ws (\<lambda>w. w\<lparr>inside_frame := False\<rparr>) w3) = tx_done_client key len frame wsi"
    using r(3) by (cases wsi; cases "u_ws wsi") (auto simp: w3_def w2_def w1_def tx_done_def tx_done_client_def upd_ws_def)
  ultimately show ?thesis using m2 by (simp add: wb2_def)
qed

section \<open>Partial sends\<close>

text \<open>What is held back for the next time the socket is writable.\<close>

definition pending :: "'u lws \<Rightarrow> byte list" where
  "pending wsi = (case truncated_send_malloc (u_ws wsi) of None \<Rightarrow> []
     | Some blk \<Rightarrow> take (unat (truncated_send_len (u_ws wsi))) (drop (unat (truncated_send_offset (u_ws wsi))) blk))"

definition pending_ok :: "'u lws \<Rightarrow> bool" where
  "pending_ok wsi \<longleftrightarrow> (case truncated_send_malloc (u_ws wsi) of None \<Rightarrow> True
     | Some blk \<Rightarrow> 0 < truncated_send_len (u_ws wsi) \<and> length blk < 2 ^ 31 \<and>
         unat (truncated_send_offset (u_ws wsi)) + unat (truncated_send_len (u_ws wsi)) = length blk)"

text \<open>The poll-loop callback of protocol 0 is about the poll table: it does not touch the connection itself.\<close>

definition conn_core where
  "conn_core w = ((protocol w, active_extensions w, ietf_spec_revision w, mode w, state w, lws_rx_parse_state w),
     user_space w, u_hdr w, u_ws w, wire w)"

definition proto0_quiet :: "'u env \<Rightarrow> bool" where
  "proto0_quiet E \<longleftrightarrow> (\<forall>r fd ev w. conn_core (proto0_cb E r fd ev w) = conn_core w)"

lemma conn_core_poll [simp]: "conn_core (w\<lparr>pollout := b\<rparr>) = conn_core w" "conn_core (w\<lparr>pollin := b\<rparr>) = conn_core w"
  "conn_core (w\<lparr>sys_calls := n\<rparr>) = conn_core w" "conn_core (w\<lparr>extension_data_pending := b\<rparr>) = conn_core w"
  by (simp_all add: conn_core_def)

lemma on_writable_core:
  "proto0_quiet E \<Longrightarrow> active_extensions wsi = [] \<Longrightarrow> conn_core (snd (libwebsocket_callback_on_writable E wsi)) = conn_core wsi"
  by (simp add: libwebsocket_callback_on_writable_def proto0_quiet_def)

lemma on_writable_quiet:
  assumes "proto0_quiet E" "active_extensions wsi = []"
  shows "u_ws (snd (libwebsocket_callback_on_writable E wsi)) = u_ws wsi"
    "wire (snd (libwebsocket_callback_on_writable E wsi)) = wire wsi"
    "active_extensions (snd (libwebsocket_callback_on_writable E wsi)) = []"
  using on_writable_core[OF assms] assms(2) by (simp_all add: conn_core_def)

lemma pending_cong: "u_ws w = u_ws w' \<Longrightarrow> pending w = pending w' \<and> pending_ok w = pending_ok w'"
  by (simp add: pending_def pending_ok_def cong: option.case_cong)

lemma truncated_new:
  assumes "proto0_quiet E" "active_extensions wsi = []" "truncated_send_malloc (u_ws wsi) = None"
    "\<not> clean_buffer (u_ws wsi)" "os_malloc E (sys_calls wsi)" "0 \<le> n" "n \<le> int (length bs)" "length bs < 2 ^ 31"
  shows "fst (handle_truncated_send E bs n wsi) = int (length bs)"
    "pending (snd (handle_truncated_send E bs n wsi)) = drop (nat n) bs"
    "pending_ok (snd (handle_truncated_send E bs n wsi))"
    "wire (snd (handle_truncated_send E bs n wsi)) = wire wsi"
proof -
  let ?w = "upd_ws (\<lambda>w. w\<lparr>truncated_send_malloc := Some (drop (nat n) bs), truncated_send_offset := 0,
      truncated_send_len := of_nat (length bs - nat n)\<rparr>) (wsi\<lparr>sys_calls := sys_calls wsi + 1\<rparr>)"
  let ?v = "snd (libwebsocket_callback_on_writable E ?w)"
  have u: "unat (of_nat (length bs - nat n) :: u32) = length bs - nat n"
    using assms(8) by (simp add: unat_of_nat)
  have q: "u_ws ?v = u_ws ?w" "wire ?v = wire wsi" using on_writable_quiet[OF assms(1), of ?w] assms(2) by auto
  have e: "handle_truncated_send E bs n wsi = (if nat n < length bs then (int (length bs), ?v) else (n, wsi))"
    using assms by (simp add: handle_truncated_send_def Let_def)
  have p: "pending ?v = drop (nat n) bs" "nat n < length bs \<Longrightarrow> pending_ok ?v"
    using pending_cong[OF q(1)] u assms(8)
    by (auto simp: pending_def pending_ok_def word_less_nat_alt)
  have "pending wsi = []" "pending_ok wsi" using assms(3) by (simp_all add: pending_def pending_ok_def)
  then show "fst (handle_truncated_send E bs n wsi) = int (length bs)"
    "pending (snd (handle_truncated_send E bs n wsi)) = drop (nat n) bs"
    "pending_ok (snd (handle_truncated_send E bs n wsi))"
    "wire (snd (handle_truncated_send E bs n wsi)) = wire wsi"
    unfolding e using p q(2) assms(6,7) by auto
qed

lemma truncated_more:
  assumes "proto0_quiet E" "active_extensions wsi = []" "truncated_send_malloc (u_ws wsi) = Some blk"
    "pending_ok wsi" "pending wsi = bs" "0 \<le> n" "n \<le> int (length bs)"
  shows "fst (handle_truncated_send E bs n wsi) = n"
    "pending (snd (handle_truncated_send E bs n wsi)) = drop (nat n) bs"
    "pending_ok (snd (handle_truncated_send E bs n wsi))"
    "wire (snd (handle_truncated_send E bs n wsi)) = wire wsi"
    "active_extensions (snd (handle_truncated_send E bs n wsi)) = []"
proof -
  let ?o = "truncated_send_offset (u_ws wsi)" and ?l = "truncated_send_len (u_ws wsi)"
  have blk: "length blk < 2 ^ 31" "unat ?o + unat ?l = length blk" "0 < ?l"
    using assms(3,4) by (auto simp: pending_ok_def)
  have bs: "bs = take (unat ?l) (drop (unat ?o) blk)" using assms(3,5) by (simp add: pending_def)
  then have lb: "length bs = unat ?l" using blk(2) by simp
  define k :: u32 where "k = of_int n"
  have kn: "k = of_nat (nat n)" using assms(6) by (simp add: k_def)
  have nl: "nat n \<le> unat ?l" using assms(7) lb by linarith
  have k: "unat k = nat n" unfolding kn using nl blk(1,2) by (simp add: unat_of_nat)
  let ?w = "upd_ws (\<lambda>w. w\<lparr>truncated_send_offset := ?o + k, truncated_send_len := ?l - k\<rparr>) wsi"
  let ?v = "snd (libwebsocket_callback_on_writable E ?w)"
  have o: "unat (?o + k) = unat ?o + nat n" "unat (?l - k) = unat ?l - nat n"
    using nl blk(1,2) k by (simp_all add: unat_plus_if' unat_sub_if')
  have z: "?l - k = 0 \<longleftrightarrow> nat n = length bs" using o(2) nl lb by (auto simp: unat_eq_0[symmetric])
  have q: "u_ws ?v = u_ws ?w" "wire ?v = wire wsi" "active_extensions ?v = []" using on_writable_quiet[OF assms(1), of ?w] assms(2) by auto
  have e: "handle_truncated_send E bs n wsi = (n, if nat n = length bs
      then upd_ws (\<lambda>w. w\<lparr>truncated_send_malloc := None\<rparr>) ?w else ?v)"
    using assms(3) z by (simp add: handle_truncated_send_def Let_def k_def upd_ws_def)
  have "pending ?v = drop (nat n) bs"
    using pending_cong[OF q(1)] assms(3) o by (simp add: pending_def bs drop_take add.commute)
  moreover have "nat n \<noteq> length bs \<Longrightarrow> pending_ok ?v"
    using pending_cong[OF q(1)] assms(3,7) o blk nl lb by (auto simp: pending_ok_def word_less_nat_alt)
  ultimately show "fst (handle_truncated_send E bs n wsi) = n"
    "pending (snd (handle_truncated_send E bs n wsi)) = drop (nat n) bs"
    "pending_ok (snd (handle_truncated_send E bs n wsi))"
    "wire (snd (handle_truncated_send E bs n wsi)) = wire wsi"
    "active_extensions (snd (handle_truncated_send E bs n wsi)) = []"
    unfolding e using q(2,3) assms(2) by (auto simp: pending_def pending_ok_def)
qed

section \<open>Properties\<close>

text \<open>Surroundings and a connection to evaluate on: the kernel takes everything, user code does nothing.\<close>

definition sample_env :: "unit env" where
  "sample_env = \<lparr>os_send = \<lambda>t bs. int (length bs), os_random = \<lambda>t n. take n [0x11, 0x22, 0x33, 0x44],
     os_malloc = \<lambda>t. True, os_pipe_choked = \<lambda>t. False, user_cb = \<lambda>r bs w. (0, w),
     proto0_cb = \<lambda>r fd ev w. w, ext_cb = \<lambda>x r tok w. (0, tok, w)\<rparr>"

definition sample_protocol :: libwebsocket_protocols where
  "sample_protocol = \<lparr>protocol_name = bytes ''daif5'', has_callback = True, rx_buffer_size = 6000,
     no_buffer_all_partial_tx = False\<rparr>"

definition sample_conn :: "connection_mode \<Rightarrow> unit lws" where
  "sample_conn md = (zero_lws sample_protocol ())\<lparr>mode := md, state := WSI_STATE_ESTABLISHED,
     ietf_spec_revision := 13\<rparr>"

lemma sample_ready: "tx_ready (sample_conn md)" "mode (sample_conn md) = md" "sys_calls (sample_conn md) = 0"
  "close_reason (u_ws (sample_conn md)) = 0" "wire (sample_conn md) = []" "protocol (sample_conn md) = sample_protocol"
  by (simp_all add: tx_ready_def sample_conn_def zero_lws_def zero_ws_def)

lemma sample_env_fields: "os_send sample_env t bs = int (length bs)" "os_random sample_env t n = take n [0x11, 0x22, 0x33, 0x44]"
  by (simp_all add: sample_env_def)

text \<open>
  C8. On a server connection without extensions, a write of a payload whose frame is shorter than $2^{31}$ bytes (the
  lengths an \<open>int\<close> can hold), all of which the kernel accepts, puts exactly one
  unmasked RFC 6455 frame on the wire: the opcode and FIN bit of the write flags, the shortest length
  encoding, the payload unchanged. The payload in the caller's block is left as it was.
\<close>

theorem write_server_frame:
  assumes "tx_ready wsi" "mode wsi \<noteq> LWS_CONNMODE_WS_CLIENT"
    and "write_opcode prot = Some opc" "prot AND 0xf = LWS_WRITE_CLOSE \<longrightarrow> close_reason (u_ws wsi) = 0"
    and "0 < len \<or> prot \<in> {LWS_WRITE_CLOSE, LWS_WRITE_PING, LWS_WRITE_PONG}" "len + 10 < 2 ^ 31"
    and "LWS_SEND_BUFFER_PRE_PADDING \<le> off" "off + len \<le> length mem"
  defines "frame \<equiv> ws_frame (fin_of prot) opc None (take len (drop off mem))"
  assumes "os_send E (sys_calls wsi) frame = int (length frame)"
  shows "\<exists>wsi' mem'. libwebsocket_write E wsi mem off len prot = Some (write_ret prot frame len, wsi', mem') \<and>
     wire wsi' = wire wsi @ frame \<and> length mem' = length mem \<and> drop off mem' = drop off mem"
proof -
  have "10 \<le> off" using assms(7) by (simp add: lws_consts)
  from write_server[OF assms(1-6) this assms(8) frame_def[THEN meta_eq_to_obj_eq] assms(10)]
  show ?thesis by (auto simp: tx_done_def)
qed

theorem write_server_frame_witness:
  "\<exists>wsi' mem'. libwebsocket_write sample_env (sample_conn LWS_CONNMODE_WS_SERVING) (replicate 18 0 @ bytes ''hi'')
       18 2 LWS_WRITE_TEXT = Some (2, wsi', mem') \<and> wire wsi' = [0x81, 0x02, 0x68, 0x69]"
  using write_server_frame[of "sample_conn LWS_CONNMODE_WS_SERVING" LWS_WRITE_TEXT OPC_TEXT_FRAME 2 18
      "replicate 18 0 @ bytes ''hi''" sample_env] sample_ready[of LWS_CONNMODE_WS_SERVING]
  by (fastforce simp: write_opcode_def c_defs lws_consts sample_env_fields ws_frame_def ws_length_def fin_of_def write_ret_def)

text \<open>
  C23. A write of \<open>len\<close> bytes goes through \<open>eff_buf.token_len\<close>, an \<open>int\<close>: on a server connection a write of $2^{32}$ bytes
  or more whose low 32 bits are a small enough number \<open>k\<close> sends a complete message, FIN bit set, of the first \<open>k\<close> bytes of
  the payload alone, and returns \<open>k\<close>.
\<close>

theorem oversized_write_cut:
  assumes "tx_ready wsi" "mode wsi \<noteq> LWS_CONNMODE_WS_CLIENT"
    and "prot \<in> {LWS_WRITE_TEXT, LWS_WRITE_BINARY}" "write_opcode prot = Some opc"
    and "2 ^ 32 \<le> len" "len mod 2 ^ 32 = k" "k + 10 < 2 ^ 31"
    and "LWS_SEND_BUFFER_PRE_PADDING \<le> off" "off + len \<le> length mem"
  defines "frame \<equiv> ws_frame True opc None (take k (drop off mem))"
  assumes "os_send E (sys_calls wsi) frame = int (length frame)"
  shows "\<exists>wsi' mem'. libwebsocket_write E wsi mem off len prot = Some (int k, wsi', mem') \<and>
     wire wsi' = wire wsi @ frame \<and> k < len"
proof -
  have p: "prot AND 0xf = LWS_WRITE_CLOSE \<longrightarrow> close_reason (u_ws wsi) = 0" "fin_of prot"
    "prot \<notin> {LWS_WRITE_CLOSE, LWS_WRITE_PONG, LWS_WRITE_PING}"
    using assms(3) by (auto simp: c_defs fin_of_def)
  have fr: "frame = ws_frame (fin_of prot) opc None (take k (drop off mem))" using p(2) by (simp add: frame_def)
  have l: "10 \<le> off" "k < len" "off + k \<le> length mem" "0 < len \<or> prot \<in> {LWS_WRITE_CLOSE, LWS_WRITE_PING, LWS_WRITE_PONG}"
    using assms(5,7,8,9) by (simp_all add: lws_consts)
  from write_server_mod[OF assms(1,2,4) p(1) l(4) assms(6,7) l(1,3) fr assms(11)] show ?thesis
    using p(3) l(2) by (auto simp: write_ret_def tx_done_def)
qed

theorem oversized_write_cut_witness:
  "\<exists>mem wsi' mem'. length mem = 2 ^ 32 + 20 \<and> libwebsocket_write sample_env (sample_conn LWS_CONNMODE_WS_SERVING) mem
       18 (2 ^ 32 + 2) LWS_WRITE_TEXT = Some (2, wsi', mem') \<and> wire wsi' = [0x81, 0x02, 0x68, 0x68]"
proof -
  obtain n :: nat where n: "n = 2 ^ 32 + 20" by blast
  define mem :: "byte list" where "mem = replicate n 0x68"
  have m: "length mem = n" "take 2 (drop 18 mem) = [0x68, 0x68]"
    using n by (simp_all add: mem_def numeral_2_eq_2)
  show ?thesis
    using oversized_write_cut[of "sample_conn LWS_CONNMODE_WS_SERVING" LWS_WRITE_TEXT OPC_TEXT_FRAME "2 ^ 32 + 2" 2 18 mem sample_env]
      sample_ready[of LWS_CONNMODE_WS_SERVING] m n
    by (auto simp: write_opcode_def c_defs lws_consts sample_env_fields ws_frame_def ws_length_def intro!: exI[of _ mem])
qed

text \<open>
  C7. On a client connection without extensions, a write of a payload whose frame is shorter than $2^{31}$ bytes (the
  lengths an \<open>int\<close> can hold), all of which the kernel accepts, puts exactly one
  RFC 6455 frame on the wire, with the mask bit set, the four random bytes as the key, and the payload masked with it.
\<close>

theorem write_client_frame:
  assumes "tx_ready wsi" "mode wsi = LWS_CONNMODE_WS_CLIENT"
    and "write_opcode prot = Some opc" "prot AND 0xf = LWS_WRITE_CLOSE \<longrightarrow> close_reason (u_ws wsi) = 0"
    and "0 < len \<or> prot \<in> {LWS_WRITE_CLOSE, LWS_WRITE_PING, LWS_WRITE_PONG}" "len + 14 < 2 ^ 31"
    and "LWS_SEND_BUFFER_PRE_PADDING \<le> off" "off + len \<le> length mem"
    and "os_random E (sys_calls wsi) 4 = key" "length key = 4"
  defines "frame \<equiv> ws_frame (fin_of prot) opc (Some key) (take len (drop off mem))"
  assumes "os_send E (sys_calls wsi + 1) frame = int (length frame)"
  shows "\<exists>wsi' mem'. libwebsocket_write E wsi mem off len prot = Some (write_ret prot frame len, wsi', mem') \<and>
     wire wsi' = wire wsi @ frame \<and> length mem' = length mem"
proof -
  have "14 \<le> off" using assms(7) by (simp add: lws_consts)
  from write_client[OF assms(1-6) this assms(8-10) frame_def[THEN meta_eq_to_obj_eq] assms(12)]
  show ?thesis by (auto simp: tx_done_client_def tx_done_def)
qed

theorem write_client_frame_witness:
  "\<exists>wsi' mem'. libwebsocket_write sample_env (sample_conn LWS_CONNMODE_WS_CLIENT) (replicate 18 0 @ bytes ''hi'')
       18 2 LWS_WRITE_TEXT = Some (2, wsi', mem') \<and>
     wire wsi' = [0x81, 0x82, 0x11, 0x22, 0x33, 0x44, 0x79, 0x4b]"
  using write_client_frame[of "sample_conn LWS_CONNMODE_WS_CLIENT" LWS_WRITE_TEXT OPC_TEXT_FRAME 2 18
      "replicate 18 0 @ bytes ''hi''" sample_env] sample_ready[of LWS_CONNMODE_WS_CLIENT]
  by (fastforce simp: write_opcode_def c_defs lws_consts sample_env_fields ws_frame_def ws_length_def fin_of_def write_ret_def
      xor_key_def upt_conv_Cons)

text \<open>
  When the kernel takes only part of a buffer that is not the user's own, \<open>lws_issue_raw\<close> keeps the
  rest: what has been accepted followed by what is held back is the old stream followed by the buffer, and the caller
  is told that everything was consumed.
\<close>

theorem partial_send_kept:
  assumes "proto0_quiet E" "active_extensions wsi = []" "truncated_send_malloc (u_ws wsi) = None"
    and "\<not> clean_buffer (u_ws wsi)" "os_malloc E (sys_calls wsi + 1)"
    and "tok_bytes buf = Some bs" "length bs < 2 ^ 31"
    and "0 \<le> os_send E (sys_calls wsi) bs" "os_send E (sys_calls wsi) bs \<le> int (length bs)"
  shows "\<exists>wsi'. lws_issue_raw E buf wsi = Some (int (length bs), wsi') \<and>
     wire wsi' @ pending wsi' = wire wsi @ bs \<and> pending_ok wsi'"
proof -
  let ?n = "os_send E (sys_calls wsi) bs"
  let ?w = "wsi\<lparr>sys_calls := sys_calls wsi + 1, wire := wire wsi @ take (nat ?n) bs\<rparr>"
  note t = truncated_new[OF assms(1), of ?w ?n bs] 
  have "?n < 2 ^ 31" using assms(7,9) by simp
  then show ?thesis using t assms issue_raw_plain[OF assms(2,6,8)]
    by (cases "handle_truncated_send E bs ?n ?w") simp
qed

theorem partial_send_kept_witness:
  "\<exists>wsi'. lws_issue_raw (sample_env\<lparr>os_send := \<lambda>t bs. 1\<rparr>)
       \<lparr>tok_mem = [1, 2, 3], tok_off = 0, tok_len = 3, tok_moved = False\<rparr> (sample_conn LWS_CONNMODE_WS_SERVING)
     = Some (3, wsi') \<and> wire wsi' @ pending wsi' = [1, 2, 3]"
  using partial_send_kept[of "sample_env\<lparr>os_send := \<lambda>t bs. 1\<rparr>" "sample_conn LWS_CONNMODE_WS_SERVING"
     "\<lparr>tok_mem = [1, 2, 3], tok_off = 0, tok_len = 3, tok_moved = False\<rparr>" "[1, 2, 3]"]
  by (auto simp: proto0_quiet_def sample_env_def sample_conn_def zero_lws_def zero_ws_def tok_bytes_def)

text \<open>Serving \<open>n\<close> writable events.\<close>

fun pollouts :: "'u env \<Rightarrow> nat \<Rightarrow> 'u lws \<Rightarrow> 'u lws option" where
  "pollouts E 0 wsi = Some wsi"
| "pollouts E (Suc n) wsi = (if truncated_send_malloc (u_ws wsi) = None then Some wsi
     else do { (r, wsi) \<leftarrow> lws_handle_POLLOUT_event E True wsi; pollouts E n wsi })"

lemma pollout_flush:
  assumes "proto0_quiet E" "active_extensions wsi = []" "truncated_send_malloc (u_ws wsi) = Some blk" "pending_ok wsi"
    and "0 \<le> os_send E (sys_calls wsi) (pending wsi)" "os_send E (sys_calls wsi) (pending wsi) \<le> int (length (pending wsi))"
  shows "\<exists>wsi'. lws_handle_POLLOUT_event E True wsi = Some (0, wsi') \<and>
     wire wsi' @ pending wsi' = wire wsi @ pending wsi \<and> pending_ok wsi' \<and>
     pending wsi' = drop (nat (os_send E (sys_calls wsi) (pending wsi))) (pending wsi) \<and> active_extensions wsi' = []"
proof -
  let ?n = "os_send E (sys_calls wsi) (pending wsi)"
  let ?w = "wsi\<lparr>sys_calls := sys_calls wsi + 1, wire := wire wsi @ take (nat ?n) (pending wsi)\<rparr>"
  let ?buf = "\<lparr>tok_mem = blk, tok_off = unat (truncated_send_offset (u_ws wsi)),
                tok_len = int (unat (truncated_send_len (u_ws wsi))), tok_moved = False\<rparr>"
  have tb: "tok_bytes ?buf = Some (pending wsi)" using assms(3,4) by (simp add: tok_bytes_def pending_def pending_ok_def)
  have c: "pending ?w = pending wsi" "pending_ok ?w = pending_ok wsi"
    using pending_cong[of ?w wsi] by auto
  note t = truncated_more[OF assms(1), of ?w blk "pending wsi" ?n]
  have "length (pending wsi) < 2 ^ 31" using assms(3,4) by (auto simp: pending_def pending_ok_def)
  then have "?n < 2 ^ 31" using assms(6) by simp
  then show ?thesis using t assms(2-6) c issue_raw_plain[OF assms(2) tb assms(5)]
    by (cases "handle_truncated_send E (pending wsi) ?n ?w")
      (simp add: lws_handle_POLLOUT_event_def append_take_drop_id)
qed

lemma pending_empty: "pending_ok wsi \<Longrightarrow> pending wsi = [] \<longleftrightarrow> truncated_send_malloc (u_ws wsi) = None"
  by (auto simp: pending_def pending_ok_def word_less_nat_alt split: option.splits)

text \<open>
  C21. Held-back bytes do get out: if every call of \<open>send\<close> takes at least one byte, then serving writable events sends exactly
  the pending bytes, in order and once, in at most as many events as there are bytes, and releases the buffer.
\<close>

theorem flush_drains:
  assumes "proto0_quiet E" "active_extensions wsi = []" "pending_ok wsi"
    and "\<And>t bs. bs \<noteq> [] \<Longrightarrow> 1 \<le> os_send E t bs \<and> os_send E t bs \<le> int (length bs)"
  shows "\<exists>wsi'. pollouts E (length (pending wsi)) wsi = Some wsi' \<and>
     truncated_send_malloc (u_ws wsi') = None \<and> wire wsi' = wire wsi @ pending wsi"
proof -
  have "length (pending wsi) \<le> n \<Longrightarrow> \<exists>wsi'. pollouts E n wsi = Some wsi' \<and>
     truncated_send_malloc (u_ws wsi') = None \<and> wire wsi' = wire wsi @ pending wsi" for n
    using assms(2,3)
  proof (induction n arbitrary: wsi)
    case (Suc n)
    show ?case
    proof (cases "truncated_send_malloc (u_ws wsi)")
      case None then show ?thesis using pending_empty[OF Suc.prems(3)] by simp
    next
      case (Some blk)
      let ?n = "os_send E (sys_calls wsi) (pending wsi)"
      have n: "1 \<le> ?n" "?n \<le> int (length (pending wsi))"
        using assms(4) pending_empty[OF Suc.prems(3)] Some by auto
      obtain w where w: "lws_handle_POLLOUT_event E True wsi = Some (0, w)" "wire w @ pending w = wire wsi @ pending wsi"
        "pending_ok w" "pending w = drop (nat ?n) (pending wsi)" "active_extensions w = []"
        using pollout_flush[OF assms(1) Suc.prems(2) Some Suc.prems(3)] n by auto
      have "length (pending w) \<le> n" using w(4) n Suc.prems(1) by auto
      from Suc.IH[OF this w(5,3)] show ?thesis using w(1,2) Some by auto
    qed
  qed (use pending_empty in auto)
  then show ?thesis by simp
qed

theorem flush_drains_witness:
  "\<exists>wsi'. pollouts (sample_env\<lparr>os_send := \<lambda>t bs. 1\<rparr>) 3 (upd_ws (\<lambda>w. w\<lparr>truncated_send_malloc := Some [1, 2, 3, 4],
       truncated_send_offset := 1, truncated_send_len := 3\<rparr>) (sample_conn LWS_CONNMODE_WS_SERVING)) = Some wsi' \<and>
     truncated_send_malloc (u_ws wsi') = None \<and> wire wsi' = [2, 3, 4]"
  using flush_drains[of "sample_env\<lparr>os_send := \<lambda>t bs. 1\<rparr>" "upd_ws (\<lambda>w. w\<lparr>truncated_send_malloc := Some [1, 2, 3, 4],
       truncated_send_offset := 1, truncated_send_len := 3\<rparr>) (sample_conn LWS_CONNMODE_WS_SERVING)"]
  by (simp add: proto0_quiet_def sample_env_def sample_conn_def zero_lws_def pending_ok_def pending_def Suc_le_eq numeral_3_eq_3[symmetric]
      del: pollouts.simps)

text \<open>
  C30. With the protocol's default setting (\<open>no_buffer_all_partial_tx\<close> clear) a partial send is lost: on a server
  connection, for a payload whose frame is shorter than $2^{31}$ bytes, the write reports the whole payload as written, nothing is held back, and only the first \<open>n\<close>
  bytes of the frame are on the wire.
\<close>

theorem partial_write_loses:
  assumes "tx_ready wsi" "mode wsi \<noteq> LWS_CONNMODE_WS_CLIENT" "\<not> no_buffer_all_partial_tx (protocol wsi)"
    and "prot \<in> {LWS_WRITE_TEXT, LWS_WRITE_BINARY}" "write_opcode prot = Some opc"
    and "0 < len" "len + 10 < 2 ^ 31" "LWS_SEND_BUFFER_PRE_PADDING \<le> off" "off + len \<le> length mem"
  defines "frame \<equiv> ws_frame True opc None (take len (drop off mem))"
  assumes "os_send E (sys_calls wsi) frame = int n" "n < length frame"
  shows "\<exists>wsi' mem'. libwebsocket_write E wsi mem off len prot = Some (int len, wsi', mem') \<and>
     wire wsi' = wire wsi @ take n frame \<and> pending wsi' = [] \<and> \<not> inside_frame (u_ws wsi')"
proof -
  have p: "fin_of prot" "prot AND 0xf \<noteq> LWS_WRITE_CLOSE" using assms(4) by (auto simp: c_defs fin_of_def)
  then have p: "fin_of prot" "0 < len" "prot AND 0xf = LWS_WRITE_CLOSE \<longrightarrow> close_reason (u_ws wsi) = 0"
      "0 < len \<or> prot \<in> {LWS_WRITE_CLOSE, LWS_WRITE_PING, LWS_WRITE_PONG}" using assms(6) by auto
  have fr: "frame = ws_frame (fin_of prot) opc None (take len (drop off mem))" using p by (simp add: frame_def)
  have o: "10 \<le> off" using assms(8) by (simp add: lws_consts)
  define w1 where "w1 = upd_ws (\<lambda>w. w\<lparr>clean_buffer := \<not> no_buffer_all_partial_tx (protocol wsi)\<rparr>) wsi"
  obtain wb where w: "libwebsocket_write E wsi mem off len prot = map_option (\<lambda>(n, w). (n, w, wb_mem wb)) (send_raw E prot len w1 wb)"
    and f: "frame = take (wb_len wb + wb_pre wb) (drop (wb_off wb - wb_pre wb) (wb_mem wb))"
    and wb: "wb_pre wb \<le> wb_off wb" "wb_off wb + wb_len wb \<le> length (wb_mem wb)" "0 < wb_pre wb" "wb_len wb + wb_pre wb < 2 ^ 31"
    unfolding w1_def by (rule write_server_built[OF assms(1,2,5) p(3,4) _ assms(7) o assms(9) fr]) (use assms(7) in simp)
  define buf where "buf = \<lparr>tok_mem = wb_mem wb, tok_off = wb_off wb - wb_pre wb, tok_len = int (wb_len wb + wb_pre wb), tok_moved = False\<rparr>"
  have b: "tok_len buf = int (wb_len wb + wb_pre wb)" "\<not> tok_moved buf" by (simp_all add: buf_def)
  define w2 where "w2 = upd_ws (\<lambda>w. w\<lparr>inside_frame := True\<rparr>) w1"
  have r: "active_extensions w2 = []" "truncated_send_malloc (u_ws w2) = None" "clean_buffer (u_ws w2)"
      "sys_calls w2 = sys_calls wsi" "wire w2 = wire wsi"
    using assms(1,3) by (simp_all add: w2_def w1_def tx_ready_def)
  have tb: "tok_bytes buf = Some frame" using f wb by (simp add: buf_def tok_bytes_def nat_add_distrib)
  have "length frame < 2 ^ 31" using tok_bytes_len[OF tb] b(1) wb(4) by simp
  then have nf: "n < 2 ^ 31" using assms(12) by simp
  have "lws_issue_raw E buf w2 = Some (int n, w2\<lparr>sys_calls := sys_calls wsi + 1, wire := wire wsi @ take n frame\<rparr>)"
    using issue_raw_plain[OF r(1) tb, of E] r assms(11,12) nf by (simp add: handle_truncated_send_def)
  then have "lws_issue_raw_ext_access E buf w2 = Some (int (wb_len wb + wb_pre wb),
      w2\<lparr>sys_calls := sys_calls wsi + 1, wire := wire wsi @ take n frame\<rparr>)"
    using r(1) wb(3,4) b by (cases buf) (simp add: lws_issue_raw_ext_access_def ext_access_loop.simps[of E _ w2])
  then have "send_raw E prot len w1 wb = Some (int len, upd_ws (\<lambda>w. w\<lparr>inside_frame := False\<rparr>)
      (w2\<lparr>sys_calls := sys_calls wsi + 1, wire := wire wsi @ take n frame\<rparr>))"
    using assms(4,7) wb(1,4) by (auto simp: buf_def send_raw_def Let_def w2_def c_defs)
  then show ?thesis using w r by (simp add: pending_def)
qed

theorem partial_write_loses_witness:
  "\<exists>wsi' mem'. libwebsocket_write (sample_env\<lparr>os_send := \<lambda>t bs. 1\<rparr>) (sample_conn LWS_CONNMODE_WS_SERVING)
       (replicate 18 0 @ bytes ''hi'') 18 2 LWS_WRITE_TEXT = Some (2, wsi', mem') \<and>
     wire wsi' = [0x81] \<and> pending wsi' = []"
  using partial_write_loses[of "sample_conn LWS_CONNMODE_WS_SERVING" LWS_WRITE_TEXT OPC_TEXT_FRAME 2 18
      "replicate 18 0 @ bytes ''hi''" "sample_env\<lparr>os_send := \<lambda>t bs. 1\<rparr>" 1] sample_ready[of LWS_CONNMODE_WS_SERVING]
  by (fastforce simp: write_opcode_def c_defs lws_consts ws_frame_def ws_length_def sample_protocol_def)

text \<open>
  A client's close frame with a reason is malformed: the mask key's place is fixed before the two bytes of the
  reason are put in front of the payload, so the key overwrites the reason, and what stands in the key's place on the wire is
  whatever the two bytes before were.
\<close>

theorem client_close_reason_lost:
  assumes "tx_ready wsi" "mode wsi = LWS_CONNMODE_WS_CLIENT" "close_reason (u_ws wsi) \<noteq> 0"
    and "LWS_SEND_BUFFER_PRE_PADDING \<le> off" "off + LWS_SEND_BUFFER_POST_PADDING \<le> length mem"
    and "os_random E (sys_calls wsi) 4 = key" "length key = 4"
  defines "frame \<equiv> [0x88, 0x82, mem ! (off - 6), mem ! (off - 5)] @ key"
  assumes "os_send E (sys_calls wsi + 1) frame = int (length frame)"
  shows "\<exists>wsi' mem'. libwebsocket_write E wsi mem off 0 LWS_WRITE_CLOSE = Some (8, wsi', mem') \<and> wire wsi' = wire wsi @ frame"
proof -
  let ?hi = "ucast (drop_bit 8 (close_reason (u_ws wsi))) :: byte" and ?lo = "ucast (close_reason (u_ws wsi)) :: byte"
  define w1 where "w1 = upd_ws (\<lambda>w. w\<lparr>clean_buffer := \<not> no_buffer_all_partial_tx (protocol wsi)\<rparr>) wsi"
  obtain q where off: "off = q + 8" "10 \<le> q" using assms(4) that[of "off - 8"] by (simp add: lws_consts)
  have lm: "off + 4 \<le> length mem" using assms(5) by (simp add: lws_consts)
  define pm where "pm = take q mem"
  define rest where "rest = drop off mem"
  have pm: "length pm = q" using lm off by (simp add: pm_def)
  have "length (take 8 (drop q mem)) = 8" using off lm by simp
  then obtain a b c d e f g h where "take 8 (drop q mem) = [a, b, c, d, e, f, g, h]"
    by (auto simp: numeral_eq_Suc length_Suc_conv simp del: length_take)
  moreover have "mem = pm @ take 8 (drop q mem) @ rest"
    using append_take_drop_id[of q mem] append_take_drop_id[of 8 "drop q mem"]
    by (simp add: pm_def rest_def off add.commute)
  ultimately have m: "mem = pm @ [a, b, c, d, e, f, g, h] @ rest" by simp
  have fr: "frame = [0x88, 0x82, c, d] @ key" using pm off by (simp add: frame_def m nth_append)
  define wb1 where "wb1 = \<lparr>wb_mem = pm @ [0x88, 0x82, c, d, e, f, ?hi, ?lo] @ rest, wb_off = q + 6, wb_len = 2, wb_pre = 6,
      wb_dropmask = Some (q + 4)\<rparr>"
  have r: "state wsi = WSI_STATE_ESTABLISHED" "ietf_spec_revision w1 = 13" "\<not> inside_frame (u_ws wsi)"
     "active_extensions w1 = []" "truncated_send_malloc (u_ws w1) = None" "mode w1 = LWS_CONNMODE_WS_CLIENT" "wire w1 = wire wsi"
     "sys_calls w1 = sys_calls wsi" "\<not> inside_frame (u_ws w1)" "length (frame_masking_nonce_04 (u_ws w1)) = 4"
     "close_reason (u_ws w1) = close_reason (u_ws wsi)"
    using assms(1,2) by (auto simp: tx_ready_def w1_def)
  have build: "build_frame LWS_WRITE_CLOSE w1 \<lparr>wb_mem = mem, wb_off = off, wb_len = 0, wb_pre = 0, wb_dropmask = None\<rparr> = Some (Inr wb1)"
    using r(6,11) assms(3) pm off
    by (simp add: build_frame_def Let_def write_opcode_def c_defs frame_header_def blit_def m wb1_def)
  define w2 where "w2 = upd_ws (\<lambda>w. w\<lparr>frame_masking_nonce_04 := key, frame_mask_index := 2\<rparr>) (w1\<lparr>sys_calls := sys_calls w1 + 1\<rparr>)"
  define wb2 where "wb2 = wb1\<lparr>wb_mem := pm @ [0x88, 0x82, c, d] @ key @ xor_key key (take 2 rest) @ drop 2 rest\<rparr>"
  have mask: "mask_frame E w1 wb1 = Some (Inr (w2, wb2))"
  proof -
    have "take (q + 4) (wb_mem wb1) = pm @ [0x88, 0x82, c, d]" "drop (q + 4 + 4) (wb_mem wb1) = rest"
      "drop (q + 4 + 4 + wb_len wb1) (wb_mem wb1) = drop 2 rest"
      "q + 4 + 4 + wb_len wb1 \<le> length (wb_mem wb1)" "wb_len wb1 + 4 < 2 ^ 31"
      using pm lm off by (simp_all add: wb1_def m)
    then show ?thesis
      using mask_frame_client[of w1 wb1 "q + 4" E key] r(6,8,9,10) assms(6,7)
      by (simp add: wb2_def w2_def) (simp add: wb1_def)
  qed
  have send: "send_raw E LWS_WRITE_CLOSE 0 w2 wb2 = Some (int (length frame), w2\<lparr>sys_calls := sys_calls w2 + 1, wire := wire w2 @ frame\<rparr>)"
    using send_raw_all[of w2 wb2 frame E LWS_WRITE_CLOSE 0] r assms(7,9) pm fr lm off
    by (simp add: wb2_def wb1_def w2_def m)
  have "libwebsocket_write E wsi mem off 0 LWS_WRITE_CLOSE = Some (int (length frame),
      w2\<lparr>sys_calls := sys_calls w2 + 1, wire := wire w2 @ frame\<rparr>, wb_mem wb2)"
    unfolding libwebsocket_write_def using r build mask send
    by (simp only: Let_def w1_def[symmetric] if_False not_not) (simp add: c_defs)
  then show ?thesis using r(7) assms(7) by (simp add: fr w2_def)
qed

lemma sample_close:
  defines "w \<equiv> upd_ws (\<lambda>w. w\<lparr>close_reason := 1000\<rparr>) (sample_conn LWS_CONNMODE_WS_CLIENT)"
  shows "tx_ready w" "mode w = LWS_CONNMODE_WS_CLIENT" "close_reason (u_ws w) \<noteq> 0" "sys_calls w = 0" "wire w = []"
  using sample_ready[of LWS_CONNMODE_WS_CLIENT] by (simp_all add: w_def tx_ready_def)

theorem client_close_reason_lost_witness:
  "\<exists>wsi' mem'. libwebsocket_write sample_env (upd_ws (\<lambda>w. w\<lparr>close_reason := 1000\<rparr>) (sample_conn LWS_CONNMODE_WS_CLIENT))
      (replicate 22 0) 18 0 LWS_WRITE_CLOSE = Some (8, wsi', mem') \<and>
     wire wsi' = [0x88, 0x82, 0, 0, 0x11, 0x22, 0x33, 0x44]"
  using client_close_reason_lost[of "upd_ws (\<lambda>w. w\<lparr>close_reason := 1000\<rparr>) (sample_conn LWS_CONNMODE_WS_CLIENT)" 18
      "replicate 22 0" sample_env "[0x11, 0x22, 0x33, 0x44]"] sample_ready[of LWS_CONNMODE_WS_CLIENT]
  by (simp add: nth_replicate sample_env_fields lws_consts sample_close)

end
