(* ===== verification/Frame_Rx.thy ===== *)
theory Frame_Rx
  imports Output
begin

text \<open>
  The receive state machines: \<open>libwebsocket_rx_sm\<close> and \<open>libwebsocket_interpret_incoming_packet\<close> of
  \<^verbatim>\<open>lib/parsers.c\<close> for the server, \<open>libwebsocket_client_rx_sm\<close> of \<^verbatim>\<open>lib/client-parser.c\<close> for the client.
  Bytes go into \<open>rx_user_buffer\<close> behind \<open>LWS_SEND_BUFFER_PRE_PADDING\<close> bytes of padding, and the payload is
  handed to user code whenever the frame is complete or the buffer is full.
\<close>

section \<open>The program\<close>

definition set_rxps :: "rx_parse_state \<Rightarrow> 'u lws \<Rightarrow> 'u lws" where
  "set_rxps ps wsi = wsi\<lparr>lws_rx_parse_state := ps\<rparr>"

text \<open>\<open>wsi->u.ws.frame_masking_nonce_04[i] = c; if (c) wsi->u.ws.all_zero_nonce = 0;\<close>\<close>

definition set_nonce :: "nat \<Rightarrow> byte \<Rightarrow> 'u lws \<Rightarrow> 'u lws" where
  "set_nonce i c = upd_ws (\<lambda>w. w\<lparr>frame_masking_nonce_04 := (frame_masking_nonce_04 w)[i := c],
     all_zero_nonce := (all_zero_nonce w \<and> c = 0)\<rparr>)"

text \<open>\<open>rx_packet_length |= ((size_t)c) << k\<close>, and the first assignment to it.\<close>

definition or_length :: "nat \<Rightarrow> byte \<Rightarrow> 'u lws \<Rightarrow> 'u lws" where
  "or_length k c = upd_ws (\<lambda>w. w\<lparr>rx_packet_length := rx_packet_length w OR push_bit k (ucast c)\<rparr>)"

definition set_length :: "nat \<Rightarrow> byte \<Rightarrow> 'u lws \<Rightarrow> 'u lws" where
  "set_length k c = upd_ws (\<lambda>w. w\<lparr>rx_packet_length := push_bit k (ucast c)\<rparr>)"

text \<open>The label \<open>handle_first\<close>.\<close>

definition handle_first :: "byte \<Rightarrow> 'u lws \<Rightarrow> 'u lws" where
  "handle_first c wsi = set_rxps LWS_RXPS_04_FRAME_HDR_LEN (upd_ws (\<lambda>w. w\<lparr>
     opcode := c AND 0xf, rsv := c AND 0x70, final_frag := (drop_bit 7 c AND 1 \<noteq> 0),
     frame_is_binary := (if c AND 0xf \<in> {OPC_TEXT_FRAME, OPC_BINARY_FRAME} then c AND 0xf = OPC_BINARY_FRAME
                         else frame_is_binary w)\<rparr>) wsi)"

text \<open>\<open>libwebsocket_write\<close> of what is in the receive buffer, in place.\<close>

definition rx_write :: "'u env \<Rightarrow> nat \<Rightarrow> 'u lws \<Rightarrow> (int \<times> 'u lws) option" where
  "rx_write E prot wsi = do { buf \<leftarrow> rx_user_buffer (u_ws wsi);
     (n, wsi, buf) \<leftarrow> libwebsocket_write E wsi buf LWS_SEND_BUFFER_PRE_PADDING (rx_user_buffer_head (u_ws wsi)) prot;
     Some (n, upd_ws (\<lambda>w. w\<lparr>rx_user_buffer := Some buf\<rparr>) wsi) }"

text \<open>
  \<open>eff_buf\<close> over the receive buffer. An extension that leaves the token where it was has worked in the receive
  buffer itself.
\<close>

definition rx_token :: "byte list \<Rightarrow> 'u lws \<Rightarrow> lws_tokens" where
  "rx_token buf wsi = \<lparr>tok_mem = buf, tok_off = LWS_SEND_BUFFER_PRE_PADDING,
     tok_len = int (rx_user_buffer_head (u_ws wsi)), tok_moved = False\<rparr>"

definition rx_store :: "lws_tokens \<Rightarrow> 'u lws \<Rightarrow> 'u lws" where
  "rx_store tok wsi = (if tok_moved tok then wsi else upd_ws (\<lambda>w. w\<lparr>rx_user_buffer := Some (tok_mem tok)\<rparr>) wsi)"

definition reset_head :: "'u lws \<Rightarrow> 'u lws" where
  "reset_head = upd_ws (\<lambda>w. w\<lparr>rx_user_buffer_head := 0\<rparr>)"

text \<open>An opcode the library does not know goes to the extensions.\<close>

definition rx_extended :: "'u env \<Rightarrow> 'u lws \<Rightarrow> (bool \<times> 'u lws) option" where
  "rx_extended E wsi = do { buf \<leftarrow> rx_user_buffer (u_ws wsi);
     case ext_each E LWS_EXT_CALLBACK_EXTENDED_PAYLOAD_RX (active_extensions wsi) (rx_token buf wsi) wsi of
       (handled, tok, wsi) \<Rightarrow> Some (handled, rx_store tok wsi) }"

text \<open>
  Payload goes through the extensions, is closed by a NUL and handed to the callback \<open>cb\<close>; \<open>Inl\<close> tells that an
  extension failed.
\<close>

definition rx_payload_up :: "'u env \<Rightarrow> (byte list \<Rightarrow> 'u lws \<Rightarrow> int \<times> 'u lws) \<Rightarrow> 'u lws \<Rightarrow> ('u lws + int \<times> 'u lws) option" where
  "rx_payload_up E cb wsi = do { buf \<leftarrow> rx_user_buffer (u_ws wsi);
     case ext_loop E LWS_EXT_CALLBACK_PAYLOAD_RX (active_extensions wsi) (rx_token buf wsi) wsi of
       (fatal, _, tok, wsi) \<Rightarrow>
         let wsi = rx_store tok wsi in
         if fatal then Some (Inl wsi)
         else if tok_len tok > 0 then
           do { mem \<leftarrow> wr (tok_mem tok) (tok_off tok + nat (tok_len tok)) 0;
                bs \<leftarrow> tok_bytes (tok\<lparr>tok_mem := mem\<rparr>);
                wsi \<leftarrow> Some (rx_store (tok\<lparr>tok_mem := mem\<rparr>) wsi);
                Some (Inr (if has_callback (protocol wsi) then cb bs wsi else (0, wsi))) }
         else Some (Inr (0, wsi)) }"

text \<open>The label \<open>spill\<close> of the server.\<close>

definition spill :: "'u env \<Rightarrow> 'u lws \<Rightarrow> (int \<times> 'u lws) option" where
  "spill E wsi =
    (let opc = opcode (u_ws wsi) in
     if opc = OPC_CLOSE then
       if state wsi = WSI_STATE_AWAITING_CLOSE_ACK then Some (-1, wsi)
       else do { (n, wsi) \<leftarrow> rx_write E LWS_WRITE_CLOSE wsi;
                 Some (-1, wsi\<lparr>state := WSI_STATE_RETURNED_CLOSE_ALREADY\<rparr>) }
     else if opc = OPC_PING then
       do { (n, wsi) \<leftarrow> rx_write E LWS_WRITE_PONG wsi;
            if n < 0 then Some (-1, wsi) else Some (0, reset_head wsi) }
     else if opc = OPC_PONG then Some (0, reset_head wsi)
     else if opc \<in> {OPC_TEXT_FRAME, OPC_BINARY_FRAME, OPC_CONTINUATION} then
       do { res \<leftarrow> rx_payload_up E (user_callback_handle_rxflow E LWS_CALLBACK_RECEIVE) wsi;
            case res of Inl wsi \<Rightarrow> Some (-1, wsi) | Inr (ret, wsi) \<Rightarrow> Some (ret, reset_head wsi) }
     else do { (handled, wsi) \<leftarrow> rx_extended E wsi; Some (0, reset_head wsi) })"

text \<open>Storing one byte of payload, unmasked unless \<open>plain\<close>.\<close>

definition rx_put :: "bool \<Rightarrow> byte \<Rightarrow> 'u lws \<Rightarrow> 'u lws option" where
  "rx_put plain c wsi = do { buf \<leftarrow> rx_user_buffer (u_ws wsi);
     k \<leftarrow> (if plain then Some 0 else rd (frame_masking_nonce_04 (u_ws wsi)) (unat (frame_mask_index (u_ws wsi) AND 3)));
     buf \<leftarrow> wr buf (LWS_SEND_BUFFER_PRE_PADDING + rx_user_buffer_head (u_ws wsi)) (c XOR k);
     Some (upd_ws (\<lambda>w. w\<lparr>rx_user_buffer := Some buf, rx_user_buffer_head := rx_user_buffer_head w + 1,
       frame_mask_index := (if plain then frame_mask_index w else frame_mask_index w + 1)\<rparr>) wsi) }"

definition rx_limit :: "'u lws \<Rightarrow> nat" where
  "rx_limit wsi = (if rx_buffer_size (protocol wsi) = 0 then LWS_MAX_SOCKET_IO_BUF else rx_buffer_size (protocol wsi))"

text \<open>\<open>case LWS_RXPS_PAYLOAD_UNTIL_LENGTH_EXHAUSTED\<close>; the length wraps at 64 bits.\<close>

definition rx_payload :: "('u lws \<Rightarrow> (int \<times> 'u lws) option) \<Rightarrow> bool \<Rightarrow> byte \<Rightarrow> 'u lws \<Rightarrow> (int \<times> 'u lws) option" where
  "rx_payload sp plain c wsi = do { wsi \<leftarrow> rx_put plain c wsi;
     wsi \<leftarrow> Some (upd_ws (\<lambda>w. w\<lparr>rx_packet_length := rx_packet_length w - 1\<rparr>) wsi);
     if rx_packet_length (u_ws wsi) = 0 then sp (set_rxps LWS_RXPS_NEW wsi)
     else if rx_user_buffer_head (u_ws wsi) \<noteq> rx_limit wsi then Some (0, wsi)
     else sp wsi }"

text \<open>The states that collect a 64-bit length; \<open>done\<close> is what follows the last byte.\<close>

definition rx_len64 :: "('u lws \<Rightarrow> (int \<times> 'u lws) option) \<Rightarrow> byte \<Rightarrow> 'u lws \<Rightarrow> (int \<times> 'u lws) option" where
  "rx_len64 done c wsi = (case lws_rx_parse_state wsi of
       LWS_RXPS_04_FRAME_HDR_LEN64_8 \<Rightarrow> if c AND 0x80 \<noteq> 0 then Some (-1, wsi)
         else Some (0, set_rxps LWS_RXPS_04_FRAME_HDR_LEN64_7 (set_length 56 c wsi))
     | LWS_RXPS_04_FRAME_HDR_LEN64_7 \<Rightarrow> Some (0, set_rxps LWS_RXPS_04_FRAME_HDR_LEN64_6 (or_length 48 c wsi))
     | LWS_RXPS_04_FRAME_HDR_LEN64_6 \<Rightarrow> Some (0, set_rxps LWS_RXPS_04_FRAME_HDR_LEN64_5 (or_length 40 c wsi))
     | LWS_RXPS_04_FRAME_HDR_LEN64_5 \<Rightarrow> Some (0, set_rxps LWS_RXPS_04_FRAME_HDR_LEN64_4 (or_length 32 c wsi))
     | LWS_RXPS_04_FRAME_HDR_LEN64_4 \<Rightarrow> Some (0, set_rxps LWS_RXPS_04_FRAME_HDR_LEN64_3 (or_length 24 c wsi))
     | LWS_RXPS_04_FRAME_HDR_LEN64_3 \<Rightarrow> Some (0, set_rxps LWS_RXPS_04_FRAME_HDR_LEN64_2 (or_length 16 c wsi))
     | LWS_RXPS_04_FRAME_HDR_LEN64_2 \<Rightarrow> Some (0, set_rxps LWS_RXPS_04_FRAME_HDR_LEN64_1 (or_length 8 c wsi))
     | _ \<Rightarrow> done (or_length 0 c wsi))"

text \<open>The states that collect the mask key; a frame without payload is complete after it.\<close>

definition rx_key :: "'u env \<Rightarrow> byte \<Rightarrow> 'u lws \<Rightarrow> (int \<times> 'u lws) option" where
  "rx_key E c wsi = (case lws_rx_parse_state wsi of
       LWS_RXPS_07_COLLECT_FRAME_KEY_1 \<Rightarrow> Some (0, set_rxps LWS_RXPS_07_COLLECT_FRAME_KEY_2 (set_nonce 0 c wsi))
     | LWS_RXPS_07_COLLECT_FRAME_KEY_2 \<Rightarrow> Some (0, set_rxps LWS_RXPS_07_COLLECT_FRAME_KEY_3 (set_nonce 1 c wsi))
     | LWS_RXPS_07_COLLECT_FRAME_KEY_3 \<Rightarrow> Some (0, set_rxps LWS_RXPS_07_COLLECT_FRAME_KEY_4 (set_nonce 2 c wsi))
     | _ \<Rightarrow>
         let wsi = set_rxps LWS_RXPS_PAYLOAD_UNTIL_LENGTH_EXHAUSTED
               (upd_ws (\<lambda>w. w\<lparr>frame_mask_index := 0\<rparr>) (set_nonce 3 c wsi)) in
         if rx_packet_length (u_ws wsi) = 0 then spill E wsi else Some (0, wsi))"

definition libwebsocket_rx_sm :: "'u env \<Rightarrow> 'u lws \<Rightarrow> byte \<Rightarrow> (int \<times> 'u lws) option" where
  "libwebsocket_rx_sm E wsi c =
    (let after_length = (\<lambda>wsi. Some (0, set_rxps (if this_frame_masked (u_ws wsi) then LWS_RXPS_07_COLLECT_FRAME_KEY_1
           else LWS_RXPS_PAYLOAD_UNTIL_LENGTH_EXHAUSTED) wsi)) in
     case lws_rx_parse_state wsi of
       LWS_RXPS_NEW \<Rightarrow> if ietf_spec_revision wsi = 13
         then Some (0, handle_first c (upd_ws (\<lambda>w. w\<lparr>all_zero_nonce := True\<rparr>) wsi)) else Some (0, wsi)
     | LWS_RXPS_04_MASK_NONCE_1 \<Rightarrow> Some (0, set_rxps LWS_RXPS_04_MASK_NONCE_2 (set_nonce 1 c wsi))
     | LWS_RXPS_04_MASK_NONCE_2 \<Rightarrow> Some (0, set_rxps LWS_RXPS_04_MASK_NONCE_3 (set_nonce 2 c wsi))
     | LWS_RXPS_04_MASK_NONCE_3 \<Rightarrow> Some (0, set_rxps LWS_RXPS_04_FRAME_HDR_1
         (upd_ws (\<lambda>w. w\<lparr>frame_mask_index := 0\<rparr>) (set_nonce 3 c wsi)))
     | LWS_RXPS_04_FRAME_HDR_1 \<Rightarrow> Some (0, handle_first c wsi)
     | LWS_RXPS_04_FRAME_HDR_LEN \<Rightarrow>
         let wsi = upd_ws (\<lambda>w. w\<lparr>this_frame_masked := (c AND 0x80 \<noteq> 0)\<rparr>) wsi in
         if c AND 0x7f = 126 then
           if opcode (u_ws wsi) AND 8 \<noteq> 0 then Some (-1, wsi) else Some (0, set_rxps LWS_RXPS_04_FRAME_HDR_LEN16_2 wsi)
         else if c AND 0x7f = 127 then
           if opcode (u_ws wsi) AND 8 \<noteq> 0 then Some (-1, wsi) else Some (0, set_rxps LWS_RXPS_04_FRAME_HDR_LEN64_8 wsi)
         else after_length (set_length 0 (c AND 0x7f) wsi)
     | LWS_RXPS_04_FRAME_HDR_LEN16_2 \<Rightarrow> Some (0, set_rxps LWS_RXPS_04_FRAME_HDR_LEN16_1 (set_length 8 c wsi))
     | LWS_RXPS_04_FRAME_HDR_LEN16_1 \<Rightarrow> after_length (or_length 0 c wsi)
     | LWS_RXPS_04_FRAME_HDR_LEN64_8 \<Rightarrow> rx_len64 after_length c wsi
     | LWS_RXPS_04_FRAME_HDR_LEN64_7 \<Rightarrow> rx_len64 after_length c wsi
     | LWS_RXPS_04_FRAME_HDR_LEN64_6 \<Rightarrow> rx_len64 after_length c wsi
     | LWS_RXPS_04_FRAME_HDR_LEN64_5 \<Rightarrow> rx_len64 after_length c wsi
     | LWS_RXPS_04_FRAME_HDR_LEN64_4 \<Rightarrow> rx_len64 after_length c wsi
     | LWS_RXPS_04_FRAME_HDR_LEN64_3 \<Rightarrow> rx_len64 after_length c wsi
     | LWS_RXPS_04_FRAME_HDR_LEN64_2 \<Rightarrow> rx_len64 after_length c wsi
     | LWS_RXPS_04_FRAME_HDR_LEN64_1 \<Rightarrow> rx_len64 after_length c wsi
     | LWS_RXPS_07_COLLECT_FRAME_KEY_1 \<Rightarrow> rx_key E c wsi
     | LWS_RXPS_07_COLLECT_FRAME_KEY_2 \<Rightarrow> rx_key E c wsi
     | LWS_RXPS_07_COLLECT_FRAME_KEY_3 \<Rightarrow> rx_key E c wsi
     | LWS_RXPS_07_COLLECT_FRAME_KEY_4 \<Rightarrow> rx_key E c wsi
     | LWS_RXPS_PAYLOAD_UNTIL_LENGTH_EXHAUSTED \<Rightarrow> rx_payload (spill E) (all_zero_nonce (u_ws wsi)) c wsi)"

text \<open>The loop of \<open>libwebsocket_interpret_incoming_packet\<close> over the bytes that are left.\<close>

fun libwebsocket_interpret_incoming_packet :: "'u env \<Rightarrow> 'u lws \<Rightarrow> byte list \<Rightarrow> (int \<times> 'u lws) option" where
  "libwebsocket_interpret_incoming_packet E wsi [] = Some (0, wsi)"
| "libwebsocket_interpret_incoming_packet E wsi (c # buf) =
    (if rxflow_change_to (u_ws wsi) AND LWS_RXFLOW_ALLOW = 0 then
       if rxflow_buffer (u_ws wsi) = None then
         if os_malloc E (sys_calls wsi) then
           Some (1, upd_ws (\<lambda>w. w\<lparr>rxflow_buffer := Some (c # buf), rxflow_len := length (c # buf), rxflow_pos := 0\<rparr>)
                      (wsi\<lparr>sys_calls := sys_calls wsi + 1\<rparr>))
         else None
       else Some (1, wsi)
     else
       let wsi = (if rxflow_buffer (u_ws wsi) \<noteq> None then upd_ws (\<lambda>w. w\<lparr>rxflow_pos := rxflow_pos w + 1\<rparr>) wsi else wsi) in
       do { (m, wsi) \<leftarrow> libwebsocket_rx_sm E wsi c;
            if m < 0 then Some (-1, wsi) else libwebsocket_interpret_incoming_packet E wsi buf })"

definition libwebsockets_remaining_packet_payload :: "'u lws \<Rightarrow> size_t" where
  "libwebsockets_remaining_packet_payload wsi = rx_packet_length (u_ws wsi)"

definition lws_frame_is_binary :: "'u lws \<Rightarrow> bool" where
  "lws_frame_is_binary wsi = frame_is_binary (u_ws wsi)"

text \<open>The label \<open>spill\<close> of the client.\<close>

definition client_spill :: "'u env \<Rightarrow> 'u lws \<Rightarrow> (int \<times> 'u lws) option" where
  "client_spill E wsi =
    (let opc = opcode (u_ws wsi);
         up = (\<lambda>reason wsi. do { res \<leftarrow> rx_payload_up E (user_cb E reason) wsi;
            case res of Inl wsi \<Rightarrow> Some (-1, wsi) | Inr (_, wsi) \<Rightarrow> Some (0, reset_head wsi) }) in
     if opc = OPC_CLOSE then
       if state wsi = WSI_STATE_AWAITING_CLOSE_ACK then Some (-1, wsi)
       else do { (n, wsi) \<leftarrow> rx_write E LWS_WRITE_CLOSE wsi;
                 Some (-1, wsi\<lparr>state := WSI_STATE_RETURNED_CLOSE_ALREADY\<rparr>) }
     else if opc = OPC_PING then
       do { (n, wsi) \<leftarrow> rx_write E LWS_WRITE_PONG wsi; Some (0, reset_head wsi) }
     else if opc = OPC_PONG then up LWS_CALLBACK_CLIENT_RECEIVE_PONG wsi
     else if opc \<in> {OPC_CONTINUATION, OPC_TEXT_FRAME, OPC_BINARY_FRAME} then up LWS_CALLBACK_CLIENT_RECEIVE wsi
     else do { (handled, wsi) \<leftarrow> rx_extended E wsi; Some (0, reset_head wsi) })"

text \<open>The client's key states; \<open>frame_mask_index\<close> is not reset.\<close>

definition client_key :: "'u env \<Rightarrow> byte \<Rightarrow> 'u lws \<Rightarrow> (int \<times> 'u lws) option" where
  "client_key E c wsi = (case lws_rx_parse_state wsi of
       LWS_RXPS_07_COLLECT_FRAME_KEY_1 \<Rightarrow> Some (0, set_rxps LWS_RXPS_07_COLLECT_FRAME_KEY_2 (set_nonce 0 c wsi))
     | LWS_RXPS_07_COLLECT_FRAME_KEY_2 \<Rightarrow> Some (0, set_rxps LWS_RXPS_07_COLLECT_FRAME_KEY_3 (set_nonce 1 c wsi))
     | LWS_RXPS_07_COLLECT_FRAME_KEY_3 \<Rightarrow> Some (0, set_rxps LWS_RXPS_07_COLLECT_FRAME_KEY_4 (set_nonce 2 c wsi))
     | _ \<Rightarrow>
         let wsi = set_nonce 3 c wsi in
         if rx_packet_length (u_ws wsi) \<noteq> 0 then Some (0, set_rxps LWS_RXPS_PAYLOAD_UNTIL_LENGTH_EXHAUSTED wsi)
         else client_spill E (set_rxps LWS_RXPS_NEW wsi))"

definition client_payload :: "'u env \<Rightarrow> byte \<Rightarrow> 'u lws \<Rightarrow> (int \<times> 'u lws) option" where
  "client_payload E c wsi =
     rx_payload (client_spill E) (\<not> this_frame_masked (u_ws wsi) \<or> all_zero_nonce (u_ws wsi)) c wsi"

definition libwebsocket_client_rx_sm :: "'u env \<Rightarrow> 'u lws \<Rightarrow> byte \<Rightarrow> (int \<times> 'u lws) option" where
  "libwebsocket_client_rx_sm E wsi c =
    (let after_length = (\<lambda>wsi. if this_frame_masked (u_ws wsi)
             then Some (0, set_rxps LWS_RXPS_07_COLLECT_FRAME_KEY_1 wsi)
             else if rx_packet_length (u_ws wsi) \<noteq> 0 then Some (0, set_rxps LWS_RXPS_PAYLOAD_UNTIL_LENGTH_EXHAUSTED wsi)
             else client_spill E (set_rxps LWS_RXPS_NEW wsi)) in
     case lws_rx_parse_state wsi of
       LWS_RXPS_NEW \<Rightarrow> if ietf_spec_revision wsi = 13 then Some (0, handle_first c wsi) else Some (0, wsi)
     | LWS_RXPS_04_FRAME_HDR_LEN \<Rightarrow>
         let wsi = upd_ws (\<lambda>w. w\<lparr>this_frame_masked := (c AND 0x80 \<noteq> 0)\<rparr>) wsi in
         if c AND 0x7f = 126 then
           if opcode (u_ws wsi) AND 8 \<noteq> 0 then Some (-1, wsi) else Some (0, set_rxps LWS_RXPS_04_FRAME_HDR_LEN16_2 wsi)
         else if c AND 0x7f = 127 then
           if opcode (u_ws wsi) AND 8 \<noteq> 0 then Some (-1, wsi) else Some (0, set_rxps LWS_RXPS_04_FRAME_HDR_LEN64_8 wsi)
         else after_length (set_length 0 c wsi)
     | LWS_RXPS_04_FRAME_HDR_LEN16_2 \<Rightarrow> Some (0, set_rxps LWS_RXPS_04_FRAME_HDR_LEN16_1 (set_length 8 c wsi))
     | LWS_RXPS_04_FRAME_HDR_LEN16_1 \<Rightarrow> after_length (or_length 0 c wsi)
     | LWS_RXPS_04_FRAME_HDR_LEN64_8 \<Rightarrow> rx_len64 after_length c wsi
     | LWS_RXPS_04_FRAME_HDR_LEN64_7 \<Rightarrow> rx_len64 after_length c wsi
     | LWS_RXPS_04_FRAME_HDR_LEN64_6 \<Rightarrow> rx_len64 after_length c wsi
     | LWS_RXPS_04_FRAME_HDR_LEN64_5 \<Rightarrow> rx_len64 after_length c wsi
     | LWS_RXPS_04_FRAME_HDR_LEN64_4 \<Rightarrow> rx_len64 after_length c wsi
     | LWS_RXPS_04_FRAME_HDR_LEN64_3 \<Rightarrow> rx_len64 after_length c wsi
     | LWS_RXPS_04_FRAME_HDR_LEN64_2 \<Rightarrow> rx_len64 after_length c wsi
     | LWS_RXPS_04_FRAME_HDR_LEN64_1 \<Rightarrow> rx_len64 after_length c wsi
     | LWS_RXPS_07_COLLECT_FRAME_KEY_1 \<Rightarrow> client_key E c wsi
     | LWS_RXPS_07_COLLECT_FRAME_KEY_2 \<Rightarrow> client_key E c wsi
     | LWS_RXPS_07_COLLECT_FRAME_KEY_3 \<Rightarrow> client_key E c wsi
     | LWS_RXPS_07_COLLECT_FRAME_KEY_4 \<Rightarrow> client_key E c wsi
     | LWS_RXPS_PAYLOAD_UNTIL_LENGTH_EXHAUSTED \<Rightarrow> client_payload E c wsi
     | _ \<Rightarrow> Some (1, wsi))"

lemmas rx_sm_defs = libwebsocket_rx_sm_def rx_len64_def rx_key_def
lemmas client_rx_sm_defs = libwebsocket_client_rx_sm_def rx_len64_def client_key_def client_payload_def

section \<open>Feeding a receiver\<close>

text \<open>
  The loops that hand the received bytes to a state machine one by one and give up at its first failure; the client's
  stands in \<open>libwebsocket_read\<close>.
\<close>

fun feed :: "('s \<Rightarrow> byte \<Rightarrow> (int \<times> 's) option) \<Rightarrow> 's \<Rightarrow> byte list \<Rightarrow> (int \<times> 's) option" where
  "feed rx s [] = Some (0, s)"
| "feed rx s (c # cs) = do { (m, s) \<leftarrow> rx s c; if m < 0 then Some (-1, s) else feed rx s cs }"

lemma feed_append: "feed rx s (xs @ ys) = do { (m, s) \<leftarrow> feed rx s xs; if m < 0 then Some (-1, s) else feed rx s ys }"
proof (induction xs arbitrary: s)
  case (Cons c xs)
  show ?case by (cases "rx s c") (auto simp: Cons.IH split: if_splits)
qed (simp add: split_def)

definition ws_head :: "bool \<Rightarrow> byte \<Rightarrow> byte list option \<Rightarrow> nat \<Rightarrow> byte list" where
  "ws_head fin opc key n = (if fin then opc OR 0x80 else opc) # (case key of
      None \<Rightarrow> ws_length 0 n | Some k \<Rightarrow> ws_length 128 n @ k)"

definition unmask :: "byte list option \<Rightarrow> nat \<Rightarrow> byte \<Rightarrow> byte" where
  "unmask key i c = (case key of None \<Rightarrow> c | Some k \<Rightarrow> c XOR k ! (i mod 4))"

fun unmasks :: "byte list option \<Rightarrow> nat \<Rightarrow> byte list \<Rightarrow> byte list" where
  "unmasks key i [] = []"
| "unmasks key i (c # cs) = unmask key i c # unmasks key (i + 1) cs"

definition masked :: "byte list option \<Rightarrow> byte list \<Rightarrow> byte list" where
  "masked key payload = (case key of None \<Rightarrow> payload | Some k \<Rightarrow> xor_key k payload)"

lemma ws_frame_split: "ws_frame fin opc key payload = ws_head fin opc key (length payload) @ masked key payload"
  by (simp add: ws_frame_def ws_head_def masked_def split: option.split)

lemma length_unmasks [simp]: "length (unmasks key i cs) = length cs"
  by (induction cs arbitrary: i) auto

lemma nth_unmasks: "j < length cs \<Longrightarrow> unmasks key i cs ! j = unmask key (i + j) (cs ! j)"
  by (induction cs arbitrary: i j) (auto simp: nth_Cons split: nat.split)

lemma length_masked [simp]: "length (masked key payload) = length payload"
  by (simp add: masked_def split: option.split)

lemma unmasks_masked: "unmasks key 0 (masked key payload) = payload"
  by (rule nth_equalityI) (auto simp: nth_unmasks unmask_def masked_def xor_key_def xor.assoc split: option.split)

text \<open>The pieces in which a payload is handed up by a receiver whose buffer holds \<open>lim\<close> bytes.\<close>

function pieces :: "nat \<Rightarrow> byte list \<Rightarrow> byte list list" where
  "pieces lim bs = (if lim = 0 \<or> length bs \<le> lim then [bs] else take lim bs # pieces lim (drop lim bs))"
  by pat_completeness auto

termination by (relation "measure (length \<circ> snd)") auto

declare pieces.simps [simp del]

lemma concat_pieces: "concat (pieces lim bs) = bs"
  by (induction lim bs rule: pieces.induct) (subst pieces.simps, simp)

lemma pieces_short: "length bs \<le> lim \<Longrightarrow> pieces lim bs = [bs]"
  by (simp add: pieces.simps)

lemma pieces_full:
  "0 < lim \<Longrightarrow> length acc = lim \<Longrightarrow> bs \<noteq> [] \<Longrightarrow> pieces lim (acc @ bs) = acc # pieces lim bs"
  by (subst pieces.simps) simp

section \<open>The interface of a frame receiver\<close>

text \<open>
  \<open>ready\<close> is the state between frames; in \<open>collecting key i n acc\<close> the machine has \<open>i\<close> bytes of the payload behind
  it, \<open>n\<close> to come, and \<open>acc\<close> in its buffer. \<open>deliveries\<close> lists what user code has been given.
\<close>

locale frame_receiver =
  fixes rx :: "'s \<Rightarrow> byte \<Rightarrow> (int \<times> 's) option"
    and ready :: "'s \<Rightarrow> bool"
    and collecting :: "byte list option \<Rightarrow> nat \<Rightarrow> nat \<Rightarrow> byte list \<Rightarrow> 's \<Rightarrow> bool"
    and accepts :: "byte \<Rightarrow> byte list option \<Rightarrow> bool"
    and lim :: nat
    and deliveries :: "'s \<Rightarrow> byte list list"
  assumes header: "ready s \<Longrightarrow> accepts opc key \<Longrightarrow> 0 < n \<Longrightarrow> n < 2 ^ 63 \<Longrightarrow>
      \<exists>s'. feed rx s (ws_head fin opc key n) = Some (0, s') \<and> collecting key 0 n [] s' \<and> deliveries s' = deliveries s"
    and store: "collecting key i n acc s \<Longrightarrow> 1 < n \<Longrightarrow> length acc + 1 < lim \<Longrightarrow>
      \<exists>m s'. rx s c = Some (m, s') \<and> 0 \<le> m \<and> collecting key (i + 1) (n - 1) (acc @ [unmask key i c]) s' \<and>
        deliveries s' = deliveries s"
    and full: "collecting key i n acc s \<Longrightarrow> 1 < n \<Longrightarrow> length acc + 1 = lim \<Longrightarrow>
      \<exists>m s'. rx s c = Some (m, s') \<and> 0 \<le> m \<and> collecting key (i + 1) (n - 1) [] s' \<and>
        deliveries s' = deliveries s @ [acc @ [unmask key i c]]"
    and complete: "collecting key i 1 acc s \<Longrightarrow> length acc < lim \<Longrightarrow>
      \<exists>m s'. rx s c = Some (m, s') \<and> 0 \<le> m \<and> ready s' \<and> deliveries s' = deliveries s @ [acc @ [unmask key i c]]"
    and lim_pos: "ready s \<Longrightarrow> 0 < lim"
begin

lemma payload_delivered:
  assumes "0 < lim"
  shows "collecting key i (length cs) acc s \<Longrightarrow> cs \<noteq> [] \<Longrightarrow> length acc < lim \<Longrightarrow>
   \<exists>s'. feed rx s cs = Some (0, s') \<and> ready s' \<and> deliveries s' = deliveries s @ pieces lim (acc @ unmasks key i cs)"
proof (induction cs arbitrary: i acc s)
  case (Cons c cs)
  let ?acc = "acc @ [unmask key i c]"
  show ?case
  proof (cases cs)
    case Nil
    then obtain m s' where "rx s c = Some (m, s')" "0 \<le> m" "ready s'" "deliveries s' = deliveries s @ [?acc]"
      using complete[of key i acc s c] Cons.prems by auto
    then show ?thesis using Nil Cons.prems(3) by (simp add: pieces_short)
  next
    case (Cons c' cs')
    then have n: "1 < length (c # cs)" "length (c # cs) - 1 = length cs" "cs \<noteq> []" by auto
    show ?thesis
    proof (cases "length acc + 1 = lim")
      case True
      obtain m s' where s: "rx s c = Some (m, s')" "0 \<le> m" "collecting key (i + 1) (length cs) [] s'"
          "deliveries s' = deliveries s @ [?acc]"
        using full[OF Cons.prems(1) n(1) True, of c] n(2) by auto
      from Cons.IH[OF s(3) n(3)] assms show ?thesis using s True n(3) pieces_full[of lim ?acc "unmasks key (i + 1) cs"]
        by (cases cs) auto
    next
      case False
      then have l: "length acc + 1 < lim" using Cons.prems(3) by simp
      obtain m s' where s: "rx s c = Some (m, s')" "0 \<le> m" "collecting key (i + 1) (length cs) ?acc s'"
          "deliveries s' = deliveries s"
        using store[OF Cons.prems(1) n(1) l, of c] n(2) by auto
      from Cons.IH[OF s(3) n(3)] l show ?thesis using s by auto
    qed
  qed
qed simp

lemma frame_delivered:
  assumes "ready s" "accepts opc key" "payload \<noteq> []" "length payload < 2 ^ 63"
  shows "\<exists>s'. feed rx s (ws_frame fin opc key payload) = Some (0, s') \<and> ready s' \<and>
     deliveries s' = deliveries s @ pieces lim payload"
proof -
  obtain s1 where s1: "feed rx s (ws_head fin opc key (length payload)) = Some (0, s1)"
      "collecting key 0 (length payload) [] s1" "deliveries s1 = deliveries s"
    using header[OF assms(1,2), of "length payload"] assms(3,4) by auto
  have "masked key payload \<noteq> []" using assms(3) by (metis length_0_conv length_masked)
  then show ?thesis
    using payload_delivered[of key 0 "masked key payload" "[]" s1] lim_pos[OF assms(1)] s1
    by (auto simp: ws_frame_split feed_append unmasks_masked)
qed

lemma stream_delivered:
  "ready s \<Longrightarrow> \<forall>(fin, opc, key, payload) \<in> set frames. accepts opc key \<and> payload \<noteq> [] \<and> length payload < 2 ^ 63 \<Longrightarrow>
   \<exists>s'. feed rx s (concat (map (\<lambda>(fin, opc, key, payload). ws_frame fin opc key payload) frames)) = Some (0, s') \<and>
     ready s' \<and> deliveries s' = deliveries s @ concat (map (\<lambda>(fin, opc, key, payload). pieces lim payload) frames)"
proof (induction frames arbitrary: s)
  case (Cons f frames)
  obtain fin opc key payload where f: "f = (fin, opc, key, payload)" by (cases f)
  obtain s1 where s1: "feed rx s (ws_frame fin opc key payload) = Some (0, s1)" "ready s1"
      "deliveries s1 = deliveries s @ pieces lim payload"
    using frame_delivered[OF Cons.prems(1), of opc key payload fin] Cons.prems(2) f by auto
  with Cons.IH[OF s1(2)] Cons.prems(2) show ?case by (auto simp: f feed_append)
qed simp

end

section \<open>Reading a frame header\<close>

lemma bit_of_nat64: "bit (of_nat n :: size_t) i \<longleftrightarrow> i < 64 \<and> bit n i"
  by (simp add: bit_of_nat_iff possible_bit_word)

lemma ucast_of_nat_byte: "(ucast (of_nat n :: byte) :: size_t) = of_nat (n mod 256)"
  by (simp add: word_unat_eq_iff unsigned_ucast_eq unat_of_nat take_bit_eq_mod)

lemma or_digit:
  "push_bit k (of_nat (n div 2 ^ k mod 256)) OR of_nat (n mod 2 ^ k) = (of_nat (n mod 2 ^ (k + 8)) :: size_t)"
proof -
  have e: "n div 2 ^ k mod 256 = take_bit 8 (drop_bit k n)" "n mod 2 ^ k = take_bit k n" "n mod 2 ^ (k + 8) = take_bit (k + 8) n"
    by (simp_all add: take_bit_eq_mod drop_bit_eq_div)
  show ?thesis unfolding e
    by (rule bit_word_eqI) (auto simp: bit_push_bit_iff bit_or_iff bit_of_nat64 bit_take_bit_iff bit_drop_bit_eq)
qed

lemma length16: "n < 65536 \<Longrightarrow> push_bit 8 (of_nat (n div 256 mod 256)) OR of_nat (n mod 256) = (of_nat n :: size_t)"
  using or_digit[of 8 n] by simp

lemma length64:
  assumes "n < 2 ^ 63"
  shows "((((((push_bit 56 (of_nat (n div 2 ^ 56 mod 256)) OR push_bit 48 (of_nat (n div 2 ^ 48 mod 256)))
     OR push_bit 40 (of_nat (n div 2 ^ 40 mod 256))) OR push_bit 32 (of_nat (n div 2 ^ 32 mod 256)))
     OR push_bit 24 (of_nat (n div 2 ^ 24 mod 256))) OR push_bit 16 (of_nat (n div 2 ^ 16 mod 256)))
     OR push_bit 8 (of_nat (n div 2 ^ 8 mod 256))) OR of_nat (n mod 256) = (of_nat n :: size_t)"
proof -
  have "n mod 2 ^ 64 = n" using assms by simp
  then show ?thesis
    using or_digit[of 8 n] or_digit[of 16 n] or_digit[of 24 n] or_digit[of 32 n] or_digit[of 40 n] or_digit[of 48 n] or_digit[of 56 n]
    by (simp only: or.assoc) simp
qed

lemma bit7_of_nat:
  assumes n: "n < 128"
  shows "(of_nat (128 + n) AND 0x80 :: byte) \<noteq> 0" "(of_nat n AND 0x80 :: byte) = 0"
    "(of_nat (128 + n) AND 0x7f :: byte) = of_nat n" "(of_nat n AND 0x7f :: byte) = of_nat n"
proof -
  have "\<forall>n \<in> set [0..<128]. (of_nat (128 + n) AND 0x80 :: byte) \<noteq> 0 \<and> (of_nat n AND 0x80 :: byte) = 0 \<and>
     (of_nat (128 + n) AND 0x7f :: byte) = of_nat n \<and> (of_nat n AND 0x7f :: byte) = of_nat n"
    by code_simp
  then show "(of_nat (128 + n) AND 0x80 :: byte) \<noteq> 0" "(of_nat n AND 0x80 :: byte) = 0"
    "(of_nat (128 + n) AND 0x7f :: byte) = of_nat n" "(of_nat n AND 0x7f :: byte) = of_nat n"
    using n by auto
qed

lemma set_rxps_fields [simp]:
  "lws_rx_parse_state (set_rxps ps w) = ps" "u_ws (set_rxps ps w) = u_ws w" "protocol (set_rxps ps w) = protocol w"
  "active_extensions (set_rxps ps w) = active_extensions w" "ietf_spec_revision (set_rxps ps w) = ietf_spec_revision w"
  "user_space (set_rxps ps w) = user_space w" "mode (set_rxps ps w) = mode w" "state (set_rxps ps w) = state w"
  "set_rxps ps (set_rxps ps' w) = set_rxps ps w" "upd_ws f (set_rxps ps w) = set_rxps ps (upd_ws f w)"
  "rx_limit (set_rxps ps w) = rx_limit w" "rx_limit (upd_ws f w) = rx_limit w"
  "wire (set_rxps ps w) = wire w" "sys_calls (set_rxps ps w) = sys_calls w"
  by (simp_all add: set_rxps_def upd_ws_def rx_limit_def)

definition data_opcode :: "byte \<Rightarrow> bool" where
  "data_opcode opc \<longleftrightarrow> opc \<in> {OPC_TEXT_FRAME, OPC_BINARY_FRAME, OPC_CONTINUATION}"

text \<open>What reading a header leaves alone.\<close>

definition hdr_frame :: "lws_websocket_related \<Rightarrow> lws_websocket_related \<Rightarrow> bool" where
  "hdr_frame x y \<longleftrightarrow> rx_user_buffer x = rx_user_buffer y \<and> rx_user_buffer_head x = rx_user_buffer_head y \<and>
     rxflow_change_to x = rxflow_change_to y \<and> rxflow_buffer x = rxflow_buffer y"

lemma data_opcode_bits:
  assumes "data_opcode opc"
  shows "(if fin then opc OR 0x80 else opc) AND 0xf = opc" "opc AND 8 = 0"
  using assms by (auto simp: data_opcode_def c_defs)

lemma srv_length64:
  assumes "lws_rx_parse_state w = LWS_RXPS_04_FRAME_HDR_LEN64_8" "b8 AND 0x80 = 0"
  shows "feed (libwebsocket_rx_sm E) w [b8, b7, b6, b5, b4, b3, b2, b1] = Some (0,
     set_rxps (if this_frame_masked (u_ws w) then LWS_RXPS_07_COLLECT_FRAME_KEY_1 else LWS_RXPS_PAYLOAD_UNTIL_LENGTH_EXHAUSTED)
       (upd_ws (\<lambda>x. x\<lparr>rx_packet_length := ((((((push_bit 56 (ucast b8) OR push_bit 48 (ucast b7)) OR push_bit 40 (ucast b6))
          OR push_bit 32 (ucast b5)) OR push_bit 24 (ucast b4)) OR push_bit 16 (ucast b3)) OR push_bit 8 (ucast b2)) OR ucast b1\<rparr>) w))"
proof -
  let ?rx = "libwebsocket_rx_sm E"
  have 1: "?rx w b8 = Some (0, set_rxps LWS_RXPS_04_FRAME_HDR_LEN64_7 (set_length 56 b8 w))"
    using assms by (simp add: rx_sm_defs)
  have 2: "?rx (set_rxps LWS_RXPS_04_FRAME_HDR_LEN64_7 v) c = Some (0, set_rxps LWS_RXPS_04_FRAME_HDR_LEN64_6 (or_length 48 c v))"
    "?rx (set_rxps LWS_RXPS_04_FRAME_HDR_LEN64_6 v) c = Some (0, set_rxps LWS_RXPS_04_FRAME_HDR_LEN64_5 (or_length 40 c v))"
    "?rx (set_rxps LWS_RXPS_04_FRAME_HDR_LEN64_5 v) c = Some (0, set_rxps LWS_RXPS_04_FRAME_HDR_LEN64_4 (or_length 32 c v))"
    "?rx (set_rxps LWS_RXPS_04_FRAME_HDR_LEN64_4 v) c = Some (0, set_rxps LWS_RXPS_04_FRAME_HDR_LEN64_3 (or_length 24 c v))"
    "?rx (set_rxps LWS_RXPS_04_FRAME_HDR_LEN64_3 v) c = Some (0, set_rxps LWS_RXPS_04_FRAME_HDR_LEN64_2 (or_length 16 c v))"
    "?rx (set_rxps LWS_RXPS_04_FRAME_HDR_LEN64_2 v) c = Some (0, set_rxps LWS_RXPS_04_FRAME_HDR_LEN64_1 (or_length 8 c v))"
    "?rx (set_rxps LWS_RXPS_04_FRAME_HDR_LEN64_1 v) c = Some (0, set_rxps (if this_frame_masked (u_ws v)
       then LWS_RXPS_07_COLLECT_FRAME_KEY_1 else LWS_RXPS_PAYLOAD_UNTIL_LENGTH_EXHAUSTED) (or_length 0 c v))" for v c
    by (simp_all add: rx_sm_defs or_length_def)
  show ?thesis by (simp add: 1 2) (simp add: or_length_def set_length_def upd_ws_def)
qed

lemma srv_length:
  assumes "lws_rx_parse_state w = LWS_RXPS_NEW" "ietf_spec_revision w = 13" "data_opcode opc" "n < 2 ^ 63"
    and "b = 0 \<and> \<not> m \<or> b = 128 \<and> m"
  shows "\<exists>g. feed (libwebsocket_rx_sm E) w ((if fin then opc OR 0x80 else opc) # ws_length b n) =
     Some (0, set_rxps (if m then LWS_RXPS_07_COLLECT_FRAME_KEY_1 else LWS_RXPS_PAYLOAD_UNTIL_LENGTH_EXHAUSTED) (upd_ws g w)) \<and>
     (\<forall>x. rx_packet_length (g x) = of_nat n \<and> opcode (g x) = opc \<and> this_frame_masked (g x) = m \<and> all_zero_nonce (g x) \<and>
        frame_masking_nonce_04 (g x) = frame_masking_nonce_04 x \<and> hdr_frame (g x) x)"
proof -
  note op = data_opcode_bits[OF assms(3)]
  show ?thesis
  proof (cases "n < 126")
    case True
    have b7: "(of_nat (b + n) AND 0x80 :: byte) \<noteq> 0 \<longleftrightarrow> m" "(of_nat (b + n) AND 0x7f :: byte) = of_nat n"
      using bit7_of_nat[of n] True assms(5) by auto
    have nb: "(of_nat n :: byte) \<noteq> 126" "(of_nat n :: byte) \<noteq> 127"
      using True by (auto simp: word_unat_eq_iff unat_of_nat)
    show ?thesis using True assms(1,2) op b7 nb
      by (auto simp: ws_length_def rx_sm_defs handle_first_def set_length_def hdr_frame_def ucast_of_nat_byte
          simp del: of_nat_add)
  next
    case False
    have b7: "(of_nat (b + 126) AND 0x80 :: byte) \<noteq> 0 \<longleftrightarrow> m" "(of_nat (b + 126) AND 0x7f :: byte) = 126"
        "(of_nat (b + 127) AND 0x80 :: byte) \<noteq> 0 \<longleftrightarrow> m" "(of_nat (b + 127) AND 0x7f :: byte) = 127"
      using assms(5) by auto
    show ?thesis
    proof (cases "n < 65536")
      case True
      have l: "push_bit 8 (of_nat (n div 256 mod 256)) OR of_nat (n mod 256) = (of_nat n :: size_t)" by (rule length16[OF True])
      show ?thesis using True False assms(1,2) op b7 l
        by (auto simp: ws_length_def be_bytes_2_8 rx_sm_defs handle_first_def set_length_def or_length_def hdr_frame_def
            ucast_of_nat_byte simp del: of_nat_add)
    next
      case big: False
      have top: "(of_nat (n div 2 ^ 56) AND 0x80 :: byte) = 0"
        using assms(4) by (intro bit7_of_nat) (simp add: less_mult_imp_div_less)
      note l = length64[OF assms(4)]
      let ?w = "set_rxps LWS_RXPS_04_FRAME_HDR_LEN64_8 (upd_ws (\<lambda>x. x\<lparr>this_frame_masked := m\<rparr>)
          (handle_first (if fin then opc OR 0x80 else opc) (upd_ws (\<lambda>x. x\<lparr>all_zero_nonce := True\<rparr>) w)))"
      have "feed (libwebsocket_rx_sm E) w [if fin then opc OR 0x80 else opc, of_nat (b + 127)] = Some (0, ?w)"
        using assms(1,2) op b7 by (simp add: rx_sm_defs handle_first_def del: of_nat_add)
      moreover have "feed (libwebsocket_rx_sm E) ?w (be_bytes 8 n) = Some (0, set_rxps (if m then LWS_RXPS_07_COLLECT_FRAME_KEY_1
          else LWS_RXPS_PAYLOAD_UNTIL_LENGTH_EXHAUSTED) (upd_ws (\<lambda>x. x\<lparr>rx_packet_length := of_nat n\<rparr>) ?w))"
        unfolding be_bytes_2_8 using srv_length64[of ?w "of_nat (n div 2 ^ 56)" E] top l
        by (simp add: ucast_of_nat_byte handle_first_def upd_ws_def)
      ultimately show ?thesis using False big op feed_append[of "libwebsocket_rx_sm E" w "[if fin then opc OR 0x80 else opc, of_nat (b + 127)]" "be_bytes 8 n"]
        by (auto simp: ws_length_def handle_first_def hdr_frame_def simp del: of_nat_add)
    qed
  qed
qed

section \<open>The receive buffer\<close>

text \<open>The buffer holds \<open>acc\<close> behind the padding, and has room for \<open>lim\<close> bytes and the padding after them.\<close>

definition rx_buf :: "nat \<Rightarrow> byte list \<Rightarrow> lws_websocket_related \<Rightarrow> bool" where
  "rx_buf lim acc x \<longleftrightarrow> (\<exists>buf. rx_user_buffer x = Some buf \<and>
     length buf = LWS_SEND_BUFFER_PRE_PADDING + lim + LWS_SEND_BUFFER_POST_PADDING \<and>
     rx_user_buffer_head x = length acc \<and> length acc \<le> lim \<and>
     take (length acc) (drop LWS_SEND_BUFFER_PRE_PADDING buf) = acc)"

lemma rx_put_ok:
  assumes "rx_buf lim acc (u_ws w)" "length acc < lim" "plain \<or> length (frame_masking_nonce_04 (u_ws w)) = 4"
    and "u = (if plain then c else c XOR frame_masking_nonce_04 (u_ws w) ! (unat (frame_mask_index (u_ws w)) mod 4))"
  shows "\<exists>buf. rx_put plain c w = Some (upd_ws (\<lambda>x. x\<lparr>rx_user_buffer := Some buf,
       rx_user_buffer_head := rx_user_buffer_head x + 1,
       frame_mask_index := (if plain then frame_mask_index x else frame_mask_index x + 1)\<rparr>) w) \<and>
     rx_buf lim (acc @ [u]) (u_ws w\<lparr>rx_user_buffer := Some buf, rx_user_buffer_head := length acc + 1\<rparr>)"
proof -
  obtain buf where b: "rx_user_buffer (u_ws w) = Some buf" "length buf = 18 + lim + 4"
    "rx_user_buffer_head (u_ws w) = length acc" "take (length acc) (drop 18 buf) = acc"
    using assms(1) by (auto simp: rx_buf_def lws_consts)
  have "unat (frame_mask_index (u_ws w)) mod 4 < 4" by simp
  then have k: "\<exists>k. (if plain then Some 0 else rd (frame_masking_nonce_04 (u_ws w)) (unat (frame_mask_index (u_ws w) AND 3))) = Some k \<and> u = c XOR k"
    using assms(3,4) by (auto simp: rd_def idx_and_3)
  have "take (length acc + 1) (drop 18 (buf[18 + length acc := u])) = acc @ [u]"
    using b(2,4) assms(2) by (simp add: drop_update_swap take_Suc_conv_app_nth)
  then show ?thesis using b k assms(2)
    by (auto simp: rx_put_def lws_consts wr_in rx_buf_def)
qed

text \<open>Handing up the buffer's contents when there are no extensions.\<close>

lemma payload_up_ok:
  assumes "rx_buf lim acc (u_ws w)" "acc \<noteq> []" "active_extensions w = []" "has_callback (protocol w)"
  shows "\<exists>buf. rx_payload_up E cb w = Some (Inr (cb acc (upd_ws (\<lambda>x. x\<lparr>rx_user_buffer := Some buf\<rparr>) w))) \<and>
     length buf = LWS_SEND_BUFFER_PRE_PADDING + lim + LWS_SEND_BUFFER_POST_PADDING"
proof -
  obtain buf where b: "rx_user_buffer (u_ws w) = Some buf" "length buf = 18 + lim + 4"
    "rx_user_buffer_head (u_ws w) = length acc" "take (length acc) (drop 18 buf) = acc" "length acc \<le> lim"
    using assms(1) by (auto simp: rx_buf_def lws_consts)
  have "tok_bytes \<lparr>tok_mem = buf[18 + length acc := 0], tok_off = 18, tok_len = int (length acc), tok_moved = False\<rparr> = Some acc"
    using b(2,4,5) by (simp add: tok_bytes_def drop_update_swap)
  then show ?thesis using b assms(2-4)
    by (intro exI[of _ "buf[18 + length acc := 0]"]) (simp add: rx_payload_up_def rx_token_def rx_store_def lws_consts wr_in comp_def)
qed

section \<open>The server as a frame receiver\<close>

text \<open>What the receiver relies on between two bytes.\<close>

definition rx_view where
  "rx_view w = ((protocol w, active_extensions w, ietf_spec_revision w, lws_rx_parse_state w),
     (map_option length (rx_user_buffer (u_ws w)), rx_packet_length (u_ws w), opcode (u_ws w), this_frame_masked (u_ws w)),
     (all_zero_nonce (u_ws w), frame_masking_nonce_04 (u_ws w), frame_mask_index (u_ws w)),
     rxflow_change_to (u_ws w) AND LWS_RXFLOW_ALLOW, rxflow_buffer (u_ws w))"

text \<open>
  User code that takes what it is given (\<open>got\<close> lists it), says that all is well, leaves the receiver alone and does not stop the
  flow; and a poll-loop callback that leaves the connection alone.
\<close>

definition server_user :: "'u env \<Rightarrow> ('u \<Rightarrow> byte list list) \<Rightarrow> bool" where
  "server_user E got \<longleftrightarrow>
     (\<forall>bs w. active_extensions w = [] \<longrightarrow> (case user_cb E LWS_CALLBACK_RECEIVE bs w of (r, w') \<Rightarrow>
        r = 0 \<and> rx_view w' = rx_view w \<and> got (user_space w') = got (user_space w) @ [bs])) \<and>
     proto0_quiet E"

lemma allow_bit: "(x AND NOT LWS_RXFLOW_PENDING_CHANGE) AND LWS_RXFLOW_ALLOW = x AND LWS_RXFLOW_ALLOW"
  by (rule bit_word_eqI) (auto simp: c_defs bit_simps)

lemma callback_rxflow_ok:
  assumes "server_user E got" "active_extensions w = []"
  shows "\<exists>m w'. user_callback_handle_rxflow E LWS_CALLBACK_RECEIVE bs w = (m, w') \<and> 0 \<le> m \<and> rx_view w' = rx_view w \<and>
     got (user_space w') = got (user_space w) @ [bs]"
proof -
  obtain r v where v: "user_cb E LWS_CALLBACK_RECEIVE bs w = (r, v)" by fastforce
  then have v': "r = 0" "rx_view v = rx_view w" "got (user_space v) = got (user_space w) @ [bs]"
    using assms(1)[unfolded server_user_def, THEN conjunct1, rule_format, OF assms(2), of bs] by simp_all
  have ae: "active_extensions v = []" using v'(2) assms(2) by (simp add: rx_view_def)
  have q: "proto0_quiet E" using assms(1) by (simp add: server_user_def)
  have c: "conn_core x = conn_core y \<Longrightarrow> rx_view x = rx_view y \<and> user_space x = user_space y" for x y
    by (simp add: conn_core_def rx_view_def)
  have p: "rx_view (proto0_cb E a fd ev x) = rx_view x" "user_space (proto0_cb E a fd ev x) = user_space x" for a fd ev x
    using c[of "proto0_cb E a fd ev x" x] q by (simp_all add: proto0_quiet_def)
  have u: "rx_view (x\<lparr>pollout := b\<rparr>) = rx_view x" "rx_view (x\<lparr>pollin := b\<rparr>) = rx_view x"
    "rx_view (upd_ws (\<lambda>w. w\<lparr>rxflow_change_to := rxflow_change_to w AND NOT LWS_RXFLOW_PENDING_CHANGE\<rparr>) x) = rx_view x" for b x
    by (simp_all add: rx_view_def allow_bit)
  have "rx_view (snd (libwebsocket_callback_on_writable E v)) = rx_view v"
     "user_space (snd (libwebsocket_callback_on_writable E v)) = user_space v"
    using c[OF on_writable_core[OF q ae]] by simp_all
  then show ?thesis using v v' by (simp add: user_callback_handle_rxflow_def rx_flow_control_internal_def Let_def p u)
qed

text \<open>Delivering a full buffer or the end of a frame.\<close>

lemma spill_ok:
  assumes "server_user E got" "rx_buf lim acc (u_ws w)" "acc \<noteq> []" "active_extensions w = []" "has_callback (protocol w)"
    "data_opcode (opcode (u_ws w))"
  shows "\<exists>m w'. spill E w = Some (m, w') \<and> 0 \<le> m \<and> rx_view w' = rx_view w \<and> rx_buf lim [] (u_ws w') \<and>
     got (user_space w') = got (user_space w) @ [acc]"
proof -
  obtain buf where b: "rx_payload_up E (user_callback_handle_rxflow E LWS_CALLBACK_RECEIVE) w
      = Some (Inr (user_callback_handle_rxflow E LWS_CALLBACK_RECEIVE acc (upd_ws (\<lambda>x. x\<lparr>rx_user_buffer := Some buf\<rparr>) w)))"
    "length buf = LWS_SEND_BUFFER_PRE_PADDING + lim + LWS_SEND_BUFFER_POST_PADDING"
    using payload_up_ok[OF assms(2-5)] by blast
  obtain m w' where w': "user_callback_handle_rxflow E LWS_CALLBACK_RECEIVE acc (upd_ws (\<lambda>x. x\<lparr>rx_user_buffer := Some buf\<rparr>) w) = (m, w')"
    "0 \<le> m" "rx_view w' = rx_view (upd_ws (\<lambda>x. x\<lparr>rx_user_buffer := Some buf\<rparr>) w)" "got (user_space w') = got (user_space w) @ [acc]"
    using callback_rxflow_ok[OF assms(1), of "upd_ws (\<lambda>x. x\<lparr>rx_user_buffer := Some buf\<rparr>) w" acc] assms(4) by auto
  have l: "map_option length (rx_user_buffer (u_ws w)) = Some (length buf)"
    using assms(2) b(2) by (auto simp: rx_buf_def)
  have "rx_view w' = rx_view w" using w'(3) l by (auto simp: rx_view_def)
  then have "rx_view (reset_head w') = rx_view w" by (simp add: rx_view_def reset_head_def)
  moreover have "rx_buf lim [] (u_ws (reset_head w'))" using w'(3) b(2) by (auto simp: rx_view_def rx_buf_def reset_head_def)
  moreover have "spill E w = Some (m, reset_head w')"
    using assms(6) b w'(1) by (auto simp: spill_def Let_def data_opcode_def c_defs)
  ultimately show ?thesis using w' by (auto simp: reset_head_def)
qed

text \<open>
  The parts of the state that stay as they are from frame to frame. The size of the receive buffer with its padding has been
  computed in an \<open>int\<close>.
\<close>

definition rx_base :: "nat \<Rightarrow> 'u lws \<Rightarrow> bool" where
  "rx_base lim w \<longleftrightarrow> 0 < lim \<and> lim + 22 < 2 ^ 31 \<and> rx_limit w = lim \<and> active_extensions w = [] \<and> has_callback (protocol w) \<and>
     ietf_spec_revision w = 13 \<and> length (frame_masking_nonce_04 (u_ws w)) = 4 \<and>
     rxflow_change_to (u_ws w) AND LWS_RXFLOW_ALLOW \<noteq> 0 \<and> rxflow_buffer (u_ws w) = None"

definition server_ready :: "'u env \<Rightarrow> ('u \<Rightarrow> byte list list) \<Rightarrow> nat \<Rightarrow> 'u lws \<Rightarrow> bool" where
  "server_ready E got lim w \<longleftrightarrow> server_user E got \<and> rx_base lim w \<and> rx_buf lim [] (u_ws w) \<and> lws_rx_parse_state w = LWS_RXPS_NEW"

definition key_state :: "byte list option \<Rightarrow> nat \<Rightarrow> lws_websocket_related \<Rightarrow> bool" where
  "key_state key i x \<longleftrightarrow> (case key of None \<Rightarrow> all_zero_nonce x
     | Some k \<Rightarrow> length k = 4 \<and> frame_masking_nonce_04 x = k \<and>
         (if all_zero_nonce x then \<forall>j < 4. k ! j = 0 else unat (frame_mask_index x) mod 4 = i mod 4))"

definition server_collecting ::
  "'u env \<Rightarrow> ('u \<Rightarrow> byte list list) \<Rightarrow> nat \<Rightarrow> byte list option \<Rightarrow> nat \<Rightarrow> nat \<Rightarrow> byte list \<Rightarrow> 'u lws \<Rightarrow> bool" where
  "server_collecting E got lim key i n acc w \<longleftrightarrow> server_user E got \<and> rx_base lim w \<and> rx_buf lim acc (u_ws w) \<and>
     lws_rx_parse_state w = LWS_RXPS_PAYLOAD_UNTIL_LENGTH_EXHAUSTED \<and> rx_packet_length (u_ws w) = of_nat n \<and> n < 2 ^ 63 \<and>
     data_opcode (opcode (u_ws w)) \<and> key_state key i (u_ws w)"

definition server_accepts :: "byte \<Rightarrow> byte list option \<Rightarrow> bool" where
  "server_accepts opc key \<longleftrightarrow> data_opcode opc \<and> (case key of None \<Rightarrow> True | Some k \<Rightarrow> length k = 4)"

lemma rx_view_base: "rx_view w' = rx_view w \<Longrightarrow> rx_base lim w' = rx_base lim w"
  by (simp add: rx_view_def rx_base_def rx_limit_def)

lemma rx_view_key: "rx_view w' = rx_view w \<Longrightarrow> key_state key i (u_ws w') = key_state key i (u_ws w)"
  by (cases key) (simp_all add: rx_view_def key_state_def)

text \<open>One byte of payload, up to the point where the machine decides whether to deliver.\<close>

lemma server_put:
  assumes "server_collecting E got lim key i n acc w" "length acc < lim" "0 < n"
  shows "\<exists>v. rx_put (all_zero_nonce (u_ws w)) c w = Some v \<and> rx_buf lim (acc @ [unmask key i c]) (u_ws v) \<and> rx_base lim v \<and>
     key_state key (i + 1) (u_ws v) \<and> opcode (u_ws v) = opcode (u_ws w) \<and> rx_packet_length (u_ws v) = of_nat n \<and>
     user_space v = user_space w \<and> lws_rx_parse_state v = lws_rx_parse_state w"
proof -
  note a = assms(1)[unfolded server_collecting_def]
  define u where "u = (if all_zero_nonce (u_ws w) then c
     else c XOR frame_masking_nonce_04 (u_ws w) ! (unat (frame_mask_index (u_ws w)) mod 4))"
  have um: "unmask key i c = u"
    using a by (auto simp: unmask_def u_def key_state_def split: option.splits if_splits)
  obtain buf where b: "rx_put (all_zero_nonce (u_ws w)) c w = Some (upd_ws (\<lambda>x. x\<lparr>rx_user_buffer := Some buf,
       rx_user_buffer_head := rx_user_buffer_head x + 1,
       frame_mask_index := (if all_zero_nonce (u_ws w) then frame_mask_index x else frame_mask_index x + 1)\<rparr>) w)"
    "rx_buf lim (acc @ [u]) (u_ws w\<lparr>rx_user_buffer := Some buf, rx_user_buffer_head := length acc + 1\<rparr>)"
    using rx_put_ok[of lim acc w "all_zero_nonce (u_ws w)" u c] a assms(2) by (auto simp: rx_base_def u_def)
  have "(i + 1) mod 4 = (i mod 4 + 1) mod 4" for i :: nat by (simp add: mod_Suc_eq)
  then have "unat (frame_mask_index (u_ws w) + 1) mod 4 = (i + 1) mod 4" if "unat (frame_mask_index (u_ws w)) mod 4 = i mod 4"
    using that idx_next[of "frame_mask_index (u_ws w)"] by metis
  then show ?thesis using b a um
    by (auto simp: rx_base_def rx_buf_def key_state_def split: option.splits if_splits)
qed

lemma of_nat_pred: "0 < n \<Longrightarrow> (of_nat n :: size_t) - 1 = of_nat (n - 1)"
  by (cases n) auto

lemma of_nat_eq_0: "n < 2 ^ 63 \<Longrightarrow> (of_nat n :: size_t) = 0 \<longleftrightarrow> n = 0"
  by (simp add: word_unat_eq_iff unat_of_nat)

lemma last_byte: "0 < n \<Longrightarrow> n < 2 ^ 63 \<Longrightarrow> (of_nat (n - 1) :: size_t) = 0 \<longleftrightarrow> n = 1"
  using of_nat_eq_0[of "n - 1"] by (metis One_nat_def Suc_pred diff_self_eq_0 diff_le_self le_less_trans)

lemma rx_payload_eq:
  assumes "rx_put plain c w = Some v" "v1 = upd_ws (\<lambda>w. w\<lparr>rx_packet_length := rx_packet_length w - 1\<rparr>) v"
  shows "rx_payload sp plain c w = (if rx_packet_length (u_ws v1) = 0 then sp (set_rxps LWS_RXPS_NEW v1)
        else if rx_user_buffer_head (u_ws v1) \<noteq> rx_limit v1 then Some (0, v1) else sp v1)"
  by (simp only: rx_payload_def assms Option.bind.bind_lunit)

lemma server_step:
  assumes c: "server_collecting E got lim key i n acc w" and acc: "length acc < lim" and n: "0 < n"
  shows "\<exists>m w'. libwebsocket_rx_sm E w c = Some (m, w') \<and> 0 \<le> m \<and>
    (if n = 1 then server_ready E got lim w' \<and> got (user_space w') = got (user_space w) @ [acc @ [unmask key i c]]
     else if length acc + 1 = lim then server_collecting E got lim key (i + 1) (n - 1) [] w' \<and>
        got (user_space w') = got (user_space w) @ [acc @ [unmask key i c]]
     else server_collecting E got lim key (i + 1) (n - 1) (acc @ [unmask key i c]) w' \<and> user_space w' = user_space w)"
proof -
  note a = c[unfolded server_collecting_def]
  obtain v where v: "rx_put (all_zero_nonce (u_ws w)) c w = Some v" "rx_buf lim (acc @ [unmask key i c]) (u_ws v)" "rx_base lim v"
     "key_state key (i + 1) (u_ws v)" "opcode (u_ws v) = opcode (u_ws w)" "rx_packet_length (u_ws v) = of_nat n"
     "user_space v = user_space w" "lws_rx_parse_state v = lws_rx_parse_state w"
    using server_put[OF c acc n] by blast
  define v1 where "v1 = upd_ws (\<lambda>w. w\<lparr>rx_packet_length := rx_packet_length w - 1\<rparr>) v"
  define v2 where "v2 = (if n = 1 then set_rxps LWS_RXPS_NEW v1 else v1)"
  have v1: "rx_buf lim (acc @ [unmask key i c]) (u_ws v1)" "rx_base lim v1" "key_state key (i + 1) (u_ws v1)"
     "data_opcode (opcode (u_ws v1))" "rx_packet_length (u_ws v1) = of_nat (n - 1)" "user_space v1 = user_space w"
     "lws_rx_parse_state v1 = LWS_RXPS_PAYLOAD_UNTIL_LENGTH_EXHAUSTED"
    using v a of_nat_pred[OF n] by (cases key; simp add: v1_def rx_buf_def rx_base_def key_state_def)+
  have n1: "rx_packet_length (u_ws v1) = 0 \<longleftrightarrow> n = 1" unfolding v1(5) using last_byte[OF n] a by blast
  have hd: "rx_user_buffer_head (u_ws v1) = length acc + 1" "rx_limit v1 = lim"
    using v1(1,2) by (auto simp: rx_buf_def rx_base_def)
  have e: "libwebsocket_rx_sm E w c = (if n = 1 \<or> length acc + 1 = lim then spill E v2 else Some (0, v1))"
    using a n1 hd rx_payload_eq[OF v(1) v1_def, of "spill E"] by (simp add: rx_sm_defs v2_def)
  show ?thesis
  proof (cases "n = 1 \<or> length acc + 1 = lim")
    case True
    have "rx_buf lim (acc @ [unmask key i c]) (u_ws v2)" "active_extensions v2 = []" "has_callback (protocol v2)"
       "data_opcode (opcode (u_ws v2))" "user_space v2 = user_space w" "rx_base lim v2"
      using v1 by (auto simp: v2_def rx_base_def)
    with spill_ok[of E got lim "acc @ [unmask key i c]" v2] a obtain m w' where w': "spill E v2 = Some (m, w')" "0 \<le> m"
       "rx_view w' = rx_view v2" "rx_buf lim [] (u_ws w')" "got (user_space w') = got (user_space w) @ [acc @ [unmask key i c]]"
       "rx_base lim v2" by auto
    moreover have "rx_base lim w'" using rx_view_base[OF w'(3)] w'(6) by simp
    moreover have "key_state key (i + 1) (u_ws w')" using rx_view_key[OF w'(3), of key "i + 1"] v1(3) by (simp add: v2_def)
    moreover have "lws_rx_parse_state w' = lws_rx_parse_state v2" "rx_packet_length (u_ws w') = of_nat (n - 1)"
       "opcode (u_ws w') = opcode (u_ws v1)"
      using w'(3) v1(5) by (simp_all add: rx_view_def v2_def)
    ultimately show ?thesis unfolding e using True a v1 n
      by (auto simp: server_ready_def server_collecting_def v2_def)
  next
    case False
    then show ?thesis unfolding e using a v1 n by (auto simp: server_collecting_def)
  qed
qed

lemma server_key:
  assumes "lws_rx_parse_state w = LWS_RXPS_07_COLLECT_FRAME_KEY_1" "length k = 4" "all_zero_nonce (u_ws w)" "rx_packet_length (u_ws w) \<noteq> 0"
    "length (frame_masking_nonce_04 (u_ws w)) = 4"
  shows "feed (libwebsocket_rx_sm E) w k = Some (0, set_rxps LWS_RXPS_PAYLOAD_UNTIL_LENGTH_EXHAUSTED
     (upd_ws (\<lambda>x. x\<lparr>frame_masking_nonce_04 := k, all_zero_nonce := (\<forall>j < 4. k ! j = 0), frame_mask_index := 0\<rparr>) w))"
proof -
  obtain a b c d where k: "k = [a, b, c, d]" using assms(2) by (auto simp: numeral_eq_Suc length_Suc_conv)
  obtain a' b' c' d' where k': "frame_masking_nonce_04 (u_ws w) = [a', b', c', d']"
    using assms(5) by (auto simp: numeral_eq_Suc length_Suc_conv)
  have "(\<forall>j < 4. [a, b, c, d] ! j = 0) \<longleftrightarrow> a = 0 \<and> b = 0 \<and> c = 0 \<and> d = 0"
    by (auto simp: numeral_eq_Suc All_less_Suc2)
  then show ?thesis using assms(1,3,4) k'
    by (simp add: k rx_sm_defs set_nonce_def) (simp add: upd_ws_def set_rxps_def)
qed

lemma server_header:
  assumes "server_ready E got lim w" "server_accepts opc key" "0 < n" "n < 2 ^ 63"
  shows "\<exists>w'. feed (libwebsocket_rx_sm E) w (ws_head fin opc key n) = Some (0, w') \<and> server_collecting E got lim key 0 n [] w' \<and>
     user_space w' = user_space w"
proof -
  note a = assms(1)[unfolded server_ready_def]
  have d: "data_opcode opc" "ietf_spec_revision w = 13" "lws_rx_parse_state w = LWS_RXPS_NEW" "length (frame_masking_nonce_04 (u_ws w)) = 4"
    using assms(2) a by (auto simp: server_accepts_def rx_base_def)
  have nz: "(of_nat n :: size_t) \<noteq> 0" using of_nat_eq_0[OF assms(4)] assms(3) by simp
  show ?thesis
  proof (cases key)
    case None
    obtain g where g: "feed (libwebsocket_rx_sm E) w (ws_head fin opc key n) =
        Some (0, set_rxps LWS_RXPS_PAYLOAD_UNTIL_LENGTH_EXHAUSTED (upd_ws g w))"
      and x: "\<And>x. rx_packet_length (g x) = of_nat n \<and> opcode (g x) = opc \<and> \<not> this_frame_masked (g x) \<and> all_zero_nonce (g x) \<and>
        frame_masking_nonce_04 (g x) = frame_masking_nonce_04 x \<and> hdr_frame (g x) x"
      using srv_length[OF d(3,2,1) assms(4), of 0 False E fin] None by (auto simp: ws_head_def)
    show ?thesis unfolding g using a x[of "u_ws w"] assms(4) d(1) None
      by (auto simp: server_collecting_def rx_base_def rx_buf_def hdr_frame_def key_state_def)
  next
    case (Some k)
    then have k: "length k = 4" using assms(2) by (simp add: server_accepts_def)
    obtain g where g: "feed (libwebsocket_rx_sm E) w ((if fin then opc OR 0x80 else opc) # ws_length 128 n) =
        Some (0, set_rxps LWS_RXPS_07_COLLECT_FRAME_KEY_1 (upd_ws g w))"
      and x: "\<And>x. rx_packet_length (g x) = of_nat n \<and> opcode (g x) = opc \<and> this_frame_masked (g x) \<and> all_zero_nonce (g x) \<and>
        frame_masking_nonce_04 (g x) = frame_masking_nonce_04 x \<and> hdr_frame (g x) x"
      using srv_length[OF d(3,2,1) assms(4), of 128 True E fin] by auto
    define w1 where "w1 = set_rxps LWS_RXPS_07_COLLECT_FRAME_KEY_1 (upd_ws g w)"
    have f: "feed (libwebsocket_rx_sm E) w1 k = Some (0, set_rxps LWS_RXPS_PAYLOAD_UNTIL_LENGTH_EXHAUSTED
       (upd_ws (\<lambda>x. x\<lparr>frame_masking_nonce_04 := k, all_zero_nonce := (\<forall>j < 4. k ! j = 0), frame_mask_index := 0\<rparr>) w1))"
      by (rule server_key) (use x[of "u_ws w"] k d(4) nz in \<open>simp_all add: w1_def\<close>)
    have "feed (libwebsocket_rx_sm E) w (ws_head fin opc key n) = Some (0, set_rxps LWS_RXPS_PAYLOAD_UNTIL_LENGTH_EXHAUSTED
       (upd_ws (\<lambda>x. x\<lparr>frame_masking_nonce_04 := k, all_zero_nonce := (\<forall>j < 4. k ! j = 0), frame_mask_index := 0\<rparr>) w1))"
      using g f feed_append[of "libwebsocket_rx_sm E" w "(if fin then opc OR 0x80 else opc) # ws_length 128 n" k]
      by (simp add: Some ws_head_def w1_def[symmetric])
    then show ?thesis using a x[of "u_ws w"] assms(4) d(1) Some k
      by (auto simp: server_collecting_def rx_base_def rx_buf_def hdr_frame_def key_state_def w1_def)
  qed
qed

interpretation server_rx: frame_receiver "libwebsocket_rx_sm E" "server_ready E got lim" "server_collecting E got lim" server_accepts
  lim "\<lambda>w. got (user_space w)" for E got lim
proof unfold_locales
  fix w opc key fin and n :: nat
  assume "server_ready E got lim w" "server_accepts opc key" "0 < n" "n < 2 ^ 63"
  from server_header[OF this, of fin] show "\<exists>s'. feed (libwebsocket_rx_sm E) w (ws_head fin opc key n) = Some (0, s') \<and>
     server_collecting E got lim key 0 n [] s' \<and> got (user_space s') = got (user_space w)" by auto
qed (use server_step in \<open>fastforce simp: server_ready_def rx_base_def\<close>)+

section \<open>The client as a frame receiver\<close>

lemma cli_length64:
  assumes "lws_rx_parse_state w = LWS_RXPS_04_FRAME_HDR_LEN64_8" "b8 AND 0x80 = 0" "\<not> this_frame_masked (u_ws w)"
    and n: "n = (((((((push_bit 56 (ucast b8) OR push_bit 48 (ucast b7)) OR push_bit 40 (ucast b6))
          OR push_bit 32 (ucast b5)) OR push_bit 24 (ucast b4)) OR push_bit 16 (ucast b3)) OR push_bit 8 (ucast b2)) OR ucast b1)" "n \<noteq> 0"
  shows "feed (libwebsocket_client_rx_sm E) w [b8, b7, b6, b5, b4, b3, b2, b1] = Some (0,
     set_rxps LWS_RXPS_PAYLOAD_UNTIL_LENGTH_EXHAUSTED (upd_ws (\<lambda>x. x\<lparr>rx_packet_length := n\<rparr>) w))"
proof -
  let ?rx = "libwebsocket_client_rx_sm E"
  have 1: "?rx w b8 = Some (0, set_rxps LWS_RXPS_04_FRAME_HDR_LEN64_7 (set_length 56 b8 w))"
    using assms by (simp add: client_rx_sm_defs)
  have 2: "?rx (set_rxps LWS_RXPS_04_FRAME_HDR_LEN64_7 v) c = Some (0, set_rxps LWS_RXPS_04_FRAME_HDR_LEN64_6 (or_length 48 c v))"
    "?rx (set_rxps LWS_RXPS_04_FRAME_HDR_LEN64_6 v) c = Some (0, set_rxps LWS_RXPS_04_FRAME_HDR_LEN64_5 (or_length 40 c v))"
    "?rx (set_rxps LWS_RXPS_04_FRAME_HDR_LEN64_5 v) c = Some (0, set_rxps LWS_RXPS_04_FRAME_HDR_LEN64_4 (or_length 32 c v))"
    "?rx (set_rxps LWS_RXPS_04_FRAME_HDR_LEN64_4 v) c = Some (0, set_rxps LWS_RXPS_04_FRAME_HDR_LEN64_3 (or_length 24 c v))"
    "?rx (set_rxps LWS_RXPS_04_FRAME_HDR_LEN64_3 v) c = Some (0, set_rxps LWS_RXPS_04_FRAME_HDR_LEN64_2 (or_length 16 c v))"
    "?rx (set_rxps LWS_RXPS_04_FRAME_HDR_LEN64_2 v) c = Some (0, set_rxps LWS_RXPS_04_FRAME_HDR_LEN64_1 (or_length 8 c v))" for v c
    by (simp_all add: client_rx_sm_defs or_length_def)
  have 3: "?rx (set_rxps LWS_RXPS_04_FRAME_HDR_LEN64_1 v) c = Some (0, set_rxps LWS_RXPS_PAYLOAD_UNTIL_LENGTH_EXHAUSTED (or_length 0 c v))"
    if "\<not> this_frame_masked (u_ws v)" "rx_packet_length (u_ws v) OR ucast c \<noteq> 0" for v c
    using that by (simp add: client_rx_sm_defs or_length_def)
  show ?thesis using assms(3) n(2) unfolding n(1)
    by (simp add: 1 2 3 or_length_def set_length_def) (simp add: upd_ws_def)
qed

lemma cli_length:
  assumes "lws_rx_parse_state w = LWS_RXPS_NEW" "ietf_spec_revision w = 13" "data_opcode opc" "0 < n" "n < 2 ^ 63"
  shows "\<exists>g. feed (libwebsocket_client_rx_sm E) w ((if fin then opc OR 0x80 else opc) # ws_length 0 n) =
     Some (0, set_rxps LWS_RXPS_PAYLOAD_UNTIL_LENGTH_EXHAUSTED (upd_ws g w)) \<and>
     (\<forall>x. rx_packet_length (g x) = of_nat n \<and> opcode (g x) = opc \<and> \<not> this_frame_masked (g x) \<and> hdr_frame (g x) x)"
proof -
  note op = data_opcode_bits[OF assms(3)]
  have nz: "(of_nat n :: size_t) \<noteq> 0" using of_nat_eq_0[OF assms(5)] assms(4) by simp
  show ?thesis
  proof (cases "n < 126")
    case True
    have b7: "(of_nat n AND 0x80 :: byte) = 0" "(of_nat n AND 0x7f :: byte) = of_nat n"
      using bit7_of_nat[of n] True by auto
    have nb: "(of_nat n :: byte) \<noteq> 126" "(of_nat n :: byte) \<noteq> 127"
      using True by (auto simp: word_unat_eq_iff unat_of_nat)
    show ?thesis using True assms(1,2) op b7 nb nz
      by (auto simp: ws_length_def client_rx_sm_defs handle_first_def set_length_def hdr_frame_def ucast_of_nat_byte)
  next
    case False
    show ?thesis
    proof (cases "n < 65536")
      case True
      have l: "push_bit 8 (of_nat (n div 256 mod 256)) OR of_nat (n mod 256) = (of_nat n :: size_t)" by (rule length16[OF True])
      show ?thesis using True False assms(1,2) op l nz
        by (auto simp: ws_length_def be_bytes_2_8 client_rx_sm_defs handle_first_def set_length_def or_length_def hdr_frame_def
            ucast_of_nat_byte)
    next
      case big: False
      have top: "(of_nat (n div 2 ^ 56) AND 0x80 :: byte) = 0"
        using assms(5) by (intro bit7_of_nat) (simp add: less_mult_imp_div_less)
      let ?w = "set_rxps LWS_RXPS_04_FRAME_HDR_LEN64_8 (upd_ws (\<lambda>x. x\<lparr>this_frame_masked := False\<rparr>)
          (handle_first (if fin then opc OR 0x80 else opc) w))"
      have 1: "feed (libwebsocket_client_rx_sm E) w [if fin then opc OR 0x80 else opc, 127] = Some (0, ?w)"
        using assms(1,2) op by (simp add: client_rx_sm_defs handle_first_def)
      have 2: "feed (libwebsocket_client_rx_sm E) ?w (be_bytes 8 n) = Some (0, set_rxps LWS_RXPS_PAYLOAD_UNTIL_LENGTH_EXHAUSTED
          (upd_ws (\<lambda>x. x\<lparr>rx_packet_length := of_nat n\<rparr>) ?w))"
        unfolding be_bytes_2_8
        by (rule cli_length64) (use top nz length64[OF assms(5)] in \<open>simp_all add: ucast_of_nat_byte handle_first_def\<close>)
      show ?thesis using False big op 1 2
          feed_append[of "libwebsocket_client_rx_sm E" w "[if fin then opc OR 0x80 else opc, 127]" "be_bytes 8 n"]
        by (auto simp: ws_length_def handle_first_def hdr_frame_def)
    qed
  qed
qed

definition client_view where
  "client_view w = ((protocol w, active_extensions w, ietf_spec_revision w, lws_rx_parse_state w),
     map_option length (rx_user_buffer (u_ws w)), rx_packet_length (u_ws w), opcode (u_ws w), this_frame_masked (u_ws w))"

text \<open>
  User code of a client that takes what it is given and leaves the receiver alone; it may write.
\<close>

definition client_user :: "'u env \<Rightarrow> ('u \<Rightarrow> byte list list) \<Rightarrow> bool" where
  "client_user E got \<longleftrightarrow> (\<forall>bs w. active_extensions w = [] \<longrightarrow>
     (case user_cb E LWS_CALLBACK_CLIENT_RECEIVE bs w of (r, w') \<Rightarrow>
        client_view w' = client_view w \<and> got (user_space w') = got (user_space w) @ [bs]))"

definition client_base :: "nat \<Rightarrow> 'u lws \<Rightarrow> bool" where
  "client_base lim w \<longleftrightarrow> 0 < lim \<and> rx_limit w = lim \<and> active_extensions w = [] \<and> has_callback (protocol w) \<and> ietf_spec_revision w = 13"

definition client_ready :: "'u env \<Rightarrow> ('u \<Rightarrow> byte list list) \<Rightarrow> nat \<Rightarrow> 'u lws \<Rightarrow> bool" where
  "client_ready E got lim w \<longleftrightarrow> client_user E got \<and> client_base lim w \<and> rx_buf lim [] (u_ws w) \<and> lws_rx_parse_state w = LWS_RXPS_NEW"

definition client_collecting ::
  "'u env \<Rightarrow> ('u \<Rightarrow> byte list list) \<Rightarrow> nat \<Rightarrow> byte list option \<Rightarrow> nat \<Rightarrow> nat \<Rightarrow> byte list \<Rightarrow> 'u lws \<Rightarrow> bool" where
  "client_collecting E got lim key i n acc w \<longleftrightarrow> client_user E got \<and> client_base lim w \<and> rx_buf lim acc (u_ws w) \<and>
     lws_rx_parse_state w = LWS_RXPS_PAYLOAD_UNTIL_LENGTH_EXHAUSTED \<and> rx_packet_length (u_ws w) = of_nat n \<and> n < 2 ^ 63 \<and>
     data_opcode (opcode (u_ws w)) \<and> \<not> this_frame_masked (u_ws w) \<and> key = None"

definition client_accepts :: "byte \<Rightarrow> byte list option \<Rightarrow> bool" where
  "client_accepts opc key \<longleftrightarrow> data_opcode opc \<and> key = None"

lemma client_spill_ok:
  assumes "client_user E got" "rx_buf lim acc (u_ws w)" "acc \<noteq> []" "active_extensions w = []" "has_callback (protocol w)"
    "data_opcode (opcode (u_ws w))"
  shows "\<exists>w'. client_spill E w = Some (0, w') \<and> client_view w' = client_view w \<and> rx_buf lim [] (u_ws w') \<and>
     got (user_space w') = got (user_space w) @ [acc]"
proof -
  let ?w = "\<lambda>buf. upd_ws (\<lambda>x. x\<lparr>rx_user_buffer := Some buf\<rparr>) w"
  obtain buf where b: "rx_payload_up E (user_cb E LWS_CALLBACK_CLIENT_RECEIVE) w = Some (Inr (user_cb E LWS_CALLBACK_CLIENT_RECEIVE acc (?w buf)))"
    "length buf = LWS_SEND_BUFFER_PRE_PADDING + lim + LWS_SEND_BUFFER_POST_PADDING"
    using payload_up_ok[OF assms(2-5)] by blast
  obtain m w' where m: "user_cb E LWS_CALLBACK_CLIENT_RECEIVE acc (?w buf) = (m, w')" by fastforce
  then have w': "client_view w' = client_view (?w buf)" "got (user_space w') = got (user_space w) @ [acc]"
    using assms(1)[unfolded client_user_def, rule_format, of "?w buf" acc] assms(4) by simp_all
  have l: "map_option length (rx_user_buffer (u_ws w)) = Some (length buf)"
    using assms(2) b(2) by (auto simp: rx_buf_def)
  have "client_view (reset_head w') = client_view w" using w'(1) l by (auto simp: client_view_def reset_head_def)
  moreover have "rx_buf lim [] (u_ws (reset_head w'))" using w'(1) b(2) by (auto simp: client_view_def rx_buf_def reset_head_def)
  moreover have "client_spill E w = Some (0, reset_head w')"
    using assms(6) b m by (auto simp: client_spill_def Let_def data_opcode_def c_defs)
  ultimately show ?thesis using w' by (auto simp: reset_head_def)
qed

lemma client_step:
  assumes c: "client_collecting E got lim key i n acc w" and acc: "length acc < lim" and n: "0 < n"
  shows "\<exists>w'. libwebsocket_client_rx_sm E w c = Some (0, w') \<and>
    (if n = 1 then client_ready E got lim w' \<and> got (user_space w') = got (user_space w) @ [acc @ [unmask key i c]]
     else if length acc + 1 = lim then client_collecting E got lim key (i + 1) (n - 1) [] w' \<and>
        got (user_space w') = got (user_space w) @ [acc @ [unmask key i c]]
     else client_collecting E got lim key (i + 1) (n - 1) (acc @ [unmask key i c]) w' \<and> user_space w' = user_space w)"
proof -
  note a = c[unfolded client_collecting_def]
  have u: "unmask key i c = c" using a by (simp add: unmask_def)
  obtain buf where b: "rx_put True c w = Some (upd_ws (\<lambda>x. x\<lparr>rx_user_buffer := Some buf,
       rx_user_buffer_head := rx_user_buffer_head x + 1, frame_mask_index := frame_mask_index x\<rparr>) w)"
    "rx_buf lim (acc @ [c]) (u_ws w\<lparr>rx_user_buffer := Some buf, rx_user_buffer_head := length acc + 1\<rparr>)"
    using rx_put_ok[of lim acc w True c c] a acc by auto
  define v where "v = upd_ws (\<lambda>x. x\<lparr>rx_user_buffer := Some buf,
       rx_user_buffer_head := rx_user_buffer_head x + 1, frame_mask_index := frame_mask_index x\<rparr>) w"
  define v1 where "v1 = upd_ws (\<lambda>w. w\<lparr>rx_packet_length := rx_packet_length w - 1\<rparr>) v"
  define v2 where "v2 = (if n = 1 then set_rxps LWS_RXPS_NEW v1 else v1)"
  have v1: "rx_buf lim (acc @ [c]) (u_ws v1)" "client_base lim v1" "\<not> this_frame_masked (u_ws v1)"
     "data_opcode (opcode (u_ws v1))" "rx_packet_length (u_ws v1) = of_nat (n - 1)" "user_space v1 = user_space w"
     "lws_rx_parse_state v1 = LWS_RXPS_PAYLOAD_UNTIL_LENGTH_EXHAUSTED"
    using b(2) a of_nat_pred[OF n] by (auto simp: v1_def v_def rx_buf_def client_base_def)
  have n1: "rx_packet_length (u_ws v1) = 0 \<longleftrightarrow> n = 1" unfolding v1(5) using last_byte[OF n] a by blast
  have hd: "rx_user_buffer_head (u_ws v1) = length acc + 1" "rx_limit v1 = lim"
    using v1(1,2) by (auto simp: rx_buf_def client_base_def)
  have e: "libwebsocket_client_rx_sm E w c = (if n = 1 \<or> length acc + 1 = lim then client_spill E v2 else Some (0, v1))"
    using a n1 hd rx_payload_eq[OF b(1)[folded v_def] v1_def, of "client_spill E"] by (simp add: client_rx_sm_defs v2_def)
  show ?thesis
  proof (cases "n = 1 \<or> length acc + 1 = lim")
    case True
    have "rx_buf lim (acc @ [c]) (u_ws v2)" "active_extensions v2 = []" "has_callback (protocol v2)"
       "data_opcode (opcode (u_ws v2))" "user_space v2 = user_space w" "client_base lim v2"
      using v1 by (auto simp: v2_def client_base_def)
    with client_spill_ok[of E got lim "acc @ [c]" v2] a obtain w' where w': "client_spill E v2 = Some (0, w')"
       "client_view w' = client_view v2" "rx_buf lim [] (u_ws w')" "got (user_space w') = got (user_space w) @ [acc @ [c]]"
       "client_base lim v2" by auto
    moreover have "client_base lim w'" using w'(2,5) by (auto simp: client_view_def client_base_def rx_limit_def)
    moreover have "lws_rx_parse_state w' = lws_rx_parse_state v2" "rx_packet_length (u_ws w') = of_nat (n - 1)"
       "opcode (u_ws w') = opcode (u_ws v1)" "\<not> this_frame_masked (u_ws w')"
      using w'(2) v1(3,5) by (auto simp: client_view_def v2_def)
    ultimately show ?thesis unfolding e u using True a v1 n
      by (auto simp: client_ready_def client_collecting_def v2_def)
  next
    case False
    then show ?thesis unfolding e u using a v1 n by (auto simp: client_collecting_def)
  qed
qed

interpretation client_rx: frame_receiver "libwebsocket_client_rx_sm E" "client_ready E got lim" "client_collecting E got lim" client_accepts
  lim "\<lambda>w. got (user_space w)" for E got lim
proof unfold_locales
  fix w opc key fin and n :: nat
  assume a: "client_ready E got lim w" "client_accepts opc key" "0 < n" "n < 2 ^ 63"
  note r = a(1)[unfolded client_ready_def]
  have d: "data_opcode opc" "key = None" "lws_rx_parse_state w = LWS_RXPS_NEW" "ietf_spec_revision w = 13"
    using a r by (auto simp: client_accepts_def client_base_def)
  obtain g where "feed (libwebsocket_client_rx_sm E) w (ws_head fin opc key n) =
        Some (0, set_rxps LWS_RXPS_PAYLOAD_UNTIL_LENGTH_EXHAUSTED (upd_ws g w))"
      "rx_packet_length (g (u_ws w)) = of_nat n \<and> opcode (g (u_ws w)) = opc \<and> \<not> this_frame_masked (g (u_ws w)) \<and> hdr_frame (g (u_ws w)) (u_ws w)"
    using cli_length[OF d(3,4,1) a(3,4), of E fin] d(2) by (auto simp: ws_head_def)
  then show "\<exists>s'. feed (libwebsocket_client_rx_sm E) w (ws_head fin opc key n) = Some (0, s') \<and>
     client_collecting E got lim key 0 n [] s' \<and> got (user_space s') = got (user_space w)"
    using r d(1,2) a(4) by (auto simp: client_collecting_def client_base_def rx_buf_def hdr_frame_def)
qed (use client_step in \<open>fastforce simp: client_ready_def client_base_def\<close>)+

end
