(* ===== verification/Frame_Safety.thy ===== *)
theory Frame_Safety
  imports Frame_Rx
begin

text \<open>
  What the receivers guarantee: they stay inside their buffers on any input (including the control frames they answer out of the
  receive buffer), they deliver what frames carry, and the two ends of a connection agree. At the end two places where they do
  not do what they mean to.
\<close>

section \<open>Memory safety\<close>

text \<open>The part of the connection that a control frame sent from the receive buffer leaves alone.\<close>

definition rx_part where
  "rx_part w = ((protocol w, active_extensions w, ietf_spec_revision w, mode w, lws_rx_parse_state w),
     (rx_user_buffer (u_ws w), rx_user_buffer_head (u_ws w), rx_packet_length (u_ws w), opcode (u_ws w), this_frame_masked (u_ws w)),
     (rxflow_change_to (u_ws w) AND LWS_RXFLOW_ALLOW, rxflow_buffer (u_ws w)), length (frame_masking_nonce_04 (u_ws w)), inside_frame (u_ws w), user_space w)"

lemma core_rx_part: "conn_core x = conn_core y \<Longrightarrow> rx_part x = rx_part y"
  by (simp add: conn_core_def rx_part_def)

lemma rx_part_upd [simp]: "rx_part (w\<lparr>sys_calls := a\<rparr>) = rx_part w" "rx_part (w\<lparr>wire := b\<rparr>) = rx_part w"
  "rx_part (upd_ws (\<lambda>x. x\<lparr>clean_buffer := c\<rparr>) w) = rx_part w" "rx_part (w\<lparr>state := s\<rparr>) = rx_part w"
  "rx_part (w\<lparr>pollin := p\<rparr>) = rx_part w" "rx_part (w\<lparr>pollout := p\<rparr>) = rx_part w"
  "rx_part (upd_ws (\<lambda>x. x\<lparr>truncated_send_malloc := m\<rparr>) w) = rx_part w"
  "rx_part (upd_ws (\<lambda>x. x\<lparr>frame_mask_index := i\<rparr>) w) = rx_part w"
  by (simp_all add: rx_part_def)

lemma truncated_rx_part:
  assumes "proto0_quiet E" "active_extensions w = []"
  shows "rx_part (snd (handle_truncated_send E bs n w)) = rx_part w"
proof -
  have u: "rx_part (upd_ws (\<lambda>x. x\<lparr>truncated_send_offset := truncated_send_offset x + i, truncated_send_len := truncated_send_len x - j\<rparr>) v) = rx_part v"
    "rx_part (upd_ws (\<lambda>x. x\<lparr>truncated_send_malloc := Some m, truncated_send_offset := 0, truncated_send_len := k\<rparr>) v) = rx_part v" 
    for v :: "'a lws" and i j k m
    by (simp_all add: rx_part_def)
  have o: "rx_part (snd (libwebsocket_callback_on_writable E v)) = rx_part v" if "active_extensions v = []" for v
    by (rule core_rx_part[OF on_writable_core[OF assms(1) that]])
  show ?thesis using assms(2)
    by (cases "truncated_send_malloc (u_ws w)") (simp_all add: handle_truncated_send_def Let_def o u del: upd_ws_fields(18))
qed

lemma issue_raw_safe:
  assumes "proto0_quiet E" "active_extensions w = []" "tok_bytes buf = Some bs"
  shows "\<exists>n w'. lws_issue_raw E buf w = Some (n, w') \<and> rx_part w' = rx_part w"
proof -
  let ?w = "\<lambda>n. w\<lparr>sys_calls := sys_calls w + 1, wire := wire w @ take (nat n) bs\<rparr>"
  have "rx_part (snd (handle_truncated_send E bs m (?w n))) = rx_part w" for m n
    using truncated_rx_part[OF assms(1), of "?w n" bs m] assms(2) by simp
  then show ?thesis using assms(2,3)
    by (cases "c_int (os_send E (sys_calls w) bs) < 0") (auto simp: lws_issue_raw_def Let_def prod_eq_iff intro!: exI[of _ "fst (handle_truncated_send E bs _ _)"])
qed

text \<open>A write with room around the payload, on its way to the socket.\<close>

definition wb_ok :: "byte list \<Rightarrow> write_buf \<Rightarrow> bool" where
  "wb_ok mem wb \<longleftrightarrow> length (wb_mem wb) = length mem \<and> wb_pre wb \<le> wb_off wb \<and> wb_off wb + wb_len wb \<le> length mem"

lemma build_frame_safe:
  assumes "prot \<in> {LWS_WRITE_CLOSE, LWS_WRITE_PONG}" "18 + len + 4 \<le> length mem" "length mem < 2 ^ 31"
  shows "\<exists>wb. build_frame prot w \<lparr>wb_mem = mem, wb_off = 18, wb_len = len, wb_pre = 0, wb_dropmask = None\<rparr> = Some (Inr wb) \<and>
     wb_ok mem wb \<and> (mode w = LWS_CONNMODE_WS_CLIENT \<longrightarrow> wb_dropmask wb = Some 14 \<and> 18 + wb_len wb \<le> length mem)"
proof -
  have h: "length (frame_header a n b) \<le> 10" for a n b by (simp add: frame_header_def)
  obtain opc where o: "write_opcode prot = Some opc" using assms(1) by (auto simp: write_opcode_def c_defs)
  let ?m = "mode w = LWS_CONNMODE_WS_CLIENT"
  define len' where "len' = (if prot AND 0xf = LWS_WRITE_CLOSE \<and> close_reason (u_ws w) \<noteq> 0 then len + 2 else len)"
  define off' where "off' = (if prot AND 0xf = LWS_WRITE_CLOSE \<and> close_reason (u_ws w) \<noteq> 0 then 16 else 18 :: nat)"
  define hdr where "hdr = frame_header (if prot AND LWS_WRITE_NO_FIN = 0 then opc OR 0x80 else opc) len' (if ?m then 0x80 else 0)"
  define pre where "pre = (if ?m then 4 else 0) + length hdr"
  have lh: "length hdr \<le> 10" unfolding hdr_def by (rule h)
  then have pre: "pre \<le> 14" "pre - (if ?m then 4 else 0) = length hdr" by (simp_all add: pre_def)
  have o': "off' + len' = 18 + len" "16 \<le> off'" by (auto simp: off'_def len'_def)
  define m1 where "m1 = (if off' = 16 then take 16 mem @ [ucast (drop_bit 8 (close_reason (u_ws w))), ucast (close_reason (u_ws w))] @ drop 18 mem else mem)"
  have "2 \<le> length mem" using assms(2) by linarith
  then have m1: "length m1 = length mem" using assms(2) by (auto simp: m1_def)
  have "off' - pre + length hdr \<le> length m1" using m1 o' pre assms(2) lh by linarith
  from blit_in[OF this] obtain m2 where b2: "blit m1 (off' - pre) hdr = Some m2" by blast
  with length_blit[OF b2] m1 have m2: "blit m1 (off' - pre) hdr = Some m2" "length m2 = length mem" by simp_all
  have "build_frame prot w \<lparr>wb_mem = mem, wb_off = 18, wb_len = len, wb_pre = 0, wb_dropmask = None\<rparr> =
     Some (Inr \<lparr>wb_mem = m2, wb_off = off', wb_len = len', wb_pre = pre, wb_dropmask = if ?m then Some 14 else None\<rparr>)"
  proof -
    have np: "\<not> 18 < pre" "\<not> 16 < pre" "\<not> (18::nat) < 4" "\<not> (18::nat) < 2" using pre(1) by simp_all
    have b1: "blit mem 16 [ucast (drop_bit 8 (close_reason (u_ws w))), ucast (close_reason (u_ws w))] =
       Some (take 16 mem @ [ucast (drop_bit 8 (close_reason (u_ws w))), ucast (close_reason (u_ws w))] @ drop 18 mem)"
      using assms(2) by (simp add: blit_def)
    show ?thesis
    proof (cases "prot AND 0xf = LWS_WRITE_CLOSE \<and> close_reason (u_ws w) \<noteq> 0")
      case True
      then have e: "off' = 16" "len' = len + 2" by (simp_all add: off'_def len'_def)
      have m: "blit (take 16 mem @ [ucast (drop_bit 8 (close_reason (u_ws w))), ucast (close_reason (u_ws w))] @ drop 18 mem) (16 - pre) hdr = Some m2"
        using m2(1) e by (simp add: m1_def)
      have "(len + 2) mod 2 ^ 64 = len'" using assms(2,3) e(2) by simp
      then show ?thesis using o True b1 m np(2) e unfolding build_frame_def pre_def hdr_def
        by (cases ?m) (simp_all add: Let_def)
    next
      case False
      then have e: "off' = 18" "len' = len" by (simp_all only: off'_def len'_def if_False)
      then have "blit mem (18 - pre) hdr = Some m2" using m2(1) by (simp add: m1_def)
      note e = e this
      show ?thesis using o False e np(1) unfolding build_frame_def pre_def hdr_def
        by (cases ?m; cases "prot AND 0xf = LWS_WRITE_CLOSE") (simp_all add: Let_def)
    qed
  qed
  then show ?thesis using o' pre assms(2) m2(2) by (auto simp: wb_ok_def len'_def)
qed

lemma mask_frame_safe:
  assumes "wb_ok mem wb" "length (frame_masking_nonce_04 (u_ws w)) = 4" "length mem < 2 ^ 31"
    and "mode w = LWS_CONNMODE_WS_CLIENT \<Longrightarrow> wb_dropmask wb = Some 14 \<and> 18 + wb_len wb \<le> length mem"
  shows "(\<exists>r w'. mask_frame E w wb = Some (Inl (r, w')) \<and> rx_part w' = rx_part w) \<or>
     (\<exists>w' wb'. mask_frame E w wb = Some (Inr (w', wb')) \<and> rx_part w' = rx_part w \<and> wb_ok mem wb')"
proof (cases "mode w = LWS_CONNMODE_WS_CLIENT")
  case True
  then have d: "wb_dropmask wb = Some 14" "18 + wb_len wb \<le> length (wb_mem wb)" "length (wb_mem wb) = length mem"
    using assms(1,4) by (auto simp: wb_ok_def)
  have cnt: "mask_count (wb_len wb) = Some (wb_len wb)" using mask_count_eq[of "wb_len wb"] d(2,3) assms(3) by simp
  define g where "g = (if \<not> inside_frame (u_ws w) then libwebsocket_0405_frame_mask_generate E w else (0, w))"
  obtain k v where v: "g = (k, v)" by fastforce
  have r: "rx_part v = rx_part w" "length (frame_masking_nonce_04 (u_ws v)) = 4"
    using v assms(2) by (auto simp: g_def libwebsocket_0405_frame_mask_generate_def Let_def rx_part_def split: if_splits)
  show ?thesis
  proof (cases "k = 0")
    case True
    let ?n = "wb_len wb" and ?idx = "frame_mask_index (u_ws v)" and ?nonce = "frame_masking_nonce_04 (u_ws v)"
    obtain m1 idx where m1: "mask_loop ?n 18 (wb_mem wb) ?idx ?nonce = Some (m1, idx)" "length m1 = length mem"
      using mask_loop_eq[OF r(2) d(2), of ?idx] d(2,3) by fastforce
    have "blit m1 14 (take 4 ?nonce) \<noteq> None" using m1(2) d(2,3) r(2) by (simp add: blit_def)
    then obtain m2 where m2: "blit m1 14 (take 4 ?nonce) = Some m2" "length m2 = length mem"
      using length_blit[of m1 14 "take 4 ?nonce"] m1(2) by auto
    have "mask_frame E w wb = Some (Inr (upd_ws (\<lambda>w. w\<lparr>frame_mask_index := idx\<rparr>) v, wb\<lparr>wb_mem := m2\<rparr>))"
      using \<open>mode w = LWS_CONNMODE_WS_CLIENT\<close> v d(1) cnt m1(1) m2(1) True by (simp add: mask_frame_def g_def[symmetric])
    then show ?thesis using r(1) assms(1) m2(2) by (simp add: wb_ok_def)
  qed (use True v r in \<open>simp add: mask_frame_def g_def[symmetric]\<close>)
qed (use assms(1) in \<open>simp add: mask_frame_def\<close>)

lemma send_raw_safe:
  assumes "proto0_quiet E" "active_extensions w = []" "prot \<in> {LWS_WRITE_CLOSE, LWS_WRITE_PONG}" "wb_ok mem wb"
    "length mem < 2 ^ 31"
  shows "\<exists>n w'. send_raw E prot len w wb = Some (n, w') \<and> rx_part w' = rx_part w"
proof -
  let ?buf = "\<lparr>tok_mem = wb_mem wb, tok_off = wb_off wb - wb_pre wb, tok_len = int (wb_len wb + wb_pre wb), tok_moved = False\<rparr>"
  have "tok_bytes ?buf = Some (take (wb_len wb + wb_pre wb) (drop (wb_off wb - wb_pre wb) (wb_mem wb)))"
    using assms(4) by (simp add: wb_ok_def tok_bytes_def nat_add_distrib)
  moreover have "(wb_len wb + wb_pre wb) mod 2 ^ 64 = wb_len wb + wb_pre wb" using assms(4,5) by (auto simp: wb_ok_def)
  ultimately show ?thesis using issue_raw_safe[OF assms(1,2), of ?buf] assms(3,4) by (auto simp: send_raw_def Let_def wb_ok_def)
qed

lemma control_write_safe:
  assumes q: "proto0_quiet E" "active_extensions w = []" and p: "prot \<in> {LWS_WRITE_CLOSE, LWS_WRITE_PONG}"
    and m: "18 + len + 4 \<le> length mem" "length mem < 2 ^ 31" and n: "length (frame_masking_nonce_04 (u_ws w)) = 4" "ietf_spec_revision w = 13"
    and i: "mode w = LWS_CONNMODE_WS_CLIENT \<Longrightarrow> \<not> inside_frame (u_ws w)"
  shows "\<exists>n w' mem'. libwebsocket_write E w mem 18 len prot = Some (n, w', mem') \<and> length mem' = length mem \<and> rx_part w' = rx_part w"
proof -
  define wb0 where "wb0 = \<lparr>wb_mem = mem, wb_off = 18, wb_len = len, wb_pre = 0, wb_dropmask = None\<rparr>"
  define w1 where "w1 = upd_ws (\<lambda>w'. w'\<lparr>clean_buffer := \<not> no_buffer_all_partial_tx (protocol w)\<rparr>) w"
  have w1: "rx_part w1 = rx_part w" "active_extensions w1 = []" "length (frame_masking_nonce_04 (u_ws w1)) = 4" "mode w1 = mode w"
      "ietf_spec_revision w1 = 13"
    using q(2) n by (simp_all add: w1_def)
  have np: "prot \<noteq> LWS_WRITE_HTTP" "prot \<in> {LWS_WRITE_CLOSE, LWS_WRITE_PING, LWS_WRITE_PONG}" using p by (auto simp: c_defs)
  consider "state w \<noteq> WSI_STATE_ESTABLISHED" | "state w = WSI_STATE_ESTABLISHED" "inside_frame (u_ws w)"
    | "state w = WSI_STATE_ESTABLISHED" "\<not> inside_frame (u_ws w)" by blast
  then show ?thesis
  proof cases
    case 1
    then show ?thesis using np by (simp add: libwebsocket_write_def)
  next
    case 2
    have wb0: "wb_ok mem wb0" using m(1) by (simp add: wb_ok_def wb0_def)
    have "libwebsocket_write E w mem 18 len prot = do { (n, v) \<leftarrow> send_raw E prot len w wb0; Some (n, v, mem) }"
    proof -
      have "mode w \<noteq> LWS_CONNMODE_WS_CLIENT" using i 2 by blast
      then have "mask_frame E w wb0 = Some (Inr (w, wb0))" by (simp add: mask_frame_def)
      then show ?thesis using 2 np by (simp add: libwebsocket_write_def wb0_def)
    qed
    then show ?thesis using send_raw_safe[OF q p wb0 m(2), of len] by auto
  next
    case 3
    obtain wb where wb: "build_frame prot w1 wb0 = Some (Inr wb)" "wb_ok mem wb"
        "mode w = LWS_CONNMODE_WS_CLIENT \<Longrightarrow> wb_dropmask wb = Some 14 \<and> 18 + wb_len wb \<le> length mem"
      using build_frame_safe[OF p m, of w1] w1(4) by (auto simp: wb0_def)
    have e: "libwebsocket_write E w mem 18 len prot = do { res \<leftarrow> mask_frame E w1 wb;
         case res of Inl (r, v) \<Rightarrow> Some (r, v, wb_mem wb)
         | Inr (v, wb) \<Rightarrow> do { (n, v) \<leftarrow> send_raw E prot len v wb; Some (n, v, wb_mem wb) } }"
    proof -
      have "prot = LWS_WRITE_PING \<or> prot = LWS_WRITE_PONG \<or> prot = LWS_WRITE_CLOSE" using np(2) by blast
      moreover have "c_int (int len) = int len" "c_size (int len) = len" using m c_size_nat[of len] by simp_all
      ultimately show ?thesis using 3 np wb(1) w1(5) by (simp add: libwebsocket_write_def Let_def w1_def[symmetric] wb0_def)
    qed
    show ?thesis
    proof (cases "mask_frame E w1 wb")
      case None
      then show ?thesis using mask_frame_safe[OF wb(2) w1(3) m(2), of E] wb(3) w1(4) by auto
    next
      case (Some res)
      show ?thesis
      proof (cases res)
        case (Inl a)
        then show ?thesis using mask_frame_safe[OF wb(2) w1(3) m(2), of E] wb(2,3) w1(1,4) Some e by (auto simp: wb_ok_def)
      next
        case (Inr a)
        then obtain v wb' where v: "res = Inr (v, wb')" "rx_part v = rx_part w" "wb_ok mem wb'"
          using mask_frame_safe[OF wb(2) w1(3) m(2), of E] wb(3) w1(1,4) Some by auto
        then have "active_extensions v = []" using q(2) by (simp add: rx_part_def)
        from send_raw_safe[OF q(1) this p v(3) m(2), of len] show ?thesis using e Some v by (auto simp: wb_ok_def)
      qed
    qed
  qed
qed

text \<open>
  What the receivers need at every moment to stay inside their buffer. \<open>Q\<close> is what is to hold of the
  flow control in addition.
\<close>

definition rx_safe :: "(2 word \<times> byte list option \<Rightarrow> bool) \<Rightarrow> nat \<Rightarrow> 'u lws \<Rightarrow> bool" where
  "rx_safe Q lim w \<longleftrightarrow> 0 < lim \<and> lim + 22 < 2 ^ 31 \<and> rx_limit w = lim \<and> active_extensions w = [] \<and> ietf_spec_revision w = 13 \<and>
     length (frame_masking_nonce_04 (u_ws w)) = 4 \<and> (mode w = LWS_CONNMODE_WS_CLIENT \<longrightarrow> \<not> inside_frame (u_ws w)) \<and>
     map_option length (rx_user_buffer (u_ws w)) = Some (LWS_SEND_BUFFER_PRE_PADDING + lim + LWS_SEND_BUFFER_POST_PADDING) \<and>
     Q (rxflow_change_to (u_ws w) AND LWS_RXFLOW_ALLOW, rxflow_buffer (u_ws w))"

definition rx_inv :: "(2 word \<times> byte list option \<Rightarrow> bool) \<Rightarrow> nat \<Rightarrow> 'u lws \<Rightarrow> bool" where
  "rx_inv Q lim w \<longleftrightarrow> rx_safe Q lim w \<and> rx_user_buffer_head (u_ws w) < lim"

text \<open>User code that leaves the receive buffer in place.\<close>

definition user_safe :: "'u env \<Rightarrow> (2 word \<times> byte list option \<Rightarrow> bool) \<Rightarrow> nat \<Rightarrow> bool" where
  "user_safe E Q lim \<longleftrightarrow> proto0_quiet E \<and>
     (\<forall>r bs w. rx_safe Q lim w \<longrightarrow> rx_safe Q lim (snd (user_cb E r bs w)))"

lemma rx_part_safe: "rx_part v = rx_part w \<Longrightarrow> rx_safe Q lim v = rx_safe Q lim w"
  by (simp add: rx_part_def rx_safe_def rx_limit_def)

lemma rx_part_head: "rx_part v = rx_part w \<Longrightarrow> rx_user_buffer_head (u_ws v) = rx_user_buffer_head (u_ws w)"
  by (simp add: rx_part_def)

lemma reset_head_inv: "rx_safe Q lim w \<Longrightarrow> rx_inv Q lim (reset_head w)"
  by (simp add: rx_inv_def rx_safe_def reset_head_def)

lemma rx_write_safe:
  assumes "proto0_quiet E" "rx_safe Q lim w" "rx_user_buffer_head (u_ws w) \<le> lim" "prot \<in> {LWS_WRITE_CLOSE, LWS_WRITE_PONG}"
  shows "\<exists>n w'. rx_write E prot w = Some (n, w') \<and> rx_safe Q lim w'"
proof -
  obtain buf where b: "rx_user_buffer (u_ws w) = Some buf" "length buf = 18 + lim + 4"
    using assms(2) by (auto simp: rx_safe_def lws_consts)
  obtain n w' buf' where w: "libwebsocket_write E w buf 18 (rx_user_buffer_head (u_ws w)) prot = Some (n, w', buf')"
      "length buf' = length buf" "rx_part w' = rx_part w"
    using control_write_safe[OF assms(1) _ assms(4), of w "rx_user_buffer_head (u_ws w)" buf] assms(2,3) b(2)
    by (auto simp: rx_safe_def)
  have "rx_safe Q lim w'" using rx_part_safe[OF w(3)] assms(2) by simp
  then show ?thesis using b w by (auto simp: rx_write_def rx_safe_def lws_consts)
qed

lemma payload_up_safe:
  assumes "rx_safe Q lim w" "rx_user_buffer_head (u_ws w) \<le> lim"
    and cb: "\<And>bs v. rx_safe Q lim v \<Longrightarrow> rx_safe Q lim (snd (cb bs v))"
  shows "\<exists>r w'. rx_payload_up E cb w = Some (Inr (r, w')) \<and> rx_safe Q lim w'"
proof -
  let ?n = "rx_user_buffer_head (u_ws w)"
  obtain buf where b: "rx_user_buffer (u_ws w) = Some buf" "length buf = 18 + lim + 4"
    using assms(1) by (auto simp: rx_safe_def lws_consts)
  have ae: "active_extensions w = []" using assms(1) by (simp add: rx_safe_def)
  let ?w = "\<lambda>buf. upd_ws (\<lambda>x. x\<lparr>rx_user_buffer := Some buf\<rparr>) w"
  have s: "rx_safe Q lim (?w buf')" if "length buf' = 18 + lim + 4" for buf'
    using assms(1) that by (simp add: rx_safe_def lws_consts)
  have "tok_bytes \<lparr>tok_mem = buf[18 + ?n := 0], tok_off = 18, tok_len = int ?n, tok_moved = False\<rparr> = Some (take ?n (drop 18 (buf[18 + ?n := 0])))"
    using b(2) assms(2) by (simp add: tok_bytes_def)
  then have "rx_payload_up E cb w = Some (Inr (if ?n = 0 then (0, ?w buf)
      else if has_callback (protocol w) then cb (take ?n (drop 18 (buf[18 + ?n := 0]))) (?w (buf[18 + ?n := 0])) else (0, ?w (buf[18 + ?n := 0]))))"
    using b ae assms(2) by (simp add: rx_payload_up_def rx_token_def rx_store_def lws_consts wr_in comp_def)
  moreover have "rx_safe Q lim (snd (cb bs (?w (buf[18 + ?n := 0]))))" for bs
    by (rule cb) (simp add: s b(2))
  ultimately show ?thesis using s[of buf] s[of "buf[18 + ?n := 0]"] b(2) by (auto simp: prod_eq_iff split: if_splits)
qed

lemma rx_extended_safe:
  assumes "rx_safe Q lim w"
  shows "\<exists>h w'. rx_extended E w = Some (h, w') \<and> rx_safe Q lim w'"
  using assms by (auto simp: rx_extended_def rx_safe_def rx_token_def rx_store_def)

lemma rxflow_safe:
  assumes "user_safe E Q lim" "rx_safe Q lim w"
  shows "rx_safe Q lim (snd (user_callback_handle_rxflow E r bs w))"
proof -
  obtain n v where v: "user_cb E r bs w = (n, v)" by fastforce
  then have vs: "rx_safe Q lim v" using assms unfolding user_safe_def by (metis snd_conv)
  have q: "proto0_quiet E" using assms(1) by (simp add: user_safe_def)
  have core: "rx_safe Q lim x = rx_safe Q lim y" if "conn_core x = conn_core y" for x y :: "'a lws"
    by (rule rx_part_safe[OF core_rx_part[OF that]])
  have p: "rx_safe Q lim (proto0_cb E a fd ev x) = rx_safe Q lim x" for a fd ev x
    using core[of "proto0_cb E a fd ev x" x] q by (simp add: proto0_quiet_def)
  have o: "rx_safe Q lim (snd (libwebsocket_callback_on_writable E v))"
    using core[OF on_writable_core[OF q]] vs by (simp add: rx_safe_def)
  have u: "rx_safe Q lim ((upd_ws (\<lambda>w. w\<lparr>rxflow_change_to := rxflow_change_to w AND NOT LWS_RXFLOW_PENDING_CHANGE\<rparr>) v)\<lparr>pollin := b\<rparr>)" for b
    using vs by (auto simp: rx_safe_def allow_bit rx_limit_def)
  show ?thesis using v vs o u by (simp add: user_callback_handle_rxflow_def rx_flow_control_internal_def Let_def p)
qed

lemma spill_safe:
  assumes "user_safe E Q lim" "rx_safe Q lim w" "rx_user_buffer_head (u_ws w) \<le> lim"
  shows "\<exists>m w'. spill E w = Some (m, w') \<and> (m < 0 \<or> rx_inv Q lim w')"
    "\<exists>m w'. client_spill E w = Some (m, w') \<and> (m < 0 \<or> rx_inv Q lim w')"
proof -
  have q: "proto0_quiet E" using assms(1) by (simp add: user_safe_def)
  note w = rx_write_safe[OF q assms(2,3)]
  obtain n1 w1 n2 w2 where c: "rx_write E LWS_WRITE_CLOSE w = Some (n1, w1)" "rx_safe Q lim w1"
      "rx_write E LWS_WRITE_PONG w = Some (n2, w2)" "rx_safe Q lim w2"
    using w[of LWS_WRITE_CLOSE] w[of LWS_WRITE_PONG] by auto
  obtain n3 w3 where d: "rx_payload_up E (user_callback_handle_rxflow E LWS_CALLBACK_RECEIVE) w = Some (Inr (n3, w3))" "rx_safe Q lim w3"
    using payload_up_safe[OF assms(2,3), of "user_callback_handle_rxflow E LWS_CALLBACK_RECEIVE" E] rxflow_safe[OF assms(1)] by blast
  have u: "rx_safe Q lim v \<Longrightarrow> rx_safe Q lim (snd (user_cb E r bs v))" for r bs v
    using assms(1) by (simp add: user_safe_def)
  have d': "\<exists>n w'. rx_payload_up E (user_cb E r) w = Some (Inr (n, w')) \<and> rx_safe Q lim w'" for r
    by (rule payload_up_safe[OF assms(2,3) u])
  obtain h w4 where e: "rx_extended E w = Some (h, w4)" "rx_safe Q lim w4" using rx_extended_safe[OF assms(2)] by blast
  note r = reset_head_inv[of Q lim]
  show "\<exists>m w'. spill E w = Some (m, w') \<and> (m < 0 \<or> rx_inv Q lim w')"
    using c(1,3) d(1) e(1) r[OF c(4)] r[OF d(2)] r[OF e(2)] r[OF assms(2)] by (auto simp: spill_def Let_def)
  show "\<exists>m w'. client_spill E w = Some (m, w') \<and> (m < 0 \<or> rx_inv Q lim w')"
    using c e r d'[of LWS_CALLBACK_CLIENT_RECEIVE] d'[of LWS_CALLBACK_CLIENT_RECEIVE_PONG] by (auto simp: client_spill_def Let_def)
qed

lemma rx_payload_safe:
  assumes "rx_inv Q lim w" and sp: "\<And>v. rx_safe Q lim v \<Longrightarrow> rx_user_buffer_head (u_ws v) \<le> lim \<Longrightarrow> \<exists>m w'. sp v = Some (m, w') \<and> (m < 0 \<or> rx_inv Q lim w')"
  shows "\<exists>m w'. rx_payload sp plain c w = Some (m, w') \<and> (m < 0 \<or> rx_inv Q lim w')"
proof -
  obtain buf where b: "rx_user_buffer (u_ws w) = Some buf" "length buf = 18 + lim + 4"
    using assms(1) by (auto simp: rx_inv_def rx_safe_def lws_consts)
  have h: "rx_user_buffer_head (u_ws w) < lim" "length (frame_masking_nonce_04 (u_ws w)) = 4" "rx_safe Q lim w" "rx_limit w = lim"
    using assms(1) by (auto simp: rx_inv_def rx_safe_def)
  have "\<exists>k. (if plain then Some 0 else rd (frame_masking_nonce_04 (u_ws w)) (unat (frame_mask_index (u_ws w) AND 3))) = Some k"
    using h(2) by (auto simp: rd_def idx_and_3)
  then obtain v where v: "rx_put plain c w = Some v" "rx_safe Q lim v" "rx_user_buffer_head (u_ws v) = rx_user_buffer_head (u_ws w) + 1"
    using b h by (auto simp: rx_put_def wr_in lws_consts rx_safe_def)
  define v1 where "v1 = upd_ws (\<lambda>w. w\<lparr>rx_packet_length := rx_packet_length w - 1\<rparr>) v"
  have v1: "rx_safe Q lim v1" "rx_safe Q lim (set_rxps LWS_RXPS_NEW v1)" "rx_user_buffer_head (u_ws v1) \<le> lim" "rx_limit v1 = lim"
    using v(2,3) h(1) by (simp_all add: v1_def rx_safe_def)
  show ?thesis unfolding rx_payload_eq[OF v(1) v1_def]
    using sp[OF v1(1,3)] sp[OF v1(2)] v1 by (simp add: rx_inv_def)
qed

lemma rx_hdr_inv:
  assumes "rx_inv Q lim w"
  shows "rx_inv Q lim (set_rxps ps w)" "rx_inv Q lim (set_nonce i c w)" "rx_inv Q lim (or_length k c w)" "rx_inv Q lim (set_length k c w)"
    "rx_inv Q lim (handle_first c w)" "rx_inv Q lim (upd_ws (\<lambda>w. w\<lparr>all_zero_nonce := b\<rparr>) w)"
    "rx_inv Q lim (upd_ws (\<lambda>w. w\<lparr>frame_mask_index := j\<rparr>) w)" "rx_inv Q lim (upd_ws (\<lambda>w. w\<lparr>this_frame_masked := b\<rparr>) w)"
  using assms by (simp_all add: rx_inv_def rx_safe_def set_nonce_def or_length_def set_length_def handle_first_def)

lemma rx_sm_safe:
  assumes "user_safe E Q lim" "rx_inv Q lim w"
  shows "\<exists>m w'. libwebsocket_rx_sm E w c = Some (m, w') \<and> (m < 0 \<or> rx_inv Q lim w')"
    "\<exists>m w'. libwebsocket_client_rx_sm E w c = Some (m, w') \<and> (m < 0 \<or> rx_inv Q lim w')"
proof -
  have s: "\<exists>m w'. spill E v = Some (m, w') \<and> (m < 0 \<or> rx_inv Q lim w')"
     "\<exists>m w'. client_spill E v = Some (m, w') \<and> (m < 0 \<or> rx_inv Q lim w')"
    if "rx_inv Q lim v" for v using spill_safe[OF assms(1)] that by (auto simp: rx_inv_def)
  note p = rx_payload_safe[OF assms(2) spill_safe(1)[OF assms(1)]] rx_payload_safe[OF assms(2) spill_safe(2)[OF assms(1)]]
  note h = rx_hdr_inv
  show "\<exists>m w'. libwebsocket_rx_sm E w c = Some (m, w') \<and> (m < 0 \<or> rx_inv Q lim w')"
    using assms(2) p(1) by (cases "lws_rx_parse_state w") (simp_all add: rx_sm_defs Let_def h s)
  show "\<exists>m w'. libwebsocket_client_rx_sm E w c = Some (m, w') \<and> (m < 0 \<or> rx_inv Q lim w')"
    using assms(2) p(2) by (cases "lws_rx_parse_state w") (simp_all add: client_rx_sm_defs Let_def h s)
qed

text \<open>Flow open: nothing is held back and nothing asks to be.\<close>

definition flow_open :: "2 word \<times> byte list option \<Rightarrow> bool" where
  "flow_open f \<longleftrightarrow> fst f \<noteq> 0 \<and> snd f = None"

lemma incoming_safe:
  assumes "user_safe E Q lim" "\<And>t. os_malloc E t"
  shows "rx_inv Q lim w \<Longrightarrow> \<exists>m w'. libwebsocket_interpret_incoming_packet E w bs = Some (m, w')"
proof (induction bs arbitrary: w)
  case (Cons c bs)
  let ?w = "if rxflow_buffer (u_ws w) \<noteq> None then upd_ws (\<lambda>w. w\<lparr>rxflow_pos := rxflow_pos w + 1\<rparr>) w else w"
  have "rx_inv Q lim ?w" using Cons.prems by (auto simp: rx_inv_def rx_safe_def)
  from rx_sm_safe(1)[OF assms(1) this, of c] obtain m w' where s: "libwebsocket_rx_sm E ?w c = Some (m, w')" "m < 0 \<or> rx_inv Q lim w'"
    by blast
  show ?case
  proof (cases "rxflow_change_to (u_ws w) AND LWS_RXFLOW_ALLOW = 0")
    case False
    then show ?thesis using s Cons.IH[of w'] by (cases "m < 0") (auto simp: Let_def)
  qed (simp add: assms(2))
qed simp

lemma client_feed_safe:
  assumes "user_safe E Q lim"
  shows "rx_inv Q lim w \<Longrightarrow> \<exists>m w'. feed (libwebsocket_client_rx_sm E) w bs = Some (m, w')"
proof (induction bs arbitrary: w)
  case (Cons c bs)
  from rx_sm_safe(2)[OF assms Cons.prems, of c] obtain m w' where "libwebsocket_client_rx_sm E w c = Some (m, w')" "m < 0 \<or> rx_inv Q lim w'"
    by blast
  then show ?case using Cons.IH[of w'] by (cases "m < 0") auto
qed simp

lemma incoming_feed:
  assumes "user_safe E flow_open lim"
  shows "rx_inv flow_open lim w \<Longrightarrow> libwebsocket_interpret_incoming_packet E w bs = feed (libwebsocket_rx_sm E) w bs"
proof (induction bs arbitrary: w)
  case (Cons c bs)
  have o: "rxflow_change_to (u_ws w) AND LWS_RXFLOW_ALLOW \<noteq> 0" "rxflow_buffer (u_ws w) = None"
    using Cons.prems by (auto simp: rx_inv_def rx_safe_def flow_open_def)
  from rx_sm_safe(1)[OF assms Cons.prems, of c] obtain m w' where "libwebsocket_rx_sm E w c = Some (m, w')" "m < 0 \<or> rx_inv flow_open lim w'"
    by blast
  then show ?case using Cons.IH[of w'] o by (cases "m < 0") auto
qed simp

section \<open>Properties\<close>

text \<open>Surroundings and a connection to evaluate on: user code that notes what it is given.\<close>

definition log_env :: "byte list list env" where
  "log_env = \<lparr>os_send = \<lambda>t bs. int (length bs), os_random = \<lambda>t n. take n [0x11, 0x22, 0x33, 0x44],
     os_malloc = \<lambda>t. True, os_pipe_choked = \<lambda>t. False, user_cb = \<lambda>r bs w. (0, w\<lparr>user_space := user_space w @ [bs]\<rparr>),
     proto0_cb = \<lambda>r fd ev w. w, ext_cb = \<lambda>x r tok w. (0, tok, w)\<rparr>"

definition log_conn :: "connection_mode \<Rightarrow> byte list list lws" where
  "log_conn md = upd_ws (\<lambda>w. w\<lparr>rx_user_buffer := Some (replicate (18 + 6000 + 4) 0), rxflow_change_to := 1\<rparr>)
     ((zero_lws sample_protocol [])\<lparr>mode := md, state := WSI_STATE_ESTABLISHED, ietf_spec_revision := 13\<rparr>)"

lemma log_env_fields: "os_send log_env t bs = int (length bs)" "os_random log_env t n = take n [0x11, 0x22, 0x33, 0x44]"
  "os_malloc log_env t" "user_cb log_env r bs w = (0, w\<lparr>user_space := user_space w @ [bs]\<rparr>)" "proto0_cb log_env r fd ev w = w"
  by (simp_all add: log_env_def)

lemma log_conn_fields: "mode (log_conn md) = md" "user_space (log_conn md) = []" "wire (log_conn md) = []" "sys_calls (log_conn md) = 0"
  "state (log_conn md) = WSI_STATE_ESTABLISHED" "rx_inv flow_open 6000 (log_conn md)" "tx_ready (log_conn md)"
  by (simp_all add: log_conn_def zero_lws_def zero_ws_def rx_inv_def rx_safe_def rx_limit_def sample_protocol_def lws_consts c_defs
      flow_open_def tx_ready_def)

lemma log_user: "user_safe log_env Q lim" "server_user log_env id" "client_user log_env id" "proto0_quiet log_env"
  by (simp_all add: user_safe_def log_env_fields proto0_quiet_def rx_safe_def rx_limit_def server_user_def client_user_def rx_view_def client_view_def)

lemma log_ready: "server_ready log_env id 6000 (log_conn md)" "client_ready log_env id 6000 (log_conn md)"
  using log_user by (simp_all add: server_ready_def client_ready_def rx_base_def client_base_def log_conn_def zero_lws_def zero_ws_def rx_buf_def
      rx_limit_def sample_protocol_def lws_consts c_defs)

text \<open>
  C17. Whatever bytes a peer sends, the server's receive path never leaves the receive buffer, the mask key or any other
  array, and it comes to an end, as long as user code leaves the receive buffer in place and \<open>malloc\<close> succeeds. This covers
  control frames, which are answered out of the receive buffer, and flow control.
\<close>

theorem incoming_memory_safe:
  assumes "user_safe E (\<lambda>f. True) lim" "\<And>t. os_malloc E t" "rx_inv (\<lambda>f. True) lim wsi"
  shows "\<exists>m wsi'. libwebsocket_interpret_incoming_packet E wsi bs = Some (m, wsi')"
  by (rule incoming_safe[OF assms])

theorem incoming_memory_safe_witness:
  "\<exists>m wsi'. libwebsocket_interpret_incoming_packet log_env (log_conn LWS_CONNMODE_WS_SERVING) [0x89, 0x81, 1, 2, 3, 4, 5, 0xff] = Some (m, wsi')"
proof -
  have "rx_inv (\<lambda>f. True) 6000 (log_conn LWS_CONNMODE_WS_SERVING)"
    using log_conn_fields(6)[of LWS_CONNMODE_WS_SERVING] by (simp add: rx_inv_def rx_safe_def)
  then show ?thesis by (intro incoming_memory_safe[OF log_user(1)]) (simp_all add: log_env_fields)
qed

text \<open>
  C18. The same for the client: no sequence of bytes from a server makes it leave its buffers.
\<close>

theorem client_memory_safe:
  assumes "user_safe E (\<lambda>f. True) lim" "rx_inv (\<lambda>f. True) lim wsi"
  shows "\<exists>m wsi'. feed (libwebsocket_client_rx_sm E) wsi bs = Some (m, wsi')"
  by (rule client_feed_safe[OF assms])

theorem client_memory_safe_witness:
  "\<exists>m wsi'. feed (libwebsocket_client_rx_sm log_env) (log_conn LWS_CONNMODE_WS_CLIENT) [0x88, 0x02, 3, 0xe8] = Some (m, wsi')"
proof -
  have "rx_inv (\<lambda>f. True) 6000 (log_conn LWS_CONNMODE_WS_CLIENT)"
    using log_conn_fields(6)[of LWS_CONNMODE_WS_CLIENT] by (simp add: rx_inv_def rx_safe_def)
  then show ?thesis by (intro client_memory_safe[OF log_user(1)])
qed

lemma server_ready_inv: "server_ready E got lim w \<Longrightarrow> mode w \<noteq> LWS_CONNMODE_WS_CLIENT \<Longrightarrow> rx_inv flow_open lim w"
  by (auto simp: server_ready_def rx_base_def rx_buf_def rx_inv_def rx_safe_def flow_open_def)

text \<open>
  C15. The server delivers what frames carry: any sequence of non-empty text, binary and continuation frames, masked or not,
  is handed to user code in order, each payload unmasked and cut into pieces of the buffer's size, nothing lost, nothing added;
  afterwards the receiver is ready again.
\<close>

theorem server_delivers:
  assumes "server_ready E got lim wsi" "mode wsi \<noteq> LWS_CONNMODE_WS_CLIENT" "user_safe E flow_open lim"
    and "\<forall>(fin, opc, key, payload) \<in> set frames. server_accepts opc key \<and> payload \<noteq> [] \<and> length payload < 2 ^ 63"
  shows "\<exists>wsi'. libwebsocket_interpret_incoming_packet E wsi
      (concat (map (\<lambda>(fin, opc, key, payload). ws_frame fin opc key payload) frames)) = Some (0, wsi') \<and>
     server_ready E got lim wsi' \<and>
     got (user_space wsi') = got (user_space wsi) @ concat (map (\<lambda>(fin, opc, key, payload). pieces lim payload) frames)"
  unfolding incoming_feed[OF assms(3) server_ready_inv[OF assms(1,2)]]
  by (rule server_rx.stream_delivered[OF assms(1,4)])

theorem server_delivers_witness:
  "\<exists>wsi'. libwebsocket_interpret_incoming_packet log_env (log_conn LWS_CONNMODE_WS_SERVING)
      [0x81, 0x82, 0x11, 0x22, 0x33, 0x44, 0x79, 0x4b] = Some (0, wsi') \<and> user_space wsi' = [bytes ''hi'']"
  using server_delivers[OF log_ready(1) _ log_user(1), of LWS_CONNMODE_WS_SERVING
      "[(True, OPC_TEXT_FRAME, Some [0x11, 0x22, 0x33, 0x44], bytes ''hi'')]"] log_conn_fields[of LWS_CONNMODE_WS_SERVING]
  by (fastforce simp: server_accepts_def data_opcode_def ws_frame_def ws_length_def xor_key_def upt_conv_Cons pieces_short c_defs)

text \<open>
  C16. The client delivers what unmasked frames carry, in order and in pieces of the buffer's size.
\<close>

theorem client_delivers:
  assumes "client_ready E got lim wsi"
    and "\<forall>(fin, opc, payload) \<in> set frames. data_opcode opc \<and> payload \<noteq> [] \<and> length payload < 2 ^ 63"
  shows "\<exists>wsi'. feed (libwebsocket_client_rx_sm E) wsi (concat (map (\<lambda>(fin, opc, payload). ws_frame fin opc None payload) frames)) = Some (0, wsi') \<and>
     client_ready E got lim wsi' \<and>
     got (user_space wsi') = got (user_space wsi) @ concat (map (\<lambda>(fin, opc, payload). pieces lim payload) frames)"
  using client_rx.stream_delivered[OF assms(1), of "map (\<lambda>(fin, opc, payload). (fin, opc, None, payload)) frames"] assms(2)
  by (simp add: comp_def split_def client_accepts_def)

theorem client_delivers_witness:
  "\<exists>wsi'. feed (libwebsocket_client_rx_sm log_env) (log_conn LWS_CONNMODE_WS_CLIENT) [0x81, 0x02, 0x68, 0x69] = Some (0, wsi') \<and>
     user_space wsi' = [bytes ''hi'']"
  using client_delivers[OF log_ready(2)[of LWS_CONNMODE_WS_CLIENT], of "[(True, OPC_TEXT_FRAME, bytes ''hi'')]"]
    log_conn_fields[of LWS_CONNMODE_WS_CLIENT]
  by (fastforce simp: data_opcode_def ws_frame_def ws_length_def pieces_short c_defs)

text \<open>
  C13. From a client's write to the server's user code: what the client passes to \<open>libwebsocket_write\<close> as a text or binary
  message arrives at the server's callback unchanged, whatever the random mask key is. The length of the frame has to fit an \<open>int\<close>.
\<close>

theorem client_to_server:
  assumes "tx_ready c" "mode c = LWS_CONNMODE_WS_CLIENT" "prot \<in> {LWS_WRITE_TEXT, LWS_WRITE_BINARY}"
    and "0 < len" "len + 14 < 2 ^ 31" "LWS_SEND_BUFFER_PRE_PADDING \<le> off" "off + len \<le> length mem"
    and "length (os_random Ec (sys_calls c) 4) = 4" "\<And>bs. os_send Ec (sys_calls c + 1) bs = int (length bs)"
    and "server_ready Es got lim s" "mode s \<noteq> LWS_CONNMODE_WS_CLIENT" "user_safe Es flow_open lim"
  shows "\<exists>c' mem' s'. libwebsocket_write Ec c mem off len prot = Some (int len, c', mem') \<and>
     libwebsocket_interpret_incoming_packet Es s (drop (length (wire c)) (wire c')) = Some (0, s') \<and>
     server_ready Es got lim s' \<and> got (user_space s') = got (user_space s) @ pieces lim (take len (drop off mem))"
proof -
  define opc where "opc = (if prot = LWS_WRITE_TEXT then OPC_TEXT_FRAME else OPC_BINARY_FRAME)"
  define key where "key = os_random Ec (sys_calls c) 4"
  define payload where "payload = take len (drop off mem)"
  have o: "write_opcode prot = Some opc" "fin_of prot" "prot AND 0xf \<noteq> LWS_WRITE_CLOSE"
      "prot \<notin> {LWS_WRITE_CLOSE, LWS_WRITE_PONG, LWS_WRITE_PING}"
    using assms(3) by (auto simp: opc_def write_opcode_def fin_of_def c_defs)
  have off: "14 \<le> off" using assms(6) by (simp add: lws_consts)
  from write_client[OF assms(1,2) o(1) _ _ assms(5) off assms(7) key_def[symmetric] _ refl assms(9)] o assms(4,8)
  obtain mem' where w: "libwebsocket_write Ec c mem off len prot =
      Some (int len, tx_done_client key len (ws_frame True opc (Some key) payload) c, mem')"
    by (auto simp: write_ret_def key_def payload_def)
  have wire: "drop (length (wire c)) (wire (tx_done_client key len (ws_frame True opc (Some key) payload) c)) = ws_frame True opc (Some key) payload"
    by (simp add: tx_done_client_def tx_done_def)
  have "server_accepts opc (Some key)" "payload \<noteq> []" "length payload < 2 ^ 63"
    using assms(3-5,7,8) by (auto simp: server_accepts_def data_opcode_def opc_def key_def payload_def)
  then obtain s' where "feed (libwebsocket_rx_sm Es) s (ws_frame True opc (Some key) payload) = Some (0, s')" "server_ready Es got lim s'"
      "got (user_space s') = got (user_space s) @ pieces lim payload"
    using server_rx.frame_delivered[OF assms(10)] by blast
  then show ?thesis using w wire incoming_feed[OF assms(12) server_ready_inv[OF assms(10,11)]] by (auto simp: payload_def)
qed

theorem client_to_server_witness:
  "\<exists>c' mem' s'. libwebsocket_write sample_env (sample_conn LWS_CONNMODE_WS_CLIENT) (replicate 18 0 @ bytes ''hi'') 18 2 LWS_WRITE_TEXT
       = Some (2, c', mem') \<and>
     libwebsocket_interpret_incoming_packet log_env (log_conn LWS_CONNMODE_WS_SERVING) (wire c') = Some (0, s') \<and>
     user_space s' = [bytes ''hi'']"
  using client_to_server[OF sample_ready(1)[of LWS_CONNMODE_WS_CLIENT], of LWS_WRITE_TEXT 2 18 "replicate 18 0 @ bytes ''hi''" sample_env
      log_env id 6000 "log_conn LWS_CONNMODE_WS_SERVING"]
    sample_ready[of LWS_CONNMODE_WS_CLIENT] log_ready(1)[of LWS_CONNMODE_WS_SERVING] log_conn_fields[of LWS_CONNMODE_WS_SERVING]
    log_user(1)[of flow_open 6000]
  by (fastforce simp: sample_env_fields lws_consts pieces_short)

text \<open>
  C14. From a server's write to the client's user code: a text or binary message arrives unchanged, in pieces of the receiver's buffer
  size. The length of the frame has to fit an \<open>int\<close>.
\<close>

theorem server_to_client:
  assumes "tx_ready s" "mode s \<noteq> LWS_CONNMODE_WS_CLIENT" "prot \<in> {LWS_WRITE_TEXT, LWS_WRITE_BINARY}"
    and "0 < len" "len + 10 < 2 ^ 31" "LWS_SEND_BUFFER_PRE_PADDING \<le> off" "off + len \<le> length mem"
    and "\<And>bs. os_send Es (sys_calls s) bs = int (length bs)" "client_ready Ec got lim c"
  shows "\<exists>s' mem' c'. libwebsocket_write Es s mem off len prot = Some (int len, s', mem') \<and>
     feed (libwebsocket_client_rx_sm Ec) c (drop (length (wire s)) (wire s')) = Some (0, c') \<and>
     client_ready Ec got lim c' \<and> got (user_space c') = got (user_space c) @ pieces lim (take len (drop off mem))"
proof -
  define opc where "opc = (if prot = LWS_WRITE_TEXT then OPC_TEXT_FRAME else OPC_BINARY_FRAME)"
  define payload where "payload = take len (drop off mem)"
  have o: "write_opcode prot = Some opc" "fin_of prot" "prot AND 0xf \<noteq> LWS_WRITE_CLOSE"
      "prot \<notin> {LWS_WRITE_CLOSE, LWS_WRITE_PONG, LWS_WRITE_PING}"
    using assms(3) by (auto simp: opc_def write_opcode_def fin_of_def c_defs)
  have off: "10 \<le> off" using assms(6) by (simp add: lws_consts)
  from write_server[OF assms(1,2) o(1) _ _ assms(5) off assms(7) refl assms(8)] o assms(4)
  obtain mem' where w: "libwebsocket_write Es s mem off len prot = Some (int len, tx_done (ws_frame True opc None payload) s, mem')"
    by (auto simp: write_ret_def payload_def)
  have "client_accepts opc None" "payload \<noteq> []" "length payload < 2 ^ 63"
    using assms(3-5,7) by (auto simp: client_accepts_def data_opcode_def opc_def payload_def)
  then obtain c' where "feed (libwebsocket_client_rx_sm Ec) c (ws_frame True opc None payload) = Some (0, c')" "client_ready Ec got lim c'"
      "got (user_space c') = got (user_space c) @ pieces lim payload"
    using client_rx.frame_delivered[OF assms(9)] by blast
  then show ?thesis using w by (auto simp: payload_def tx_done_def)
qed

theorem server_to_client_witness:
  "\<exists>s' mem' c'. libwebsocket_write sample_env (sample_conn LWS_CONNMODE_WS_SERVING) (replicate 18 0 @ bytes ''hi'') 18 2 LWS_WRITE_TEXT
       = Some (2, s', mem') \<and>
     feed (libwebsocket_client_rx_sm log_env) (log_conn LWS_CONNMODE_WS_CLIENT) (wire s') = Some (0, c') \<and> user_space c' = [bytes ''hi'']"
  using server_to_client[OF sample_ready(1)[of LWS_CONNMODE_WS_SERVING], of LWS_WRITE_TEXT 2 18 "replicate 18 0 @ bytes ''hi''" sample_env
      log_env id 6000 "log_conn LWS_CONNMODE_WS_CLIENT"]
    sample_ready[of LWS_CONNMODE_WS_SERVING] log_ready(2)[of LWS_CONNMODE_WS_CLIENT] log_conn_fields[of LWS_CONNMODE_WS_CLIENT]
  by (fastforce simp: sample_env_fields lws_consts pieces_short)

text \<open>
  C25. A ping that has been received is answered by a pong frame with the same payload and is not shown to user code; a close frame is
  answered by a close frame with the same payload, and the connection is given up.
\<close>

theorem control_answered:
  assumes "rx_buf lim payload (u_ws wsi)" "tx_ready wsi" "mode wsi \<noteq> LWS_CONNMODE_WS_CLIENT" "close_reason (u_ws wsi) = 0"
    and "opcode (u_ws wsi) = OPC_PING \<and> opc = OPC_PONG \<or> opcode (u_ws wsi) = OPC_CLOSE \<and> opc = OPC_CLOSE"
    and "lim + 10 < 2 ^ 31" "\<And>bs. os_send E (sys_calls wsi) bs = int (length bs)"
  shows "\<exists>m wsi'. spill E wsi = Some (m, wsi') \<and> wire wsi' = wire wsi @ ws_frame True opc None payload \<and>
     user_space wsi' = user_space wsi \<and> m = (if opc = OPC_PONG then 0 else -1) \<and>
     (opc = OPC_PONG \<longrightarrow> rx_buf lim [] (u_ws wsi')) \<and> (opc = OPC_CLOSE \<longrightarrow> state wsi' = WSI_STATE_RETURNED_CLOSE_ALREADY)"
proof -
  define prot where "prot = (if opc = OPC_PONG then LWS_WRITE_PONG else LWS_WRITE_CLOSE)"
  obtain buf where b: "rx_user_buffer (u_ws wsi) = Some buf" "length buf = 18 + lim + 4" "length payload \<le> lim"
      "rx_user_buffer_head (u_ws wsi) = length payload" "take (length payload) (drop 18 buf) = payload"
    using assms(1) by (auto simp: rx_buf_def lws_consts)
  have o: "write_opcode prot = Some opc" "fin_of prot" "prot \<in> {LWS_WRITE_CLOSE, LWS_WRITE_PING, LWS_WRITE_PONG}"
    using assms(5) by (auto simp: prot_def write_opcode_def fin_of_def c_defs)
  have "ws_frame (fin_of prot) opc None (take (length payload) (drop 18 buf)) = ws_frame True opc None payload" using b(5) o(2) by simp
  from write_server[OF assms(2,3) o(1) _ _ _ _ _ this[symmetric], of E] assms(4,6,7) b(2,3) o(3)
  obtain n buf' where w: "libwebsocket_write E wsi buf 18 (length payload) prot = Some (n, tx_done (ws_frame True opc None payload) wsi, buf')"
      "length buf' = length buf" "0 \<le> n"
    by (auto simp: write_ret_def)
  then have "rx_write E prot wsi = Some (n, upd_ws (\<lambda>w. w\<lparr>rx_user_buffer := Some buf'\<rparr>) (tx_done (ws_frame True opc None payload) wsi))"
    using b by (simp add: rx_write_def lws_consts)
  moreover have "rx_user_buffer_head (u_ws (tx_done f wsi)) = rx_user_buffer_head (u_ws wsi)" "state wsi \<noteq> WSI_STATE_AWAITING_CLOSE_ACK" for f
    using assms(2) by (auto simp: tx_done_def tx_ready_def)
  ultimately show ?thesis using assms(5) w b
    by (auto simp: spill_def Let_def prot_def tx_done_def reset_head_def rx_buf_def lws_consts c_defs split: if_splits)
qed

theorem control_answered_witness:
  "\<exists>m wsi'. spill log_env (upd_ws (\<lambda>w. w\<lparr>opcode := 9\<rparr>) (log_conn LWS_CONNMODE_WS_SERVING)) = Some (m, wsi') \<and> wire wsi' = [0x8a, 0]"
proof -
  let ?w = "upd_ws (\<lambda>w. w\<lparr>opcode := 9\<rparr>) (log_conn LWS_CONNMODE_WS_SERVING)"
  have "rx_buf 6000 [] (u_ws ?w)" "tx_ready ?w" "mode ?w \<noteq> LWS_CONNMODE_WS_CLIENT" "close_reason (u_ws ?w) = 0"
    "opcode (u_ws ?w) = OPC_PING \<and> OPC_PONG = OPC_PONG \<or> opcode (u_ws ?w) = OPC_CLOSE \<and> OPC_PONG = OPC_CLOSE"
    using log_conn_fields[of LWS_CONNMODE_WS_SERVING]
    by (simp_all add: log_conn_def zero_lws_def zero_ws_def rx_buf_def lws_consts c_defs tx_ready_def)
  from control_answered[OF this, of log_env] show ?thesis
    using log_conn_fields(3)[of LWS_CONNMODE_WS_SERVING] by (auto simp: log_env_fields ws_frame_def ws_length_def c_defs)
qed

lemma server_key_spill:
  assumes "lws_rx_parse_state w = LWS_RXPS_07_COLLECT_FRAME_KEY_1" "length k = 4" "all_zero_nonce (u_ws w)"
    "length (frame_masking_nonce_04 (u_ws w)) = 4" "rx_packet_length (u_ws w) = 0"
  shows "feed (libwebsocket_rx_sm E) w k = do { (m, v) \<leftarrow> spill E (set_rxps LWS_RXPS_PAYLOAD_UNTIL_LENGTH_EXHAUSTED
     (upd_ws (\<lambda>x. x\<lparr>frame_masking_nonce_04 := k, all_zero_nonce := (\<forall>j < 4. k ! j = 0), frame_mask_index := 0\<rparr>) w));
     if m < 0 then Some (-1, v) else Some (0, v) }"
proof -
  obtain a b c d where k: "k = [a, b, c, d]" using assms(2) by (auto simp: numeral_eq_Suc length_Suc_conv)
  obtain a' b' c' d' where k': "frame_masking_nonce_04 (u_ws w) = [a', b', c', d']"
    using assms(4) by (auto simp: numeral_eq_Suc length_Suc_conv)
  have z: "(\<forall>j < 4. [a, b, c, d] ! j = 0) \<longleftrightarrow> a = 0 \<and> b = 0 \<and> c = 0 \<and> d = 0"
    by (auto simp: numeral_eq_Suc All_less_Suc2)
  have u: "upd_ws f v = upd_ws g v" if "f (u_ws v) = g (u_ws v)" for f g and v :: "'a lws" using that by (simp add: upd_ws_def)
  have e: "upd_ws (((\<lambda>x. x\<lparr>frame_mask_index := 0\<rparr>) \<circ> (\<lambda>x. x\<lparr>frame_masking_nonce_04 := (frame_masking_nonce_04 x)[3 := d],
      all_zero_nonce := all_zero_nonce x \<and> d = 0\<rparr>)) \<circ> ((\<lambda>x. x\<lparr>frame_masking_nonce_04 := (frame_masking_nonce_04 x)[2 := c],
      all_zero_nonce := all_zero_nonce x \<and> c = 0\<rparr>) \<circ> ((\<lambda>x. x\<lparr>frame_masking_nonce_04 := (frame_masking_nonce_04 x)[1 := b],
      all_zero_nonce := all_zero_nonce x \<and> b = 0\<rparr>) \<circ> (\<lambda>x. x\<lparr>frame_masking_nonce_04 := (frame_masking_nonce_04 x)[0 := a],
      all_zero_nonce := all_zero_nonce x \<and> a = 0\<rparr>)))) w =
     upd_ws (\<lambda>x. x\<lparr>frame_masking_nonce_04 := k, all_zero_nonce := (\<forall>j < 4. k ! j = 0), frame_mask_index := 0\<rparr>) w"
    by (rule u) (use z k' assms(3) in \<open>simp add: k\<close>)
  show ?thesis using assms(1,5) e
    by (simp add: k rx_sm_defs set_nonce_def comp_assoc[symmetric] cong: if_cong)
qed

text \<open>
  C29. An empty masked data frame puts the server out of step: the parser stays in the payload state with length zero, and the first byte
  of the next frame is taken for payload, with the length wrapped to \<open>2 ^ 64 - 1\<close>.
\<close>

theorem empty_frame_desync:
  assumes "server_ready E got lim wsi" "length key = 4" "data_opcode opc" "1 < lim"
  shows "\<exists>wsi' wsi''. feed (libwebsocket_rx_sm E) wsi (ws_frame True opc (Some key) []) = Some (0, wsi') \<and>
     lws_rx_parse_state wsi' = LWS_RXPS_PAYLOAD_UNTIL_LENGTH_EXHAUSTED \<and> libwebsocket_rx_sm E wsi' c = Some (0, wsi'') \<and>
     libwebsockets_remaining_packet_payload wsi'' = 2 ^ 64 - 1 \<and> lws_rx_parse_state wsi'' = LWS_RXPS_PAYLOAD_UNTIL_LENGTH_EXHAUSTED"
proof -
  note a = assms(1)[unfolded server_ready_def rx_base_def]
  obtain g where g: "feed (libwebsocket_rx_sm E) wsi ((if True then opc OR 0x80 else opc) # ws_length 128 0) =
      Some (0, set_rxps LWS_RXPS_07_COLLECT_FRAME_KEY_1 (upd_ws g wsi))"
    and x: "rx_packet_length (g (u_ws wsi)) = 0" "opcode (g (u_ws wsi)) = opc" "all_zero_nonce (g (u_ws wsi))"
      "frame_masking_nonce_04 (g (u_ws wsi)) = frame_masking_nonce_04 (u_ws wsi)" "hdr_frame (g (u_ws wsi)) (u_ws wsi)"
    using srv_length[of wsi opc 0 128 True E True] a assms(3) by auto
  define w1 where "w1 = set_rxps LWS_RXPS_07_COLLECT_FRAME_KEY_1 (upd_ws g wsi)"
  obtain buf where b: "rx_user_buffer (u_ws w1) = Some buf" "length buf = 18 + lim + 4" "rx_user_buffer_head (u_ws w1) = 0"
    using a x(5) by (auto simp: rx_buf_def w1_def hdr_frame_def lws_consts)
  have w1: "lws_rx_parse_state w1 = LWS_RXPS_07_COLLECT_FRAME_KEY_1" "rx_packet_length (u_ws w1) = 0" "opcode (u_ws w1) = opc"
     "length (frame_masking_nonce_04 (u_ws w1)) = 4" "active_extensions w1 = []" "rx_limit w1 = lim"
    using a x by (simp_all add: w1_def)
  define w2 where "w2 = set_rxps LWS_RXPS_PAYLOAD_UNTIL_LENGTH_EXHAUSTED (upd_ws (\<lambda>x. x\<lparr>frame_masking_nonce_04 := key,
     all_zero_nonce := (\<forall>j < 4. key ! j = 0), frame_mask_index := 0, rx_user_buffer := Some buf, rx_user_buffer_head := 0\<rparr>) w1)"
  have k: "feed (libwebsocket_rx_sm E) w1 key = Some (0, w2)"
    using server_key_spill[OF w1(1) assms(2) _ w1(4), of E] w1 b assms(3) x(3)
    by (auto simp: w1_def w2_def spill_def Let_def data_opcode_def c_defs rx_payload_up_def rx_token_def rx_store_def reset_head_def comp_def)
  have w2: "lws_rx_parse_state w2 = LWS_RXPS_PAYLOAD_UNTIL_LENGTH_EXHAUSTED" "rx_packet_length (u_ws w2) = 0"
     "rx_buf lim [] (u_ws w2)" "length (frame_masking_nonce_04 (u_ws w2)) = 4" "rx_limit w2 = lim"
    using w1 b assms(2) by (simp_all add: w2_def rx_buf_def lws_consts)
  obtain v where v: "rx_put (all_zero_nonce (u_ws w2)) c w2 = Some v" "rx_user_buffer_head (u_ws v) = 1" "rx_packet_length (u_ws v) = 0"
     "rx_limit v = lim" "lws_rx_parse_state v = LWS_RXPS_PAYLOAD_UNTIL_LENGTH_EXHAUSTED"
    using rx_put_ok[OF w2(3), of "all_zero_nonce (u_ws w2)" _ c] assms(4) w2 by (auto simp: rx_buf_def)
  have "libwebsocket_rx_sm E w2 c = Some (0, upd_ws (\<lambda>w. w\<lparr>rx_packet_length := rx_packet_length w - 1\<rparr>) v)"
    using rx_payload_eq[OF v(1) refl, of "spill E"] v assms(4) w2(1) by (simp add: rx_sm_defs)
  moreover have "feed (libwebsocket_rx_sm E) wsi (ws_frame True opc (Some key) []) = Some (0, w2)"
    using g k feed_append[of "libwebsocket_rx_sm E" wsi "(if True then opc OR 0x80 else opc) # ws_length 128 0" key]
    by (simp add: ws_frame_def xor_key_def w1_def)
  ultimately show ?thesis using w2(1) v by (simp add: libwebsockets_remaining_packet_payload_def)
qed

theorem empty_frame_desync_witness:
  "\<exists>wsi' wsi''. feed (libwebsocket_rx_sm log_env) (log_conn LWS_CONNMODE_WS_SERVING) [0x81, 0x80, 1, 2, 3, 4] = Some (0, wsi') \<and>
     libwebsocket_rx_sm log_env wsi' 0x81 = Some (0, wsi'') \<and> libwebsockets_remaining_packet_payload wsi'' = 2 ^ 64 - 1"
  using empty_frame_desync[OF log_ready(1)[of LWS_CONNMODE_WS_SERVING], of "[1, 2, 3, 4]" OPC_TEXT_FRAME "0x81"]
  by (auto simp: data_opcode_def ws_frame_def ws_length_def xor_key_def c_defs)

text \<open>
  A masked frame confuses the client: its length is taken with the mask bit, so that a short masked frame is taken to be 128 bytes
  longer than it is.
\<close>

theorem client_masked_length:
  assumes "lws_rx_parse_state wsi = LWS_RXPS_04_FRAME_HDR_LEN" "n < 126"
  shows "\<exists>wsi'. libwebsocket_client_rx_sm E wsi (of_nat (128 + n)) = Some (0, wsi') \<and>
     libwebsockets_remaining_packet_payload wsi' = of_nat (128 + n) \<and> lws_rx_parse_state wsi' = LWS_RXPS_07_COLLECT_FRAME_KEY_1"
proof -
  have "n < 128" using assms(2) by simp
  note b = bit7_of_nat(1,3)[OF this]
  have "(of_nat n :: byte) \<noteq> 126" "(of_nat n :: byte) \<noteq> 127" using assms(2) by (auto simp: word_unat_eq_iff unat_of_nat)
  then show ?thesis using assms b ucast_of_nat_byte[of "128 + n"]
    by (simp add: client_rx_sm_defs set_length_def libwebsockets_remaining_packet_payload_def del: of_nat_add)
qed

theorem client_masked_length_witness:
  "\<exists>wsi'. libwebsocket_client_rx_sm log_env (set_rxps LWS_RXPS_04_FRAME_HDR_LEN (log_conn LWS_CONNMODE_WS_CLIENT)) 0x82 = Some (0, wsi') \<and>
     libwebsockets_remaining_packet_payload wsi' = 130"
  using client_masked_length[of "set_rxps LWS_RXPS_04_FRAME_HDR_LEN (log_conn LWS_CONNMODE_WS_CLIENT)" 2 log_env] by auto

end
