(* ===== verification/Cards.thy ===== *)
theory Cards
  imports Lws_Prelude
begin

text \<open>
  \<^verbatim>\<open>jni/neof5/Cards.hpp\<close> and \<^verbatim>\<open>Cards.cpp\<close>: a card is an index into a table of 53, a set of cards a 64-bit mask. A C++
  exception is \<open>Throw\<close>, undefined behaviour (a shift by a negative amount, a read behind the end of a string) is \<open>Undef\<close>.
\<close>

section \<open>Results\<close>

datatype exn = CardError | CardIdError | IndexOutOfRange

datatype 'a res = Ok 'a | Throw exn | Undef

fun bind_res :: "'a res \<Rightarrow> ('a \<Rightarrow> 'b res) \<Rightarrow> 'b res" where
  "bind_res (Ok x) f = f x"
| "bind_res (Throw e) f = Throw e"
| "bind_res Undef f = Undef"

section \<open>Cards\<close>

datatype suit = SPD | HRT | DIA | CLV | JKR

fun suit_val :: "suit \<Rightarrow> byte" where
  "suit_val SPD = 0x50" | "suit_val HRT = 0x40" | "suit_val DIA = 0x30" | "suit_val CLV = 0x20" | "suit_val JKR = 0x10"

text \<open>The cast from a byte of the table to \<open>Suit\<close>.\<close>

definition suit_of :: "byte \<Rightarrow> suit" where
  "suit_of b = (if b = 0x50 then SPD else if b = 0x40 then HRT else if b = 0x30 then DIA else if b = 0x20 then CLV else JKR)"

definition cards_table :: "byte list" where
  "cards_table = (let v = suit_val in [
     v CLV OR 3, v DIA OR 3, v HRT OR 3, v SPD OR 3,
     v CLV OR 4, v DIA OR 4, v HRT OR 4, v SPD OR 4,
     v CLV OR 5, v DIA OR 5, v HRT OR 5, v SPD OR 5,
     v CLV OR 6, v DIA OR 6, v HRT OR 6, v SPD OR 6,
     v CLV OR 7, v DIA OR 7, v HRT OR 7, v SPD OR 7,
     v CLV OR 8, v DIA OR 8, v HRT OR 8, v SPD OR 8,
     v CLV OR 9, v DIA OR 9, v HRT OR 9, v SPD OR 9,
     v CLV OR 10, v DIA OR 10, v HRT OR 10, v SPD OR 10,
     v CLV OR 11, v DIA OR 11, v HRT OR 11, v SPD OR 11,
     v CLV OR 12, v DIA OR 12, v HRT OR 12, v SPD OR 12,
     v CLV OR 13, v DIA OR 13, v HRT OR 13, v SPD OR 13,
     v CLV OR 1, v DIA OR 1, v HRT OR 1, v SPD OR 1,
     v CLV OR 2, v DIA OR 2, v HRT OR 2, v SPD OR 2,
     v JKR])"

definition CARD_STRENGTH_MAX :: int where "CARD_STRENGTH_MAX = 14"

datatype card = Card (idx: nat)

text \<open>The constructor: the \<open>int\<close> argument is cut to \<open>uint8_t\<close>.\<close>

definition mk_card :: "int \<Rightarrow> card res" where
  "mk_card i = (let j = nat (i mod 256) in if j \<ge> 53 then Throw CardIdError else Ok (Card j))"

definition getValue :: "card \<Rightarrow> byte" where "getValue c = cards_table ! idx c"
definition getId :: "card \<Rightarrow> nat" where "getId c = idx c"
definition getSuit :: "card \<Rightarrow> suit" where "getSuit c = suit_of (getValue c AND 0xf0)"
definition getNum :: "card \<Rightarrow> int" where "getNum c = uint (getValue c AND 0x0f)"
definition isJoker :: "card \<Rightarrow> bool" where "isJoker c = (getValue c AND 0xf0 = suit_val JKR)"

definition getStrength :: "card \<Rightarrow> int" where
  "getStrength c = (if isJoker c then CARD_STRENGTH_MAX else 1 + (getNum c + 10) mod 13)"

definition getAllCount :: nat where "getAllCount = 53"

text \<open>\<open>_calcCardIdFromString\<close>, of the two characters it reads.\<close>

definition calcCardIdFromString :: "byte \<Rightarrow> byte \<Rightarrow> int res" where
  "calcCardIdFromString c0 c1 =
    (let s = (if c0 = of_char CHR ''C'' then CLV else if c0 = of_char CHR ''D'' then DIA
              else if c0 = of_char CHR ''H'' then HRT else if c0 = of_char CHR ''S'' then SPD else JKR);
         n = (if c1 = of_char CHR ''2'' then 12 else if c1 = of_char CHR ''A'' then 11
              else if c1 = of_char CHR ''K'' then 10 else if c1 = of_char CHR ''Q'' then 9
              else if c1 = of_char CHR ''J'' then 8 else if c1 = of_char CHR ''0'' then 7
              else sint c1 - 0x33);
         i = (if s = JKR then 52 else n * 4 + (uint (suit_val s) - 0x20) div 0x10)
     in if i \<ge> 53 then Throw CardError else Ok i)"

text \<open>\<open>Card::fromString\<close>; the string is given without its NUL.\<close>

definition char_at :: "byte list \<Rightarrow> nat \<Rightarrow> byte res" where
  "char_at s i = (if i < length s then Ok (s ! i) else if i = length s then Ok 0 else Undef)"

definition card_fromString :: "byte list \<Rightarrow> card res" where
  "card_fromString s = bind_res (char_at s 0) (\<lambda>c0. bind_res (char_at s 1) (\<lambda>c1.
     bind_res (calcCardIdFromString c0 c1) mk_card))"

fun suitToString :: "suit \<Rightarrow> byte list" where
  "suitToString SPD = bytes ''S''" | "suitToString HRT = bytes ''H''" | "suitToString DIA = bytes ''D''"
| "suitToString CLV = bytes ''C''" | "suitToString JKR = bytes ''J''"

definition card_toString :: "card \<Rightarrow> byte list" where
  "card_toString c = suitToString (getSuit c) @
    (let n = getNum c in
     if n = 0 then bytes ''K'' else if n = 1 then bytes ''A'' else if n = 10 then bytes ''0'' else if n = 11 then bytes ''J''
     else if n = 12 then bytes ''Q'' else if n = 13 then bytes ''K'' else [of_int (0x30 + n)])"

definition card_get :: "suit \<Rightarrow> int \<Rightarrow> card res" where
  "card_get s n = (let i = (if s = JKR then 52 else n * 4 + (uint (suit_val s) - 0x20) div 0x10)
     in if i \<ge> 53 then Throw CardError else mk_card i)"

text \<open>The order on cards is the order of the table.\<close>

definition card_compare :: "card \<Rightarrow> card \<Rightarrow> int" where
  "card_compare a b = int (idx a) - int (idx b)"

instantiation card :: linorder
begin

definition less_card :: "card \<Rightarrow> card \<Rightarrow> bool" where "less_card a b \<longleftrightarrow> card_compare a b < 0"
definition less_eq_card :: "card \<Rightarrow> card \<Rightarrow> bool" where "less_eq_card a b \<longleftrightarrow> card_compare a b \<le> 0"

instance
  by standard (auto simp: less_card_def less_eq_card_def card_compare_def intro: card.expand)

end

section \<open>Sets of cards\<close>

type_synonym card_set = "64 word"

definition mask_of :: "nat \<Rightarrow> card_set" where "mask_of i = push_bit i 1"

text \<open>\<open>operator+=\<close> and \<open>operator-=\<close> with a card and with a set.\<close>

definition add_card :: "card_set \<Rightarrow> card \<Rightarrow> card_set" where "add_card s c = s OR mask_of (getId c)"
definition del_card :: "card_set \<Rightarrow> card \<Rightarrow> card_set" where "del_card s c = s AND NOT (mask_of (getId c))"
definition add_set :: "card_set \<Rightarrow> card_set \<Rightarrow> card_set" where "add_set s t = s OR t"
definition del_set :: "card_set \<Rightarrow> card_set \<Rightarrow> card_set" where "del_set s t = s AND NOT t"

definition has_card :: "card_set \<Rightarrow> card \<Rightarrow> bool" where "has_card s c = (s AND mask_of (getId c) \<noteq> 0)"
definition has_set :: "card_set \<Rightarrow> card_set \<Rightarrow> bool" where "has_set s t = (s AND t = t)"
definition communion :: "card_set \<Rightarrow> card_set \<Rightarrow> bool" where "communion s t = (s AND t \<noteq> 0)"
definition set_empty :: "card_set \<Rightarrow> bool" where "set_empty s = (s = 0)"

definition allCards :: card_set where "allCards = push_bit 53 1 - 1"

fun cardset_of_vector :: "card list \<Rightarrow> card_set \<Rightarrow> card_set" where
  "cardset_of_vector [] s = s"
| "cardset_of_vector (c # cs) s = cardset_of_vector cs (s OR mask_of (getId c))"

text \<open>
  \<open>CardSet(const char*)\<close>. After a card of which only one character is left the pointer runs behind the NUL.
\<close>

fun cardset_of_string :: "byte list \<Rightarrow> card_set \<Rightarrow> card_set res" where
  "cardset_of_string [] s = Ok s"
| "cardset_of_string (c # str) s =
    (if c = 32 then cardset_of_string str s
     else bind_res (calcCardIdFromString c (case str of [] \<Rightarrow> 0 | d # _ \<Rightarrow> d)) (\<lambda>i.
       if i < 0 then Undef
       else case str of [] \<Rightarrow> Undef | d # str \<Rightarrow> cardset_of_string str (s OR mask_of (nat i))))"

text \<open>The loop of \<open>size\<close> over the table's 53 positions.\<close>

fun size_loop :: "nat \<Rightarrow> card_set \<Rightarrow> nat \<Rightarrow> nat" where
  "size_loop 0 b count = count"
| "size_loop (Suc n) b count = size_loop n (drop_bit 1 b) (if b AND 1 \<noteq> 0 then count + 1 else count)"

definition set_size :: "card_set \<Rightarrow> nat" where "set_size s = size_loop getAllCount s 0"

definition rank_mask :: "int \<Rightarrow> card_set" where
  "rank_mask num = push_bit (nat (4 * ((num + 10) mod 13))) 0x0f"

text \<open>\<open>hasNumOf(num, output)\<close>: the answer and the cards it adds to \<open>*output\<close>; \<open>num\<close> is not negative in the program.\<close>

definition hasNumOf :: "card_set \<Rightarrow> int \<Rightarrow> bool \<times> card_set" where
  "hasNumOf s num = (let new_bits = rank_mask num AND s in (new_bits \<noteq> 0, new_bits))"

definition extractJoker :: "card_set \<Rightarrow> (int \<times> card_set) res" where
  "extractJoker s = bind_res (card_get JKR 0) (\<lambda>jk. if \<not> has_card s jk then Ok (0, s) else Ok (1, del_card s jk))"

text \<open>\<open>conv2Vector\<close>: the loop runs while bits are left.\<close>

lemma unat_half: "b \<noteq> 0 \<Longrightarrow> unat (drop_bit (Suc 0) (b :: 'a::len word)) < unat b"
proof -
  assume "b \<noteq> 0"
  then have "0 < unat b" by (simp add: unat_gt_0)
  then show ?thesis unfolding unat_drop_bit by simp
qed

function conv_loop :: "card_set \<Rightarrow> int \<Rightarrow> card list \<Rightarrow> card list res" where
  "conv_loop b i v = (if b = 0 then Ok v
     else if b AND 1 \<noteq> 0 then bind_res (mk_card i) (\<lambda>c. conv_loop (drop_bit 1 b) (i + 1) (v @ [c]))
     else conv_loop (drop_bit 1 b) (i + 1) v)"
  by pat_completeness auto

termination
  by (relation "measure (\<lambda>(b, i, v). unat b)") (simp_all add: unat_half)

declare conv_loop.simps [simp del]

definition conv2Vector :: "card_set \<Rightarrow> card list res" where "conv2Vector s = conv_loop s 0 []"

fun at_loop :: "nat \<Rightarrow> card_set \<Rightarrow> int \<Rightarrow> int \<Rightarrow> int \<Rightarrow> card res" where
  "at_loop 0 b i hit index = Throw IndexOutOfRange"
| "at_loop (Suc n) b i hit index =
    (if b AND 1 \<noteq> 0 then
       if hit = index then mk_card i else at_loop n (drop_bit 1 b) (i + 1) (hit + 1) index
     else at_loop n (drop_bit 1 b) (i + 1) hit index)"

definition set_at :: "card_set \<Rightarrow> int \<Rightarrow> card res" where
  "set_at s index = at_loop getAllCount s 0 0 index"

text \<open>\<open>toString\<close>: the cards in order, separated by a space.\<close>

fun toString_loop :: "card_set \<Rightarrow> nat list \<Rightarrow> byte list \<Rightarrow> byte list res" where
  "toString_loop s [] str = Ok str"
| "toString_loop s (i # is) str = bind_res (set_at s (int i)) (\<lambda>c.
     toString_loop s is ((if i \<noteq> 0 then str @ [32] else str) @ card_toString c))"

definition set_toString :: "card_set \<Rightarrow> byte list res" where
  "set_toString s = toString_loop s [0..<set_size s] []"

lemma odd_bit: "b AND 1 \<noteq> 0 \<longleftrightarrow> bit (b :: 'a::len word) 0"
  by (simp add: and_one_eq bit_0 odd_iff_mod_2_eq_one mod2_eq_if)

text \<open>The bits of a set below \<open>n\<close>, in order; a well-formed set has none above the table.\<close>

definition ids :: "nat \<Rightarrow> card_set \<Rightarrow> nat list" where "ids n s = filter (bit s) [0..<n]"

definition cs_ok :: "card_set \<Rightarrow> bool" where "cs_ok s \<longleftrightarrow> drop_bit 53 s = 0"

lemma cs_ok_bit: "cs_ok s \<longleftrightarrow> (\<forall>i. bit s i \<longrightarrow> i < 53)"
proof
  assume "cs_ok s"
  show "\<forall>i. bit s i \<longrightarrow> i < 53"
  proof (intro allI impI)
    fix i assume b: "bit s i"
    show "i < 53"
    proof (rule ccontr)
      assume "\<not> i < 53"
      then have "bit (drop_bit 53 s) (i - 53)" using b by (simp add: bit_drop_bit_eq)
      then show False using \<open>cs_ok s\<close> by (simp add: cs_ok_def)
    qed
  qed
next
  assume "\<forall>i. bit s i \<longrightarrow> i < 53"
  then show "cs_ok s" unfolding cs_ok_def by (intro bit_word_eqI) (fastforce simp: bit_drop_bit_eq)
qed

lemma cs_ok_bitD: "cs_ok s \<Longrightarrow> bit s i \<Longrightarrow> i < 53"
  by (simp add: cs_ok_bit)

lemma ids_Suc: "ids (Suc n) s = (if bit s 0 then [0] else []) @ map Suc (ids n (drop_bit 1 s))"
proof -
  have "[0..<Suc n] = 0 # map Suc [0..<n]" by (simp add: upt_conv_Cons map_Suc_upt)
  then show ?thesis by (simp add: ids_def filter_map comp_def bit_drop_bit_eq)
qed

lemma ids_0 [simp]: "ids 0 s = []" "ids n 0 = []" by (simp_all add: ids_def)
lemma set_ids: "set (ids n s) = {i. i < n \<and> bit s i}" by (auto simp: ids_def)
lemma ids_sorted: "sorted (ids n s)" "distinct (ids n s)"
  by (simp_all add: ids_def sorted_wrt_filter)

lemma size_loop_ids: "size_loop n b count = count + length (ids n b)"
  by (induction n b count rule: size_loop.induct) (auto simp: ids_Suc odd_bit)

lemma set_size_ids: "set_size s = length (ids 53 s)"
  by (simp add: set_size_def getAllCount_def size_loop_ids)

lemma conv_loop_ids:
  "(\<And>j. bit b j \<Longrightarrow> i + j < 53) \<Longrightarrow> n + i = 53 \<Longrightarrow> conv_loop b (int i) v = Ok (v @ map (\<lambda>j. Card (i + j)) (ids n b))"
proof (induction b "int i" v arbitrary: i n rule: conv_loop.induct)
  case (1 b v)
  show ?case
  proof (cases "b = 0")
    case True then show ?thesis by (simp add: conv_loop.simps)
  next
    case False
    then obtain j where "bit b j" by (auto simp: bit_eq_iff)
    then have "i < 53" using 1(3)[of j] by simp
    then obtain m where n: "n = Suc m" using 1(4) by (cases n) auto
    have sh: "\<And>j. bit (drop_bit 1 b) j \<Longrightarrow> Suc i + j < 53" using 1(3)[of "Suc _"] by (simp add: bit_drop_bit_eq)
    show ?thesis
    proof (cases "bit b 0")
      case True
      have "mk_card (int i) = Ok (Card i)" using \<open>i < 53\<close> by (simp add: mk_card_def)
      moreover have "conv_loop (drop_bit 1 b) (int (Suc i)) (v @ [Card i]) = Ok ((v @ [Card i]) @ map (\<lambda>j. Card (Suc i + j)) (ids m (drop_bit 1 b)))"
        by (rule 1(1)[OF False]) (use True 1(4) n sh in \<open>simp_all add: odd_bit\<close>)
      ultimately show ?thesis using False True by (subst conv_loop.simps) (simp add: odd_bit n ids_Suc comp_def add.commute)
    next
      case b: False
      have "conv_loop (drop_bit 1 b) (int (Suc i)) v = Ok (v @ map (\<lambda>j. Card (Suc i + j)) (ids m (drop_bit 1 b)))"
        by (rule 1(2)[OF False]) (use b 1(4) n sh in \<open>simp_all add: odd_bit\<close>)
      then show ?thesis using False b by (subst conv_loop.simps) (simp add: odd_bit n ids_Suc comp_def add.commute)
    qed
  qed
qed

lemma conv2Vector_ids: "cs_ok s \<Longrightarrow> conv2Vector s = Ok (map Card (ids 53 s))"
  using conv_loop_ids[of s 0 53 "[]"] by (simp add: conv2Vector_def cs_ok_bitD)

lemma at_loop_ids:
  "i + n \<le> 256 \<Longrightarrow> i + n \<le> 53 \<Longrightarrow> at_loop n b (int i) hit (hit + int k) =
    (if k < length (ids n b) then Ok (Card (i + ids n b ! k)) else Throw IndexOutOfRange)"
proof (induction n arbitrary: b i hit k)
  case (Suc n)
  have i: "mk_card (int i) = Ok (Card i)" using Suc.prems by (simp add: mk_card_def)
  show ?case
  proof (cases "bit b 0")
    case b: True
    show ?thesis
    proof (cases k)
      case 0 then show ?thesis using b i by (simp add: odd_bit ids_Suc)
    next
      case (Suc k')
      have "at_loop n (drop_bit 1 b) (int (Suc i)) (hit + 1) (hit + 1 + int k') = (if k' < length (ids n (drop_bit 1 b)) then Ok (Card (Suc i + ids n (drop_bit 1 b) ! k')) else Throw IndexOutOfRange)"
        by (rule Suc.IH) (use Suc.prems in auto)
      then show ?thesis using b Suc by (simp add: odd_bit ids_Suc algebra_simps)
    qed
  next
    case b: False
    have "at_loop n (drop_bit 1 b) (int (Suc i)) hit (hit + int k) = (if k < length (ids n (drop_bit 1 b)) then Ok (Card (Suc i + ids n (drop_bit 1 b) ! k)) else Throw IndexOutOfRange)"
      by (rule Suc.IH) (use Suc.prems in auto)
    then show ?thesis using b by (simp add: odd_bit ids_Suc algebra_simps)
  qed
qed simp

lemma set_at_ids: "set_at s (int k) = (if k < set_size s then Ok (Card (ids 53 s ! k)) else Throw IndexOutOfRange)"
  using at_loop_ids[of 0 53 s 0 k] by (simp add: set_at_def getAllCount_def set_size_ids)

lemma at_loop_neg: "index < hit \<Longrightarrow> at_loop n b i hit index = Throw IndexOutOfRange"
  by (induction n b i hit index rule: at_loop.induct) auto

lemma card_string_table: "\<forall>i\<in>set [0..<53]. card_fromString (card_toString (Card i)) = Ok (Card i)"
  by code_simp

lemma card_toString_table: "\<forall>i\<in>set [0..<53]. (case card_toString (Card i) of [a, b] \<Rightarrow> a \<noteq> 32 \<and> a \<noteq> 0 \<and> b \<noteq> 0 \<and> calcCardIdFromString a b = Ok (int i) | _ \<Rightarrow> False)"
  by code_simp

section \<open>Sets of cards as sets\<close>

definition card_ok :: "card \<Rightarrow> bool" where "card_ok c \<longleftrightarrow> idx c < getAllCount"

definition cards_in :: "card_set \<Rightarrow> card set" where "cards_in s = {c. bit s (idx c)}"

lemma cards_in_ids: "cs_ok s \<Longrightarrow> cards_in s = Card ` set (ids 53 s)"
  by (auto simp: cards_in_def set_ids image_iff cs_ok_bitD intro: card.exhaust_sel)

lemma cards_in_ok: "cs_ok s \<Longrightarrow> c \<in> cards_in s \<Longrightarrow> card_ok c"
  by (simp add: cards_in_def card_ok_def getAllCount_def cs_ok_bitD)

lemma bit_mask_of: "i < 64 \<Longrightarrow> bit (mask_of i) j \<longleftrightarrow> i = j"
  by (auto simp: mask_of_def bit_exp_iff possible_bit_word)

lemma card_set_bit: "bit (s :: card_set) i \<Longrightarrow> i < 64"
  using bit_imp_le_length[of s i] by simp

lemma and_nonzero: "(s :: card_set) AND t \<noteq> 0 \<longleftrightarrow> (\<exists>i. bit s i \<and> bit t i)"
  by (auto simp: bit_eq_iff bit_and_iff dest: card_set_bit)

lemma cs_ok_ops:
  "cs_ok s \<Longrightarrow> card_ok c \<Longrightarrow> cs_ok (add_card s c)" "cs_ok s \<Longrightarrow> cs_ok (del_card s c)"
  "cs_ok s \<Longrightarrow> cs_ok t \<Longrightarrow> cs_ok (add_set s t)" "cs_ok s \<Longrightarrow> cs_ok (del_set s t)" "cs_ok 0"
  by (auto simp: cs_ok_bit add_card_def del_card_def add_set_def del_set_def card_ok_def getAllCount_def getId_def
      bit_simps bit_mask_of)

lemma cards_in_ops [simp]:
  "cards_in 0 = {}"
  "card_ok c \<Longrightarrow> cards_in (add_card s c) = insert c (cards_in s)"
  "card_ok c \<Longrightarrow> cards_in (del_card s c) = cards_in s - {c}"
  "cards_in (add_set s t) = cards_in s \<union> cards_in t"
  "cs_ok s \<Longrightarrow> cards_in (del_set s t) = cards_in s - cards_in t"
  "card_ok c \<Longrightarrow> has_card s c \<longleftrightarrow> c \<in> cards_in s"
proof -
  have bits: "\<And>i. i < 53 \<Longrightarrow> i < LENGTH(64)" by simp
  show "cards_in 0 = {}" by (simp add: cards_in_def)
  show "cards_in (add_card s c) = insert c (cards_in s)" if "card_ok c" using that
    by (auto simp: cards_in_def add_card_def card_ok_def getAllCount_def getId_def bit_or_iff bit_mask_of intro: card.expand)
  show "cards_in (del_card s c) = cards_in s - {c}" if "card_ok c" using that
    by (auto simp: cards_in_def del_card_def card_ok_def getAllCount_def getId_def bit_simps bit_mask_of
        dest: bit_imp_le_length intro: card.expand)
  show "cards_in (add_set s t) = cards_in s \<union> cards_in t" by (auto simp: cards_in_def add_set_def bit_or_iff)
  show "cards_in (del_set s t) = cards_in s - cards_in t" if "cs_ok s"
    by (auto simp: cards_in_def del_set_def bit_simps dest: bit_imp_le_length)
  show "has_card s c \<longleftrightarrow> c \<in> cards_in s" if "card_ok c" using that
    by (auto simp: has_card_def cards_in_def card_ok_def getAllCount_def getId_def and_nonzero bit_mask_of)
qed

lemma has_set_subset: "has_set s t \<longleftrightarrow> cards_in t \<subseteq> cards_in s"
proof
  assume "has_set s t"
  then show "cards_in t \<subseteq> cards_in s" by (auto simp: has_set_def cards_in_def bit_eq_iff bit_and_iff dest: card_set_bit)
next
  assume "cards_in t \<subseteq> cards_in s"
  then have "bit t i \<Longrightarrow> bit s i" for i using subsetD[of "cards_in t" "cards_in s" "Card i"] by (simp add: cards_in_def)
  then show "has_set s t" by (auto simp: has_set_def bit_eq_iff bit_and_iff)
qed

lemma communion_meet: "communion s t \<longleftrightarrow> cards_in s \<inter> cards_in t \<noteq> {}"
proof -
  have "communion s t \<longleftrightarrow> (\<exists>i. bit s i \<and> bit t i)" by (simp add: communion_def and_nonzero)
  also have "\<dots> \<longleftrightarrow> (\<exists>c. bit s (idx c) \<and> bit t (idx c))" by (metis card.sel)
  finally show ?thesis by (auto simp: cards_in_def)
qed

lemma cards_in_inject: "cards_in s = cards_in t \<longleftrightarrow> s = t"
proof
  assume "cards_in s = cards_in t"
  then have "bit s i = bit t i" for i using eq_iff set_eq_iff by (metis (mono_tags) cards_in_def card.sel mem_Collect_eq)
  then show "s = t" by (simp add: bit_eq_iff)
qed simp

lemma set_empty_iff: "set_empty s \<longleftrightarrow> cards_in s = {}"
  using cards_in_inject[of s 0] by (simp add: set_empty_def)

lemma finite_cards_in: "finite (cards_in s)"
proof (rule finite_subset)
  show "cards_in s \<subseteq> Card ` {..<64}"
    by (auto simp: cards_in_def image_iff dest!: bit_imp_le_length intro: card.exhaust_sel)
qed simp

lemma set_size_card: "cs_ok s \<Longrightarrow> set_size s = card (cards_in s)"
  by (simp add: set_size_ids cards_in_ids card_image inj_on_def distinct_card ids_sorted)

lemma cards_in_allCards: "cards_in allCards = {c. card_ok c}"
proof -
  have "allCards = mask 53" by (simp add: allCards_def mask_eq_exp_minus_1 push_bit_eq_mult)
  moreover have "bit (mask 53 :: card_set) i \<longleftrightarrow> i < 53" for i by (auto simp: bit_mask_iff possible_bit_word)
  ultimately show ?thesis by (simp add: cards_in_def card_ok_def getAllCount_def)
qed

lemma cards_of_vector: "list_all card_ok cs \<Longrightarrow> cards_in (cardset_of_vector cs s) = set cs \<union> cards_in s"
proof (induction cs arbitrary: s)
  case (Cons c cs)
  then show ?case using cards_in_ops(2)[of c s] by (simp add: add_card_def)
qed simp

lemma card_list_sorted: "sorted is \<Longrightarrow> sorted (map Card is)"
  by (simp add: sorted_map sorted_wrt_mono_rel[of _ "(\<le>)"] less_eq_card_def card_compare_def)

lemma conv2Vector_list: "cs_ok s \<Longrightarrow> conv2Vector s = Ok (sorted_list_of_set (cards_in s))"
proof -
  assume ok: "cs_ok s"
  have "sorted_list_of_set (cards_in s) = map Card (ids 53 s)"
    using sorted_list_of_set.idem_if_sorted_distinct[of "map Card (ids 53 s)"]
    by (simp add: cards_in_ids[OF ok] ids_sorted card_list_sorted distinct_map inj_on_def)
  then show ?thesis by (simp add: conv2Vector_ids ok)
qed

text \<open>
  What the players rely on: a container that refines finite sets. \<open>inv\<close> is its well-formedness, \<open>ok\<close> that of an element.
\<close>

locale set_container =
  fixes abs :: "'s \<Rightarrow> 'a set" and inv :: "'s \<Rightarrow> bool" and ok :: "'a \<Rightarrow> bool"
    and nil :: 's and add del :: "'s \<Rightarrow> 'a \<Rightarrow> 's" and mem :: "'s \<Rightarrow> 'a \<Rightarrow> bool"
  assumes nil: "abs nil = {}" "inv nil"
    and add: "inv s \<Longrightarrow> ok c \<Longrightarrow> abs (add s c) = insert c (abs s)" "inv s \<Longrightarrow> ok c \<Longrightarrow> inv (add s c)"
    and del: "inv s \<Longrightarrow> ok c \<Longrightarrow> abs (del s c) = abs s - {c}" "inv s \<Longrightarrow> ok c \<Longrightarrow> inv (del s c)"
    and mem: "inv s \<Longrightarrow> ok c \<Longrightarrow> mem s c \<longleftrightarrow> c \<in> abs s"
begin

lemma add_all:
  "inv s \<Longrightarrow> list_all ok cs \<Longrightarrow> abs (foldl add s cs) = abs s \<union> set cs \<and> inv (foldl add s cs)"
  by (induction cs arbitrary: s) (auto simp: add)

lemma mem_add_all: "inv s \<Longrightarrow> list_all ok cs \<Longrightarrow> ok c \<Longrightarrow> mem (foldl add s cs) c \<longleftrightarrow> mem s c \<or> c \<in> set cs"
  by (simp add: mem add_all)

lemma del_all:
  "inv s \<Longrightarrow> list_all ok cs \<Longrightarrow> abs (foldl del s cs) = abs s - set cs \<and> inv (foldl del s cs)"
  by (induction cs arbitrary: s) (auto simp: del)

end

interpretation hand: set_container cards_in cs_ok card_ok 0 add_card del_card has_card
  by unfold_locales (simp_all add: cs_ok_ops)

lemmas collect_cards = hand.add_all[OF cs_ok_ops(5), simplified]

lemma cs_ok_subset: "cards_in h \<subseteq> cards_in d \<Longrightarrow> cs_ok d \<Longrightarrow> cs_ok h"
proof -
  assume sub: "cards_in h \<subseteq> cards_in d" and ok: "cs_ok d"
  have "bit h i \<Longrightarrow> bit d i" for i using subsetD[OF sub, of "Card i"] by (simp add: cards_in_def)
  then show ?thesis using ok by (auto simp: cs_ok_bit)
qed

text \<open>
  C31. A card set is used in the program as a set of cards, and the 64-bit mask implements it: for well-formed sets adding and
  removing a card or a set, the tests for a card, for a subset, for a common card and for emptiness, the size and the listing
  are the operations of the same name on the set of cards, the listing is in the order of the cards and \<open>CardSet(vector)\<close> undoes
  it, and every operation keeps the masks well formed.
\<close>

theorem cardset_refines:
  assumes "cs_ok s" "cs_ok t" "card_ok c"
  shows "cards_in (add_card s c) = insert c (cards_in s) \<and> cards_in (del_card s c) = cards_in s - {c} \<and>
    cards_in (add_set s t) = cards_in s \<union> cards_in t \<and> cards_in (del_set s t) = cards_in s - cards_in t \<and>
    (has_card s c \<longleftrightarrow> c \<in> cards_in s) \<and> (has_set s t \<longleftrightarrow> cards_in t \<subseteq> cards_in s) \<and>
    (communion s t \<longleftrightarrow> cards_in s \<inter> cards_in t \<noteq> {}) \<and> (set_empty s \<longleftrightarrow> cards_in s = {}) \<and>
    set_size s = card (cards_in s) \<and> conv2Vector s = Ok (sorted_list_of_set (cards_in s)) \<and>
    cardset_of_vector (sorted_list_of_set (cards_in s)) 0 = s \<and>
    cs_ok (add_card s c) \<and> cs_ok (del_card s c) \<and> cs_ok (add_set s t) \<and> cs_ok (del_set s t)"
proof -
  have "cards_in (cardset_of_vector (sorted_list_of_set (cards_in s)) 0) = cards_in s"
    using assms(1) by (subst cards_of_vector) (auto simp: finite_cards_in list_all_iff cards_in_ok)
  then show ?thesis using assms
    by (simp add: cs_ok_ops has_set_subset communion_meet set_empty_iff set_size_card conv2Vector_list cards_in_inject)
qed

theorem cardset_refines_witness:
  "cards_in (add_card 5 (Card 52)) = insert (Card 52) (cards_in 5) \<and> conv2Vector 5 = Ok (sorted_list_of_set (cards_in 5)) \<and>
   set_size 5 = card (cards_in 5)"
proof -
  have "cs_ok 5" "cs_ok 0" "card_ok (Card 52)" by (simp_all add: cs_ok_def card_ok_def getAllCount_def)
  then show ?thesis using cardset_refines[of 5 0 "Card 52"] by blast
qed

section \<open>Spelling\<close>

definition card_words :: "nat list \<Rightarrow> byte list" where "card_words is = concat (map (\<lambda>i. 32 # card_toString (Card i)) is)"

lemma card_chars:
  assumes "i < 53"
  obtains a b where "card_toString (Card i) = [a, b]" "a \<noteq> 32" "calcCardIdFromString a b = Ok (int i)"
proof -
  have "i \<in> set [0..<53]" using assms by simp
  then have "case card_toString (Card i) of [a, b] \<Rightarrow> a \<noteq> 32 \<and> a \<noteq> 0 \<and> b \<noteq> 0 \<and> calcCardIdFromString a b = Ok (int i) | _ \<Rightarrow> False"
    using card_toString_table by blast
  then show ?thesis using that by (auto split: list.splits)
qed

lemma cardset_of_card: "i < 53 \<Longrightarrow> cardset_of_string (card_toString (Card i) @ rest) s = cardset_of_string rest (add_card s (Card i))"
  by (rule card_chars[of i]) (simp_all add: add_card_def getId_def)

lemma cardset_of_words:
  "list_all (\<lambda>i. i < 53) is \<Longrightarrow> cardset_of_string (card_words is) s = Ok (foldl add_card s (map Card is))"
  by (induction "is" arbitrary: s) (simp_all add: card_words_def cardset_of_card)

lemma toString_loop_words:
  "k < n \<Longrightarrow> n \<le> set_size s \<Longrightarrow> 0 < k \<Longrightarrow>
   toString_loop s [k..<n] str = Ok (str @ card_words (map (nth (ids 53 s)) [k..<n]))"
proof (induction "n - k" arbitrary: k str)
  case (Suc m)
  then have "[k..<n] = k # [Suc k..<n]" by (simp add: upt_conv_Cons)
  moreover have "toString_loop s [Suc k..<n] str' = Ok (str' @ card_words (map (nth (ids 53 s)) [Suc k..<n]))" for str'
    using Suc by (cases "Suc k < n") (simp_all add: card_words_def)
  ultimately show ?case using Suc.prems by (simp add: set_at_ids card_words_def)
qed simp

lemma set_toString_words:
  "set_toString s = Ok (case ids 53 s of [] \<Rightarrow> [] | i # is \<Rightarrow> card_toString (Card i) @ card_words is)"
proof (cases "ids 53 s")
  case Nil then show ?thesis by (simp add: set_toString_def set_size_ids)
next
  case (Cons i js)
  have n: "set_size s = Suc (length js)" by (simp add: set_size_ids Cons)
  have "map (nth (ids 53 s)) [1..<set_size s] = js"
    by (rule nth_equalityI) (simp_all add: n Cons del: upt_Suc)
  moreover have "set_at s 0 = Ok (Card i)" using set_at_ids[of s 0] by (simp add: n Cons)
  ultimately show ?thesis
    using toString_loop_words[of 1 "set_size s" s "card_toString (Card i)"]
    by (cases js) (simp_all add: set_toString_def n Cons upt_conv_Cons card_words_def del: upt_Suc)
qed

lemma set_string_roundtrip: "cs_ok s \<Longrightarrow> bind_res (set_toString s) (\<lambda>t. cardset_of_string t 0) = Ok s"
proof -
  assume ok: "cs_ok s"
  have small: "list_all (\<lambda>i. i < 53) (ids 53 s)" by (simp add: list_all_iff set_ids)
  have "bind_res (set_toString s) (\<lambda>t. cardset_of_string t 0) = Ok (foldl add_card 0 (map Card (ids 53 s)))"
    using small by (cases "ids 53 s") (simp_all add: set_toString_words cardset_of_card cardset_of_words)
  moreover have "cards_in (foldl add_card 0 (map Card (ids 53 s))) = cards_in s"
    using small by (subst collect_cards[THEN conjunct1]) (auto simp: cards_in_ids[OF ok] list_all_iff card_ok_def getAllCount_def)
  ultimately show ?thesis by (simp add: cards_in_inject)
qed

text \<open>
  Printing and reading back a card or a set of cards gives it back: \<open>Card::fromString\<close> undoes \<open>Card::toString\<close>, and
  \<open>CardSet(const char*)\<close> undoes \<open>CardSet::toString\<close>.
\<close>

theorem cards_roundtrip:
  assumes "card_ok c" "cs_ok s"
  shows "card_fromString (card_toString c) = Ok c \<and> bind_res (set_toString s) (\<lambda>t. cardset_of_string t 0) = Ok s"
proof -
  have "card_fromString (card_toString c) = Ok c"
    using card_string_table assms(1) by (cases c) (auto simp: card_ok_def getAllCount_def)
  then show ?thesis using set_string_roundtrip[OF assms(2)] by simp
qed

theorem cards_roundtrip_witness:
  "card_fromString (card_toString (Card 52)) = Ok (Card 52) \<and> bind_res (set_toString allCards) (\<lambda>t. cardset_of_string t 0) = Ok allCards"
  using cards_roundtrip[of "Card 52" allCards] by (simp add: card_ok_def getAllCount_def cs_ok_def allCards_def)

text \<open>
  \<open>operator[]\<close> of a set: the \<open>k\<close>-th card in order, or the exception for every other index.
\<close>

theorem set_at_total:
  "cs_ok s \<Longrightarrow> set_at s k = (if 0 \<le> k \<and> k < int (card (cards_in s)) then Ok (sorted_list_of_set (cards_in s) ! nat k) else Throw IndexOutOfRange)"
proof (cases "0 \<le> k")
  case True
  assume ok: "cs_ok s"
  have "map Card (ids 53 s) = sorted_list_of_set (cards_in s)" using conv2Vector_ids[OF ok] conv2Vector_list[OF ok] by simp
  then have "nat k < length (ids 53 s) \<Longrightarrow> sorted_list_of_set (cards_in s) ! nat k = Card (ids 53 s ! nat k)"
    using nth_map[of "nat k" "ids 53 s" Card] by simp
  then show ?thesis using set_at_ids[of s "nat k"] True
    by (auto simp: set_size_card[OF ok, symmetric] set_size_ids)
next
  case False
  then show ?thesis by (simp add: set_at_def at_loop_neg)
qed

end
