(* ===== verification/Daifugo_Rule.thy ===== *)
theory Daifugo_Rule
  imports Cards
begin

text \<open>
  \<^verbatim>\<open>jni/neof5/DaifugoRule.hpp\<close> and \<^verbatim>\<open>DaifugoRule.cpp\<close>: which hands may be put on the table, by the rules of class A and class B, and
  with which cards a player may finish. A rule object is its class and its \<open>_isKakumei\<close> flag.
\<close>

section \<open>Class A\<close>

datatype chk_result =
    CHK_OK
  | ERR_DIFFERENT_NUM
  | ERR_COUNT_UNMATCH
  | ERR_INVALID_BA
  | ERR_NOT_STRONG
  | ERR_JOKER_AGARI
  | ERR_2_AGARI
  | ERR_NOT_KAIDAN
  | ERR_BA_ISNOT_KAIDAN

text \<open>Following a smart pointer: null is undefined.\<close>

fun deref :: "'a option \<Rightarrow> 'a res" where
  "deref None = Undef"
| "deref (Some x) = Ok x"

text \<open>The loop of \<open>_tryGetFirstCard\<close>, over the indices that are left.\<close>

fun first_loop :: "card_set \<Rightarrow> nat list \<Rightarrow> card option \<Rightarrow> (bool \<times> card option) res" where
  "first_loop cards [] check = Ok (True, check)"
| "first_loop cards (i # is) check = bind_res (set_at cards (int i)) (\<lambda>c.
     if isJoker c then first_loop cards is check
     else case check of
       None \<Rightarrow> first_loop cards is (Some c)
     | Some d \<Rightarrow> if getNum d \<noteq> getNum c then Ok (False, None) else first_loop cards is check)"

definition tryGetFirstCard :: "card_set \<Rightarrow> (bool \<times> card option) res" where
  "tryGetFirstCard cards =
    (if set_size cards = 0 then Ok (False, None)
     else if set_size cards = 1 then bind_res (set_at cards 0) (\<lambda>c. Ok (True, Some c))
     else first_loop cards [0..<set_size cards] None)"

definition compareCards :: "bool \<Rightarrow> card \<Rightarrow> card \<Rightarrow> int" where
  "compareCards kakumei a b =
    (if getNum a = getNum b then 0
     else if isJoker a then - 1
     else if isJoker b then 1
     else let ret = (if a > b then - 1 else 1) in if kakumei then - ret else ret)"

definition canPutA :: "bool \<Rightarrow> card_set \<Rightarrow> card_set \<Rightarrow> chk_result res" where
  "canPutA kakumei cards ba_last =
    (if set_empty cards then Ok CHK_OK
     else bind_res (tryGetFirstCard cards) (\<lambda>(found, firstCard).
       if \<not> found then Ok ERR_DIFFERENT_NUM
       else if set_empty ba_last then Ok CHK_OK
       else if set_size ba_last \<noteq> set_size cards then Ok ERR_COUNT_UNMATCH
       else bind_res (tryGetFirstCard ba_last) (\<lambda>(ba_found, baCard).
         if \<not> ba_found then Ok ERR_INVALID_BA
         else bind_res (deref baCard) (\<lambda>b. bind_res (deref firstCard) (\<lambda>f.
           if compareCards kakumei b f \<le> 0 then Ok ERR_NOT_STRONG else Ok CHK_OK)))))"

definition canAgariA :: "card_set \<Rightarrow> chk_result" where "canAgariA cards = CHK_OK"

section \<open>Class B\<close>

text \<open>The two loops of \<open>_isKaidan\<close>: one suit, and neighbours in order, where the joker may fill a gap.\<close>

fun same_suit :: "suit \<Rightarrow> card list \<Rightarrow> bool" where
  "same_suit s [] = True"
| "same_suit s (c # cs) = (if s \<noteq> getSuit c then False else same_suit s cs)"

fun steps_loop :: "int \<Rightarrow> int \<Rightarrow> card list \<Rightarrow> bool" where
  "steps_loop hasJoker pj (a # b # cs) =
    (let cmp = card_compare b a - 1 in
     if cmp = 0 then steps_loop hasJoker pj (b # cs)
     else if cmp \<le> hasJoker - pj then steps_loop hasJoker (pj + cmp) (b # cs)
     else False)"
| "steps_loop hasJoker pj cs = True"

definition kaidan :: "card_set \<Rightarrow> (bool \<times> card list option) res" where
  "kaidan cards =
    (if set_size cards < 3 then Ok (False, None)
     else bind_res (extractJoker cards) (\<lambda>(hasJoker, tmpc). bind_res (conv2Vector tmpc) (\<lambda>listcards.
       case listcards of
         [] \<Rightarrow> Throw IndexOutOfRange
       | first # rest \<Rightarrow>
           if \<not> same_suit (getSuit first) rest then Ok (False, Some listcards)
           else Ok (steps_loop hasJoker 0 (sort listcards), Some (sort listcards)))))"

definition isKaidan :: "card_set \<Rightarrow> bool res" where
  "isKaidan cards = bind_res (kaidan cards) (\<lambda>(b, v). Ok b)"

fun max_element :: "card list \<Rightarrow> card option" where
  "max_element [] = None"
| "max_element (c # cs) = Some (foldl (\<lambda>m d. if m < d then d else m) c cs)"

fun min_element :: "card list \<Rightarrow> card option" where
  "min_element [] = None"
| "min_element (c # cs) = Some (foldl (\<lambda>m d. if d < m then d else m) c cs)"

definition canPutB :: "bool \<Rightarrow> card_set \<Rightarrow> card_set \<Rightarrow> chk_result res" where
  "canPutB kakumei cards ba_last = bind_res (canPutA kakumei cards ba_last) (\<lambda>ret.
    if ret = CHK_OK then Ok ret
    else if \<not> set_empty ba_last then
      bind_res (kaidan ba_last) (\<lambda>(ba_kaidan, v_balast).
        if ba_kaidan then
          bind_res (kaidan cards) (\<lambda>(cards_kaidan, v_cards).
            if cards_kaidan then
              bind_res (deref v_balast) (\<lambda>vb. bind_res (deref v_cards) (\<lambda>vc.
                bind_res (deref (max_element vb)) (\<lambda>c1. bind_res (deref (min_element vc)) (\<lambda>c2.
                  Ok (if compareCards kakumei c2 c1 > 0 then CHK_OK else ERR_NOT_STRONG)))))
            else Ok ERR_NOT_KAIDAN)
        else bind_res (kaidan cards) (\<lambda>(cards_kaidan, v). Ok (if cards_kaidan then ERR_BA_ISNOT_KAIDAN else ret)))
    else bind_res (kaidan cards) (\<lambda>(cards_kaidan, v). Ok (if cards_kaidan then CHK_OK else ret)))"

definition canAgariB :: "bool \<Rightarrow> card_set \<Rightarrow> chk_result res" where
  "canAgariB kakumei cards = bind_res (extractJoker cards) (\<lambda>(jokers, tmpc).
    if set_empty tmpc then Ok ERR_JOKER_AGARI
    else if fst (hasNumOf tmpc (if kakumei then 3 else 2)) then Ok ERR_2_AGARI
    else Ok CHK_OK)"

section \<open>Rule objects\<close>

datatype rule_class = ClassA | ClassB

record daifugo_rule =
  rule_class :: rule_class
  rule_kakumei :: bool

definition setKakumei :: "bool \<Rightarrow> daifugo_rule \<Rightarrow> daifugo_rule" where
  "setKakumei k r = r\<lparr>rule_kakumei := k\<rparr>"

definition canPut :: "daifugo_rule \<Rightarrow> card_set \<Rightarrow> card_set \<Rightarrow> chk_result res" where
  "canPut r cards ba_last =
    (case rule_class r of ClassA \<Rightarrow> canPutA (rule_kakumei r) cards ba_last
                        | ClassB \<Rightarrow> canPutB (rule_kakumei r) cards ba_last)"

definition canAgari :: "daifugo_rule \<Rightarrow> card_set \<Rightarrow> chk_result res" where
  "canAgari r cards = (case rule_class r of ClassA \<Rightarrow> Ok (canAgariA cards) | ClassB \<Rightarrow> canAgariB (rule_kakumei r) cards)"

section \<open>The table of cards\<close>

lemma card_table:
  "\<forall>i\<in>set [0..<53]. getStrength (Card i) = 1 + int (i div 4) \<and> (isJoker (Card i) \<longleftrightarrow> i = 52) \<and>
     getNum (Card i) = (if i = 52 then 0 else int ((i div 4 + 2) mod 13 + 1)) \<and>
     suit_val (getSuit (Card i)) = (if i = 52 then 0x10 else 0x20 + 0x10 * of_nat (i mod 4))"
  by code_simp

lemma card_facts:
  assumes "card_ok c"
  shows getStrength_idx: "getStrength c = 1 + int (idx c div 4)"
    and isJoker_idx: "isJoker c \<longleftrightarrow> idx c = 52"
    and getNum_idx: "getNum c = (if idx c = 52 then 0 else int ((idx c div 4 + 2) mod 13 + 1))"
    and getSuit_idx: "suit_val (getSuit c) = (if idx c = 52 then 0x10 else 0x20 + 0x10 * of_nat (idx c mod 4))"
proof -
  have "idx c \<in> set [0..<53]" using assms by (simp add: card_ok_def getAllCount_def)
  from card_table[rule_format, OF this] show "getStrength c = 1 + int (idx c div 4)" "isJoker c \<longleftrightarrow> idx c = 52"
    "getNum c = (if idx c = 52 then 0 else int ((idx c div 4 + 2) mod 13 + 1))"
    "suit_val (getSuit c) = (if idx c = 52 then 0x10 else 0x20 + 0x10 * of_nat (idx c mod 4))"
    by simp_all
qed

section \<open>What class A allows\<close>

text \<open>The strength of a card in the present order of ranks: a revolution turns it round, the joker stays on top.\<close>

definition power :: "bool \<Rightarrow> card \<Rightarrow> int" where
  "power kakumei c = (if isJoker c then CARD_STRENGTH_MAX else if kakumei then CARD_STRENGTH_MAX - getStrength c else getStrength c)"

lemma same_num_strength:
  assumes "card_ok a" "card_ok b"
  shows "getNum a = getNum b \<longleftrightarrow> getStrength a = getStrength b"
proof -
  have d: "idx a div 4 \<le> 13" "idx b div 4 \<le> 13" "idx a div 4 = 13 \<longleftrightarrow> idx a = 52" "idx b div 4 = 13 \<longleftrightarrow> idx b = 52"
    using assms by (auto simp: card_ok_def getAllCount_def)
  have turn: "(x + 2) mod 13 = (if x < 11 then x + 2 else x - 11)" if "x < 13" for x :: nat
    using that by (auto simp: le_mod_geq)
  have "(x + 2) mod 13 = (y + 2) mod 13 \<longleftrightarrow> x = y" if "x < 13" "y < 13" for x y :: nat
    unfolding turn[OF that(1)] turn[OF that(2)] using that by auto
  then show ?thesis using d by (auto simp: getStrength_idx getNum_idx assms)
qed

lemma compareCards_power:
  assumes "card_ok a" "card_ok b"
  shows "compareCards kakumei a b = sgn (power kakumei b - power kakumei a)"
proof -
  have lt: "getStrength x < 14 \<longleftrightarrow> \<not> isJoker x" "getStrength x \<ge> 1" "getStrength x \<le> 14" if "card_ok x" for x
    using that by (auto simp: getStrength_idx isJoker_idx card_ok_def getAllCount_def)
  have ord: "a > b \<longleftrightarrow> getStrength b < getStrength a" if "getNum a \<noteq> getNum b"
  proof -
    have "idx a div 4 \<noteq> idx b div 4" using that assms by (simp add: same_num_strength getStrength_idx)
    then have "idx b < idx a \<longleftrightarrow> idx b div 4 < idx a div 4" using div_le_mono[of "idx b" "idx a" 4] div_le_mono[of "idx a" "idx b" 4]
      by linarith
    then show ?thesis using assms by (simp add: getStrength_idx less_card_def card_compare_def)
  qed
  show ?thesis
  proof (cases "getNum a = getNum b")
    case True
    then have "getStrength a = getStrength b" "isJoker a \<longleftrightarrow> isJoker b" using lt assms same_num_strength by metis+
    then show ?thesis using True by (simp add: compareCards_def power_def)
  next
    case False
    then show ?thesis using ord[OF False] lt[OF assms(1)] lt[OF assms(2)] same_num_strength[OF assms]
      by (auto simp: compareCards_def power_def CARD_STRENGTH_MAX_def sgn_if not_less)
  qed
qed

text \<open>The cards of a hand that fix its rank: all but the joker, unless it is alone.\<close>

definition lead :: "card set \<Rightarrow> card set" where
  "lead H = (if H \<subseteq> {c. isJoker c} then H else {c \<in> H. \<not> isJoker c})"

definition same_rank :: "card set \<Rightarrow> bool" where
  "same_rank H \<longleftrightarrow> (\<forall>c\<in>lead H. \<forall>d\<in>lead H. getNum c = getNum d)"

definition stronger :: "bool \<Rightarrow> card set \<Rightarrow> card set \<Rightarrow> bool" where
  "stronger kakumei H B \<longleftrightarrow> (\<forall>c\<in>lead H. \<forall>d\<in>lead B. power kakumei d < power kakumei c)"

definition put_verdict :: "bool \<Rightarrow> card set \<Rightarrow> card set \<Rightarrow> chk_result" where
  "put_verdict kakumei H B =
    (if H = {} then CHK_OK
     else if \<not> same_rank H then ERR_DIFFERENT_NUM
     else if B = {} then CHK_OK
     else if card B \<noteq> card H then ERR_COUNT_UNMATCH
     else if \<not> same_rank B then ERR_INVALID_BA
     else if stronger kakumei H B then CHK_OK else ERR_NOT_STRONG)"

text \<open>The loop, over the cards themselves.\<close>

fun scan :: "card list \<Rightarrow> card option \<Rightarrow> bool \<times> card option" where
  "scan [] check = (True, check)"
| "scan (c # cs) check =
    (if isJoker c then scan cs check
     else case check of None \<Rightarrow> scan cs (Some c)
       | Some d \<Rightarrow> if getNum d \<noteq> getNum c then (False, None) else scan cs check)"

lemma first_loop_scan:
  "k \<le> n \<Longrightarrow> n \<le> set_size s \<Longrightarrow> first_loop s [k..<n] check = Ok (scan (map (\<lambda>i. Card (ids 53 s ! i)) [k..<n]) check)"
proof (induction "n - k" arbitrary: k check)
  case (Suc m)
  then have "[k..<n] = k # [Suc k..<n]" by (simp add: upt_conv_Cons)
  moreover have "first_loop s [Suc k..<n] check' = Ok (scan (map (\<lambda>i. Card (ids 53 s ! i)) [Suc k..<n]) check')" for check'
    using Suc by simp
  ultimately show ?case using Suc.prems Suc.hyps(2) by (auto simp: set_at_ids split: option.split)
qed simp

lemma scan_Some: "scan cs (Some d) = (if \<forall>c\<in>set cs. isJoker c \<or> getNum c = getNum d then (True, Some d) else (False, None))"
  by (induction cs) auto

lemma scan_None:
  "scan cs None = (let ns = filter (\<lambda>c. \<not> isJoker c) cs in
     if ns = [] then (True, None) else if \<forall>c\<in>set ns. getNum c = getNum (hd ns) then (True, Some (hd ns)) else (False, None))"
  by (induction cs) (auto simp: scan_Some)

lemma cards_list: "cs_ok s \<Longrightarrow> map Card (ids 53 s) = sorted_list_of_set (cards_in s)"
  using conv2Vector_ids[of s] conv2Vector_list[of s] by simp

lemma joker_unique: "cs_ok s \<Longrightarrow> c \<in> cards_in s \<Longrightarrow> isJoker c \<Longrightarrow> c = Card 52"
  using cards_in_ok[of s c] by (simp add: isJoker_idx card.expand)

lemma lead_nonempty: "H \<noteq> {} \<Longrightarrow> lead H \<noteq> {}"
  by (auto simp: lead_def)

lemma tryGetFirstCard_lead:
  assumes ok: "cs_ok s" and ne: "cards_in s \<noteq> {}"
  shows "if same_rank (cards_in s) then \<exists>c\<in>lead (cards_in s). tryGetFirstCard s = Ok (True, Some c)
         else tryGetFirstCard s = Ok (False, None)"
proof -
  let ?H = "cards_in s" and ?V = "map Card (ids 53 s)"
  have V: "set ?V = ?H" using cards_in_ids[OF ok] by simp
  have size: "set_size s = length ?V" "set_size s = card ?H"
    using set_size_ids[of s] set_size_card[OF ok] by simp_all
  have pos: "0 < set_size s" using ne finite_cards_in[of s] size(2) by (simp add: card_gt_0_iff)
  show ?thesis
  proof (cases "set_size s = 1")
    case True
    then obtain c where H: "?H = {c}" using size(2) by (auto simp: card_1_singleton_iff)
    then have "ids 53 s ! 0 = idx c" using V True size(1) by (cases "ids 53 s") auto
    then have "tryGetFirstCard s = Ok (True, Some c)" using True set_at_ids[of s 0] by (simp add: tryGetFirstCard_def)
    then show ?thesis by (simp add: same_rank_def lead_def H)
  next
    case False
    define ns where "ns = filter (\<lambda>c. \<not> isJoker c) ?V"
    have ns: "set ns = {c \<in> ?H. \<not> isJoker c}" unfolding ns_def using V by auto
    have "\<not> ?H \<subseteq> {c. isJoker c}"
    proof
      assume "?H \<subseteq> {c. isJoker c}"
      then have "?H \<subseteq> {Card 52}" using joker_unique[OF ok] by blast
      then have "card ?H \<le> 1" using card_mono[of "{Card 52}" ?H] by simp
      then show False using False pos size(2) by simp
    qed
    then have lead: "lead ?H = set ns" by (simp add: lead_def ns)
    then have nonempty: "ns \<noteq> []" using lead_nonempty[OF ne] by auto
    have "map (\<lambda>i. Card (ids 53 s ! i)) [0..<set_size s] = ?V" by (rule nth_equalityI) (simp_all add: set_size_ids)
    then have t: "tryGetFirstCard s = Ok (scan ?V None)" using False pos first_loop_scan[of 0 "set_size s" s None]
      by (simp add: tryGetFirstCard_def)
    have rank: "same_rank ?H \<longleftrightarrow> (\<forall>c\<in>set ns. getNum c = getNum (hd ns))"
      unfolding same_rank_def lead by (intro iffI ballI) (use hd_in_set[OF nonempty] in blast, simp)
    have "scan ?V None = (if same_rank ?H then (True, Some (hd ns)) else (False, None))"
      unfolding scan_None Let_def ns_def[symmetric] rank[symmetric] using nonempty by simp
    then show ?thesis using hd_in_set[OF nonempty] by (simp add: t lead)
  qed
qed

lemma lead_subset: "lead H \<subseteq> H" by (auto simp: lead_def)

lemma power_same_rank:
  assumes "same_rank H" "\<And>c. c \<in> H \<Longrightarrow> card_ok c" "c \<in> lead H" "d \<in> lead H"
  shows "power k c = power k d"
proof -
  have "card_ok c" "card_ok d" by (rule assms(2)[OF subsetD[OF lead_subset]]; rule assms(3,4))+
  moreover have "getNum c = getNum d" using assms(1,3,4) unfolding same_rank_def by blast
  moreover have "isJoker c \<longleftrightarrow> isJoker d" using assms(3,4) by (auto simp: lead_def split: if_splits)
  ultimately have "getStrength c = getStrength d" "isJoker c \<longleftrightarrow> isJoker d" using same_num_strength by blast+
  then show ?thesis by (simp add: power_def)
qed

lemma canPutA_verdict:
  assumes h: "cs_ok s" and b: "cs_ok t"
  shows "canPutA k s t = Ok (put_verdict k (cards_in s) (cards_in t))"
proof -
  note size = set_size_card[OF h] set_size_card[OF b]
  note first = tryGetFirstCard_lead[OF h] and ba = tryGetFirstCard_lead[OF b]
  show ?thesis
  proof (cases "cards_in s = {} \<or> \<not> same_rank (cards_in s)")
    case True
    then show ?thesis using first by (auto simp: canPutA_def put_verdict_def set_empty_iff)
  next
    case False
    then obtain f where f: "f \<in> lead (cards_in s)" "tryGetFirstCard s = Ok (True, Some f)" using first by auto
    show ?thesis
    proof (cases "cards_in t = {} \<or> card (cards_in t) \<noteq> card (cards_in s) \<or> \<not> same_rank (cards_in t)")
      case True
      then show ?thesis using False f(2) ba by (auto simp: canPutA_def put_verdict_def set_empty_iff size)
    next
      case t: False
      then obtain d where d: "d \<in> lead (cards_in t)" "tryGetFirstCard t = Ok (True, Some d)" using ba by auto
      have ok: "card_ok f" "card_ok d" using f(1) d(1) lead_subset cards_in_ok h b by blast+
      have "stronger k (cards_in s) (cards_in t) \<longleftrightarrow> power k d < power k f"
        unfolding stronger_def
        using power_same_rank[OF _ cards_in_ok[OF h] _ f(1)] power_same_rank[OF _ cards_in_ok[OF b] _ d(1)] f(1) d(1) False t
        by metis
      then show ?thesis using False t f(2) d(2)
        by (simp add: canPutA_def put_verdict_def set_empty_iff size compareCards_power ok sgn_if)
    qed
  qed
qed

section \<open>Class B: sequences\<close>

lemma joker_card: "card_get JKR 0 = Ok (Card 52)" "card_ok (Card 52)"
  by (simp_all add: card_get_def mk_card_def card_ok_def getAllCount_def)

lemma extractJoker_set:
  "extractJoker s = Ok (if Card 52 \<in> cards_in s then 1 else 0, if Card 52 \<in> cards_in s then del_card s (Card 52) else s)"
  by (simp add: extractJoker_def joker_card)

lemma without_joker:
  assumes "cs_ok s"
  shows "\<exists>t j. extractJoker s = Ok (j, t) \<and> cs_ok t \<and> j \<le> 1 \<and> cards_in t = cards_in s - {Card 52}"
  using assms by (cases "Card 52 \<in> cards_in s") (simp_all add: extractJoker_set joker_card cs_ok_ops)

lemma same_suit_all: "same_suit s cs \<longleftrightarrow> (\<forall>c\<in>set cs. getSuit c = s)"
  by (induction cs) auto

lemma suit_gap:
  assumes "card_ok a" "card_ok b" "idx a < idx b" "idx b \<noteq> 52" "getSuit a = getSuit b"
  shows "4 \<le> card_compare b a"
proof -
  have small: "idx a < 52" "idx b < 52" using assms by (auto simp: card_ok_def getAllCount_def)
  have "(0x10 :: byte) * of_nat (idx a mod 4) = 0x10 * of_nat (idx b mod 4)"
    using getSuit_idx[OF assms(1)] getSuit_idx[OF assms(2)] assms(5) small by simp
  then have "unat ((0x10 :: byte) * of_nat (idx a mod 4)) = unat ((0x10 :: byte) * of_nat (idx b mod 4))" by (rule arg_cong)
  moreover have "unat ((0x10 :: byte) * of_nat m) = 16 * m" if "m < 4" for m
  proof -
    have "m \<in> {0, 1, 2, 3}" using that by auto
    then show ?thesis by auto
  qed
  ultimately have "idx a mod 4 = idx b mod 4" by simp
  then have "4 dvd idx b - idx a" using assms(3) by (metis mod_eq_dvd_iff_nat less_imp_le_nat)
  then have "4 \<le> idx b - idx a" using assms(3) by (auto dest: dvd_imp_le)
  then show ?thesis by (simp add: card_compare_def)
qed

lemma kaidan_false:
  assumes ok: "cs_ok s"
  shows "\<exists>v. kaidan s = Ok (False, v)"
proof (cases "set_size s < 3")
  case False
  obtain t j where t: "extractJoker s = Ok (j, t)" "cs_ok t" "j \<le> 1" "cards_in t = cards_in s - {Card 52}"
    using without_joker[OF ok] by blast
  define v where "v = sorted_list_of_set (cards_in t)"
  have v: "conv2Vector t = Ok v" "sort v = v" "sorted v" "distinct v" "set v = cards_in t"
    by (simp_all add: v_def conv2Vector_list[OF t(2)] finite_cards_in sorted_sort_id)
  have "3 \<le> card (cards_in s)" using False ok by (simp add: set_size_card)
  then have "2 \<le> card (cards_in t)" by (auto simp: t(4) card_Diff_singleton_if)
  then have "2 \<le> length v" using v by (metis distinct_card)
  then obtain a b w where w: "v = a # b # w" by (cases v; cases "tl v") auto
  have ab: "card_ok a" "card_ok b" "a < b" "b \<noteq> Card 52" using v cards_in_ok[OF t(2)] t(4) by (auto simp: w less_le)
  then have "idx a < idx b" "idx b \<noteq> 52" by (auto simp: less_card_def card_compare_def intro: card.expand)
  then have gap: "4 \<le> card_compare b a" if "getSuit b = getSuit a" using suit_gap[of a b] ab that by simp
  have "steps_loop j 0 v = False" if "getSuit b = getSuit a" using gap[OF that] t(3) by (simp add: w Let_def)
  then have "kaidan s = Ok (False, Some v)" using False t(1) v(1,2) by (auto simp: kaidan_def w same_suit_all)
  then show ?thesis by blast
qed (simp add: kaidan_def)

lemma canPutB_canPutA: "cs_ok s \<Longrightarrow> cs_ok t \<Longrightarrow> canPutB k s t = canPutA k s t"
  using kaidan_false[of s] kaidan_false[of t] by (auto simp: canPutB_def canPutA_verdict)

section \<open>What the players rely on\<close>

text \<open>
  A rule that settles every pair of well-formed sets: it returns, it lets a player pass, and a hand it accepts has one
  rank and beats the cards on the table.
\<close>

locale put_rule =
  fixes put :: "card_set \<Rightarrow> card_set \<Rightarrow> chk_result res" and legal :: "card set \<Rightarrow> card set \<Rightarrow> bool"
  assumes settles: "cs_ok s \<Longrightarrow> cs_ok t \<Longrightarrow> \<exists>r. put s t = Ok r \<and> (r = CHK_OK \<longleftrightarrow> legal (cards_in s) (cards_in t))"
    and pass: "legal {} B"
begin

lemma accepts: "cs_ok s \<Longrightarrow> cs_ok t \<Longrightarrow> put s t = Ok CHK_OK \<longleftrightarrow> legal (cards_in s) (cards_in t)"
  using settles[of s t] by auto

lemma refuses: "cs_ok s \<Longrightarrow> cs_ok t \<Longrightarrow> \<not> legal (cards_in s) (cards_in t) \<Longrightarrow> \<exists>r. put s t = Ok r \<and> r \<noteq> CHK_OK"
  using settles[of s t] by auto

lemma pass_accepted: "cs_ok t \<Longrightarrow> put 0 t = Ok CHK_OK"
  using accepts[of 0 t] by (simp add: cs_ok_ops pass)

end

definition legal_put :: "bool \<Rightarrow> card set \<Rightarrow> card set \<Rightarrow> bool" where
  "legal_put kakumei H B \<longleftrightarrow> H = {} \<or> same_rank H \<and> (B = {} \<or> card B = card H \<and> same_rank B \<and> stronger kakumei H B)"

lemma put_verdict_legal: "put_verdict k H B = CHK_OK \<longleftrightarrow> legal_put k H B"
  by (simp add: put_verdict_def legal_put_def)

interpretation rule: put_rule "canPut r" "legal_put (rule_kakumei r)" for r
  by unfold_locales
     (auto simp: canPut_def canPutA_verdict canPutB_canPutA put_verdict_legal legal_put_def split: rule_class.split)

section \<open>Properties\<close>

text \<open>
  C32. \<open>canPut\<close> answers, for every pair of well-formed sets, what the rules of the game say of the two sets of cards: a pass
  is allowed, the cards must be of one rank (the joker stands for any), as many as those on the table, and stronger in the
  present order of ranks. No exception and no null pointer occurs, and a class B rule answers as a class A rule does.
\<close>

theorem canPut_verdict:
  assumes "cs_ok s" "cs_ok t"
  shows "canPut r s t = Ok (put_verdict (rule_kakumei r) (cards_in s) (cards_in t))"
  using assms by (simp add: canPut_def canPutA_verdict canPutB_canPutA split: rule_class.split)

text \<open>Two threes and the joker against two fours and a five, and a pair of fives against a pair of fours.\<close>

theorem canPut_verdict_witness:
  "canPut \<lparr>rule_class = ClassB, rule_kakumei = False\<rparr> 0x300 0x30 = Ok (put_verdict False (cards_in 0x300) (cards_in 0x30)) \<and>
   canPut \<lparr>rule_class = ClassB, rule_kakumei = False\<rparr> 0x300 0x30 = Ok CHK_OK"
proof
  show "canPut \<lparr>rule_class = ClassB, rule_kakumei = False\<rparr> 0x300 0x30 = Ok (put_verdict False (cards_in 0x300) (cards_in 0x30))"
    using canPut_verdict[of "0x300" "0x30" "\<lparr>rule_class = ClassB, rule_kakumei = False\<rparr>"] by (simp add: cs_ok_def)
  show "canPut \<lparr>rule_class = ClassB, rule_kakumei = False\<rparr> 0x300 0x30 = Ok CHK_OK" by code_simp
qed

text \<open>
  C39. The class B rule was to accept sequences of one suit, but \<open>_isKaidan\<close> answers false for every set of cards, so that
  class B accepts exactly what class A does.
\<close>

theorem no_kaidan:
  assumes "cs_ok s" "cs_ok t"
  shows "isKaidan s = Ok False \<and> canPutB kakumei s t = canPutA kakumei s t"
  using kaidan_false[OF assms(1)] canPutB_canPutA[OF assms] by (auto simp: isKaidan_def)

text \<open>Three, four and five of clubs, on an empty table.\<close>

theorem no_kaidan_witness:
  "isKaidan 0x111 = Ok False \<and> canPutB False 0x111 0 = Ok ERR_DIFFERENT_NUM"
proof -
  have "canPutA False 0x111 0 = Ok ERR_DIFFERENT_NUM" by code_simp
  then show ?thesis using no_kaidan[of "0x111" 0 False] by (simp add: cs_ok_def)
qed

lemma rank_bits: "1 \<le> n \<Longrightarrow> n \<le> 13 \<Longrightarrow> bit (rank_mask n) i \<longleftrightarrow> i < 53 \<and> getNum (Card i) = n"
proof -
  assume n: "1 \<le> n" "n \<le> 13"
  define m where "m = nat n - 1"
  have t: "\<forall>m\<in>set [0..<13]. \<forall>i\<in>set [0..<64]. bit (rank_mask (1 + int m)) i \<longleftrightarrow> i < 53 \<and> getNum (Card i) = 1 + int m"
    by code_simp
  have "n = 1 + int m" "m < 13" using n by (simp_all add: m_def)
  then show ?thesis using t card_set_bit[of "rank_mask n" i] by (cases "i < 64") auto
qed

lemma hasNumOf_set:
  assumes "cs_ok s" "1 \<le> n" "n \<le> 13"
  shows "fst (hasNumOf s n) \<longleftrightarrow> (\<exists>c\<in>cards_in s. getNum c = n)" "cards_in (snd (hasNumOf s n)) = {c \<in> cards_in s. getNum c = n}"
proof -
  show "cards_in (snd (hasNumOf s n)) = {c \<in> cards_in s. getNum c = n}"
    by (auto simp: hasNumOf_def Let_def cards_in_def bit_and_iff rank_bits assms dest: cs_ok_bitD[OF assms(1)])
  then show "fst (hasNumOf s n) \<longleftrightarrow> (\<exists>c\<in>cards_in s. getNum c = n)"
    using set_empty_iff[of "snd (hasNumOf s n)"] by (auto simp: hasNumOf_def Let_def set_empty_def)
qed

text \<open>
  \<open>canAgari\<close>: in class A every hand may be the last one; in class B not the joker alone, and no hand with a two, or with
  a three while the order of the ranks is reversed.
\<close>

theorem canAgari_verdict:
  assumes "cs_ok s"
  shows "canAgari r s = Ok (if rule_class r = ClassA then CHK_OK
     else if \<forall>c\<in>cards_in s. isJoker c then ERR_JOKER_AGARI
     else if \<exists>c\<in>cards_in s. getNum c = (if rule_kakumei r then 3 else 2) then ERR_2_AGARI else CHK_OK)"
proof -
  obtain t j where t: "extractJoker s = Ok (j, t)" "cs_ok t" "cards_in t = cards_in s - {Card 52}"
    using without_joker[OF assms] by blast
  have "isJoker c \<longleftrightarrow> c = Card 52" if "c \<in> cards_in s" for c
    using joker_unique[OF assms that] isJoker_idx[OF joker_card(2)] by auto
  then have "set_empty t \<longleftrightarrow> (\<forall>c\<in>cards_in s. isJoker c)" unfolding set_empty_iff t(3) by blast
  moreover have "getNum (Card 52) = 0" by (simp add: getNum_idx joker_card)
  then have "fst (hasNumOf t n) \<longleftrightarrow> (\<exists>c\<in>cards_in s. getNum c = n)" if "n = 2 \<or> n = 3" for n
    using that hasNumOf_set(1)[OF t(2), of n] unfolding t(3) by force
  ultimately show ?thesis
    by (cases "rule_class r"; cases "rule_kakumei r") (simp_all add: canAgari_def canAgariA_def canAgariB_def t(1))
qed

text \<open>The two of spades alone, in the class B game and after a revolution.\<close>

theorem canAgari_verdict_witness:
  "canAgari \<lparr>rule_class = ClassB, rule_kakumei = False\<rparr> 0x8000000000000 = Ok ERR_2_AGARI \<and>
   canAgari \<lparr>rule_class = ClassB, rule_kakumei = True\<rparr> 0x8000000000000 = Ok CHK_OK"
proof -
  have ok: "cs_ok 0x8000000000000" and ids: "ids 53 0x8000000000000 = [51]" and two: "getNum (Card 51) = 2" "\<not> isJoker (Card 51)"
    by code_simp+
  have "cards_in 0x8000000000000 = {Card 51}" by (simp add: cards_in_ids[OF ok] ids)
  then show ?thesis
    using canAgari_verdict[OF ok, of "\<lparr>rule_class = ClassB, rule_kakumei = False\<rparr>"]
      canAgari_verdict[OF ok, of "\<lparr>rule_class = ClassB, rule_kakumei = True\<rparr>"]
    by (simp add: two)
qed

end
