(* ===== verification/Poor_Player.thy ===== *)
theory Poor_Player
  imports Daifugo_Rule
begin

text \<open>
  \<^verbatim>\<open>jni/neof5/DaifugoContext.cpp\<close>, \<^verbatim>\<open>PlayerInfo.cpp\<close> and \<^verbatim>\<open>PoorPlayer.cpp\<close>: the state of the game a player is told, and the player that
  puts the weakest run of neighbouring cards the rule accepts.
\<close>

section \<open>The game as a player sees it\<close>

record player_info =
  playerName :: "byte list"
  havingCardCount :: int
  orderOfFinish :: int

record daifugo_context =
  deck :: card_set
  teban :: int
  ba :: "card_set list"
  yama :: card_set
  ctxKakumei :: bool
  playerInfo :: "player_info list"

text \<open>\<open>c_str()\<close> of a string, for a reader that stops at the first NUL, is \<open>cstr\<close>.\<close>

fun parse_ba :: "byte list list \<Rightarrow> card_set list res" where
  "parse_ba [] = Ok []"
| "parse_ba (s # ss) = bind_res (cardset_of_string (cstr s) 0) (\<lambda>b. bind_res (parse_ba ss) (\<lambda>bs. Ok (b # bs)))"

definition mk_context :: "byte list \<Rightarrow> int \<Rightarrow> byte list list \<Rightarrow> byte list \<Rightarrow> bool \<Rightarrow> player_info list \<Rightarrow> daifugo_context res" where
  "mk_context d t b y k ps =
    bind_res (cardset_of_string (cstr d) 0) (\<lambda>d'. bind_res (cardset_of_string (cstr y) 0) (\<lambda>y'. bind_res (parse_ba b) (\<lambda>b'.
      Ok \<lparr>deck = d', teban = t, ba = b', yama = y', ctxKakumei = k, playerInfo = ps\<rparr>)))"

fun getNumOfAvailablePlayers :: "player_info list \<Rightarrow> nat" where
  "getNumOfAvailablePlayers [] = 0"
| "getNumOfAvailablePlayers (p # ps) = (if havingCardCount p > 0 then 1 else 0) + getNumOfAvailablePlayers ps"

definition ba_last :: "daifugo_context \<Rightarrow> card_set" where
  "ba_last ctx = (if ba ctx = [] then 0 else last (ba ctx))"

section \<open>The poor player\<close>

text \<open>The inner loop: the cards at the positions \<open>j\<close> up to \<open>i + n\<close>; \<open>tefuda[j]\<close> is not checked.\<close>

fun window :: "card list \<Rightarrow> nat list \<Rightarrow> card_set \<Rightarrow> card_set res" where
  "window tefuda [] cards = Ok cards"
| "window tefuda (j # js) cards = (if j < length tefuda then window tefuda js (add_card cards (tefuda ! j)) else Undef)"

text \<open>The outer loop, from \<open>i\<close> on; \<open>limit\<close> is the unsigned value of \<open>tefuda.size() - (n - 1)\<close>.\<close>

function poor_loop :: "daifugo_rule \<Rightarrow> card list \<Rightarrow> nat \<Rightarrow> card_set \<Rightarrow> nat \<Rightarrow> nat \<Rightarrow> card_set res" where
  "poor_loop r tefuda n bl limit i =
    (if i < limit then bind_res (window tefuda [i..<i + n] 0) (\<lambda>cards. bind_res (canPut r cards bl) (\<lambda>chk.
       if chk = CHK_OK then Ok cards else poor_loop r tefuda n bl limit (i + 1)))
     else Ok 0)"
  by pat_completeness auto

termination
  by (relation "measure (\<lambda>(r, tefuda, n, bl, limit, i). limit - i)") auto

declare poor_loop.simps [simp del]

definition size_t_sub :: "nat \<Rightarrow> int \<Rightarrow> nat" where
  "size_t_sub a b = nat ((int a - b) mod 2 ^ 64)"

text \<open>\<open>PoorPlayer::think\<close>; the flag of the rule is set before every use of it.\<close>

definition poor_think :: "daifugo_rule \<Rightarrow> daifugo_context \<Rightarrow> card_set res" where
  "poor_think r ctx = bind_res (conv2Vector (deck ctx)) (\<lambda>v.
    let tefuda = (if ctxKakumei ctx then rev (sort v) else sort v);
        n = (if ba ctx \<noteq> [] then set_size (last (ba ctx)) else 1)
    in poor_loop (setKakumei (ctxKakumei ctx) r) tefuda n (ba_last ctx) (size_t_sub (length tefuda) (int n - 1)) 0)"

section \<open>What it plays\<close>

definition ctx_ok :: "daifugo_context \<Rightarrow> bool" where
  "ctx_ok ctx \<longleftrightarrow> cs_ok (deck ctx) \<and> list_all cs_ok (ba ctx) \<and> cs_ok (yama ctx)"

lemma ba_last_ok: "ctx_ok ctx \<Longrightarrow> cs_ok (ba_last ctx)"
  by (auto simp: ctx_ok_def ba_last_def cs_ok_ops list_all_iff)

lemma window_cards:
  "list_all (\<lambda>j. j < length t) js \<Longrightarrow> window t js cards = Ok (foldl add_card cards (map (nth t) js))"
  by (induction js arbitrary: cards) simp_all

lemma window_overrun: "\<not> list_all (\<lambda>j. j < length t) js \<Longrightarrow> window t js cards = Undef"
  by (induction js arbitrary: cards) auto

lemma window_in:
  assumes "list_all card_ok t" "i + n \<le> length t"
  shows "\<exists>h. window t [i..<i + n] 0 = Ok h \<and> cs_ok h \<and> cards_in h = (nth t) ` {i..<i + n}"
proof -
  have "list_all card_ok (map (nth t) [i..<i + n])" using assms by (simp add: list_all_iff)
  moreover have "list_all (\<lambda>j. j < length t) [i..<i + n]" using assms(2) by (simp add: list_all_iff)
  ultimately show ?thesis using collect_cards[of "map (nth t) [i..<i + n]"] by (simp add: window_cards)
qed

text \<open>The cards at the \<open>n\<close> positions from \<open>j\<close> on, and the first such run that passes a test.\<close>

definition card_run :: "card list \<Rightarrow> nat \<Rightarrow> nat \<Rightarrow> card set" where
  "card_run t n j = (nth t) ` {j..<j + n}"

definition first_run :: "(card set \<Rightarrow> bool) \<Rightarrow> card list \<Rightarrow> nat \<Rightarrow> nat list \<Rightarrow> card set" where
  "first_run P t n js = (case List.find (\<lambda>j. P (card_run t n j)) js of None \<Rightarrow> {} | Some j \<Rightarrow> card_run t n j)"

lemma first_run_Cons: "first_run P t n (j # js) = (if P (card_run t n j) then card_run t n j else first_run P t n js)"
  by (simp add: first_run_def)

lemma first_run_holds: "P {} \<Longrightarrow> P (first_run P t n js)"
  by (auto simp: first_run_def find_Some_iff split: option.split)

lemma first_run_subset: "list_all (\<lambda>j. j + n \<le> length t) js \<Longrightarrow> first_run P t n js \<subseteq> set t"
  by (auto simp: first_run_def card_run_def find_Some_iff list_all_length split: option.split)

lemma poor_loop_first:
  assumes t: "list_all card_ok t" and bl: "cs_ok bl" and lim: "limit + n \<le> length t + 1" and i: "i \<le> limit"
  shows "\<exists>h. poor_loop r t n bl limit i = Ok h \<and> cs_ok h \<and>
     cards_in h = first_run (\<lambda>H. legal_put (rule_kakumei r) H (cards_in bl)) t n [i..<limit]"
  using i
proof (induction "limit - i" arbitrary: i)
  case 0
  then show ?case by (subst poor_loop.simps) (simp add: cs_ok_ops first_run_def)
next
  case (Suc d)
  then have i: "i < limit" "i + n \<le> length t" using lim by simp_all
  obtain h where h: "window t [i..<i + n] 0 = Ok h" "cs_ok h" "cards_in h = card_run t n i"
    using window_in[OF t i(2)] unfolding card_run_def by blast
  have js: "[i..<limit] = i # [i + 1..<limit]" using i(1) by (simp add: upt_conv_Cons)
  show ?case
  proof (cases "legal_put (rule_kakumei r) (cards_in h) (cards_in bl)")
    case True
    then have "canPut r h bl = Ok CHK_OK" using rule.accepts[OF h(2) bl] by simp
    then have "poor_loop r t n bl limit i = Ok h" by (subst poor_loop.simps) (simp add: i(1) h(1))
    then show ?thesis using True h(2,3) by (auto simp: js first_run_Cons)
  next
    case False
    obtain e where e: "canPut r h bl = Ok e" "e \<noteq> CHK_OK" using rule.refuses[OF h(2) bl False] by blast
    have "poor_loop r t n bl limit i = poor_loop r t n bl limit (i + 1)"
      by (subst poor_loop.simps) (simp add: i(1) h(1) e)
    moreover have "d = limit - (i + 1)" "i + 1 \<le> limit" using Suc.hyps(2) i(1) by simp_all
    ultimately show ?thesis using Suc.hyps(1)[of "i + 1"] False h(3) by (simp add: js first_run_Cons)
  qed
qed

lemma size_t_sub_fits: "int n \<le> int a + 1 \<Longrightarrow> a \<le> 53 \<Longrightarrow> size_t_sub a (int n - 1) = a + 1 - n"
  by (simp add: size_t_sub_def nat_diff_distrib' of_nat_diff)

lemma size_t_sub_wraps: "a + 1 < n \<Longrightarrow> n \<le> 53 \<Longrightarrow> 0 < size_t_sub a (int n - 1)"
proof -
  assume a: "a + 1 < n" "n \<le> 53"
  have "(int a - (int n - 1)) mod 2 ^ 64 = (int a - (int n - 1) + 2 ^ 64) mod 2 ^ 64" by (simp only: mod_add_self2)
  also have "\<dots> = int a - (int n - 1) + 2 ^ 64" by (rule mod_pos_pos_trivial) (use a in simp_all)
  finally show ?thesis using a by (simp add: size_t_sub_def)
qed

lemma cs_ok_size: "cs_ok s \<Longrightarrow> set_size s \<le> 53"
proof -
  have "length (ids 53 s) \<le> length [0..<53]" unfolding ids_def by (rule length_filter_le)
  then show ?thesis by (simp add: set_size_ids)
qed

text \<open>The hand as the player lays it out, weakest card first.\<close>

definition tefuda :: "daifugo_context \<Rightarrow> card list" where
  "tefuda ctx = (let v = sorted_list_of_set (cards_in (deck ctx)) in if ctxKakumei ctx then rev v else v)"

lemma tefuda_ok:
  assumes "ctx_ok ctx"
  shows "set (tefuda ctx) = cards_in (deck ctx)" "distinct (tefuda ctx)" "list_all card_ok (tefuda ctx)"
    "length (tefuda ctx) = set_size (deck ctx)"
  using assms by (auto simp: tefuda_def Let_def finite_cards_in list_all_iff ctx_ok_def set_size_card intro: cards_in_ok)

lemma poor_think_loop:
  assumes "ctx_ok ctx"
  shows "poor_think r ctx = poor_loop (setKakumei (ctxKakumei ctx) r) (tefuda ctx) (if ba ctx \<noteq> [] then set_size (last (ba ctx)) else 1)
     (ba_last ctx) (size_t_sub (set_size (deck ctx)) (int (if ba ctx \<noteq> [] then set_size (last (ba ctx)) else 1) - 1)) 0"
proof -
  have "conv2Vector (deck ctx) = Ok (sorted_list_of_set (cards_in (deck ctx)))" using assms by (simp add: ctx_ok_def conv2Vector_list)
  moreover have "set_size (deck ctx) = card (cards_in (deck ctx))" using assms by (simp add: ctx_ok_def set_size_card)
  ultimately show ?thesis by (simp add: poor_think_def tefuda_def Let_def sorted_sort_id)
qed

text \<open>
  How many cards it puts, and the cards themselves: those of the first run of so many neighbours in the hand that is legal, and none when no run is.
\<close>

definition wanted :: "daifugo_context \<Rightarrow> nat" where
  "wanted ctx = (if ba ctx \<noteq> [] then set_size (last (ba ctx)) else 1)"

definition weakest_run :: "daifugo_context \<Rightarrow> card set" where
  "weakest_run ctx = first_run (\<lambda>H. legal_put (ctxKakumei ctx) H (cards_in (ba_last ctx))) (tefuda ctx) (wanted ctx)
     [0..<length (tefuda ctx) + 1 - wanted ctx]"

lemma poor_think_run:
  assumes ok: "ctx_ok ctx" and fits: "wanted ctx \<le> set_size (deck ctx) + 1"
  shows "\<exists>h. poor_think r ctx = Ok h \<and> cs_ok h \<and> cards_in h = weakest_run ctx"
proof -
  let ?t = "tefuda ctx" and ?r = "setKakumei (ctxKakumei ctx) r" and ?n = "wanted ctx"
  have n: "?n \<le> length ?t + 1" using fits tefuda_ok(4)[OF ok] by simp
  have "size_t_sub (set_size (deck ctx)) (int ?n - 1) = length ?t + 1 - ?n"
    unfolding tefuda_ok(4)[OF ok] by (rule size_t_sub_fits) (use n ok tefuda_ok(4)[OF ok] in \<open>simp_all add: ctx_ok_def cs_ok_size\<close>)
  then have "poor_think r ctx = poor_loop ?r ?t ?n (ba_last ctx) (length ?t + 1 - ?n) 0"
    using poor_think_loop[OF ok, of r] by (simp add: wanted_def)
  moreover have "rule_kakumei ?r = ctxKakumei ctx" by (simp add: setKakumei_def)
  ultimately show ?thesis
    using poor_loop_first[OF tefuda_ok(3)[OF ok] ba_last_ok[OF ok], of "length ?t + 1 - ?n" ?n 0 ?r] n by (simp add: weakest_run_def)
qed

lemma weakest_run_legal:
  assumes "ctx_ok ctx"
  shows "weakest_run ctx \<subseteq> cards_in (deck ctx)" "legal_put (ctxKakumei ctx) (weakest_run ctx) (cards_in (ba_last ctx))"
proof -
  show "weakest_run ctx \<subseteq> cards_in (deck ctx)" unfolding weakest_run_def tefuda_ok(1)[OF assms, symmetric]
    by (rule first_run_subset) (auto simp: list_all_iff)
  show "legal_put (ctxKakumei ctx) (weakest_run ctx) (cards_in (ba_last ctx))" unfolding weakest_run_def
    by (rule first_run_holds) (simp add: legal_put_def)
qed

lemma poor_think_overruns:
  assumes ok: "ctx_ok ctx" and few: "set_size (deck ctx) + 1 < wanted ctx"
  shows "poor_think r ctx = Undef"
proof -
  have ba: "ba ctx \<noteq> []" "set_size (deck ctx) + 1 < set_size (last (ba ctx))" using few by (auto simp: wanted_def split: if_splits)
  then have "set_size (last (ba ctx)) \<le> 53" using ok by (auto simp: ctx_ok_def list_all_iff intro: cs_ok_size)
  then have "0 < size_t_sub (set_size (deck ctx)) (int (set_size (last (ba ctx))) - 1)" by (rule size_t_sub_wraps[OF ba(2)])
  moreover have "\<not> list_all (\<lambda>j. j < length (tefuda ctx)) [0..<0 + set_size (last (ba ctx))]"
    using ba(2) tefuda_ok(4)[OF ok] by (auto simp: list_all_iff)
  ultimately show ?thesis using ba(1) unfolding poor_think_loop[OF ok]
    by (subst poor_loop.simps) (simp add: window_overrun)
qed

section \<open>Properties\<close>

definition sample_ctx :: "card_set \<Rightarrow> card_set list \<Rightarrow> daifugo_context" where
  "sample_ctx d b = \<lparr>deck = d, teban = 0, ba = b, yama = 0, ctxKakumei = False, playerInfo = []\<rparr>"



text \<open>
  Neighbours only: in a revolution a three, a two and the joker against a pair of fives is a pass, although the three and the joker would be
  a legal pair.
\<close>

lemma poor_passes_needlessly:
  "let ctx = (sample_ctx (2 ^ 52 + 2 ^ 48 + 1) [0x300])\<lparr>ctxKakumei := True\<rparr>
   in poor_think \<lparr>rule_class = ClassA, rule_kakumei = False\<rparr> ctx = Ok 0 \<and> canPut \<lparr>rule_class = ClassA, rule_kakumei = True\<rparr> (2 ^ 52 + 1) 0x300 = Ok CHK_OK"
  by code_simp

end
