(* ===== verification/Sage_Hands.thy ===== *)
theory Sage_Hands
  imports Poor_Player
begin

text \<open>
  The first half of \<^verbatim>\<open>jni/neof5/SagePlayer.cpp\<close>: \<open>_genAllCombination\<close> and \<open>_enumrateAvairableHands\<close>, which list the hands a player can put.
\<close>

section \<open>The enumeration\<close>

text \<open>
  The loop of \<open>_genAllCombination\<close> over the cards that are left, the recursive call given as \<open>rec\<close>. \<open>buff\<close> is the set of
  hands found so far.
\<close>

fun gen_loop :: "(card_set \<Rightarrow> card_set \<Rightarrow> card_set set \<Rightarrow> card_set set res) \<Rightarrow> daifugo_rule \<Rightarrow> card_set \<Rightarrow> card_set \<Rightarrow> card_set \<Rightarrow>
    card list \<Rightarrow> card_set set \<Rightarrow> card_set set res" where
  "gen_loop rec r bl baseHand d [] buff = Ok buff"
| "gen_loop rec r bl baseHand d (c # cs) buff =
    (let hand = add_card baseHand c in
     if hand \<in> buff then gen_loop rec r bl baseHand d cs buff
     else bind_res (canPut r hand bl) (\<lambda>chk.
       if chk \<noteq> CHK_OK \<and> set_size baseHand \<ge> 2 then gen_loop rec r bl baseHand d cs buff
       else bind_res (rec hand (del_card d c) (if chk = CHK_OK then insert hand buff else buff))
              (gen_loop rec r bl baseHand d cs)))"

text \<open>The recursion; the depth bound counts the calls still allowed, and running out of it is \<open>Undef\<close>.\<close>

primrec genAllCombination :: "nat \<Rightarrow> daifugo_rule \<Rightarrow> card_set \<Rightarrow> card_set \<Rightarrow> card_set \<Rightarrow> card_set set \<Rightarrow> card_set set res" where
  "genAllCombination 0 r bl baseHand d buff = Undef"
| "genAllCombination (Suc depth) r bl baseHand d buff = bind_res (conv2Vector d) (\<lambda>tmp.
     gen_loop (genAllCombination depth r bl) r bl baseHand d (rev tmp) buff)"

definition enumrateAvairableHands :: "daifugo_rule \<Rightarrow> card_set \<Rightarrow> card_set \<Rightarrow> bool \<Rightarrow> card_set set res" where
  "enumrateAvairableHands r tefda bl kakumei = genAllCombination (set_size tefda + 1) (setKakumei kakumei r) bl 0 tefda {}"

section \<open>The hands it finds\<close>

text \<open>The accepted hands that are larger than \<open>h\<close>.\<close>

definition above :: "(card set \<Rightarrow> bool) \<Rightarrow> card set \<Rightarrow> card_set \<Rightarrow> card_set set" where
  "above ok T h = {g. cs_ok g \<and> cards_in h \<subset> cards_in g \<and> cards_in g \<subseteq> T \<and> ok (cards_in g)}"

text \<open>Every hand found is either below the one at work or has been searched to the end.\<close>

definition searched :: "(card set \<Rightarrow> bool) \<Rightarrow> card set \<Rightarrow> card_set \<Rightarrow> card_set set \<Rightarrow> bool" where
  "searched ok T h buff \<longleftrightarrow> (\<forall>f\<in>buff. cards_in f \<subseteq> cards_in h \<or> above ok T f \<subseteq> buff)"

text \<open>The cards on the table leave the search complete: from a part of an accepted hand it goes on.\<close>

definition goes_on :: "daifugo_rule \<Rightarrow> card_set \<Rightarrow> bool" where
  "goes_on r bl \<longleftrightarrow> (\<forall>F G. F \<noteq> {} \<and> F \<subset> G \<and> G \<subseteq> {c. card_ok c} \<and> legal_put (rule_kakumei r) G (cards_in bl) \<longrightarrow>
     legal_put (rule_kakumei r) F (cards_in bl) \<or> card F \<le> 2)"

abbreviation ok_put :: "daifugo_rule \<Rightarrow> card_set \<Rightarrow> card set \<Rightarrow> bool" where
  "ok_put r bl G \<equiv> legal_put (rule_kakumei r) G (cards_in bl)"

text \<open>What a run of the search from \<open>h\<close> that tries the cards of \<open>C\<close> promises of the hands it adds.\<close>

definition gen_part :: "daifugo_rule \<Rightarrow> card_set \<Rightarrow> card set \<Rightarrow> card_set \<Rightarrow> card set \<Rightarrow> card_set set \<Rightarrow> card_set set \<Rightarrow> bool" where
  "gen_part r bl T h C buff buff' \<longleftrightarrow>
    buff \<subseteq> buff' \<and> buff' - buff \<subseteq> above (ok_put r bl) T h \<and>
    (goes_on r bl \<and> searched (ok_put r bl) T h buff \<longrightarrow>
       searched (ok_put r bl) T h buff' \<and> (\<forall>g\<in>above (ok_put r bl) T h. cards_in g \<inter> C \<noteq> {} \<longrightarrow> g \<in> buff'))"

definition splits :: "card set \<Rightarrow> card_set \<Rightarrow> card_set \<Rightarrow> bool" where
  "splits T h d \<longleftrightarrow> cs_ok h \<and> cs_ok d \<and> cards_in h \<inter> cards_in d = {} \<and> cards_in h \<union> cards_in d = T"

lemma gen_part_refl: "gen_part r bl T h {} buff buff"
  by (simp add: gen_part_def)

lemma gen_part_trans:
  assumes "gen_part r bl T h C buff b1" "gen_part r bl T h D b1 b2"
  shows "gen_part r bl T h (C \<union> D) buff b2"
proof -
  have "buff \<subseteq> b2" "b2 - buff \<subseteq> above (ok_put r bl) T h" "b1 \<subseteq> b2" using assms by (auto simp: gen_part_def)
  moreover have "goes_on r bl \<and> searched (ok_put r bl) T h buff \<longrightarrow>
       searched (ok_put r bl) T h b2 \<and> (\<forall>g\<in>above (ok_put r bl) T h. cards_in g \<inter> (C \<union> D) \<noteq> {} \<longrightarrow> g \<in> b2)"
    using assms \<open>b1 \<subseteq> b2\<close> unfolding gen_part_def Int_Un_distrib by blast
  ultimately show ?thesis by (simp add: gen_part_def)
qed

lemma splits_step:
  assumes "splits T h d" "c \<in> cards_in d"
  shows "splits T (add_card h c) (del_card d c)" "cards_in (add_card h c) = insert c (cards_in h)" "c \<notin> cards_in h" "c \<in> T"
    "card (cards_in (del_card d c)) < card (cards_in d)"
proof -
  have c: "card_ok c" using assms cards_in_ok by (auto simp: splits_def)
  show "cards_in (add_card h c) = insert c (cards_in h)" "c \<notin> cards_in h" "c \<in> T" using assms c by (auto simp: splits_def)
  show "splits T (add_card h c) (del_card d c)" using assms c by (auto simp: splits_def cs_ok_ops)
  show "card (cards_in (del_card d c)) < card (cards_in d)" unfolding cards_in_ops(3)[OF c] by (rule card_Diff1_less[OF finite_cards_in assms(2)])
qed

text \<open>A larger hand with the card \<open>c\<close> is the hand with \<open>c\<close> or larger than that.\<close>

lemma above_step:
  assumes "g \<in> above ok T h" "c \<in> cards_in g" "cards_in h' = insert c (cards_in h)"
  shows "g = h' \<or> g \<in> above ok T h'"
proof (cases "cards_in g = cards_in h'")
  case True then show ?thesis by (simp add: cards_in_inject)
next
  case False then show ?thesis using assms by (auto simp: above_def)
qed

lemma above_up: "cards_in h' = insert c (cards_in h) \<Longrightarrow> c \<notin> cards_in h \<Longrightarrow> above ok T h' \<subseteq> above ok T h"
  by (auto simp: above_def)

lemma visit_found:
  assumes "splits T h d" "c \<in> cards_in d" "add_card h c \<in> buff"
  shows "gen_part r bl T h {c} buff buff"
proof -
  note h' = splits_step(2,3)[OF assms(1,2)]
  have "g \<in> buff" if "searched (ok_put r bl) T h buff" "g \<in> above (ok_put r bl) T h" "c \<in> cards_in g" for g
  proof -
    have "above (ok_put r bl) T (add_card h c) \<subseteq> buff" using that(1) assms(3) h' unfolding searched_def by blast
    then show ?thesis using above_step[OF that(2,3) h'(1)] assms(3) by blast
  qed
  then show ?thesis unfolding gen_part_def by blast
qed

lemma visit_refused:
  assumes "splits T h d" "c \<in> cards_in d" "\<not> ok_put r bl (cards_in (add_card h c))" "2 \<le> card (cards_in h)"
  shows "gen_part r bl T h {c} buff buff"
proof -
  note h' = splits_step(2,3)[OF assms(1,2)]
  have "card (cards_in (add_card h c)) = Suc (card (cards_in h))" using h' by (simp add: finite_cards_in)
  then have three: "\<not> card (cards_in (add_card h c)) \<le> 2" using assms(4) by simp
  have "False" if "goes_on r bl" "g \<in> above (ok_put r bl) T h" "c \<in> cards_in g" for g
  proof -
    have g: "g \<in> above (ok_put r bl) T (add_card h c)" using above_step[OF that(2,3) h'(1)] assms(3) that(2) by (auto simp: above_def)
    then have "cards_in g \<subseteq> {c. card_ok c}" using cards_in_ok by (auto simp: above_def)
    moreover have "cards_in (add_card h c) \<noteq> {}" using h'(1) by simp
    ultimately show False using that(1) three assms(3) g unfolding goes_on_def above_def by blast
  qed
  then show ?thesis unfolding gen_part_def by blast
qed

lemma visit_inside:
  assumes "splits T h d" "c \<in> cards_in d"
    and b0: "b0 = (if ok_put r bl (cards_in (add_card h c)) then insert (add_card h c) buff else buff)"
    and sub: "gen_part r bl T (add_card h c) (cards_in (del_card d c)) b0 b1"
  shows "gen_part r bl T h {c} buff b1"
proof -
  let ?h = "add_card h c" and ?A = "above (ok_put r bl) T"
  note h' = splits_step[OF assms(1,2)]
  have T: "cards_in ?h \<subseteq> T" "cs_ok ?h" using h'(1) by (auto simp: splits_def)
  have mono: "buff \<subseteq> b0" "b0 \<subseteq> b1" "b0 \<subseteq> insert ?h buff" "b1 - b0 \<subseteq> ?A ?h" using sub by (auto simp: gen_part_def b0)
  have own: "?h \<in> ?A h" if "ok_put r bl (cards_in ?h)" using that T h'(2,3) by (auto simp: above_def)
  have "b0 - buff \<subseteq> ?A h" using own by (auto simp: b0)
  then have sound: "b1 - buff \<subseteq> ?A h" using mono(4) above_up[OF h'(2,3)] by blast
  have "searched (ok_put r bl) T h b1 \<and> (\<forall>g\<in>?A h. cards_in g \<inter> {c} \<noteq> {} \<longrightarrow> g \<in> b1)"
    if go: "goes_on r bl" "searched (ok_put r bl) T h buff"
  proof
    have "cards_in f \<subseteq> cards_in ?h \<or> ?A f \<subseteq> b0" if "f \<in> b0" for f
      using go(2) that mono(1,3) h'(2) unfolding searched_def by blast
    then have "searched (ok_put r bl) T ?h b0" by (simp add: searched_def)
    then have all: "\<forall>g\<in>?A ?h. cards_in g \<inter> cards_in (del_card d c) \<noteq> {} \<longrightarrow> g \<in> b1" and s: "searched (ok_put r bl) T ?h b1"
      using sub go(1) by (simp_all add: gen_part_def)
    have "cards_in g \<inter> cards_in (del_card d c) \<noteq> {}" if "g \<in> ?A ?h" for g
      using that h'(1) unfolding above_def splits_def by blast
    then have full: "?A ?h \<subseteq> b1" using all by blast
    have "g \<in> b1" if g: "g \<in> ?A h" "c \<in> cards_in g" for g
    proof (cases "g = ?h")
      case True
      then have "ok_put r bl (cards_in ?h)" using g(1) by (simp add: above_def)
      then show ?thesis using True mono(2) by (auto simp: b0)
    next
      case False then show ?thesis using above_step[OF g h'(2)] full by blast
    qed
    then show "\<forall>g\<in>?A h. cards_in g \<inter> {c} \<noteq> {} \<longrightarrow> g \<in> b1" by blast
    have "cards_in f \<subseteq> cards_in h \<or> ?A f \<subseteq> b1" if f: "f \<in> b1" for f
    proof (cases "f \<in> buff")
      case True then show ?thesis using go(2) mono unfolding searched_def by blast
    next
      case False
      then have "f = ?h \<or> f \<in> ?A ?h" using mono f by blast
      then show ?thesis using full s f unfolding searched_def above_def by blast
    qed
    then show "searched (ok_put r bl) T h b1" by (simp add: searched_def)
  qed
  then show ?thesis using sound mono unfolding gen_part_def by blast
qed

lemma gen_loop_part:
  assumes rec: "\<And>h d buff. splits T h d \<Longrightarrow> card (cards_in d) < depth \<Longrightarrow>
      \<exists>buff'. rec h d buff = Ok buff' \<and> gen_part r bl T h (cards_in d) buff buff'"
    and bl: "cs_ok bl" and h: "splits T h d" "card (cards_in d) < Suc depth" and cs: "set cs \<subseteq> cards_in d"
  shows "\<exists>buff'. gen_loop rec r bl h d cs buff = Ok buff' \<and> gen_part r bl T h (set cs) buff buff'"
  using cs
proof (induction cs arbitrary: buff)
  case Nil then show ?case by (simp add: gen_part_refl)
next
  case (Cons c cs)
  then have c: "c \<in> cards_in d" by simp
  note step = splits_step[OF h(1) c]
  let ?h = "add_card h c"
  have rest: "\<exists>buff'. gen_loop rec r bl h d cs b = Ok buff' \<and> gen_part r bl T h (set cs) b buff'" for b
    using Cons by simp
  have onwards: "\<exists>buff'. gen_loop rec r bl h d cs b = Ok buff' \<and> gen_part r bl T h (set (c # cs)) buff buff'"
    if "gen_part r bl T h {c} buff b" for b
    using rest[of b] gen_part_trans[OF that] by (metis insert_is_Un list.simps(15))
  have hand: "cs_ok ?h" "set_size h = card (cards_in h)" using step(1) h(1) by (simp_all add: splits_def set_size_card)
  obtain chk where chk: "canPut r ?h bl = Ok chk" "chk = CHK_OK \<longleftrightarrow> ok_put r bl (cards_in ?h)"
    using rule.settles[OF hand(1) bl] by blast
  consider "?h \<in> buff" | "?h \<notin> buff" "chk \<noteq> CHK_OK" "2 \<le> set_size h" | "?h \<notin> buff" "\<not> (chk \<noteq> CHK_OK \<and> 2 \<le> set_size h)" by blast
  then show ?case
  proof cases
    case 1
    then show ?thesis using onwards[OF visit_found[OF h(1) c]] by (simp add: Let_def)
  next
    case 2
    then have "gen_part r bl T h {c} buff buff" using visit_refused[OF h(1) c] chk(2) hand(2) by simp
    from onwards[OF this] show ?thesis using 2 by (simp add: Let_def chk(1))
  next
    case 3
    let ?b0 = "if chk = CHK_OK then insert ?h buff else buff"
    have "card (cards_in (del_card d c)) < depth" using step(5) h(2) by simp
    then obtain b1 where b1: "rec ?h (del_card d c) ?b0 = Ok b1" "gen_part r bl T ?h (cards_in (del_card d c)) ?b0 b1"
      using rec[OF step(1)] by blast
    have "gen_part r bl T h {c} buff b1" by (rule visit_inside[OF h(1) c _ b1(2)]) (simp add: chk(2))
    from onwards[OF this] show ?thesis using 3 b1(1) by (auto simp: Let_def chk(1))
  qed
qed

lemma gen_part_ok:
  assumes "cs_ok bl"
  shows "splits T h d \<Longrightarrow> card (cards_in d) < depth \<Longrightarrow>
    \<exists>buff'. genAllCombination depth r bl h d buff = Ok buff' \<and> gen_part r bl T h (cards_in d) buff buff'"
proof (induction depth arbitrary: h d buff)
  case (Suc depth)
  have ok: "cs_ok d" using Suc.prems by (simp add: splits_def)
  show ?case using gen_loop_part[OF Suc.IH assms Suc.prems, of "rev (sorted_list_of_set (cards_in d))" buff]
    by (simp add: conv2Vector_list[OF ok] finite_cards_in)
qed simp

lemma same_rank_subset:
  assumes "same_rank G" "F \<subseteq> G" "G \<subseteq> {c. card_ok c}"
  shows "same_rank F"
proof (cases "F \<subseteq> {c. isJoker c}")
  case True
  then have "idx c = 52" if "c \<in> F" for c using that assms(2,3) isJoker_idx[of c] by blast
  then have "c = d" if "c \<in> F" "d \<in> F" for c d using that by (metis card.expand)
  then show ?thesis unfolding same_rank_def lead_def using True by metis
next
  case False
  then have "lead F \<subseteq> lead G" using assms(2) by (auto simp: lead_def)
  then show ?thesis using assms(1) unfolding same_rank_def by blast
qed

lemma goes_on_small:
  assumes "card (cards_in bl) \<le> 3"
  shows "goes_on r bl"
  unfolding goes_on_def
proof (intro allI impI)
  fix F G assume fg: "F \<noteq> {} \<and> F \<subset> G \<and> G \<subseteq> {c. card_ok c} \<and> ok_put r bl G"
  show "ok_put r bl F \<or> card F \<le> 2"
  proof (cases "cards_in bl = {}")
    case True
    then show ?thesis using fg same_rank_subset[of G F] by (auto simp: legal_put_def)
  next
    case False
    then have "card G = card (cards_in bl)" using fg by (auto simp: legal_put_def)
    moreover have "0 < card (cards_in bl)" using False finite_cards_in by (simp add: card_gt_0_iff)
    ultimately have "card F < card G" using fg by (metis card_gt_0_iff psubset_card_mono)
    then show ?thesis using \<open>card G = card (cards_in bl)\<close> assms by simp
  qed
qed

text \<open>With four cards or more on the table nothing is found from a hand of two or less.\<close>

lemma gen_loop_empty:
  assumes rec: "\<And>h d. splits T h d \<Longrightarrow> card (cards_in h) \<le> 2 \<Longrightarrow> card (cards_in d) < depth \<Longrightarrow> rec h d {} = Ok {}"
    and bl: "cs_ok bl" "4 \<le> card (cards_in bl)" and h: "splits T h d" "card (cards_in h) \<le> 2" "card (cards_in d) < Suc depth"
  shows "set cs \<subseteq> cards_in d \<Longrightarrow> gen_loop rec r bl h d cs {} = Ok {}"
proof (induction cs)
  case (Cons c cs)
  then have c: "c \<in> cards_in d" by simp
  note step = splits_step[OF h(1) c]
  have hand: "cs_ok (add_card h c)" "card (cards_in (add_card h c)) = Suc (card (cards_in h))" "set_size h = card (cards_in h)"
    using step(1-3) h(1) by (simp_all add: splits_def finite_cards_in set_size_card)
  have "\<not> ok_put r bl (cards_in (add_card h c))" using hand(2) h(2) bl(2) step(2) by (auto simp: legal_put_def)
  then obtain e where e: "canPut r (add_card h c) bl = Ok e" "e \<noteq> CHK_OK" using rule.refuses[OF hand(1) bl(1)] by blast
  have "rec (add_card h c) (del_card d c) {} = Ok {}" if "card (cards_in h) \<le> 1"
    by (rule rec[OF step(1)]) (use that step(5) h(3) hand(2) in simp_all)
  then show ?case using Cons e hand(3) by (auto simp: Let_def not_le)
qed simp

lemma gen_empty:
  assumes "cs_ok bl" "4 \<le> card (cards_in bl)"
  shows "splits T h d \<Longrightarrow> card (cards_in h) \<le> 2 \<Longrightarrow> card (cards_in d) < depth \<Longrightarrow> genAllCombination depth r bl h d {} = Ok {}"
proof (induction depth arbitrary: h d)
  case (Suc depth)
  have ok: "cs_ok d" using Suc.prems by (simp add: splits_def)
  show ?case
    using gen_loop_empty[of T depth "genAllCombination depth r bl", OF Suc.IH assms Suc.prems, of "rev (sorted_list_of_set (cards_in d))"]
    by (simp add: conv2Vector_list[OF ok] finite_cards_in)
qed simp

lemma splits_start: "cs_ok t \<Longrightarrow> splits (cards_in t) 0 t"
  by (simp add: splits_def cs_ok_ops)

lemma enumerate_sound:
  assumes "cs_ok tefda" "cs_ok bl"
  shows "\<exists>hands. enumrateAvairableHands r tefda bl kakumei = Ok hands \<and>
    (\<forall>h\<in>hands. cs_ok h \<and> h \<noteq> 0 \<and> cards_in h \<subseteq> cards_in tefda \<and> legal_put kakumei (cards_in h) (cards_in bl))"
proof -
  obtain hands where "enumrateAvairableHands r tefda bl kakumei = Ok hands"
      "gen_part (setKakumei kakumei r) bl (cards_in tefda) 0 (cards_in tefda) {} hands"
    using gen_part_ok[OF assms(2) splits_start[OF assms(1)], of "set_size tefda + 1" "setKakumei kakumei r" "{}"]
    by (auto simp: enumrateAvairableHands_def set_size_card assms(1))
  then show ?thesis by (auto simp: gen_part_def above_def setKakumei_def)
qed

section \<open>Properties\<close>

text \<open>
  C34. With at most three cards on the table the pruned depth-first search finds exactly the legal hands: every non-empty
  set of cards of the player that the rules accept, and nothing else.
\<close>

theorem sage_enumerates:
  assumes "cs_ok tefda" "cs_ok bl" "set_size bl \<le> 3"
  shows "enumrateAvairableHands r tefda bl kakumei =
    Ok {h. cs_ok h \<and> cards_in h \<noteq> {} \<and> cards_in h \<subseteq> cards_in tefda \<and> legal_put kakumei (cards_in h) (cards_in bl)}"
proof -
  let ?r = "setKakumei kakumei r" and ?T = "cards_in tefda"
  obtain hands where hands: "enumrateAvairableHands r tefda bl kakumei = Ok hands" "gen_part ?r bl ?T 0 ?T {} hands"
    using gen_part_ok[OF assms(2) splits_start[OF assms(1)], of "set_size tefda + 1" ?r "{}"]
    by (auto simp: enumrateAvairableHands_def set_size_card assms(1))
  have "goes_on ?r bl" using goes_on_small assms by (simp add: set_size_card)
  then have "\<forall>g\<in>above (ok_put ?r bl) ?T 0. cards_in g \<inter> ?T \<noteq> {} \<longrightarrow> g \<in> hands" "hands \<subseteq> above (ok_put ?r bl) ?T 0"
    using hands(2) by (simp_all add: gen_part_def searched_def)
  moreover have "cards_in g \<inter> ?T \<noteq> {}" if "g \<in> above (ok_put ?r bl) ?T 0" for g using that by (auto simp: above_def)
  ultimately have "hands = above (ok_put ?r bl) ?T 0" by blast
  then show ?thesis using hands(1) by (auto simp: above_def setKakumei_def)
qed

text \<open>A pair of fours and the joker against a pair of threes.\<close>

theorem sage_enumerates_witness:
  "enumrateAvairableHands \<lparr>rule_class = ClassA, rule_kakumei = False\<rparr> 0x10000000000030 0x3 False =
    Ok {h. cs_ok h \<and> cards_in h \<noteq> {} \<and> cards_in h \<subseteq> cards_in 0x10000000000030 \<and> legal_put False (cards_in h) (cards_in 0x3)}"
  by (rule sage_enumerates) code_simp+

text \<open>
  With four cards or more on the table the pruning at hands of two cards cuts off every legal hand, and the player
  finds none.
\<close>

theorem sage_misses_four:
  assumes "cs_ok tefda" "cs_ok bl" "4 \<le> set_size bl"
  shows "enumrateAvairableHands r tefda bl kakumei = Ok {}"
  unfolding enumrateAvairableHands_def
  by (rule gen_empty[OF assms(2) _ splits_start[OF assms(1)]]) (use assms in \<open>simp_all add: set_size_card\<close>)

text \<open>Four fives against four threes: the rule accepts them, the enumeration does not find them.\<close>

theorem sage_misses_four_witness:
  "enumrateAvairableHands \<lparr>rule_class = ClassA, rule_kakumei = False\<rparr> 0xF00 0xF False = Ok {} \<and>
   canPut \<lparr>rule_class = ClassA, rule_kakumei = False\<rparr> 0xF00 0xF = Ok CHK_OK"
proof
  show "enumrateAvairableHands \<lparr>rule_class = ClassA, rule_kakumei = False\<rparr> 0xF00 0xF False = Ok {}"
    by (rule sage_misses_four) code_simp+
  show "canPut \<lparr>rule_class = ClassA, rule_kakumei = False\<rparr> 0xF00 0xF = Ok CHK_OK" by code_simp
qed

end
