(* ===== verification/Sage_Player.thy ===== *)
theory Sage_Player
  imports Sage_Hands
begin

text \<open>
  The second half of \<^verbatim>\<open>jni/neof5/SagePlayer.cpp\<close> and \<^verbatim>\<open>EvalNode.cpp\<close>: the search tree and the player that looks for a sequence of hands
  nobody can answer. The tree is a list of nodes and a pointer is an index into it.

  What the program takes from its surroundings is a parameter: the arithmetic of \<open>double\<close>, the addresses that order a
  \<open>std::set\<close> of pointers, the clock and the random numbers. Nothing is assumed of them, except that small integers are kept
  exactly: where the code compares a converted count with an integer literal the model compares the integers.
\<close>

section \<open>Surroundings and state\<close>

record 'd fops =
  d_add :: "'d \<Rightarrow> 'd \<Rightarrow> 'd"
  d_sub :: "'d \<Rightarrow> 'd \<Rightarrow> 'd"
  d_mul :: "'d \<Rightarrow> 'd \<Rightarrow> 'd"
  d_div :: "'d \<Rightarrow> 'd \<Rightarrow> 'd"
  d_lt :: "'d \<Rightarrow> 'd \<Rightarrow> bool"
  d_le :: "'d \<Rightarrow> 'd \<Rightarrow> bool"
  d_eq :: "'d \<Rightarrow> 'd \<Rightarrow> bool"
  d_lit :: "int \<Rightarrow> int \<Rightarrow> 'd"

text \<open>
  \<open>d_lit n m\<close> is the value of the literal \<open>n / m\<close> and, with \<open>m = 1\<close>, of a converted integer. \<open>expired k\<close> is the answer to the
  \<open>k\<close>-th test of the time limit, \<open>rnd k\<close> the \<open>k\<close>-th random number, \<open>addr n\<close> the address of the \<open>n\<close>-th node.
\<close>

record 'd sage_env =
  fp :: "'d fops"
  addr :: "nat \<Rightarrow> nat"
  expired :: "nat \<Rightarrow> bool"
  rnd :: "nat \<Rightarrow> int"

record 'd eval_hand =
  eh_hand :: card_set
  eh_tefda :: card_set
  p1 :: 'd
  p2 :: 'd

record 'd eval_node =
  en_parent :: "nat option"
  en_children :: "nat list option"
  en_hand :: "'d eval_hand"
  en_kakumei :: bool

datatype tweet = Mazui | Horetto | KachiJa | Hoho | Mumu | JikanGaNai

record 'd sage =
  savedHandsTree :: "card_set list"
  hand_potential_max :: 'd
  notappears_cards :: card_set
  sage_rule :: daifugo_rule
  heap :: "'d eval_node list"
  draws :: nat
  looks :: nat
  tweets :: "tweet list"

definition num :: "'d sage_env \<Rightarrow> int \<Rightarrow> 'd" where "num E n = d_lit (fp E) n 1"

definition getRand :: "'d sage_env \<Rightarrow> int \<Rightarrow> 'd sage \<Rightarrow> int \<times> 'd sage" where
  "getRand E m s = (rnd E (draws s) mod m, s\<lparr>draws := draws s + 1\<rparr>)"

definition tweetFunc :: "tweet \<Rightarrow> 'd sage \<Rightarrow> 'd sage" where "tweetFunc t s = s\<lparr>tweets := tweets s @ [t]\<rparr>"

section \<open>The tree\<close>

definition new_hand :: "'d sage_env \<Rightarrow> 'd eval_hand" where
  "new_hand E = \<lparr>eh_hand = 0, eh_tefda = 0, p1 = num E 0, p2 = num E 0\<rparr>"

definition new_node :: "'d sage_env \<Rightarrow> card_set \<Rightarrow> bool \<Rightarrow> 'd eval_node" where
  "new_node E tefda k = \<lparr>en_parent = None, en_children = None, en_hand = (new_hand E)\<lparr>eh_tefda := tefda\<rparr>, en_kakumei = k\<rparr>"

definition isRoot :: "'d eval_node list \<Rightarrow> nat \<Rightarrow> bool" where "isRoot hp n = (en_parent (hp ! n) = None)"

text \<open>The walk to the child of the root, for at most the given number of steps.\<close>

primrec getHeirOfRoot :: "nat \<Rightarrow> 'd eval_node list \<Rightarrow> nat \<Rightarrow> nat res" where
  "getHeirOfRoot 0 hp n = Undef"
| "getHeirOfRoot (Suc k) hp n =
    (case en_parent (hp ! n) of None \<Rightarrow> Ok n | Some m \<Rightarrow> if isRoot hp m then Ok n else getHeirOfRoot k hp m)"

definition same_child :: "'d eval_node list \<Rightarrow> nat \<Rightarrow> 'd eval_hand \<Rightarrow> nat option" where
  "same_child hp n eh = (case en_children (hp ! n) of None \<Rightarrow> None
     | Some cs \<Rightarrow> List.find (\<lambda>c. eh_hand (en_hand (hp ! c)) = eh_hand eh) cs)"

definition createChild :: "'d sage_env \<Rightarrow> 'd eval_node list \<Rightarrow> nat \<Rightarrow> 'd eval_hand \<Rightarrow> 'd eval_node list \<times> nat" where
  "createChild E hp n eh =
    (case same_child hp n eh of Some c \<Rightarrow> (hp, c)
     | None \<Rightarrow>
         let node = hp ! n;
             child = (new_node E 0 (en_kakumei node))\<lparr>en_parent := Some n,
               en_hand := eh\<lparr>eh_tefda := del_set (eh_tefda eh) (eh_hand (en_hand node))\<rparr>\<rparr>;
             child = (if set_size (eh_hand eh) \<ge> 4 then child\<lparr>en_kakumei := \<not> en_kakumei child\<rparr> else child);
             cs = (case en_children node of None \<Rightarrow> [] | Some cs \<Rightarrow> cs)
         in (hp[n := node\<lparr>en_children := Some (cs @ [length hp])\<rparr>] @ [child], length hp))"

text \<open>\<open>findBestParamChild\<close>: the loop over the children with the recursive call \<open>rec\<close>, then the recursion.\<close>

fun best_loop :: "'d sage_env \<Rightarrow> (nat \<Rightarrow> nat option res) \<Rightarrow> 'd eval_node list \<Rightarrow> nat list \<Rightarrow> nat option \<Rightarrow> nat option res" where
  "best_loop E rec hp [] best = Ok best"
| "best_loop E rec hp (c # cs) best =
    bind_res (if d_eq (fp E) (p2 (en_hand (hp ! c))) (num E 0) then rec c else Ok (Some c)) (\<lambda>child.
      case child of None \<Rightarrow> best_loop E rec hp cs best
      | Some d \<Rightarrow> best_loop E rec hp cs
          (case best of None \<Rightarrow> Some d
           | Some b \<Rightarrow> if d_lt (fp E) (p2 (en_hand (hp ! d))) (p2 (en_hand (hp ! b))) then Some d else Some b))"

primrec findBestParamChild :: "nat \<Rightarrow> 'd sage_env \<Rightarrow> 'd eval_node list \<Rightarrow> nat \<Rightarrow> nat option res" where
  "findBestParamChild 0 E hp n = Undef"
| "findBestParamChild (Suc k) E hp n =
    (case en_children (hp ! n) of None \<Rightarrow> Ok None
     | Some cs \<Rightarrow> best_loop E (findBestParamChild k E hp) hp cs None)"

primrec saveHandsTree :: "nat \<Rightarrow> 'd eval_node list \<Rightarrow> nat \<Rightarrow> card_set list \<Rightarrow> card_set list res" where
  "saveHandsTree 0 hp n buff = Undef"
| "saveHandsTree (Suc k) hp n buff =
    (if set_empty (eh_hand (en_hand (hp ! n))) then Ok buff
     else case en_parent (hp ! n) of None \<Rightarrow> Undef
          | Some m \<Rightarrow> saveHandsTree k hp m (buff @ [eh_hand (en_hand (hp ! n))]))"

section \<open>The value of a hand\<close>

definition is_strong_hand :: "'d sage_env \<Rightarrow> 'd sage \<Rightarrow> 'd \<Rightarrow> bool" where
  "is_strong_hand E s p = d_lt (fp E) p (d_add (fp E) (hand_potential_max s) (d_lit (fp E) 5 10))"

function strength_loop :: "'d sage_env \<Rightarrow> card_set \<Rightarrow> bool \<Rightarrow> int \<Rightarrow> 'd \<Rightarrow> nat \<Rightarrow> int \<Rightarrow> 'd \<Rightarrow> 'd" where
  "strength_loop E notapp kakumei pn joker_count hand_count st result =
    (let st = st + (if kakumei then - 1 else 1) in
     if st < 1 \<or> CARD_STRENGTH_MAX \<le> st then result
     else strength_loop E notapp kakumei pn joker_count hand_count st
       (let (found, strengthCards) = hasNumOf notapp (st mod 13) in
        if \<not> found then result
        else let strength_count = num E (int (set_size strengthCards)) in
          if hand_count = 1 then d_add (fp E) result strength_count
          else let strength_count = d_add (fp E) strength_count joker_count in
            if d_le (fp E) (num E (int hand_count)) strength_count
            then d_add (fp E) result (d_div (fp E) (d_div (fp E) strength_count (num E pn))
                   (num E (if pn = 1 then 1 else int hand_count)))
            else result))"
  by pat_completeness auto

termination
  by (relation "measure (\<lambda>(E, notapp, kakumei, pn, jc, hc, st, result). nat (if kakumei then st else CARD_STRENGTH_MAX - st))")
     (auto simp: CARD_STRENGTH_MAX_def)

declare strength_loop.simps [simp del]

definition calcPotentialToBeFightback :: "'d sage_env \<Rightarrow> daifugo_context \<Rightarrow> 'd sage \<Rightarrow> card_set \<Rightarrow> bool \<Rightarrow> 'd res" where
  "calcPotentialToBeFightback E ctx s hand kakumei = bind_res (set_at hand 0) (\<lambda>firstCard.
    let result = hand_potential_max s in
    if isJoker firstCard then Ok result
    else
      let pn = int (getNumOfAvailablePlayers (playerInfo ctx)) - 1;
          joker_count = num E (if fst (hasNumOf (notappears_cards s) CARD_STRENGTH_MAX) then 1 else 0);
          hand_count = set_size hand;
          st = getStrength firstCard
      in bind_res (if hand_count \<ge> 3 then bind_res (set_at hand 1) (\<lambda>c. Ok (getStrength c \<noteq> st)) else Ok False) (\<lambda>is_kaidan.
        if is_kaidan then
          Ok (d_add (fp E) result (d_add (fp E) (num E 50) (d_div (fp E) (d_div (fp E)
            (d_div (fp E) (d_mul (fp E) (num E 200) joker_count) (num E (int hand_count))) (num E st)) (num E st))))
        else
          let result = strength_loop E (notappears_cards s) kakumei pn joker_count hand_count st result
          in Ok (if hand_count = 1 then d_add (fp E) result joker_count else result)))"

section \<open>The search\<close>

text \<open>What a loop body does: go on with a value, or make \<open>_think_recursive\<close> return a node or null.\<close>

datatype 'a flow = Next 'a | Stop "nat option"

definition with_child :: "'d sage_env \<Rightarrow> 'd sage \<Rightarrow> nat \<Rightarrow> 'd eval_hand \<Rightarrow> 'd sage \<times> nat" where
  "with_child E s n eh = (let (hp, c) = createChild E (heap s) n eh in (s\<lparr>heap := hp\<rparr>, c))"

definition add_p2 :: "'d sage_env \<Rightarrow> nat \<Rightarrow> 'd \<Rightarrow> 'd sage \<Rightarrow> 'd sage" where
  "add_p2 E n x s = (let node = heap s ! n; h = en_hand node in
     s\<lparr>heap := (heap s)[n := node\<lparr>en_hand := h\<lparr>p2 := d_add (fp E) (p2 h) x\<rparr>\<rparr>]\<rparr>)"

text \<open>The loop that values the hands and sorts them into strong and weak ones.\<close>

fun classify :: "'d sage_env \<Rightarrow> daifugo_context \<Rightarrow> nat \<Rightarrow> card_set list \<Rightarrow> 'd eval_hand list \<Rightarrow> 'd eval_hand list \<Rightarrow> 'd sage \<Rightarrow>
    ('d sage \<times> ('d eval_hand list \<times> 'd eval_hand list) flow) res" where
  "classify E ctx nd [] better poor s = Ok (s, Next (better, poor))"
| "classify E ctx nd (hand # hs) better poor s =
    (let node = heap s ! nd; n = set_size hand in
     bind_res (calcPotentialToBeFightback E ctx s hand (en_kakumei node)) (\<lambda>p.
       let eh = \<lparr>eh_hand = hand, eh_tefda = del_set (eh_tefda (en_hand node)) hand, p1 = p, p2 = num E 0\<rparr>;
           s = add_p2 E nd (d_sub (fp E) p (num E (int n - 1))) s
       in bind_res
         (if set_empty (eh_tefda eh) \<and>
             (isRoot (heap s) nd \<or> is_strong_hand E s (p1 (en_hand node)) \<or>
              is_strong_hand E s p \<and> n = set_size (eh_hand (en_hand node)))
          then bind_res (canAgari (sage_rule s) hand) (\<lambda>a. Ok (Some (a = CHK_OK))) else Ok None) (\<lambda>agari.
         if agari = Some True then let (s, c) = with_child E s nd eh in Ok (s, Stop (Some c))
         else if agari = Some False \<and> \<not> isRoot (heap s) nd then classify E ctx nd hs better poor s
         else let late = expired E (looks s); s = s\<lparr>looks := looks s + 1\<rparr> in
           if late then Ok (tweetFunc JikanGaNai s, Stop None)
           else if is_strong_hand E s p then classify E ctx nd hs (better @ [eh]) poor s
           else classify E ctx nd hs better (poor @ [eh]) s)))"

text \<open>The weak hands that can follow the strong hand \<open>beh\<close>, whose node is \<open>child\<close>.\<close>

fun follow_loop :: "'d sage_env \<Rightarrow> nat \<Rightarrow> 'd eval_hand \<Rightarrow> nat \<Rightarrow> 'd eval_hand list \<Rightarrow> nat set \<Rightarrow> 'd sage \<Rightarrow>
    ('d sage \<times> nat set flow) res" where
  "follow_loop E nd beh child [] nextNodes s = Ok (s, Next nextNodes)"
| "follow_loop E nd beh child (peh # ps) nextNodes s =
    (if communion (eh_hand peh) (eh_hand beh) then follow_loop E nd beh child ps (insert child nextNodes) s
     else let (s, child2) = with_child E s nd peh; h2 = en_hand (heap s ! child2) in
       if set_empty (eh_tefda h2) then
         bind_res (canAgari (sage_rule s) (eh_hand h2)) (\<lambda>a.
           if a = CHK_OK then Ok (s, Stop (Some child2)) else follow_loop E nd beh child ps nextNodes s)
       else follow_loop E nd beh child ps (insert child2 nextNodes) s)"

text \<open>May the hand of \<open>beh\<close> follow that of the node? Only if it is two steps stronger, unless the node's is strong.\<close>

definition may_follow :: "'d sage_env \<Rightarrow> 'd sage \<Rightarrow> nat \<Rightarrow> 'd eval_hand \<Rightarrow> bool res" where
  "may_follow E s nd beh =
    (let node = heap s ! nd; h = en_hand node in
     if \<not> set_empty (eh_hand h) \<and> \<not> is_strong_hand E s (p1 h) then
       if set_size (eh_hand h) \<noteq> set_size (eh_hand beh) then Ok False
       else bind_res (set_at (eh_hand h) 0) (\<lambda>a. bind_res (set_at (eh_hand beh) 0) (\<lambda>b.
         Ok (\<not> getStrength a + (if en_kakumei node then - 2 else 2) > getStrength b)))
     else Ok True)"

fun better_loop :: "'d sage_env \<Rightarrow> nat \<Rightarrow> 'd eval_hand list \<Rightarrow> 'd eval_hand list \<Rightarrow> nat set \<Rightarrow> 'd sage \<Rightarrow>
    ('d sage \<times> nat set flow) res" where
  "better_loop E nd poor [] nextNodes s = Ok (s, Next nextNodes)"
| "better_loop E nd poor (beh # bs) nextNodes s = bind_res (may_follow E s nd beh) (\<lambda>may.
    if \<not> may then better_loop E nd poor bs nextNodes s
    else let (s, child) = with_child E s nd beh in
      if poor = [] then better_loop E nd poor bs (insert child nextNodes) s
      else bind_res (follow_loop E nd beh child poor nextNodes s) (\<lambda>(s, fl).
        case fl of Stop x \<Rightarrow> Ok (s, Stop x) | Next nx \<Rightarrow> better_loop E nd poor bs nx s))"

fun root_loop :: "'d sage_env \<Rightarrow> nat \<Rightarrow> 'd eval_hand list \<Rightarrow> nat set \<Rightarrow> 'd sage \<Rightarrow> 'd sage \<times> nat set flow" where
  "root_loop E nd [] nextNodes s = (s, Next nextNodes)"
| "root_loop E nd (peh # ps) nextNodes s =
    (let (s, child2) = with_child E s nd peh in
     if set_empty (eh_tefda (en_hand (heap s ! child2))) then (s, Stop (Some child2))
     else root_loop E nd ps (insert child2 nextNodes) s)"

text \<open>The strong hands are followed at the root, below it, and further down unless the sequence began with a pass.\<close>

definition look_ahead :: "'d sage_env \<Rightarrow> nat \<Rightarrow> 'd eval_hand list \<Rightarrow> 'd eval_hand list \<Rightarrow> nat set \<Rightarrow> 'd sage \<Rightarrow> ('d sage \<times> nat set flow) res" where
  "look_ahead E nd better poor nextNodes s =
    bind_res (case en_parent (heap s ! nd) of None \<Rightarrow> Ok True
      | Some m \<Rightarrow> if isRoot (heap s) m then Ok True
          else bind_res (getHeirOfRoot (length (heap s)) (heap s) nd) (\<lambda>h. Ok (\<not> set_empty (eh_hand (en_hand (heap s ! h)))))) (\<lambda>deep.
    if deep then better_loop E nd poor better nextNodes s else Ok (s, Next nextNodes))"

text \<open>At the root the weak hands are followed too, and a pass unless the player leads.\<close>

definition expand_root :: "'d sage_env \<Rightarrow> card_set \<Rightarrow> nat \<Rightarrow> 'd eval_hand list \<Rightarrow> nat set \<Rightarrow> 'd sage \<Rightarrow> 'd sage \<times> nat set flow" where
  "expand_root E ba_cards nd poor nextNodes s =
    (case root_loop E nd poor nextNodes s of
       (s, Stop x) \<Rightarrow> (s, Stop x)
     | (s, Next nx) \<Rightarrow>
         if set_empty ba_cards then (s, Next nx)
         else let (s, child2) = with_child E s nd ((new_hand E)\<lparr>eh_tefda := eh_tefda (en_hand (heap s ! nd))\<rparr>)
              in (s, Next (insert child2 nx)))"

text \<open>The body of the loop over the nodes.\<close>

definition think_node :: "'d sage_env \<Rightarrow> daifugo_context \<Rightarrow> card_set \<Rightarrow> nat \<Rightarrow> nat set \<Rightarrow> 'd sage \<Rightarrow> ('d sage \<times> nat set flow) res" where
  "think_node E ctx ba_cards nd nextNodes s =
    (let node = heap s ! nd; k = en_kakumei node in
     bind_res (enumrateAvairableHands (sage_rule s) (eh_tefda (en_hand node)) ba_cards k) (\<lambda>hands.
       let s = s\<lparr>sage_rule := setKakumei k (sage_rule s)\<rparr> in
       if hands = {} then Ok (s, Stop (Some nd))
       else bind_res (classify E ctx nd (sorted_list_of_set hands) [] [] s) (\<lambda>(s, fl).
         case fl of Stop x \<Rightarrow> Ok (s, Stop x)
         | Next (better, poor) \<Rightarrow> bind_res (look_ahead E nd better poor nextNodes s) (\<lambda>(s, fl).
             case fl of Stop x \<Rightarrow> Ok (s, Stop x)
             | Next nx \<Rightarrow> Ok (if isRoot (heap s) nd then expand_root E ba_cards nd poor nx s else (s, Next nx))))))"

fun think_nodes :: "'d sage_env \<Rightarrow> daifugo_context \<Rightarrow> card_set \<Rightarrow> nat list \<Rightarrow> nat set \<Rightarrow> 'd sage \<Rightarrow> ('d sage \<times> nat set flow) res" where
  "think_nodes E ctx ba_cards [] nextNodes s = Ok (s, Next nextNodes)"
| "think_nodes E ctx ba_cards (nd # nds) nextNodes s = bind_res (think_node E ctx ba_cards nd nextNodes s) (\<lambda>(s, fl).
    case fl of Stop x \<Rightarrow> Ok (s, Stop x) | Next nx \<Rightarrow> think_nodes E ctx ba_cards nds nx s)"

text \<open>A set of nodes is visited in the order of the addresses; the depth bound counts the calls still allowed.\<close>

primrec think_recursive :: "nat \<Rightarrow> 'd sage_env \<Rightarrow> daifugo_context \<Rightarrow> card_set \<Rightarrow> nat set \<Rightarrow> 'd sage \<Rightarrow> ('d sage \<times> nat option) res" where
  "think_recursive 0 E ctx ba_cards nodes s = Undef"
| "think_recursive (Suc depth) E ctx ba_cards nodes s =
    bind_res (think_nodes E ctx ba_cards (sort_key (addr E) (sorted_list_of_set nodes)) {} s) (\<lambda>(s, fl).
      case fl of Stop x \<Rightarrow> Ok (s, x)
      | Next nx \<Rightarrow> if nx \<noteq> {} then think_recursive depth E ctx 0 nx s else Ok (s, None))"

section \<open>Choosing a hand\<close>

text \<open>The cards nobody has shown, the mark of a strong hand at this stage of the game, and a tree of the root alone.\<close>

definition think2_start :: "'d sage_env \<Rightarrow> daifugo_context \<Rightarrow> 'd sage \<Rightarrow> 'd sage" where
  "think2_start E ctx s =
    (let appears = foldl add_set (add_set (yama ctx) (deck ctx)) (ba ctx);
         count = set_size appears
     in s\<lparr>notappears_cards := del_set allCards appears,
          hand_potential_max := d_sub (fp E) (d_lit (fp E) (- 121) 100)
            (if count < 8 then num E 8
             else if count < 30 then d_sub (fp E) (num E 7) (d_div (fp E) (num E (int count)) (d_lit (fp E) 48 10))
             else num E 0),
          heap := [new_node E (deck ctx) (ctxKakumei ctx)]\<rparr>)"

definition think2 :: "'d sage_env \<Rightarrow> daifugo_context \<Rightarrow> card_set \<Rightarrow> 'd sage \<Rightarrow> ('d sage \<times> card_set) res" where
  "think2 E ctx bl s =
    bind_res (think_recursive (set_size (deck ctx) + 2) E ctx bl {0} (think2_start E ctx s)) (\<lambda>(s, result).
       case result of
         Some node \<Rightarrow>
           bind_res (saveHandsTree (length (heap s)) (heap s) node []) (\<lambda>tree.
             let s = s\<lparr>savedHandsTree := butlast tree\<rparr> in
             bind_res (getHeirOfRoot (length (heap s)) (heap s) node) (\<lambda>heir.
               let hh = eh_hand (en_hand (heap s ! heir)) in
               if set_empty hh then Ok (s, hh)
               else let (x, s) = getRand E 3 s in
                 if x = 1 then Ok (tweetFunc KachiJa s, hh)
                 else let (y, s) = getRand E 4 s in Ok (if y = 1 then tweetFunc Hoho s else s, hh)))
       | None \<Rightarrow>
           bind_res (findBestParamChild (length (heap s)) E (heap s) 0) (\<lambda>best.
             bind_res (case best of Some n \<Rightarrow> Ok n
               | None \<Rightarrow> (case en_children (heap s ! 0) of None \<Rightarrow> Undef
                   | Some cs \<Rightarrow> if cs = [] then Throw IndexOutOfRange else Ok (last cs))) (\<lambda>node.
             bind_res (getHeirOfRoot (length (heap s)) (heap s) node) (\<lambda>heir.
               let hh = eh_hand (en_hand (heap s ! heir)) in
               if set_empty hh then let (x, s) = getRand E 12 s in Ok (if x = 5 then tweetFunc Mumu s else s, hh)
               else Ok (s, hh)))))"

definition sage_think :: "'d sage_env \<Rightarrow> daifugo_context \<Rightarrow> 'd sage \<Rightarrow> ('d sage \<times> card_set) res" where
  "sage_think E ctx s =
    (let bl = ba_last ctx;
         s = (if getNumOfAvailablePlayers (playerInfo ctx) = 2
              then let (x, s) = getRand E 8 s in if x = 1 then tweetFunc Mazui s else s else s)
     in if savedHandsTree s = [] then think2 E ctx bl s
        else let hand = last (savedHandsTree s); s = s\<lparr>sage_rule := setKakumei (ctxKakumei ctx) (sage_rule s)\<rparr> in
          bind_res (if has_set (deck ctx) hand then canPut (sage_rule s) hand bl else Ok ERR_NOT_STRONG) (\<lambda>chk.
            if has_set (deck ctx) hand \<and> chk = CHK_OK then
              let s = s\<lparr>savedHandsTree := butlast (savedHandsTree s)\<rparr>; (x, s) = getRand E 9 s in
              Ok (if x = 1 then tweetFunc Horetto s else s, hand)
            else think2 E ctx bl (s\<lparr>savedHandsTree := []\<rparr>)))"

section \<open>The tree stays a tree of legal hands\<close>

abbreviation hand_at :: "'d eval_node list \<Rightarrow> nat \<Rightarrow> card_set" where "hand_at hp n \<equiv> eh_hand (en_hand (hp ! n))"
abbreviation tefda_at :: "'d eval_node list \<Rightarrow> nat \<Rightarrow> card_set" where "tefda_at hp n \<equiv> eh_tefda (en_hand (hp ! n))"

text \<open>A hand that may become a child of a node with the cards \<open>t\<close>; below the root it answers the cards on the table.\<close>

definition child_ok :: "daifugo_context \<Rightarrow> card_set \<Rightarrow> bool \<Rightarrow> card_set \<Rightarrow> card_set \<Rightarrow> bool" where
  "child_ok ctx t root h u \<longleftrightarrow> cs_ok h \<and> cs_ok u \<and> cards_in h \<subseteq> cards_in t \<and> cards_in u \<subseteq> cards_in t - cards_in h \<and>
    (if root then legal_put (ctxKakumei ctx) (cards_in h) (cards_in (ba_last ctx)) else h \<noteq> 0)"

definition node_ok :: "daifugo_context \<Rightarrow> 'd eval_node list \<Rightarrow> nat \<Rightarrow> bool" where
  "node_ok ctx hp n \<longleftrightarrow> (\<exists>m. en_parent (hp ! n) = Some m \<and> m < n \<and> child_ok ctx (tefda_at hp m) (m = 0) (hand_at hp n) (tefda_at hp n) \<and>
     (\<exists>cs. en_children (hp ! m) = Some cs \<and> n \<in> set cs))"

definition tree_ok :: "daifugo_context \<Rightarrow> 'd eval_node list \<Rightarrow> bool" where
  "tree_ok ctx hp \<longleftrightarrow> hp \<noteq> [] \<and> en_parent (hp ! 0) = None \<and> hand_at hp 0 = 0 \<and> tefda_at hp 0 = deck ctx \<and>
     en_kakumei (hp ! 0) = ctxKakumei ctx \<and> (\<forall>n. 0 < n \<and> n < length hp \<longrightarrow> node_ok ctx hp n) \<and>
     (\<forall>m c cs. m < length hp \<and> en_children (hp ! m) = Some cs \<and> c \<in> set cs \<longrightarrow> c < length hp \<and> en_parent (hp ! c) = Some m)"

text \<open>Nodes are only added; of those that are there the links up, the cards and the flag stay.\<close>

definition grows :: "'d eval_node list \<Rightarrow> 'd eval_node list \<Rightarrow> bool" where
  "grows hp hp' \<longleftrightarrow> length hp \<le> length hp' \<and> (\<forall>n<length hp. en_parent (hp' ! n) = en_parent (hp ! n) \<and>
     hand_at hp' n = hand_at hp n \<and> tefda_at hp' n = tefda_at hp n \<and> en_kakumei (hp' ! n) = en_kakumei (hp ! n))"

lemma grows_refl [simp]: "grows hp hp" by (simp add: grows_def)
lemma grows_trans: "grows a b \<Longrightarrow> grows b c \<Longrightarrow> grows a c" by (simp add: grows_def)

lemma tree_parent:
  assumes "tree_ok ctx hp" "n < length hp"
  shows "en_parent (hp ! n) = None \<longleftrightarrow> n = 0" "isRoot hp n \<longleftrightarrow> n = 0"
proof -
  show "en_parent (hp ! n) = None \<longleftrightarrow> n = 0" using assms by (cases "n = 0") (auto simp: tree_ok_def node_ok_def)
  then show "isRoot hp n \<longleftrightarrow> n = 0" by (simp add: isRoot_def)
qed

lemma tree_node: "tree_ok ctx hp \<Longrightarrow> 0 < n \<Longrightarrow> n < length hp \<Longrightarrow> node_ok ctx hp n"
  by (simp add: tree_ok_def)

lemma tree_tefda:
  assumes "ctx_ok ctx" "tree_ok ctx hp" "n < length hp"
  shows "cs_ok (tefda_at hp n)" "cs_ok (hand_at hp n)"
  using assms tree_node[OF assms(2), of n]
  by (cases "n = 0"; auto simp: tree_ok_def node_ok_def child_ok_def ctx_ok_def cs_ok_ops)+

lemma tree_decrease:
  assumes "tree_ok ctx hp" "0 < n" "n < length hp" "en_parent (hp ! n) = Some m" "hand_at hp n \<noteq> 0"
  shows "card (cards_in (tefda_at hp n)) < card (cards_in (tefda_at hp m))"
proof (rule psubset_card_mono[OF finite_cards_in])
  have "child_ok ctx (tefda_at hp m) (m = 0) (hand_at hp n) (tefda_at hp n)"
    using tree_node[OF assms(1-3)] assms(4) by (auto simp: node_ok_def)
  moreover have "cards_in (hand_at hp n) \<noteq> {}" using assms(5) set_empty_iff by (auto simp: set_empty_def)
  ultimately show "cards_in (tefda_at hp n) \<subset> cards_in (tefda_at hp m)" by (auto simp: child_ok_def)
qed

lemma tree_ok_start: "ctx_ok ctx \<Longrightarrow> tree_ok ctx [new_node E (deck ctx) (ctxKakumei ctx)]"
  by (simp add: tree_ok_def new_node_def new_hand_def)

lemma same_child_found:
  assumes "tree_ok ctx hp" "n < length hp" "same_child hp n eh = Some c"
  shows "0 < c" "c < length hp" "en_parent (hp ! c) = Some n" "hand_at hp c = eh_hand eh"
proof -
  obtain cs where cs: "en_children (hp ! n) = Some cs" "c \<in> set cs" and h: "hand_at hp c = eh_hand eh"
    using assms(3) by (auto simp: same_child_def find_Some_iff split: option.splits)
  have "c < length hp \<and> en_parent (hp ! c) = Some n" using assms(1,2) cs unfolding tree_ok_def by blast
  then show "c < length hp" "en_parent (hp ! c) = Some n" by blast+
  then show "0 < c" using tree_parent(1)[OF assms(1), of c] by auto
  show "hand_at hp c = eh_hand eh" by (rule h)
qed

lemma tree_extend:
  assumes "tree_ok ctx hp" "n < length hp" "child_ok ctx (tefda_at hp n) (n = 0) (eh_hand eh) (eh_tefda eh)"
    and child: "en_parent child = Some n" "en_children child = None" "eh_hand (en_hand child) = eh_hand eh"
      "eh_tefda (en_hand child) = del_set (eh_tefda eh) (hand_at hp n)"
    and hp': "hp' = hp[n := (hp ! n)\<lparr>en_children := Some ((case en_children (hp ! n) of None \<Rightarrow> [] | Some cs \<Rightarrow> cs) @ [length hp])\<rparr>] @ [child]"
  shows "tree_ok ctx hp'" "grows hp hp'"
proof -
  let ?cs = "case en_children (hp ! n) of None \<Rightarrow> [] | Some cs \<Rightarrow> cs"
  have len: "length hp' = Suc (length hp)" by (simp add: hp')
  have old: "hp' ! m = (if m = n then (hp ! n)\<lparr>en_children := Some (?cs @ [length hp])\<rparr> else hp ! m)" if "m < length hp" for m
    using that assms(2) by (auto simp: hp' nth_append)
  have new: "hp' ! length hp = child" by (simp add: hp' nth_append)
  show g: "grows hp hp'" using old by (auto simp: grows_def len)
  have kids: "m < length hp \<Longrightarrow> en_children (hp ! m) = Some cs \<Longrightarrow> c \<in> set cs \<Longrightarrow> c < length hp \<and> en_parent (hp ! c) = Some m" for m c cs
    using assms(1) unfolding tree_ok_def by blast
  have "node_ok ctx hp' m" if "0 < m" "m < length hp" for m
  proof -
    have "node_ok ctx hp m" using assms(1) that by (simp add: tree_ok_def)
    then obtain q cs where q: "en_parent (hp ! m) = Some q" "q < m" "child_ok ctx (tefda_at hp q) (q = 0) (hand_at hp m) (tefda_at hp m)"
      "en_children (hp ! q) = Some cs" "m \<in> set cs" unfolding node_ok_def by blast
    have "\<exists>cs. en_children (hp' ! q) = Some cs \<and> m \<in> set cs" using q old[of q] that(2) by auto
    then show ?thesis unfolding node_ok_def using q that g by (auto simp: grows_def)
  qed
  moreover have "node_ok ctx hp' (length hp)"
  proof -
    have "child_ok ctx (tefda_at hp' n) (n = 0) (hand_at hp' (length hp)) (tefda_at hp' (length hp))"
      using assms(2,3) g child(3,4) by (auto simp: new grows_def child_ok_def cs_ok_ops)
    then show ?thesis unfolding node_ok_def using assms(2) old[of n] child(1) by (simp add: new)
  qed
  ultimately have nodes: "node_ok ctx hp' m" if "0 < m" "m < length hp'" for m using that len by (cases "m = length hp") auto
  have "c < length hp' \<and> en_parent (hp' ! c) = Some m" if "m < length hp'" "en_children (hp' ! m) = Some cs" "c \<in> set cs" for m c cs
  proof (cases "m = length hp")
    case True then show ?thesis using that(2) child(2) by (simp add: new)
  next
    case False
    then have m: "m < length hp" using that(1) len by simp
    show ?thesis
    proof (cases "m = n \<and> c = length hp")
      case True then show ?thesis using child(1) by (simp add: new len)
    next
      case False
      then have "\<exists>cs. en_children (hp ! m) = Some cs \<and> c \<in> set cs"
        using that(2,3) old[OF m] by (auto split: if_splits option.splits)
      then have "c < length hp" "en_parent (hp ! c) = Some m" using kids[OF m] by blast+
      then show ?thesis using g len by (simp add: grows_def)
    qed
  qed
  moreover have "hp' \<noteq> []" "en_parent (hp' ! 0) = None" "hand_at hp' 0 = 0" "tefda_at hp' 0 = deck ctx" "en_kakumei (hp' ! 0) = ctxKakumei ctx"
    using assms(1) g len by (auto simp: tree_ok_def grows_def)
  ultimately show "tree_ok ctx hp'" using nodes unfolding tree_ok_def by blast
qed

lemma createChild_ok:
  assumes "tree_ok ctx hp" "n < length hp" "child_ok ctx (tefda_at hp n) (n = 0) (eh_hand eh) (eh_tefda eh)"
    and r: "createChild E hp n eh = (hp', c)"
  shows "tree_ok ctx hp' \<and> grows hp hp' \<and> 0 < c \<and> c < length hp' \<and> en_parent (hp' ! c) = Some n \<and> hand_at hp' c = eh_hand eh"
proof (cases "same_child hp n eh")
  case (Some d)
  then show ?thesis using same_child_found[OF assms(1,2) Some] assms(1) r by (simp add: createChild_def)
next
  case None
  define child where "child = (let child = (new_node E 0 (en_kakumei (hp ! n)))\<lparr>en_parent := Some n,
     en_hand := eh\<lparr>eh_tefda := del_set (eh_tefda eh) (hand_at hp n)\<rparr>\<rparr> in
     if set_size (eh_hand eh) \<ge> 4 then child\<lparr>en_kakumei := \<not> en_kakumei child\<rparr> else child)"
  have child: "en_parent child = Some n" "en_children child = None" "eh_hand (en_hand child) = eh_hand eh"
    "eh_tefda (en_hand child) = del_set (eh_tefda eh) (hand_at hp n)"
    by (simp_all add: child_def Let_def new_node_def)
  have r: "hp' = hp[n := (hp ! n)\<lparr>en_children := Some ((case en_children (hp ! n) of None \<Rightarrow> [] | Some cs \<Rightarrow> cs) @ [length hp])\<rparr>] @ [child]"
    "c = length hp" using r None by (auto simp: createChild_def Let_def child_def)
  have "0 < length hp" using assms(2) by linarith
  then show ?thesis using tree_extend[OF assms(1-3) child r(1)] child r by (simp add: nth_append)
qed

section \<open>One node\<close>

definition eh_ok :: "daifugo_context \<Rightarrow> 'd sage \<Rightarrow> nat \<Rightarrow> 'd eval_hand \<Rightarrow> bool" where
  "eh_ok ctx s nd eh \<longleftrightarrow> child_ok ctx (tefda_at (heap s) nd) (nd = 0) (eh_hand eh) (eh_tefda eh)"

text \<open>A state that a part of the search may lead to.\<close>

definition run_ok :: "daifugo_context \<Rightarrow> 'd sage \<Rightarrow> 'd sage \<Rightarrow> bool" where
  "run_ok ctx s s' \<longleftrightarrow> tree_ok ctx (heap s') \<and> grows (heap s) (heap s')"

lemma run_ok_refl: "tree_ok ctx (heap s) \<Longrightarrow> run_ok ctx s s" by (simp add: run_ok_def)
lemma run_ok_trans: "run_ok ctx a b \<Longrightarrow> run_ok ctx b c \<Longrightarrow> run_ok ctx a c" by (auto simp: run_ok_def intro: grows_trans)

lemma run_okD:
  assumes "run_ok ctx s s'" "n < length (heap s)"
  shows "n < length (heap s')" "eh_ok ctx s' n eh = eh_ok ctx s n eh" "tefda_at (heap s') n = tefda_at (heap s) n"
    "hand_at (heap s') n = hand_at (heap s) n" "en_parent (heap s' ! n) = en_parent (heap s ! n)"
  using assms by (auto simp: run_ok_def grows_def eh_ok_def)

lemma with_child_ok:
  assumes "tree_ok ctx (heap s)" "nd < length (heap s)" "eh_ok ctx s nd eh"
  shows "\<exists>s' c. with_child E s nd eh = (s', c) \<and> run_ok ctx s s' \<and> sage_rule s' = sage_rule s \<and> 0 < c \<and> c < length (heap s') \<and>
    en_parent (heap s' ! c) = Some nd \<and> hand_at (heap s') c = eh_hand eh"
proof -
  obtain hp c where hp: "createChild E (heap s) nd eh = (hp, c)" by fastforce
  show ?thesis using createChild_ok[OF assms(1,2) _ hp] assms(3) by (simp add: with_child_def hp run_ok_def eh_ok_def)
qed

lemma add_p2_ok: "tree_ok ctx (heap s) \<Longrightarrow> n < length (heap s) \<Longrightarrow> run_ok ctx s (add_p2 E n x s)"
proof -
  assume t: "tree_ok ctx (heap s)" and n: "n < length (heap s)"
  let ?hp = "heap (add_p2 E n x s)"
  have same: "length ?hp = length (heap s)" "hand_at ?hp m = hand_at (heap s) m" "tefda_at ?hp m = tefda_at (heap s) m"
    "en_parent (?hp ! m) = en_parent (heap s ! m)" "en_children (?hp ! m) = en_children (heap s ! m)" "en_kakumei (?hp ! m) = en_kakumei (heap s ! m)" for m
    using n by (auto simp: add_p2_def Let_def nth_list_update)
  have "?hp \<noteq> []" using t same(1) by (auto simp: tree_ok_def)
  then show ?thesis using t unfolding run_ok_def grows_def tree_ok_def node_ok_def by (simp add: same)
qed

lemma calcPotential_total:
  assumes "cs_ok hand" "hand \<noteq> 0"
  shows "\<exists>p. calcPotentialToBeFightback E ctx s hand k = Ok p"
proof -
  have "0 < set_size hand" using assms set_empty_iff[of hand] finite_cards_in by (simp add: set_size_card card_gt_0_iff set_empty_def)
  then have first: "\<exists>c. set_at hand 0 = Ok c" using set_at_ids[of hand 0] by simp
  have second: "3 \<le> set_size hand \<Longrightarrow> \<exists>c. set_at hand 1 = Ok c" using set_at_ids[of hand 1] by simp
  show ?thesis using first second by (auto simp: calcPotentialToBeFightback_def Let_def)
qed

text \<open>What a hand of the enumeration satisfies at the node \<open>nd\<close>.\<close>

definition playable :: "daifugo_context \<Rightarrow> 'd sage \<Rightarrow> nat \<Rightarrow> card_set \<Rightarrow> bool" where
  "playable ctx s nd h \<longleftrightarrow> cs_ok h \<and> h \<noteq> 0 \<and> cards_in h \<subseteq> cards_in (tefda_at (heap s) nd) \<and>
    (nd = 0 \<longrightarrow> legal_put (ctxKakumei ctx) (cards_in h) (cards_in (ba_last ctx)))"

lemma playable_eh:
  assumes "cs_ok (tefda_at (heap s) nd)" "playable ctx s nd h" "eh_hand eh = h" "eh_tefda eh = del_set (tefda_at (heap s) nd) h"
  shows "eh_ok ctx s nd eh"
  using assms by (auto simp: playable_def eh_ok_def child_ok_def cs_ok_ops)

lemma canAgari_total: "cs_ok h \<Longrightarrow> \<exists>a. canAgari r h = Ok a"
  using canAgari_verdict by blast

lemma run_ok_heap: "run_ok ctx s s' \<Longrightarrow> heap s'' = heap s' \<Longrightarrow> run_ok ctx s s''"
  by (simp add: run_ok_def)

lemma looks_irrelevant [simp]: "playable ctx (s\<lparr>looks := x\<rparr>) = playable ctx s" "eh_ok ctx (s\<lparr>looks := x\<rparr>) = eh_ok ctx s"
  by (simp_all add: fun_eq_iff playable_def eh_ok_def)

lemma classify_ok:
  assumes ctx: "ctx_ok ctx"
  shows "tree_ok ctx (heap s) \<Longrightarrow> nd < length (heap s) \<Longrightarrow> list_all (playable ctx s nd) hs \<Longrightarrow>
    list_all (eh_ok ctx s nd) (better @ poor) \<Longrightarrow>
    \<exists>s' fl. classify E ctx nd hs better poor s = Ok (s', fl) \<and> run_ok ctx s s' \<and>
      (case fl of Next (b, p) \<Rightarrow> list_all (eh_ok ctx s nd) (b @ p) \<and> (nd = 0 \<longrightarrow> length b + length p = length better + length poor + length hs)
       | Stop (Some c) \<Rightarrow> c < length (heap s')
       | Stop None \<Rightarrow> \<exists>i<length hs. nd = 0 \<longrightarrow> expired E (looks s + i))"
proof (induction hs arbitrary: better poor s)
  case Nil then show ?case by (simp add: run_ok_refl)
next
  case (Cons hand hs)
  let ?node = "heap s ! nd"
  have hand: "cs_ok hand" "hand \<noteq> 0" "playable ctx s nd hand" using Cons.prems(3) by (auto simp: playable_def)
  obtain p where p: "calcPotentialToBeFightback E ctx s hand (en_kakumei ?node) = Ok p" using calcPotential_total[OF hand(1,2), of E ctx s "en_kakumei ?node"] by blast
  define eh where "eh = \<lparr>eh_hand = hand, eh_tefda = del_set (eh_tefda (en_hand ?node)) hand, p1 = p, p2 = num E 0\<rparr>"
  define s1 where "s1 = add_p2 E nd (d_sub (fp E) p (num E (int (set_size hand) - 1))) s"
  have s1: "run_ok ctx s s1" unfolding s1_def by (rule add_p2_ok[OF Cons.prems(1,2)])
  have looks: "looks s1 = looks s" by (simp add: s1_def add_p2_def Let_def)
  have eh: "eh_ok ctx s nd eh"
    by (rule playable_eh[OF tree_tefda(1)[OF ctx Cons.prems(1,2)] hand(3)]) (simp_all add: eh_def)
  have nd: "nd < length (heap s1)" and t1: "tree_ok ctx (heap s1)" using s1 Cons.prems(2) by (auto simp: run_ok_def grows_def)
  have play1: "playable ctx s1 nd = playable ctx s nd" "eh_ok ctx s1 nd = eh_ok ctx s nd"
    by (auto simp: playable_def run_okD[OF s1 Cons.prems(2)])
  define cond where "cond \<longleftrightarrow> set_empty (eh_tefda eh) \<and> (isRoot (heap s1) nd \<or> is_strong_hand E s1 (p1 (en_hand ?node)) \<or>
      is_strong_hand E s1 p \<and> set_size hand = set_size (eh_hand (en_hand ?node)))"
  have "\<exists>agari. (if cond then bind_res (canAgari (sage_rule s1) hand) (\<lambda>a. Ok (Some (a = CHK_OK))) else Ok None) = Ok agari"
    using canAgari_total[OF hand(1), of "sage_rule s1"] by auto
  then obtain agari where agari: "(if cond then bind_res (canAgari (sage_rule s1) hand) (\<lambda>a. Ok (Some (a = CHK_OK))) else Ok None) = Ok agari"
    by blast
  define s2 where "s2 = s1\<lparr>looks := looks s1 + 1\<rparr>"
  have s2: "run_ok ctx s s2" "tree_ok ctx (heap s2)" "nd < length (heap s2)" "playable ctx s2 nd = playable ctx s nd" "eh_ok ctx s2 nd = eh_ok ctx s nd" "looks s2 = looks s + 1"
    using s1 t1 nd play1 looks by (simp_all add: s2_def run_ok_def)
  have unfold: "classify E ctx nd (hand # hs) better poor s =
      (if agari = Some True then let (s, c) = with_child E s1 nd eh in Ok (s, Stop (Some c))
       else if agari = Some False \<and> nd \<noteq> 0 then classify E ctx nd hs better poor s1
       else if expired E (looks s) then Ok (tweetFunc JikanGaNai s2, Stop None)
       else if is_strong_hand E s2 p then classify E ctx nd hs (better @ [eh]) poor s2
       else classify E ctx nd hs better (poor @ [eh]) s2)"
    using agari unfolding cond_def eh_def s1_def s2_def
    by (simp add: Let_def p looks[unfolded s1_def] tree_parent(2)[OF t1 nd, unfolded s1_def])
  consider "agari = Some True" | "agari = Some False" "nd \<noteq> 0" | "\<not> (agari = Some False \<and> nd \<noteq> 0)" "agari \<noteq> Some True" "expired E (looks s)"
    | "\<not> (agari = Some False \<and> nd \<noteq> 0)" "agari \<noteq> Some True" "\<not> expired E (looks s)" by blast
  then show ?case
  proof cases
    case 1
    obtain s' c where "with_child E s1 nd eh = (s', c)" "run_ok ctx s1 s'" "c < length (heap s')"
      using with_child_ok[OF t1 nd, of eh E] eh play1(2) by auto
    then show ?thesis using 1 run_ok_trans[OF s1] by (simp add: unfold del: classify.simps)
  next
    case 2
    have "list_all (playable ctx s1 nd) hs" "list_all (eh_ok ctx s1 nd) (better @ poor)" using Cons.prems(3,4) play1 by auto
    from Cons.IH[OF t1 nd this] obtain s' fl where r: "classify E ctx nd hs better poor s1 = Ok (s', fl)" "run_ok ctx s1 s'"
      "case fl of Next (b, p) \<Rightarrow> list_all (eh_ok ctx s nd) (b @ p) \<and> (nd = 0 \<longrightarrow> length b + length p = length better + length poor + length hs)
       | Stop (Some c) \<Rightarrow> c < length (heap s')
       | Stop None \<Rightarrow> \<exists>i<length hs. nd = 0 \<longrightarrow> expired E (looks s1 + i)" unfolding play1 by blast
    have "classify E ctx nd (hand # hs) better poor s = Ok (s', fl)" using 2 r(1) by (simp add: unfold del: classify.simps)
    then show ?thesis using 2(2) r(2,3) run_ok_trans[OF s1] by (auto simp del: classify.simps split: flow.splits option.splits)
  next
    case 3
    then show ?thesis using s2(1) by (auto simp: unfold tweetFunc_def simp del: classify.simps intro!: run_ok_heap[of ctx s s2])
  next
    case go: 4
    define b' p' where "b' = (if is_strong_hand E s2 p then better @ [eh] else better)"
      and "p' = (if is_strong_hand E s2 p then poor else poor @ [eh])"
    then have 4: "b' = better @ [eh] \<and> p' = poor \<or> b' = better \<and> p' = poor @ [eh]"
        "classify E ctx nd (hand # hs) better poor s = classify E ctx nd hs b' p' s2"
      using go by (auto simp: unfold simp del: classify.simps)
    have "list_all (playable ctx s2 nd) hs" "list_all (eh_ok ctx s2 nd) (b' @ p')" using Cons.prems(3,4) s2 eh 4(1) by auto
    from Cons.IH[OF s2(2,3) this] obtain s' fl where r: "classify E ctx nd hs b' p' s2 = Ok (s', fl)" "run_ok ctx s2 s'"
      "case fl of Next (b, p) \<Rightarrow> list_all (eh_ok ctx s nd) (b @ p) \<and> (nd = 0 \<longrightarrow> length b + length p = length b' + length p' + length hs)
       | Stop (Some c) \<Rightarrow> c < length (heap s')
       | Stop None \<Rightarrow> \<exists>i<length hs. nd = 0 \<longrightarrow> expired E (looks s + 1 + i)" unfolding s2(4-6) by blast
    have "length b' + length p' = length better + length poor + 1" using 4(1) by auto
    moreover have "(\<exists>i<length hs. nd = 0 \<longrightarrow> expired E (looks s + 1 + i)) \<Longrightarrow> \<exists>i<Suc (length hs). nd = 0 \<longrightarrow> expired E (looks s + i)"
      by (metis add.assoc Suc_less_eq plus_1_eq_Suc)
    ultimately show ?thesis using r run_ok_trans[OF s2(1) r(2)] by (auto simp: 4(2) simp del: classify.simps split: flow.splits option.splits)
  qed
qed

text \<open>The nodes collected so far and the one returned: children of \<open>nd\<close>, or any node.\<close>

definition found :: "nat \<Rightarrow> nat set \<Rightarrow> 'd sage \<Rightarrow> nat set flow \<Rightarrow> bool" where
  "found nd nx0 s fl \<longleftrightarrow> (case fl of
     Next nx \<Rightarrow> nx0 \<subseteq> nx \<and> (\<forall>c\<in>nx - nx0. 0 < c \<and> c < length (heap s) \<and> en_parent (heap s ! c) = Some nd)
   | Stop x \<Rightarrow> \<exists>c. x = Some c \<and> c < length (heap s))"

lemma found_more:
  assumes "run_ok ctx s s'" "0 < c" "c < length (heap s)" "en_parent (heap s ! c) = Some nd" "found nd (insert c nx) s' fl"
  shows "found nd nx s' fl"
  using assms(2-5) run_okD[OF assms(1,3)] by (fastforce simp: found_def split: flow.splits)

lemma found_trans:
  assumes "run_ok ctx s s'" "found nd nx s (Next nx')" "found nd nx' s' fl"
  shows "found nd nx s' fl"
proof (cases fl)
  case (Next nx'')
  have keep: "c < length (heap s) \<Longrightarrow> c < length (heap s') \<and> en_parent (heap s' ! c) = en_parent (heap s ! c)" for c
    using run_okD(1,5)[OF assms(1)] by blast
  have sub: "nx \<subseteq> nx'" "nx' \<subseteq> nx''" using assms(2,3) by (simp_all add: found_def Next)
  have "0 < c \<and> c < length (heap s') \<and> en_parent (heap s' ! c) = Some nd" if "c \<in> nx'' - nx" for c
    using that assms(2,3) keep[of c] unfolding found_def Next by (cases "c \<in> nx'") auto
  then show ?thesis using sub by (auto simp: found_def Next)
next
  case (Stop x) then show ?thesis using assms(3) by (simp add: found_def)
qed

lemma follow_loop_ok:
  assumes ctx: "ctx_ok ctx"
  shows "tree_ok ctx (heap s) \<Longrightarrow> nd < length (heap s) \<Longrightarrow> list_all (eh_ok ctx s nd) ps \<Longrightarrow>
    0 < child \<Longrightarrow> child < length (heap s) \<Longrightarrow> en_parent (heap s ! child) = Some nd \<Longrightarrow>
    \<exists>s' fl. follow_loop E nd beh child ps nx s = Ok (s', fl) \<and> run_ok ctx s s' \<and> found nd nx s' fl"
proof (induction ps arbitrary: nx s)
  case Nil then show ?case by (simp add: run_ok_refl found_def)
next
  case (Cons peh ps)
  show ?case
  proof (cases "communion (eh_hand peh) (eh_hand beh)")
    case True
    obtain s' fl where "follow_loop E nd beh child ps (insert child nx) s = Ok (s', fl)" "run_ok ctx s s'" "found nd (insert child nx) s' fl"
      using Cons.IH[OF Cons.prems(1,2) _ Cons.prems(4-6), of "insert child nx"] Cons.prems(3) by force
    then show ?thesis using True found_more[OF _ Cons.prems(4-6)] by auto
  next
    case False
    obtain s1 c where c: "with_child E s nd peh = (s1, c)" "run_ok ctx s s1" "0 < c" "c < length (heap s1)" "en_parent (heap s1 ! c) = Some nd"
      using with_child_ok[OF Cons.prems(1,2), of peh E] Cons.prems(3) by auto
    have t1: "tree_ok ctx (heap s1)" using c(2) by (simp add: run_ok_def)
    have IH: "\<exists>s' fl. follow_loop E nd beh child ps nx' s1 = Ok (s', fl) \<and> run_ok ctx s1 s' \<and> found nd nx' s' fl" for nx'
      by (rule Cons.IH[OF t1]) (use Cons.prems run_okD[OF c(2)] in \<open>simp_all add: list_all_iff\<close>)
    obtain a where a: "canAgari (sage_rule s1) (hand_at (heap s1) c) = Ok a" using canAgari_total tree_tefda(2)[OF ctx t1 c(4)] by blast
    show ?thesis
    proof (cases "set_empty (tefda_at (heap s1) c)")
      case True
      then show ?thesis using False c a IH[of nx] run_ok_trans[OF c(2)] by (cases "a = CHK_OK") (fastforce simp: Let_def found_def)+
    next
      case ne: False
      then show ?thesis using False c(1) IH[of "insert c nx"] run_ok_trans[OF c(2)] found_more[OF _ c(3-5)] by (fastforce simp: Let_def)
    qed
  qed
qed

lemma may_follow_total:
  assumes "cs_ok (hand_at (heap s) nd)" "cs_ok (eh_hand beh)"
  shows "\<exists>b. may_follow E s nd beh = Ok b" "hand_at (heap s) nd = 0 \<Longrightarrow> may_follow E s nd beh = Ok True"
proof -
  have size: "0 < set_size h" if "cs_ok h" "\<not> set_empty h" for h
    using that set_empty_iff[of h] finite_cards_in by (simp add: set_size_card card_gt_0_iff)
  have at: "\<exists>c. set_at h 0 = Ok c" if "0 < set_size h" for h using that set_at_ids[of h 0] by simp
  show "\<exists>b. may_follow E s nd beh = Ok b"
  proof (cases "\<not> set_empty (hand_at (heap s) nd) \<and> \<not> is_strong_hand E s (p1 (en_hand (heap s ! nd))) \<and>
      set_size (hand_at (heap s) nd) = set_size (eh_hand beh)")
    case True
    then show ?thesis using size[OF assms(1)] at[of "hand_at (heap s) nd"] at[of "eh_hand beh"] by (auto simp: may_follow_def Let_def)
  qed (auto simp: may_follow_def Let_def)
  show "may_follow E s nd beh = Ok True" if "hand_at (heap s) nd = 0" using that by (simp add: may_follow_def set_empty_def Let_def)
qed

lemma better_loop_ok:
  assumes ctx: "ctx_ok ctx"
  shows "tree_ok ctx (heap s) \<Longrightarrow> nd < length (heap s) \<Longrightarrow> list_all (eh_ok ctx s nd) (poor @ bs) \<Longrightarrow>
    \<exists>s' fl. better_loop E nd poor bs nx s = Ok (s', fl) \<and> run_ok ctx s s' \<and> found nd nx s' fl \<and>
      (nd = 0 \<and> poor = [] \<and> bs \<noteq> [] \<longrightarrow> fl \<noteq> Next {})"
proof (induction bs arbitrary: nx s)
  case Nil then show ?case by (simp add: run_ok_refl found_def)
next
  case (Cons beh bs)
  have beh: "eh_ok ctx s nd beh" "cs_ok (eh_hand beh)" using Cons.prems(3) by (auto simp: eh_ok_def child_ok_def)
  obtain may where may: "may_follow E s nd beh = Ok may" using may_follow_total(1)[OF tree_tefda(2)[OF ctx Cons.prems(1,2)] beh(2)] by blast
  have root: "nd = 0 \<Longrightarrow> may" using may may_follow_total(2)[OF tree_tefda(2)[OF ctx Cons.prems(1,2)] beh(2), of E] Cons.prems(1)
    by (auto simp: tree_ok_def)
  show ?case
  proof (cases may)
    case False
    then have "nd \<noteq> 0" using root by blast
    moreover have "better_loop E nd poor (beh # bs) nx s = better_loop E nd poor bs nx s" using False may by simp
    ultimately show ?thesis using Cons.IH[OF Cons.prems(1,2), of nx] Cons.prems(3) by (simp only: list_all_append list.pred_inject) blast
  next
    case True
    obtain s1 c where c: "with_child E s nd beh = (s1, c)" "run_ok ctx s s1" "0 < c" "c < length (heap s1)" "en_parent (heap s1 ! c) = Some nd"
      using with_child_ok[OF Cons.prems(1,2) beh(1), of E] by auto
    have t1: "tree_ok ctx (heap s1)" "nd < length (heap s1)" using c(2) Cons.prems(2) by (auto simp: run_ok_def grows_def)
    have eh1: "list_all (eh_ok ctx s1 nd) (poor @ bs)" using Cons.prems(3) run_okD(2)[OF c(2) Cons.prems(2)] by (simp add: list_all_iff)
    show ?thesis
    proof (cases "poor = []")
      case poor: True
      obtain s' fl where r: "better_loop E nd poor bs (insert c nx) s1 = Ok (s', fl)" "run_ok ctx s1 s'" "found nd (insert c nx) s' fl"
        using Cons.IH[OF t1 eh1] by blast
      have "fl \<noteq> Next {}" using r(3) by (auto simp: found_def)
      then show ?thesis using r True may c(1) poor run_ok_trans[OF c(2) r(2)] found_more[OF r(2) c(3-5) r(3)] by simp
    next
      case poor: False
      obtain s2 fl where f: "follow_loop E nd beh c poor nx s1 = Ok (s2, fl)" "run_ok ctx s1 s2" "found nd nx s2 fl"
        using follow_loop_ok[OF ctx t1 _ c(3-5), of poor E beh nx] eh1 by auto
      show ?thesis
      proof (cases fl)
        case (Stop x)
        then show ?thesis using f True may c(1) poor run_ok_trans[OF c(2) f(2)] by simp
      next
        case (Next nx')
        have t2: "tree_ok ctx (heap s2)" "nd < length (heap s2)" using f(2) t1(2) by (auto simp: run_ok_def grows_def)
        have "list_all (eh_ok ctx s2 nd) (poor @ bs)" using eh1 run_okD(2)[OF f(2) t1(2)] by (simp add: list_all_iff)
        then obtain s' fl' where r: "better_loop E nd poor bs nx' s2 = Ok (s', fl')" "run_ok ctx s2 s'" "found nd nx' s' fl'"
          using Cons.IH[OF t2] by blast
        have "found nd nx s' fl'" using found_trans[OF r(2) _ r(3)] f(3) Next by simp
        then show ?thesis using r f(1) Next True may c(1) poor run_ok_trans[OF c(2) run_ok_trans[OF f(2) r(2)]] by simp
      qed
    qed
  qed
qed

lemma root_loop_ok:
  "tree_ok ctx (heap s) \<Longrightarrow> nd < length (heap s) \<Longrightarrow> list_all (eh_ok ctx s nd) ps \<Longrightarrow>
    \<exists>s' fl. root_loop E nd ps nx s = (s', fl) \<and> run_ok ctx s s' \<and> found nd nx s' fl \<and> (ps \<noteq> [] \<longrightarrow> fl \<noteq> Next {})"
proof (induction ps arbitrary: nx s)
  case Nil then show ?case by (simp add: run_ok_refl found_def)
next
  case (Cons peh ps)
  obtain s1 c where c: "with_child E s nd peh = (s1, c)" "run_ok ctx s s1" "0 < c" "c < length (heap s1)" "en_parent (heap s1 ! c) = Some nd"
    using with_child_ok[OF Cons.prems(1,2), of peh E] Cons.prems(3) by auto
  have t1: "tree_ok ctx (heap s1)" "nd < length (heap s1)" using c(2) Cons.prems(2) by (auto simp: run_ok_def grows_def)
  have "list_all (eh_ok ctx s1 nd) ps" using Cons.prems(3) run_okD(2)[OF c(2) Cons.prems(2)] by (simp add: list_all_iff)
  then obtain s' fl where r: "root_loop E nd ps (insert c nx) s1 = (s', fl)" "run_ok ctx s1 s'" "found nd (insert c nx) s' fl"
    using Cons.IH[OF t1] by blast
  have "fl \<noteq> Next {}" using r(3) by (auto simp: found_def)
  then show ?case using c r run_ok_trans[OF c(2) r(2)] found_more[OF r(2) c(3-5) r(3)] by (simp add: found_def)
qed

section \<open>The whole search\<close>

lemma heir_ok:
  assumes "tree_ok ctx hp"
  shows "n < length hp \<Longrightarrow> n < k \<Longrightarrow> \<exists>h. getHeirOfRoot k hp n = Ok h \<and> h < length hp \<and>
    (if n = 0 then h = 0 else en_parent (hp ! h) = Some 0)"
proof (induction k arbitrary: n)
  case (Suc k)
  show ?case
  proof (cases "n = 0")
    case True then show ?thesis using tree_parent(1)[OF assms, of n] Suc.prems(1) by simp
  next
    case False
    then obtain m where m: "en_parent (hp ! n) = Some m" "m < n" using tree_node[OF assms, of n] Suc.prems(1) by (auto simp: node_ok_def)
    have "m < length hp" "m < k" using m(2) Suc.prems by simp_all
    then show ?thesis using Suc.IH[of m] m Suc.prems False tree_parent(2)[OF assms, of m] by (cases "m = 0") simp_all
  qed
qed simp

lemma look_ahead_ok:
  assumes ctx: "ctx_ok ctx" and t: "tree_ok ctx (heap s)" "nd < length (heap s)" and eh: "list_all (eh_ok ctx s nd) (poor @ better)"
  shows "\<exists>s' fl. look_ahead E nd better poor nx s = Ok (s', fl) \<and> run_ok ctx s s' \<and> found nd nx s' fl \<and>
      (nd = 0 \<and> poor = [] \<and> better \<noteq> [] \<longrightarrow> fl \<noteq> Next {})"
proof -
  define deep where "deep = (case en_parent (heap s ! nd) of None \<Rightarrow> Ok True
      | Some m \<Rightarrow> if isRoot (heap s) m then Ok True
          else bind_res (getHeirOfRoot (length (heap s)) (heap s) nd) (\<lambda>h. Ok (\<not> set_empty (hand_at (heap s) h))))"
  have "\<exists>d. deep = Ok d" using heir_ok[OF t(1,2,2)] by (auto simp: deep_def split: option.split)
  then obtain d where d: "deep = Ok d" by blast
  have "nd = 0 \<Longrightarrow> d" using d tree_parent(1)[OF t] by (auto simp: deep_def)
  moreover have "look_ahead E nd better poor nx s = (if d then better_loop E nd poor better nx s else Ok (s, Next nx))"
    unfolding look_ahead_def deep_def[symmetric] by (simp add: d)
  ultimately show ?thesis using better_loop_ok[OF ctx t eh, of E nx] run_ok_refl[OF t(1)] by (cases d) (auto simp: found_def)
qed

lemma expand_root_ok:
  assumes ctx: "ctx_ok ctx" and t: "tree_ok ctx (heap s)" and eh: "list_all (eh_ok ctx s 0) poor"
  shows "\<exists>s' fl. expand_root E ba_cards 0 poor nx s = (s', fl) \<and> run_ok ctx s s' \<and> found 0 nx s' fl \<and>
      (poor \<noteq> [] \<or> nx \<noteq> {} \<longrightarrow> fl \<noteq> Next {})"
proof -
  have len: "0 < length (heap s)" using t by (simp add: tree_ok_def)
  obtain s1 fl where r: "root_loop E 0 poor nx s = (s1, fl)" "run_ok ctx s s1" "found 0 nx s1 fl" "poor \<noteq> [] \<longrightarrow> fl \<noteq> Next {}"
    using root_loop_ok[OF t len eh, of E nx] by blast
  show ?thesis
  proof (cases fl)
    case (Stop x) then show ?thesis using r by (simp add: expand_root_def)
  next
    case (Next nx1)
    have t1: "tree_ok ctx (heap s1)" "0 < length (heap s1)" using r(2) len by (auto simp: run_ok_def grows_def)
    have nx1: "nx \<subseteq> nx1" using r(3) Next by (simp add: found_def)
    let ?eh = "(new_hand E)\<lparr>eh_tefda := tefda_at (heap s1) 0\<rparr>"
    have "eh_ok ctx s1 0 ?eh"
      using tree_tefda(1)[OF ctx t1] by (simp add: eh_ok_def child_ok_def new_hand_def cs_ok_ops legal_put_def)
    then obtain s2 c where c: "with_child E s1 0 ?eh = (s2, c)" "run_ok ctx s1 s2" "0 < c" "c < length (heap s2)" "en_parent (heap s2 ! c) = Some 0"
      using with_child_ok[OF t1, of ?eh E] by auto
    have "found 0 nx1 s2 (Next (insert c nx1))" using c(3-5) by (auto simp: found_def)
    then have "found 0 nx s2 (Next (insert c nx1))" using found_trans[OF c(2)] r(3) Next by blast
    then show ?thesis using r c(1) run_ok_trans[OF r(2) c(2)] Next nx1 by (auto simp: expand_root_def)
  qed
qed

text \<open>The hands the enumeration finds at a node, and the state the classification starts from.\<close>

lemma node_hands:
  assumes ctx: "ctx_ok ctx" and t: "tree_ok ctx (heap s)" "nd < length (heap s)"
    and bc: "cs_ok ba_cards" "nd = 0 \<Longrightarrow> ba_cards = ba_last ctx"
  shows "\<exists>hands. enumrateAvairableHands (sage_rule s) (tefda_at (heap s) nd) ba_cards (en_kakumei (heap s ! nd)) = Ok hands \<and>
    finite hands \<and> list_all (playable ctx s nd) (sorted_list_of_set hands) \<and> (tefda_at (heap s) nd = 0 \<longrightarrow> hands = {})"
proof -
  obtain hands where hands: "enumrateAvairableHands (sage_rule s) (tefda_at (heap s) nd) ba_cards (en_kakumei (heap s ! nd)) = Ok hands"
      "\<forall>h\<in>hands. cs_ok h \<and> h \<noteq> 0 \<and> cards_in h \<subseteq> cards_in (tefda_at (heap s) nd) \<and>
         legal_put (en_kakumei (heap s ! nd)) (cards_in h) (cards_in ba_cards)"
    using enumerate_sound[OF tree_tefda(1)[OF ctx t] bc(1)] by blast
  have fin: "finite hands" by (rule finite_subset[OF subset_UNIV]) simp
  have k: "nd = 0 \<Longrightarrow> en_kakumei (heap s ! nd) = ctxKakumei ctx" using t(1) by (simp add: tree_ok_def)
  have "playable ctx s nd h" if "h \<in> hands" for h using hands(2) that k bc(2) by (auto simp: playable_def)
  moreover have "tefda_at (heap s) nd = 0 \<Longrightarrow> hands = {}" using hands(2) set_empty_iff by (auto simp: set_empty_def)
  ultimately show ?thesis using hands(1) fin by (simp add: list_all_iff)
qed

lemma think_node_ok:
  assumes ctx: "ctx_ok ctx" and t: "tree_ok ctx (heap s)" "nd < length (heap s)"
    and bc: "cs_ok ba_cards" "nd = 0 \<Longrightarrow> ba_cards = ba_last ctx"
    and time: "\<And>hands i. nd = 0 \<Longrightarrow> enumrateAvairableHands (sage_rule s) (deck ctx) (ba_last ctx) (ctxKakumei ctx) = Ok hands \<Longrightarrow>
       i < card hands \<Longrightarrow> \<not> expired E (looks s + i)"
  shows "\<exists>s' fl. think_node E ctx ba_cards nd nx s = Ok (s', fl) \<and> run_ok ctx s s' \<and>
     (fl = Stop None \<and> nd \<noteq> 0 \<or> found nd nx s' fl) \<and> (nd = 0 \<longrightarrow> fl \<noteq> Next {}) \<and>
     (tefda_at (heap s) nd = 0 \<longrightarrow> fl = Stop (Some nd))"
proof -
  let ?k = "en_kakumei (heap s ! nd)"
  obtain hands where hands: "enumrateAvairableHands (sage_rule s) (tefda_at (heap s) nd) ba_cards ?k = Ok hands" "finite hands"
      "list_all (playable ctx s nd) (sorted_list_of_set hands)" "tefda_at (heap s) nd = 0 \<longrightarrow> hands = {}"
    using node_hands[OF ctx t bc] by blast
  have root: "nd = 0 \<Longrightarrow> i < card hands \<Longrightarrow> \<not> expired E (looks s + i)" for i
    using t(1) time[of hands i] bc(2) hands(1) by (auto simp: tree_ok_def)
  define s0 where "s0 = s\<lparr>sage_rule := setKakumei ?k (sage_rule s)\<rparr>"
  have s0: "heap s0 = heap s" "looks s0 = looks s" "playable ctx s0 = playable ctx s" "eh_ok ctx s0 = eh_ok ctx s"
    by (simp_all add: s0_def fun_eq_iff playable_def eh_ok_def)
  show ?thesis
  proof (cases "hands = {}")
    case True
    then have "think_node E ctx ba_cards nd nx s = Ok (s0, Stop (Some nd))" by (simp add: think_node_def Let_def hands(1) s0_def)
    then show ?thesis using t by (auto simp: run_ok_def s0 found_def)
  next
    case ne: False
    then have ne0: "tefda_at (heap s) nd \<noteq> 0" and cards: "0 < card hands" using hands(2,4) by (auto simp: card_gt_0_iff)
    obtain s1 fl where c: "classify E ctx nd (sorted_list_of_set hands) [] [] s0 = Ok (s1, fl)" "run_ok ctx s0 s1"
      "case fl of Next (b, p) \<Rightarrow> list_all (eh_ok ctx s nd) (b @ p) \<and> (nd = 0 \<longrightarrow> length b + length p = card hands)
       | Stop (Some c) \<Rightarrow> c < length (heap s1)
       | Stop None \<Rightarrow> \<exists>i<card hands. nd = 0 \<longrightarrow> expired E (looks s + i)"
      using classify_ok[OF ctx, of s0 nd "sorted_list_of_set hands" "[]" "[]" E] t hands(3)
        list.pred_inject(1)[of "eh_ok ctx s nd"]
      unfolding s0 length_sorted_list_of_set list.size(3) add_0 append_Nil by blast
    have run1: "run_ok ctx s s1" using c(2) by (simp add: run_ok_def s0)
    have t1: "tree_ok ctx (heap s1)" "nd < length (heap s1)" using run1 t(2) by (auto simp: run_ok_def grows_def)
    show ?thesis
    proof (cases fl)
      case (Stop x)
      have "think_node E ctx ba_cards nd nx s = Ok (s1, Stop x)"
        using c(1) ne Stop by (simp add: think_node_def Let_def hands(1) flip: s0_def)
      moreover have "x = None \<Longrightarrow> nd \<noteq> 0" using c(3) Stop root by auto
      ultimately show ?thesis using run1 c(3) Stop ne0 by (cases x) (auto simp: found_def)
    next
      case (Next bp)
      obtain b p where bp: "bp = (b, p)" by (cases bp)
      have eh: "list_all (eh_ok ctx s1 nd) (p @ b)" and some: "nd = 0 \<Longrightarrow> b \<noteq> [] \<or> p \<noteq> []"
        using c(3) run_okD(2)[OF run1 t(2)] cards by (auto simp: Next bp list_all_iff)
      obtain s2 fl2 where b2: "look_ahead E nd b p nx s1 = Ok (s2, fl2)" "run_ok ctx s1 s2" "found nd nx s2 fl2"
          "nd = 0 \<and> p = [] \<and> b \<noteq> [] \<longrightarrow> fl2 \<noteq> Next {}"
        using look_ahead_ok[OF ctx t1 eh, of E nx] by blast
      have run2: "run_ok ctx s s2" by (rule run_ok_trans[OF run1 b2(2)])
      have t2: "tree_ok ctx (heap s2)" "nd < length (heap s2)" using run2 t(2) by (auto simp: run_ok_def grows_def)
      have th: "think_node E ctx ba_cards nd nx s = (case fl2 of Stop x \<Rightarrow> Ok (s2, Stop x)
          | Next nx \<Rightarrow> Ok (if nd = 0 then expand_root E ba_cards nd p nx s2 else (s2, Next nx)))"
        using c(1) ne Next bp b2(1) tree_parent(2)[OF t2] by (simp add: think_node_def Let_def hands(1) flip: s0_def)
      show ?thesis
      proof (cases "nd = 0 \<and> (\<exists>nx. fl2 = Next nx)")
        case False
        then show ?thesis using th run2 b2(3) ne0 by (cases fl2) auto
      next
        case True
        then obtain nx2 where nx2: "fl2 = Next nx2" "nd = 0" by blast
        have "list_all (eh_ok ctx s2 0) p" using eh run_okD(2)[OF b2(2) t1(2)] nx2(2) by (auto simp: list_all_iff)
        then obtain s3 fl3 where r3: "expand_root E ba_cards 0 p nx2 s2 = (s3, fl3)" "run_ok ctx s2 s3" "found 0 nx2 s3 fl3"
            "p \<noteq> [] \<or> nx2 \<noteq> {} \<longrightarrow> fl3 \<noteq> Next {}"
          using expand_root_ok[OF ctx t2(1), of p E ba_cards nx2] by blast
        have "found 0 nx s3 fl3" using found_trans[OF r3(2) _ r3(3)] b2(3) nx2 by simp
        moreover have "fl3 \<noteq> Next {}" using r3(4) b2(4) some nx2 by auto
        ultimately show ?thesis using th nx2 r3(1) run_ok_trans[OF run2 r3(2)] ne0 by auto
      qed
    qed
  qed
qed

text \<open>A level of nodes below the root, each with at most \<open>B\<close> cards.\<close>

definition level :: "'d eval_node list \<Rightarrow> nat \<Rightarrow> nat set \<Rightarrow> bool" where
  "level hp B ns \<longleftrightarrow> (\<forall>n\<in>ns. 0 < n \<and> n < length hp \<and> card (cards_in (tefda_at hp n)) \<le> B)"

lemma level_grows: "grows hp hp' \<Longrightarrow> level hp B ns \<Longrightarrow> level hp' B ns"
  by (auto simp: level_def grows_def)

lemma finite_level: "level hp B ns \<Longrightarrow> finite ns"
  by (rule finite_subset[of _ "{..<length hp}"]) (auto simp: level_def)

text \<open>The children of a level have fewer cards.\<close>

lemma found_level:
  assumes t: "tree_ok ctx (heap s)" and n: "0 < n" "n < length (heap s)" "card (cards_in (tefda_at (heap s) n)) \<le> B"
    and f: "found n nx s (Next nx')" "level (heap s) (B - 1) nx"
  shows "level (heap s) (B - 1) nx'"
  unfolding level_def
proof
  fix c assume c: "c \<in> nx'"
  show "0 < c \<and> c < length (heap s) \<and> card (cards_in (tefda_at (heap s) c)) \<le> B - 1"
  proof (cases "c \<in> nx")
    case True then show ?thesis using f(2) by (simp add: level_def)
  next
    case False
    then have p: "0 < c" "c < length (heap s)" "en_parent (heap s ! c) = Some n" using f(1) c by (auto simp: found_def)
    then have "hand_at (heap s) c \<noteq> 0" using tree_node[OF t p(1,2)] n(1) by (auto simp: node_ok_def child_ok_def)
    then show ?thesis using tree_decrease[OF t p] n(3) p by simp
  qed
qed

lemma think_nodes_ok:
  assumes ctx: "ctx_ok ctx"
  shows "tree_ok ctx (heap s) \<Longrightarrow> level (heap s) B (set ns) \<Longrightarrow> level (heap s) (B - 1) nx \<Longrightarrow>
    \<exists>s' fl. think_nodes E ctx 0 ns nx s = Ok (s', fl) \<and> run_ok ctx s s' \<and>
      (case fl of Next nx' \<Rightarrow> level (heap s') (B - 1) nx' \<and> (B = 0 \<longrightarrow> ns = [])
       | Stop x \<Rightarrow> x = None \<or> (\<exists>c. x = Some c \<and> c < length (heap s')))"
proof (induction ns arbitrary: nx s)
  case Nil then show ?case by (simp add: run_ok_refl)
next
  case (Cons n ns)
  have n: "0 < n" "n < length (heap s)" "card (cards_in (tefda_at (heap s) n)) \<le> B" using Cons.prems(2) by (auto simp: level_def)
  obtain s1 fl where r: "think_node E ctx 0 n nx s = Ok (s1, fl)" "run_ok ctx s s1" "fl = Stop None \<or> found n nx s1 fl"
      "tefda_at (heap s) n = 0 \<longrightarrow> fl = Stop (Some n)"
    using think_node_ok[OF ctx Cons.prems(1) n(2), of 0 E nx] n(1) by (auto simp: cs_ok_ops)
  show ?case
  proof (cases fl)
    case (Stop x)
    then show ?thesis using r by (auto simp: found_def)
  next
    case (Next nx1)
    have "tefda_at (heap s) n \<noteq> 0" using r(4) Next by auto
    then have B: "B \<noteq> 0" using n(3) set_empty_iff[of "tefda_at (heap s) n"] finite_cards_in by (auto simp: set_empty_def)
    have g: "grows (heap s) (heap s1)" and t1: "tree_ok ctx (heap s1)" using r(2) by (auto simp: run_ok_def)
    have "level (heap s1) (B - 1) nx1"
      by (rule found_level[OF t1 n(1)]) (use r(3) Next run_okD[OF r(2) n(2)] n(3) level_grows[OF g Cons.prems(3)] in auto)
    moreover have "level (heap s1) B (set ns)" using level_grows[OF g Cons.prems(2)] by (simp add: level_def)
    ultimately obtain s' fl' where r': "think_nodes E ctx 0 ns nx1 s1 = Ok (s', fl')" "run_ok ctx s1 s'"
      "case fl' of Next nx' \<Rightarrow> level (heap s') (B - 1) nx' \<and> (B = 0 \<longrightarrow> ns = [])
       | Stop x \<Rightarrow> x = None \<or> (\<exists>c. x = Some c \<and> c < length (heap s'))" using Cons.IH[OF t1] by blast
    then show ?thesis using r(1) Next B run_ok_trans[OF r(2) r'(2)] by (auto split: flow.splits)
  qed
qed

lemma think_recursive_ok:
  assumes ctx: "ctx_ok ctx"
  shows "tree_ok ctx (heap s) \<Longrightarrow> level (heap s) B ns \<Longrightarrow> ns \<noteq> {} \<Longrightarrow> B < depth \<Longrightarrow>
    \<exists>s' r. think_recursive depth E ctx 0 ns s = Ok (s', r) \<and> run_ok ctx s s' \<and> (\<forall>c. r = Some c \<longrightarrow> c < length (heap s'))"
proof (induction depth arbitrary: B ns s)
  case (Suc depth)
  define xs where "xs = sort_key (addr E) (sorted_list_of_set ns)"
  have xs: "set xs = ns" "xs \<noteq> []" using finite_level[OF Suc.prems(2)] Suc.prems(3) by (auto simp: xs_def set_empty[symmetric] simp del: set_empty)
  obtain s1 fl where r: "think_nodes E ctx 0 xs {} s = Ok (s1, fl)" "run_ok ctx s s1"
      "case fl of Next nx' \<Rightarrow> level (heap s1) (B - 1) nx' \<and> (B = 0 \<longrightarrow> xs = [])
       | Stop x \<Rightarrow> x = None \<or> (\<exists>c. x = Some c \<and> c < length (heap s1))"
    using think_nodes_ok[OF ctx Suc.prems(1), of B xs "{}" E] Suc.prems(2) xs(1) by (auto simp: level_def)
  show ?case
  proof (cases fl)
    case (Stop x) then show ?thesis using r by (auto simp flip: xs_def)
  next
    case (Next nx)
    have t1: "tree_ok ctx (heap s1)" using r(2) by (simp add: run_ok_def)
    have "level (heap s1) (B - 1) nx" "B - 1 < depth" using r(3) Next xs(2) Suc.prems(4) by auto
    then have "nx \<noteq> {} \<Longrightarrow> \<exists>s' r. think_recursive depth E ctx 0 nx s1 = Ok (s', r) \<and> run_ok ctx s1 s' \<and> (\<forall>c. r = Some c \<longrightarrow> c < length (heap s'))"
      using Suc.IH[OF t1] by blast
    then show ?thesis using r(1,2) Next run_ok_trans[OF r(2)] by (cases "nx = {}") (auto simp flip: xs_def)
  qed
qed simp

definition in_time :: "'d sage_env \<Rightarrow> daifugo_context \<Rightarrow> 'd sage \<Rightarrow> bool" where
  "in_time E ctx s \<longleftrightarrow> (\<forall>hands. enumrateAvairableHands (sage_rule s) (deck ctx) (ba_last ctx) (ctxKakumei ctx) = Ok hands \<longrightarrow>
     (\<forall>i<card hands. \<not> expired E (looks s + i)))"

lemma think_root_ok:
  assumes ctx: "ctx_ok ctx" and hp: "heap s = [new_node E (deck ctx) (ctxKakumei ctx)]" and time: "in_time E ctx s"
  shows "\<exists>s' r. think_recursive (set_size (deck ctx) + 2) E ctx (ba_last ctx) {0} s = Ok (s', r) \<and> tree_ok ctx (heap s') \<and>
    (case r of Some c \<Rightarrow> c < length (heap s') | None \<Rightarrow> 1 < length (heap s'))"
proof -
  have t: "tree_ok ctx (heap s)" "0 < length (heap s)" using tree_ok_start[OF ctx] hp by simp_all
  obtain s1 fl where r: "think_node E ctx (ba_last ctx) 0 {} s = Ok (s1, fl)" "run_ok ctx s s1" "found 0 {} s1 fl" "fl \<noteq> Next {}"
    using think_node_ok[OF ctx t ba_last_ok[OF ctx], of E "{}"] time by (auto simp: in_time_def)
  have t1: "tree_ok ctx (heap s1)" using r(2) by (simp add: run_ok_def)
  show ?thesis
  proof (cases fl)
    case (Stop x) then show ?thesis using r t1 by (auto simp: found_def)
  next
    case (Next nx)
    have ne: "nx \<noteq> {}" using r(4) Next by simp
    have child: "0 < c \<and> c < length (heap s1) \<and> en_parent (heap s1 ! c) = Some 0" if "c \<in> nx" for c using r(3) Next that by (auto simp: found_def)
    have lv: "level (heap s1) (set_size (deck ctx)) nx" unfolding level_def
    proof
      fix c assume c: "c \<in> nx"
      have "cards_in (tefda_at (heap s1) c) \<subseteq> cards_in (deck ctx)"
        using tree_node[OF t1, of c] child[OF c] t1 by (auto simp: node_ok_def child_ok_def tree_ok_def)
      then have "card (cards_in (tefda_at (heap s1) c)) \<le> set_size (deck ctx)"
        using card_mono[OF finite_cards_in] ctx by (simp add: ctx_ok_def set_size_card)
      then show "0 < c \<and> c < length (heap s1) \<and> card (cards_in (tefda_at (heap s1) c)) \<le> set_size (deck ctx)" using child[OF c] by simp
    qed
    obtain s' x where x: "think_recursive (set_size (deck ctx) + 1) E ctx 0 nx s1 = Ok (s', x)" "run_ok ctx s1 s'" "\<forall>c. x = Some c \<longrightarrow> c < length (heap s')"
      using think_recursive_ok[OF ctx t1 lv ne, of "set_size (deck ctx) + 1" E] by auto
    have "1 < length (heap s')" using child ne x(2) by (fastforce simp: run_ok_def grows_def)
    moreover have "think_recursive (set_size (deck ctx) + 2) E ctx (ba_last ctx) {0} s = Ok (s', x)" using r(1) Next ne x(1) by simp
    ultimately show ?thesis using x(2,3) by (auto simp: run_ok_def split: option.split)
  qed
qed

lemma saveHandsTree_ok:
  assumes "tree_ok ctx hp"
  shows "n < length hp \<Longrightarrow> n < k \<Longrightarrow> \<exists>tree. saveHandsTree k hp n buff = Ok tree"
proof (induction k arbitrary: n buff)
  case (Suc k)
  show ?case
  proof (cases "n = 0")
    case True then show ?thesis using assms by (simp add: tree_ok_def set_empty_def)
  next
    case False
    then obtain m where m: "en_parent (hp ! n) = Some m" "m < n" using tree_node[OF assms, of n] Suc.prems(1) by (auto simp: node_ok_def)
    have "m < length hp" "m < k" using m(2) Suc.prems by simp_all
    then show ?thesis using Suc.IH[of m] m(1) by (simp split: if_split)
  qed
qed simp

lemma best_loop_ok:
  assumes "\<And>c. c \<in> set cs \<Longrightarrow> c < length hp \<and> (\<exists>r. rec c = Ok r \<and> (\<forall>d. r = Some d \<longrightarrow> d < length hp))"
    and "\<And>b. best = Some b \<Longrightarrow> b < length hp"
  shows "\<exists>r. best_loop E rec hp cs best = Ok r \<and> (\<forall>d. r = Some d \<longrightarrow> d < length hp)"
  using assms
proof (induction cs arbitrary: best)
  case (Cons c cs)
  have "\<exists>r. (if d_eq (fp E) (p2 (en_hand (hp ! c))) (num E 0) then rec c else Ok (Some c)) = Ok r \<and> (\<forall>d. r = Some d \<longrightarrow> d < length hp)"
    using Cons.prems(1)[of c] by auto
  then obtain r where r: "(if d_eq (fp E) (p2 (en_hand (hp ! c))) (num E 0) then rec c else Ok (Some c)) = Ok r" "\<And>d. r = Some d \<Longrightarrow> d < length hp"
    by blast
  have IH: "(\<And>b. best' = Some b \<Longrightarrow> b < length hp) \<Longrightarrow> \<exists>r. best_loop E rec hp cs best' = Ok r \<and> (\<forall>d. r = Some d \<longrightarrow> d < length hp)" for best'
    by (rule Cons.IH) (use Cons.prems(1) in auto)
  show ?case
  proof (cases r)
    case None then show ?thesis using r(1) IH[of best] Cons.prems(2) by simp
  next
    case (Some d)
    define best' where "best' = (case best of None \<Rightarrow> Some d
       | Some b \<Rightarrow> if d_lt (fp E) (p2 (en_hand (hp ! d))) (p2 (en_hand (hp ! b))) then Some d else Some b)"
    have "b < length hp" if "best' = Some b" for b
      using that r(2)[OF Some] Cons.prems(2) by (auto simp: best'_def split: option.splits if_splits)
    then show ?thesis using r(1) Some IH[of best'] by (simp flip: best'_def)
  qed
qed simp

lemma tree_children:
  assumes "tree_ok ctx hp" "m < length hp" "en_children (hp ! m) = Some cs" "c \<in> set cs"
  shows "m < c" "c < length hp" "en_parent (hp ! c) = Some m"
proof -
  show c: "c < length hp" "en_parent (hp ! c) = Some m" using assms unfolding tree_ok_def by blast+
  then have "c \<noteq> 0" using tree_parent(1)[OF assms(1) c(1)] by auto
  then show "m < c" using tree_node[OF assms(1), of c] c by (auto simp: node_ok_def)
qed

lemma findBest_ok:
  assumes t: "tree_ok ctx hp"
  shows "n < length hp \<Longrightarrow> length hp \<le> n + k \<Longrightarrow> \<exists>r. findBestParamChild k E hp n = Ok r \<and> (\<forall>c. r = Some c \<longrightarrow> c < length hp)"
proof (induction k arbitrary: n)
  case (Suc k)
  show ?case
  proof (cases "en_children (hp ! n)")
    case None then show ?thesis by simp
  next
    case (Some cs)
    have "c < length hp \<and> (\<exists>r. findBestParamChild k E hp c = Ok r \<and> (\<forall>d. r = Some d \<longrightarrow> d < length hp))" if "c \<in> set cs" for c
      using Suc.IH[of c] tree_children[OF t Suc.prems(1) Some that] Suc.prems(2) by simp
    then show ?thesis using best_loop_ok[of cs hp "findBestParamChild k E hp" None E] Some by simp
  qed
qed simp

lemma heir_legal:
  assumes ctx: "ctx_ok ctx" and t: "tree_ok ctx hp" "n < length hp"
  shows "\<exists>h. getHeirOfRoot (length hp) hp n = Ok h \<and> cards_in (hand_at hp h) \<subseteq> cards_in (deck ctx) \<and>
    legal_put (ctxKakumei ctx) (cards_in (hand_at hp h)) (cards_in (ba_last ctx))"
proof -
  obtain h where h: "getHeirOfRoot (length hp) hp n = Ok h" "h < length hp" "if n = 0 then h = 0 else en_parent (hp ! h) = Some 0"
    using heir_ok[OF t(1) t(2) t(2)] by blast
  show ?thesis
  proof (cases "h = 0")
    case True then show ?thesis using h(1) t(1) by (simp add: tree_ok_def legal_put_def)
  next
    case False
    then have "en_parent (hp ! h) = Some 0" "tefda_at hp 0 = deck ctx" using h(3) t(1) by (auto simp: tree_ok_def split: if_splits)
    then show ?thesis using tree_node[OF t(1), of h] False h by (auto simp: node_ok_def child_ok_def)
  qed
qed

lemma last_child:
  assumes "tree_ok ctx hp" "1 < length hp"
  shows "\<exists>cs. en_children (hp ! 0) = Some cs \<and> cs \<noteq> [] \<and> last cs < length hp"
proof -
  obtain cs where cs: "en_children (hp ! 0) = Some cs" "1 \<in> set cs" using tree_node[OF assms(1), of 1] assms(2) by (auto simp: node_ok_def)
  have "cs \<noteq> []" "0 < length hp" using cs(2) assms(2) by auto
  then show ?thesis using cs tree_children(2)[OF assms(1) _ cs(1), of "last cs"] by simp
qed

lemma think2_legal:
  assumes ctx: "ctx_ok ctx" and time: "in_time E ctx s"
  shows "\<exists>s' h. think2 E ctx (ba_last ctx) s = Ok (s', h) \<and> cards_in h \<subseteq> cards_in (deck ctx) \<and>
    legal_put (ctxKakumei ctx) (cards_in h) (cards_in (ba_last ctx))"
proof -
  let ?s = "think2_start E ctx s"
  have start: "heap ?s = [new_node E (deck ctx) (ctxKakumei ctx)]" "in_time E ctx ?s"
    using time by (simp_all add: think2_start_def Let_def in_time_def)
  obtain s1 r where r: "think_recursive (set_size (deck ctx) + 2) E ctx (ba_last ctx) {0} ?s = Ok (s1, r)" "tree_ok ctx (heap s1)"
    "case r of Some c \<Rightarrow> c < length (heap s1) | None \<Rightarrow> 1 < length (heap s1)" using think_root_ok[OF ctx start] by blast
  note heir = heir_legal[OF ctx r(2)]
  show ?thesis
  proof (cases r)
    case (Some c)
    then have c: "c < length (heap s1)" using r(3) by simp
    obtain tree where "saveHandsTree (length (heap s1)) (heap s1) c [] = Ok tree" using saveHandsTree_ok[OF r(2) c c] by blast
    moreover obtain h where "getHeirOfRoot (length (heap s1)) (heap s1) c = Ok h" "cards_in (hand_at (heap s1) h) \<subseteq> cards_in (deck ctx)"
      "legal_put (ctxKakumei ctx) (cards_in (hand_at (heap s1) h)) (cards_in (ba_last ctx))" using heir[OF c] by blast
    ultimately show ?thesis using r(1) Some by (simp add: think2_def Let_def getRand_def del: think_recursive.simps)
  next
    case None
    then have len: "1 < length (heap s1)" using r(3) by simp
    have "0 < length (heap s1)" using len by linarith
    then obtain b where b: "findBestParamChild (length (heap s1)) E (heap s1) 0 = Ok b" "\<forall>c. b = Some c \<longrightarrow> c < length (heap s1)"
      using findBest_ok[OF r(2), of 0 "length (heap s1)" E] by fastforce
    obtain cs where cs: "en_children (heap s1 ! 0) = Some cs" "cs \<noteq> []" "last cs < length (heap s1)" using last_child[OF r(2) len] by blast
    define n where "n = (case b of Some n \<Rightarrow> n | None \<Rightarrow> last cs)"
    have n: "n < length (heap s1)" using b(2) cs(3) by (simp add: n_def split: option.split)
    have pick: "(case b of Some n \<Rightarrow> Ok n | None \<Rightarrow> (case en_children (heap s1 ! 0) of None \<Rightarrow> Undef
        | Some cs \<Rightarrow> if cs = [] then Throw IndexOutOfRange else Ok (last cs))) = Ok n" using cs by (simp add: n_def split: option.split)
    obtain h where "getHeirOfRoot (length (heap s1)) (heap s1) n = Ok h" "cards_in (hand_at (heap s1) h) \<subseteq> cards_in (deck ctx)"
      "legal_put (ctxKakumei ctx) (cards_in (hand_at (heap s1) h)) (cards_in (ba_last ctx))" using heir[OF n] by blast
    then show ?thesis using r(1) None b(1) pick
      by (simp add: think2_def Let_def getRand_def del: think_recursive.simps)
  qed
qed

section \<open>Properties\<close>

lemma sage_think_legal:
  assumes ctx: "ctx_ok ctx" and time: "in_time E ctx s"
  shows "\<exists>s' h. sage_think E ctx s = Ok (s', h) \<and> cards_in h \<subseteq> cards_in (deck ctx) \<and>
    legal_put (ctxKakumei ctx) (cards_in h) (cards_in (ba_last ctx))"
proof -
  define s0 where "s0 = (if getNumOfAvailablePlayers (playerInfo ctx) = 2
      then let (x, s) = getRand E 8 s in if x = 1 then tweetFunc Mazui s else s else s)"
  have s0: "in_time E ctx s0" using time by (simp add: s0_def in_time_def getRand_def tweetFunc_def)
  show ?thesis
  proof (cases "savedHandsTree s0 = []")
    case True
    then show ?thesis using think2_legal[OF ctx s0] by (simp add: sage_think_def Let_def flip: s0_def)
  next
    case False
    let ?hand = "last (savedHandsTree s0)" and ?r = "setKakumei (ctxKakumei ctx) (sage_rule s0)"
    have t2: "in_time E ctx (s0\<lparr>sage_rule := ?r, savedHandsTree := []\<rparr>)"
      using s0 by (simp add: in_time_def enumrateAvairableHands_def setKakumei_def)
    show ?thesis
    proof (cases "has_set (deck ctx) ?hand")
      case True
      then have sub: "cards_in ?hand \<subseteq> cards_in (deck ctx)" by (simp add: has_set_subset)
      then have ok: "cs_ok ?hand" using ctx by (auto simp: ctx_ok_def intro: cs_ok_subset)
      obtain chk where chk: "canPut ?r ?hand (ba_last ctx) = Ok chk" "chk = CHK_OK \<longleftrightarrow> legal_put (ctxKakumei ctx) (cards_in ?hand) (cards_in (ba_last ctx))"
        using rule.settles[OF ok ba_last_ok[OF ctx], of ?r] by (auto simp: setKakumei_def)
      then show ?thesis using sub True False think2_legal[OF ctx t2]
        by (cases "chk = CHK_OK") (auto simp: sage_think_def Let_def getRand_def simp flip: s0_def)
    next
      case hs: False
      then show ?thesis using False think2_legal[OF ctx t2] by (simp add: sage_think_def Let_def flip: s0_def)
    qed
  qed
qed

text \<open>
  C33. Within its time limit the sage player returns, whatever the random numbers, the addresses and the arithmetic of
  \<open>double\<close> are, and whatever it has saved from the last turn: no null or dangling pointer is followed, no index leaves its
  array and no exception escapes. What it puts is a legal hand of its own cards, or a pass.
\<close>

theorem sage_plays_legally:
  assumes ctx: "ctx_ok ctx" and time: "in_time E ctx s"
  shows "\<exists>s' h. sage_think E ctx s = Ok (s', h) \<and> cards_in h \<subseteq> cards_in (deck ctx) \<and>
    legal_put (ctxKakumei ctx) (cards_in h) (cards_in (ba_last ctx))"
  using assms by (rule sage_think_legal)

definition int_fops :: "int fops" where
  "int_fops = \<lparr>d_add = (+), d_sub = (-), d_mul = (*), d_div = (div), d_lt = (<), d_le = (\<le>), d_eq = (=), d_lit = (div)\<rparr>"

definition sample_sage_env :: "bool \<Rightarrow> int sage_env" where
  "sample_sage_env late = \<lparr>fp = int_fops, addr = (\<lambda>n. n), expired = (\<lambda>_. late), rnd = (\<lambda>_. 0)\<rparr>"

definition sample_sage :: "int sage" where
  "sample_sage = \<lparr>savedHandsTree = [], hand_potential_max = 0, notappears_cards = 0,
     sage_rule = \<lparr>rule_class = ClassB, rule_kakumei = False\<rparr>, heap = [], draws = 0, looks = 0, tweets = []\<rparr>"

text \<open>Threes, a four and a pair of sixes against a pair of fives, with whole numbers for the values.\<close>

theorem sage_plays_legally_witness:
  "\<exists>s' h. sage_think (sample_sage_env False) (sample_ctx 0x3013 [0x300]) sample_sage = Ok (s', h) \<and>
     cards_in h \<subseteq> cards_in 0x3013 \<and> legal_put False (cards_in h) (cards_in 0x300)"
proof -
  have "ctx_ok (sample_ctx 0x3013 [0x300])" by code_simp
  moreover have "in_time (sample_sage_env False) ctx s" for ctx s by (simp add: in_time_def sample_sage_env_def)
  ultimately show ?thesis using sage_plays_legally[of "sample_ctx 0x3013 [0x300]" "sample_sage_env False" sample_sage]
    by (simp add: sample_ctx_def ba_last_def)
qed

text \<open>
  When the time limit is over at the first test of it and the player could put something, but not all its cards at
  once, the root of the search tree has no list of children yet, and \<open>_think2\<close> follows the null pointer.
\<close>

theorem sage_timeout_crash:
  assumes ctx: "ctx_ok ctx" and saved: "savedHandsTree s = []"
    and hands: "enumrateAvairableHands (sage_rule s) (deck ctx) (ba_last ctx) (ctxKakumei ctx) = Ok hands" "hands \<noteq> {}" "deck ctx \<notin> hands"
    and late: "expired E (looks s)"
  shows "sage_think E ctx s = Undef"
proof -
  let ?root = "new_node E (deck ctx) (ctxKakumei ctx)"
  have fin: "finite hands" by (rule finite_subset[OF subset_UNIV]) simp
  obtain h hs where hs: "sorted_list_of_set hands = h # hs" using hands(2) fin by (cases "sorted_list_of_set hands") auto
  have "h \<in> hands" using hs fin by (metis list.set_intros(1) set_sorted_list_of_set)
  moreover obtain hands' where "enumrateAvairableHands (sage_rule s) (deck ctx) (ba_last ctx) (ctxKakumei ctx) = Ok hands'"
      "\<forall>h\<in>hands'. cs_ok h \<and> h \<noteq> 0 \<and> cards_in h \<subseteq> cards_in (deck ctx)"
    using enumerate_sound[OF _ ba_last_ok[OF ctx]] ctx by (fastforce simp: ctx_ok_def)
  ultimately have h: "cs_ok h" "h \<noteq> 0" "cards_in h \<subseteq> cards_in (deck ctx)" "h \<noteq> deck ctx" using hands by auto
  then have "cards_in h \<subset> cards_in (deck ctx)" by (auto simp: cards_in_inject)
  then have left: "\<not> set_empty (del_set (deck ctx) h)" using ctx by (auto simp: set_empty_iff ctx_ok_def)
  have think: "think2 E ctx (ba_last ctx) s' = Undef" if s': "sage_rule s' = sage_rule s" "looks s' = looks s" for s'
  proof -
    have classify: "\<exists>s2. classify E ctx 0 (h # hs) [] [] s1 = Ok (s2, Stop None) \<and> (\<exists>r. heap s2 = [r] \<and> en_children r = None)"
      if s1: "heap s1 = [?root]" "looks s1 = looks s" for s1
    proof -
      obtain p where p: "calcPotentialToBeFightback E ctx s1 h (ctxKakumei ctx) = Ok p"
        using calcPotential_total[OF h(1,2), of E ctx s1 "ctxKakumei ctx"] by blast
      have "en_kakumei ?root = ctxKakumei ctx" "eh_tefda (en_hand ?root) = deck ctx" "en_children ?root = None"
        by (simp_all add: new_node_def)
      then show ?thesis using left late s1 by (simp add: Let_def p add_p2_def tweetFunc_def)
    qed
    have search: "\<exists>s2. think_recursive (set_size (deck ctx) + 2) E ctx (ba_last ctx) {0} s1 = Ok (s2, None) \<and> (\<exists>r. heap s2 = [r] \<and> en_children r = None)"
      if s1: "heap s1 = [?root]" "looks s1 = looks s" "sage_rule s1 = sage_rule s" for s1
    proof -
      have root: "en_kakumei ?root = ctxKakumei ctx" "eh_tefda (en_hand ?root) = deck ctx" by (simp_all add: new_node_def)
      obtain s2 where s2: "classify E ctx 0 (h # hs) [] [] (s1\<lparr>sage_rule := setKakumei (ctxKakumei ctx) (sage_rule s)\<rparr>) = Ok (s2, Stop None)"
          "\<exists>r. heap s2 = [r] \<and> en_children r = None"
        using classify[of "s1\<lparr>sage_rule := setKakumei (ctxKakumei ctx) (sage_rule s)\<rparr>"] s1 by auto
      have "think_node E ctx (ba_last ctx) 0 {} s1 = Ok (s2, Stop None)"
        using s2(1) by (simp add: think_node_def Let_def s1 root hands(1,2) hs del: classify.simps)
      then show ?thesis using s2(2) by simp
    qed
    obtain s2 r where r: "think_recursive (set_size (deck ctx) + 2) E ctx (ba_last ctx) {0} (think2_start E ctx s') = Ok (s2, None)"
        "heap s2 = [r]" "en_children r = None"
      using search[of "think2_start E ctx s'"] s' by (auto simp: think2_start_def Let_def simp del: think_recursive.simps)
    then show ?thesis by (simp add: think2_def Let_def del: think_recursive.simps)
  qed
  show ?thesis using think[of s] think[of "snd (getRand E 8 s)"] think[of "tweetFunc Mazui (snd (getRand E 8 s))"] saved
    by (simp add: sage_think_def Let_def getRand_def tweetFunc_def)
qed

text \<open>A three and a five against nothing, out of time at once.\<close>

theorem sage_timeout_crash_witness: "sage_think (sample_sage_env True) (sample_ctx 0x101 []) sample_sage = Undef"
proof (rule sage_timeout_crash)
  show "enumrateAvairableHands (sage_rule sample_sage) (deck (sample_ctx 0x101 [])) (ba_last (sample_ctx 0x101 [])) (ctxKakumei (sample_ctx 0x101 [])) =
      Ok {0x1, 0x100}" by code_simp
qed (simp_all add: sample_ctx_def sample_sage_def sample_sage_env_def ctx_ok_def cs_ok_def)

end
