(* ===== verification/Neof5_Protocol.thy ===== *)
theory Neof5_Protocol
  imports Json Sage_Player
begin

text \<open>
  \<^verbatim>\<open>jni/neof5/Neof5Protocol.cpp\<close>: the messages of the game server. A turn is a JSON object with the state of the game; the client
  builds a context from it, lets its player think and answers with the cards to put. The player is the interface of
  \<^verbatim>\<open>IPlayer.hpp\<close>, a locale here, with the poor and the sage player as its instances.
\<close>

section \<open>The messages\<close>

text \<open>\<open>get<T>()\<close> on a value of another type is a failed assertion, undefined in a release build.\<close>

fun get_object :: "'d json \<Rightarrow> (byte list \<times> 'd json) list res" where
  "get_object (JObject obj) = Ok obj"
| "get_object _ = Undef"

fun get_array :: "'d json \<Rightarrow> 'd json list res" where
  "get_array (JArray vs) = Ok vs"
| "get_array _ = Undef"

fun get_string :: "'d json \<Rightarrow> byte list res" where
  "get_string (JString s) = Ok s"
| "get_string _ = Undef"

fun get_bool :: "'d json \<Rightarrow> bool res" where
  "get_bool (JBool b) = Ok b"
| "get_bool _ = Undef"

fun get_double :: "'d json \<Rightarrow> 'd res" where
  "get_double (JNumber d) = Ok d"
| "get_double _ = Undef"

fun get_strings :: "'d json list \<Rightarrow> byte list list res" where
  "get_strings [] = Ok []"
| "get_strings (v # vs) = bind_res (get_string v) (\<lambda>s. bind_res (get_strings vs) (\<lambda>ss. Ok (s # ss)))"

text \<open>\<open>to_int\<close> is the conversion of a \<open>double\<close> to \<open>int\<close>.\<close>

fun get_players :: "('d \<Rightarrow> int) \<Rightarrow> 'd json list \<Rightarrow> player_info list res" where
  "get_players to_int [] = Ok []"
| "get_players to_int (v # vs) =
    bind_res (get_object v) (\<lambda>pi.
    bind_res (get_string (obj_ref (bytes ''Name'') pi)) (\<lambda>name.
    bind_res (get_double (obj_ref (bytes ''HavingCardCount'') pi)) (\<lambda>n.
    bind_res (get_double (obj_ref (bytes ''OrderOfFinish'') pi)) (\<lambda>ord.
    bind_res (get_players to_int vs) (\<lambda>ps.
      Ok (\<lparr>playerName = name, havingCardCount = to_int n, orderOfFinish = to_int ord\<rparr> # ps))))))"

definition turn_context :: "('d \<Rightarrow> int) \<Rightarrow> (byte list \<times> 'd json) list \<Rightarrow> daifugo_context res" where
  "turn_context to_int obj =
    bind_res (get_string (obj_ref (bytes ''Deck'') obj)) (\<lambda>d.
    bind_res (get_string (obj_ref (bytes ''Yama'') obj)) (\<lambda>y.
    bind_res (get_bool (obj_ref (bytes ''IsKakumei'') obj)) (\<lambda>k.
    bind_res (get_array (obj_ref (bytes ''Ba'') obj)) (\<lambda>b.
    bind_res (get_strings b) (\<lambda>v_ba.
    bind_res (get_double (obj_ref (bytes ''Teban'') obj)) (\<lambda>t.
    bind_res (get_array (obj_ref (bytes ''PlayerInfo'') obj)) (\<lambda>ps.
    bind_res (get_players to_int ps) (\<lambda>v_pi.
      mk_context d (to_int t) v_ba y k v_pi))))))))"

definition put_msg :: "'d numfmt \<Rightarrow> byte list \<Rightarrow> byte list" where
  "put_msg N txt = serialize N (JObject [(bytes ''Cards'', JString txt), (bytes ''Kind'', JString (bytes ''Put''))])"

definition putCard :: "'d numfmt \<Rightarrow> card_set \<Rightarrow> byte list res" where
  "putCard N cards = bind_res (set_toString cards) (\<lambda>txt. Ok (put_msg N txt))"

definition tweet_msg :: "'d numfmt \<Rightarrow> byte list \<Rightarrow> byte list" where
  "tweet_msg N s = serialize N (JObject [(bytes ''Kind'', JString (bytes ''Tweet'')), (bytes ''Message'', JString s)])"

text \<open>
  \<open>onMessage\<close>: the player afterwards and the texts handed to \<open>_sendFunc\<close> with their \<open>flush\<close> flags. The result of
  \<open>parse\<close> is not looked at. \<open>think\<close> is the player: its next state, what it tweets, and the hand.
\<close>

definition onMessage :: "'d numfmt \<Rightarrow> ('d \<Rightarrow> int) \<Rightarrow> (daifugo_context \<Rightarrow> 'p \<Rightarrow> ('p \<times> byte list list \<times> card_set) res) \<Rightarrow>
    byte list \<Rightarrow> 'p \<Rightarrow> ('p \<times> (byte list \<times> bool) list) res" where
  "onMessage N to_int think data p =
    (case json_parse N data of None \<Rightarrow> Undef
     | Some (_, json, _) \<Rightarrow>
         bind_res (get_object json) (\<lambda>obj. bind_res (get_string (obj_ref (bytes ''Kind'') obj)) (\<lambda>kind.
           if kind = bytes ''ProcessTurn'' then
             bind_res (turn_context to_int obj) (\<lambda>ctx. bind_res (think ctx p) (\<lambda>(p, tw, hand).
               bind_res (putCard N hand) (\<lambda>put. Ok (p, map (\<lambda>m. (tweet_msg N m, False)) tw @ [(put, True)]))))
           else Ok (p, []))))"

section \<open>The players\<close>

text \<open>The poor player sets the flag of its rule when it tries the first hand.\<close>

definition poor_player :: "daifugo_context \<Rightarrow> daifugo_rule \<Rightarrow> (daifugo_rule \<times> byte list list \<times> card_set) res" where
  "poor_player ctx r = bind_res (poor_think r ctx) (\<lambda>h.
     let n = (if ba ctx \<noteq> [] then set_size (last (ba ctx)) else 1) in
     Ok (if 0 < size_t_sub (set_size (deck ctx)) (int n - 1) then setKakumei (ctxKakumei ctx) r else r, [], h))"

text \<open>The remarks of the sage, in UTF-8.\<close>

fun tweet_text :: "tweet \<Rightarrow> byte list" where
  "tweet_text Mazui = [0xe3, 0x81, 0xbe, 0xe3, 0x81, 0x9a, 0xe3, 0x81, 0x84, 0xe3, 0x81, 0xae, 0xe3, 0x81, 0x86, 0xe3, 0x80, 0x82, 0xe3, 0x80, 0x82, 0xe3, 0x80, 0x82]"
| "tweet_text Horetto = [0xe3, 0x81, 0xbb, 0xe3, 0x82, 0x8c, 0xe3, 0x81, 0xa3, 0xef, 0xbc, 0x81]"
| "tweet_text KachiJa = [0xe3, 0x82, 0x8f, 0xe3, 0x81, 0x97, 0xe3, 0x81, 0xae, 0xe5, 0x8b, 0x9d, 0xe3, 0x81, 0xa1, 0xe3, 0x81, 0x98, 0xe3, 0x82, 0x83, 0xef, 0xbc, 0x81]"
| "tweet_text Hoho = [0xe3, 0x81, 0xbb, 0xe3, 0x81, 0xbb, 0xe3, 0x81, 0xa3, 0xef, 0xbc, 0x81]"
| "tweet_text Mumu = [0xe3, 0x82, 0x80, 0xe3, 0x82, 0x80, 0xe3, 0x81, 0x85]"
| "tweet_text JikanGaNai = [0xe3, 0x81, 0x90, 0xe3, 0x81, 0x90, 0xe3, 0x80, 0x81, 0xe6, 0x99, 0x82, 0xe9, 0x96, 0x93, 0xe3, 0x81, 0x8c, 0xe3, 0x81, 0xaa, 0xe3, 0x81, 0x84, 0xe3, 0x80, 0x82, 0xe3, 0x80, 0x82, 0xe3, 0x80, 0x82]"

definition sage_player :: "'d sage_env \<Rightarrow> daifugo_context \<Rightarrow> 'd sage \<Rightarrow> ('d sage \<times> byte list list \<times> card_set) res" where
  "sage_player E ctx s = bind_res (sage_think E ctx s) (\<lambda>(s', h). Ok (s', map tweet_text (drop (length (tweets s)) (tweets s')), h))"

section \<open>A turn from the server\<close>

definition player_json :: "byte list \<times> 'd \<times> 'd \<Rightarrow> 'd json" where
  "player_json pi = (case pi of (name, n, ord) \<Rightarrow>
     JObject [(bytes ''HavingCardCount'', JNumber n), (bytes ''Name'', JString name), (bytes ''OrderOfFinish'', JNumber ord)])"

definition turn_json :: "byte list \<Rightarrow> byte list list \<Rightarrow> byte list \<Rightarrow> bool \<Rightarrow> 'd \<Rightarrow> (byte list \<times> 'd \<times> 'd) list \<Rightarrow> 'd json" where
  "turn_json d bs y k t ps = JObject [(bytes ''Ba'', JArray (map JString bs)), (bytes ''Deck'', JString d),
     (bytes ''IsKakumei'', JBool k), (bytes ''Kind'', JString (bytes ''ProcessTurn'')),
     (bytes ''PlayerInfo'', JArray (map player_json ps)), (bytes ''Teban'', JNumber t), (bytes ''Yama'', JString y)]"

definition player_of :: "('d \<Rightarrow> int) \<Rightarrow> byte list \<times> 'd \<times> 'd \<Rightarrow> player_info" where
  "player_of to_int pi = (case pi of (name, n, ord) \<Rightarrow> \<lparr>playerName = name, havingCardCount = to_int n, orderOfFinish = to_int ord\<rparr>)"

text \<open>The text of a set of cards, and that of a turn as \<open>serialize\<close> prints it: these seven keys, in their order, and no others.\<close>

definition cards_text :: "card_set \<Rightarrow> byte list" where
  "cards_text s = (case ids 53 s of [] \<Rightarrow> [] | i # is \<Rightarrow> card_toString (Card i) @ card_words is)"

definition turn_text :: "'d numfmt \<Rightarrow> daifugo_context \<Rightarrow> 'd \<Rightarrow> (byte list \<times> 'd \<times> 'd) list \<Rightarrow> byte list" where
  "turn_text N ctx t ps = serialize N (turn_json (cards_text (deck ctx)) (map cards_text (ba ctx)) (cards_text (yama ctx)) (ctxKakumei ctx) t ps)"

definition turn_ok :: "'d numfmt \<Rightarrow> ('d \<Rightarrow> int) \<Rightarrow> daifugo_context \<Rightarrow> 'd \<Rightarrow> (byte list \<times> 'd \<times> 'd) list \<Rightarrow> bool" where
  "turn_ok N to_int ctx t ps \<longleftrightarrow> ctx_ok ctx \<and> num_ok N t \<and> list_all (\<lambda>(name, n, ord). num_ok N n \<and> num_ok N ord) ps \<and>
     teban ctx = to_int t \<and> playerInfo ctx = map (player_of to_int) ps"

lemma toString_text: "set_toString s = Ok (cards_text s)"
  by (simp add: set_toString_words cards_text_def)

lemma card_word_chars: "i < 53 \<Longrightarrow> 0 \<notin> set (card_toString (Card i)) \<and> length (card_toString (Card i)) = 2"
proof -
  assume "i < 53"
  moreover have "\<forall>i\<in>set [0..<53]. 0 \<notin> set (card_toString (Card i)) \<and> length (card_toString (Card i)) = 2" by code_simp
  ultimately show ?thesis by simp
qed

lemma card_words_chars: "list_all (\<lambda>i. i < 53) is \<Longrightarrow> 0 \<notin> set (card_words is) \<and> length (card_words is) = 3 * length is"
proof (induction "is")
  case (Cons i js)
  then show ?case using card_word_chars[of i] by (simp add: card_words_def)
qed (simp add: card_words_def)

lemma cards_text_chars: "0 \<notin> set (cards_text s) \<and> length (cards_text s) \<le> 159"
proof (cases "ids 53 s")
  case (Cons i js)
  have "list_all (\<lambda>i. i < 53) (ids 53 s)" by (simp add: list_all_iff set_ids)
  moreover have "length (ids 53 s) \<le> 53" unfolding ids_def by (rule order_trans[OF length_filter_le]) simp
  ultimately show ?thesis using card_word_chars[of i] card_words_chars[of js] by (simp add: cards_text_def Cons)
qed (simp add: cards_text_def)

lemma read_cards: "cs_ok s \<Longrightarrow> cardset_of_string (cstr (cards_text s)) 0 = Ok s"
proof -
  assume "cs_ok s"
  moreover have "cstr (cards_text s) = cards_text s" using cards_text_chars[of s] by (auto simp: cstr_def takeWhile_eq_all_conv)
  ultimately show ?thesis using set_string_roundtrip[of s] by (simp add: toString_text)
qed

lemma read_ba: "list_all cs_ok bs \<Longrightarrow> parse_ba (map cards_text bs) = Ok bs"
  by (induction bs) (simp_all add: read_cards)

lemma read_strings: "get_strings (map (JString \<circ> f) bs) = Ok (map f bs)"
  by (induction bs) simp_all

lemma read_players: "get_players to_int (map player_json ps) = Ok (map (player_of to_int) ps)"
  by (induction ps) (simp_all add: player_json_def player_of_def obj_ref_def bytes_def split: prod.split)

lemma read_turn:
  assumes "turn_ok N to_int ctx t ps"
    and "turn_json (cards_text (deck ctx)) (map cards_text (ba ctx)) (cards_text (yama ctx)) (ctxKakumei ctx) t ps = JObject obj"
  shows "turn_context to_int obj = Ok ctx" "obj_ref (bytes ''Kind'') obj = JString (bytes ''ProcessTurn'')"
  using assms by (auto simp: turn_json_def turn_context_def turn_ok_def ctx_ok_def obj_ref_def bytes_def mk_context_def
    read_strings read_players read_cards read_ba intro: daifugo_context.equality)

lemma turn_printable: "turn_ok N to_int ctx t ps \<Longrightarrow> json_ok N (turn_json d bs y k t ps)"
  by (auto simp: turn_json_def turn_ok_def player_json_def bytes_def list_all_iff)

section \<open>Turns are answered\<close>

text \<open>
  What \<^verbatim>\<open>IPlayer\<close> promises: a player that is ready for the turn returns, with a legal hand of its own cards or a pass,
  and its remarks are short.
\<close>

locale player =
  fixes think :: "daifugo_context \<Rightarrow> 'p \<Rightarrow> ('p \<times> byte list list \<times> card_set) res"
    and ready :: "daifugo_context \<Rightarrow> 'p \<Rightarrow> bool"
  assumes plays: "ctx_ok ctx \<Longrightarrow> ready ctx p \<Longrightarrow> \<exists>p' tw h. think ctx p = Ok (p', tw, h) \<and>
    cards_in h \<subseteq> cards_in (deck ctx) \<and> legal_put (ctxKakumei ctx) (cards_in h) (cards_in (ba_last ctx)) \<and>
    list_all (\<lambda>m. length m \<le> 100) tw"
begin

lemma answers:
  assumes turn: "turn_ok N to_int ctx t ps" and rdy: "ready ctx p"
  shows "\<exists>p' tw h. think ctx p = Ok (p', tw, h) \<and> onMessage N to_int think (turn_text N ctx t ps) p =
      Ok (p', map (\<lambda>m. (tweet_msg N m, False)) tw @ [(put_msg N (cards_text h), True)]) \<and>
    cards_in h \<subseteq> cards_in (deck ctx) \<and> legal_put (ctxKakumei ctx) (cards_in h) (cards_in (ba_last ctx)) \<and>
    list_all (\<lambda>m. length m \<le> 100) tw"
proof -
  have ctx: "ctx_ok ctx" using turn by (simp add: turn_ok_def)
  let ?json = "turn_json (cards_text (deck ctx)) (map cards_text (ba ctx)) (cards_text (yama ctx)) (ctxKakumei ctx) t ps"
  obtain obj where obj: "?json = JObject obj" by (simp add: turn_json_def)
  obtain p' tw h where think: "think ctx p = Ok (p', tw, h)" "cards_in h \<subseteq> cards_in (deck ctx)"
      "legal_put (ctxKakumei ctx) (cards_in h) (cards_in (ba_last ctx))" "list_all (\<lambda>m. length m \<le> 100) tw"
    using plays[OF ctx rdy] by blast
  have parse: "json_parse N (turn_text N ctx t ps) = Some (True, JObject obj, [])"
    using json_text_parses[OF turn_printable[OF turn, of "cards_text (deck ctx)" "map cards_text (ba ctx)" "cards_text (yama ctx)" "ctxKakumei ctx"]]
    by (simp only: turn_text_def obj)
  have "onMessage N to_int think (turn_text N ctx t ps) p =
      Ok (p', map (\<lambda>m. (tweet_msg N m, False)) tw @ [(put_msg N (cards_text h), True)])"
    by (simp only: onMessage_def parse option.case prod.case get_object.simps bind_res.simps read_turn[OF turn obj] get_string.simps
      simp_thms if_True think(1) putCard_def toString_text)
  then show ?thesis using think by blast
qed

end

definition poor_ready :: "daifugo_context \<Rightarrow> daifugo_rule \<Rightarrow> bool" where
  "poor_ready ctx r \<longleftrightarrow> (ba ctx \<noteq> [] \<longrightarrow> set_size (last (ba ctx)) \<le> set_size (deck ctx) + 1)"

interpretation poor: player poor_player poor_ready
proof
  fix ctx r assume ok: "ctx_ok ctx" and fits: "poor_ready ctx r"
  have "wanted ctx \<le> set_size (deck ctx) + 1" using fits by (simp add: poor_ready_def wanted_def)
  then obtain h where "poor_think r ctx = Ok h" "cards_in h \<subseteq> cards_in (deck ctx)"
      "legal_put (ctxKakumei ctx) (cards_in h) (cards_in (ba_last ctx))"
    using poor_think_run[OF ok, of r] weakest_run_legal[OF ok] by auto
  then show "\<exists>p' tw h. poor_player ctx r = Ok (p', tw, h) \<and> cards_in h \<subseteq> cards_in (deck ctx) \<and>
      legal_put (ctxKakumei ctx) (cards_in h) (cards_in (ba_last ctx)) \<and> list_all (\<lambda>m. length m \<le> 100) tw"
    by (simp add: poor_player_def Let_def)
qed

lemma tweet_text_short: "length (tweet_text t) \<le> 100"
  by (cases t) simp_all

interpretation sage: player "sage_player E" "in_time E" for E
proof
  fix ctx s assume "ctx_ok ctx" "in_time E ctx s"
  then obtain s' h where "sage_think E ctx s = Ok (s', h)" "cards_in h \<subseteq> cards_in (deck ctx)"
      "legal_put (ctxKakumei ctx) (cards_in h) (cards_in (ba_last ctx))"
    using sage_think_legal by blast
  then show "\<exists>s' tw h. sage_player E ctx s = Ok (s', tw, h) \<and> cards_in h \<subseteq> cards_in (deck ctx) \<and>
      legal_put (ctxKakumei ctx) (cards_in h) (cards_in (ba_last ctx)) \<and> list_all (\<lambda>m. length m \<le> 100) tw"
    by (simp add: sage_player_def list_all_iff tweet_text_short)
qed

text \<open>
  A turn of the server is answered: when the message is the JSON text of a game with well-formed sets of cards, \<open>onMessage\<close>
  reads the whole game out of it, lets the player think and sends the remarks of the player and, last and with the flush
  flag, one \<open>Put\<close> message. The cards in it are the player's own and legal against the last cards on the table, or none. This holds for the
  sage player within its time limit and for the poor player when it has at most one card less than the table.
\<close>

theorem turn_answered:
  assumes "turn_ok N to_int ctx t ps"
  shows "(in_time E ctx s \<longrightarrow> (\<exists>s' tw h. onMessage N to_int (sage_player E) (turn_text N ctx t ps) s =
        Ok (s', map (\<lambda>m. (tweet_msg N m, False)) tw @ [(put_msg N (cards_text h), True)]) \<and>
      cards_in h \<subseteq> cards_in (deck ctx) \<and> legal_put (ctxKakumei ctx) (cards_in h) (cards_in (ba_last ctx)))) \<and>
    (poor_ready ctx r \<longrightarrow> (\<exists>r' h. onMessage N to_int poor_player (turn_text N ctx t ps) r = Ok (r', [(put_msg N (cards_text h), True)]) \<and>
      cards_in h \<subseteq> cards_in (deck ctx) \<and> legal_put (ctxKakumei ctx) (cards_in h) (cards_in (ba_last ctx))))"
proof (intro conjI impI)
  assume "in_time E ctx s"
  then show "\<exists>s' tw h. onMessage N to_int (sage_player E) (turn_text N ctx t ps) s =
        Ok (s', map (\<lambda>m. (tweet_msg N m, False)) tw @ [(put_msg N (cards_text h), True)]) \<and>
      cards_in h \<subseteq> cards_in (deck ctx) \<and> legal_put (ctxKakumei ctx) (cards_in h) (cards_in (ba_last ctx))"
    using sage.answers[OF assms] by blast
next
  assume "poor_ready ctx r"
  then obtain r' tw h where p: "poor_player ctx r = Ok (r', tw, h)" and a: "onMessage N to_int poor_player (turn_text N ctx t ps) r =
        Ok (r', map (\<lambda>m. (tweet_msg N m, False)) tw @ [(put_msg N (cards_text h), True)])"
      "cards_in h \<subseteq> cards_in (deck ctx)" "legal_put (ctxKakumei ctx) (cards_in h) (cards_in (ba_last ctx))"
    using poor.answers[OF assms] by blast
  have "tw = []" using p by (cases "poor_think r ctx") (simp_all add: poor_player_def Let_def)
  then show "\<exists>r' h. onMessage N to_int poor_player (turn_text N ctx t ps) r = Ok (r', [(put_msg N (cards_text h), True)]) \<and>
      cards_in h \<subseteq> cards_in (deck ctx) \<and> legal_put (ctxKakumei ctx) (cards_in h) (cards_in (ba_last ctx))"
    using a by auto
qed

text \<open>Threes, a four and a pair of sixes against a pair of fives; a number format with the numbers 0 and 1.\<close>

theorem turn_answered_witness:
  "(\<exists>s' tw h. onMessage sample_numfmt of_bool (sage_player (sample_sage_env False)) (turn_text sample_numfmt (sample_ctx 0x3013 [0x300]) False []) sample_sage =
      Ok (s', map (\<lambda>m. (tweet_msg sample_numfmt m, False)) tw @ [(put_msg sample_numfmt (cards_text h), True)]) \<and>
      cards_in h \<subseteq> cards_in 0x3013 \<and> legal_put False (cards_in h) (cards_in 0x300)) \<and>
   (\<exists>r' h. onMessage sample_numfmt of_bool poor_player (turn_text sample_numfmt (sample_ctx 0x3013 [0x300]) False []) \<lparr>rule_class = ClassA, rule_kakumei = False\<rparr> =
      Ok (r', [(put_msg sample_numfmt (cards_text h), True)]) \<and>
      cards_in h \<subseteq> cards_in 0x3013 \<and> legal_put False (cards_in h) (cards_in 0x300))"
proof -
  have "num_ok sample_numfmt False" by (simp add: sample_numfmt_def num_ok_def num_char_def)
  moreover have "ctx_ok (sample_ctx 0x3013 [0x300])" by code_simp
  ultimately have turn: "turn_ok sample_numfmt of_bool (sample_ctx 0x3013 [0x300]) False []"
    by (simp add: turn_ok_def sample_ctx_def)
  have time: "in_time (sample_sage_env False) (sample_ctx 0x3013 [0x300]) sample_sage" by (simp add: in_time_def sample_sage_env_def)
  have fits: "poor_ready (sample_ctx 0x3013 [0x300]) \<lparr>rule_class = ClassA, rule_kakumei = False\<rparr>" by code_simp
  have c: "deck (sample_ctx 0x3013 [0x300]) = 0x3013" "ba_last (sample_ctx 0x3013 [0x300]) = 0x300" "ctxKakumei (sample_ctx 0x3013 [0x300]) = False"
    by (simp_all add: sample_ctx_def ba_last_def)
  show ?thesis using turn_answered[OF turn, of "sample_sage_env False" sample_sage "\<lparr>rule_class = ClassA, rule_kakumei = False\<rparr>"] time fits
    unfolding c by blast
qed

end
