(* ===== verification/Ws_Thread.thy ===== *)
theory Ws_Thread
  imports Frame_Safety Neof5_Protocol
begin

text \<open>
  \<^verbatim>\<open>jni/neof5/WsThread.cpp\<close>: the user code of the WebSocket library. What the protocol wants to send is queued and written when the
  socket is writable. The connection is \<open>mSocket\<close>, and \<open>callback_func\<close> is called with it.
\<close>

section \<open>The thread\<close>

definition WS_MESSAGE_SIZE_MAX :: nat where "WS_MESSAGE_SIZE_MAX = 6000"

text \<open>The static \<open>buf\<close> is a field, \<open>mSocket\<close> tells whether the pointer is set, \<open>handler\<close> is the player of the protocol object.\<close>

record 'p ws_thread =
  sendQueue :: "byte list list"
  was_closed :: bool
  mSocket :: bool
  tx_buf :: "byte list"
  handler :: 'p

definition tx_buf_ok :: "byte list \<Rightarrow> bool" where
  "tx_buf_ok b \<longleftrightarrow> length b = LWS_SEND_BUFFER_PRE_PADDING + WS_MESSAGE_SIZE_MAX + LWS_SEND_BUFFER_POST_PADDING"

text \<open>\<open>strncpy\<close>: at most \<open>n\<close> characters up to the NUL, and NULs up to \<open>n\<close>.\<close>

definition strncpy :: "byte list \<Rightarrow> nat \<Rightarrow> byte list \<Rightarrow> nat \<Rightarrow> byte list option" where
  "strncpy b off src n = (let s = take n (cstr src) in blit b off (s @ replicate (n - length s) 0))"

text \<open>The loop of the writable callback: what it returns, the rest of the queue, the buffer and the connection.\<close>

fun write_queue :: "'u env \<Rightarrow> byte list list \<Rightarrow> byte list \<Rightarrow> 'u lws \<Rightarrow> (int \<times> byte list list \<times> byte list \<times> 'u lws) option" where
  "write_queue E [] b wsi = Some (0, [], b, wsi)"
| "write_queue E (str # q) b wsi =
    do { b \<leftarrow> strncpy b LWS_SEND_BUFFER_PRE_PADDING str WS_MESSAGE_SIZE_MAX;
         (n, wsi, b) \<leftarrow> libwebsocket_write E wsi b LWS_SEND_BUFFER_PRE_PADDING (length str) LWS_WRITE_TEXT;
         if n < 0 \<or> n < int (length str) then Some (-1, q, b, wsi) else write_queue E q b wsi }"

definition sendText :: "'u env \<Rightarrow> byte list \<times> bool \<Rightarrow> 'p ws_thread \<times> 'u lws \<Rightarrow> ('p ws_thread \<times> 'u lws) option" where
  "sendText E msg s = (case (msg, s) of ((str, flush), (t, wsi)) \<Rightarrow>
     let t = t\<lparr>sendQueue := sendQueue t @ [str]\<rparr> in
     if \<not> flush then Some (t, wsi)
     else if mSocket t then Some (t, snd (libwebsocket_callback_on_writable E wsi)) else None)"

fun sendTexts :: "'u env \<Rightarrow> (byte list \<times> bool) list \<Rightarrow> 'p ws_thread \<times> 'u lws \<Rightarrow> ('p ws_thread \<times> 'u lws) option" where
  "sendTexts E [] s = Some s"
| "sendTexts E (m # ms) s = do { s \<leftarrow> sendText E m s; sendTexts E ms s }"

text \<open>
  \<open>callback_func\<close>, with the message handler as a parameter; \<open>onOpen\<close>, \<open>onClose\<close> and \<open>onError\<close> of the protocol do nothing. The NUL that is put
  behind a received message lies in the padding of the receive buffer. An exception and undefined behaviour are \<open>None\<close>.
\<close>

definition callback_func :: "'u env \<Rightarrow> (byte list \<Rightarrow> 'p \<Rightarrow> ('p \<times> (byte list \<times> bool) list) res) \<Rightarrow>
    callback_reason \<Rightarrow> byte list \<Rightarrow> 'p ws_thread \<times> 'u lws \<Rightarrow> (int \<times> 'p ws_thread \<times> 'u lws) option" where
  "callback_func E handle reason data s = (case s of (t, wsi) \<Rightarrow>
     (case reason of
        LWS_CALLBACK_CLIENT_CONNECTION_ERROR \<Rightarrow> Some (0, t\<lparr>was_closed := True\<rparr>, wsi)
      | LWS_CALLBACK_CLOSED \<Rightarrow> Some (0, t\<lparr>was_closed := True\<rparr>, wsi)
      | LWS_CALLBACK_CLIENT_RECEIVE \<Rightarrow>
          (case handle data (handler t) of
             Ok (p, msgs) \<Rightarrow> do { s \<leftarrow> sendTexts E msgs (t\<lparr>handler := p\<rparr>, wsi); Some (0, s) }
           | _ \<Rightarrow> None)
      | LWS_CALLBACK_CLIENT_WRITEABLE \<Rightarrow>
          do { (r, q, b, wsi) \<leftarrow> write_queue E (sendQueue t) (tx_buf t) wsi;
               Some (r, t\<lparr>sendQueue := q, tx_buf := b\<rparr>, wsi) }
      | LWS_CALLBACK_CLIENT_CONFIRM_EXTENSION_SUPPORTED \<Rightarrow> Some (1, t, wsi)
      | _ \<Rightarrow> Some (0, t, wsi)))"

section \<open>The queue is written\<close>

definition sendable :: "byte list \<Rightarrow> bool" where
  "sendable str \<longleftrightarrow> str \<noteq> [] \<and> length str \<le> WS_MESSAGE_SIZE_MAX \<and> 0 \<notin> set str"

text \<open>A kernel that takes everything, and a random device that gives what is asked for.\<close>

definition kernel_ok :: "'u env \<Rightarrow> bool" where
  "kernel_ok E \<longleftrightarrow> (\<forall>t bs. os_send E t bs = int (length bs)) \<and> (\<forall>t. length (os_random E t 4) = 4)"

definition text_frames :: "byte list list \<Rightarrow> byte list list \<Rightarrow> byte list" where
  "text_frames keys strs = concat (map (\<lambda>(key, str). ws_frame True OPC_TEXT_FRAME (Some key) str) (zip keys strs))"

lemma strncpy_whole:
  assumes "tx_buf_ok b" "0 \<notin> set str" "length str \<le> WS_MESSAGE_SIZE_MAX"
  shows "\<exists>b'. strncpy b LWS_SEND_BUFFER_PRE_PADDING str WS_MESSAGE_SIZE_MAX = Some b' \<and> tx_buf_ok b' \<and>
    take (length str) (drop LWS_SEND_BUFFER_PRE_PADDING b') = str"
proof -
  have "cstr str = str" using assms(2) by (auto simp: cstr_def takeWhile_eq_all_conv)
  then show ?thesis using assms by (simp add: strncpy_def blit_def tx_buf_ok_def lws_consts WS_MESSAGE_SIZE_MAX_def)
qed

lemma write_one:
  assumes c: "tx_ready c" "mode c = LWS_CONNMODE_WS_CLIENT" and E: "kernel_ok E" and str: "sendable str" and b: "tx_buf_ok b"
  shows "\<exists>key b1 b' c'. strncpy b LWS_SEND_BUFFER_PRE_PADDING str WS_MESSAGE_SIZE_MAX = Some b1 \<and>
    libwebsocket_write E c b1 LWS_SEND_BUFFER_PRE_PADDING (length str) LWS_WRITE_TEXT = Some (int (length str), c', b') \<and>
    length key = 4 \<and> tx_buf_ok b' \<and> tx_ready c' \<and> mode c' = LWS_CONNMODE_WS_CLIENT \<and>
    wire c' = wire c @ ws_frame True OPC_TEXT_FRAME (Some key) str"
proof -
  let ?key = "os_random E (sys_calls c) 4"
  obtain b1 where b1: "strncpy b LWS_SEND_BUFFER_PRE_PADDING str WS_MESSAGE_SIZE_MAX = Some b1" "tx_buf_ok b1"
      "take (length str) (drop LWS_SEND_BUFFER_PRE_PADDING b1) = str"
    using strncpy_whole[OF b] str by (auto simp: sendable_def)
  define frame where "frame = ws_frame True OPC_TEXT_FRAME (Some ?key) str"
  have o: "write_opcode LWS_WRITE_TEXT = Some OPC_TEXT_FRAME" "fin_of LWS_WRITE_TEXT" "LWS_WRITE_TEXT AND 0xf \<noteq> LWS_WRITE_CLOSE"
    by (simp_all add: write_opcode_def fin_of_def c_defs)
  have l: "0 < length str" "length str + 14 < 2 ^ 31" "14 \<le> LWS_SEND_BUFFER_PRE_PADDING" "LWS_SEND_BUFFER_PRE_PADDING + length str \<le> length b1"
    using str b1(2) by (simp_all add: sendable_def tx_buf_ok_def lws_consts WS_MESSAGE_SIZE_MAX_def)
  have k: "length ?key = 4" "os_send E (sys_calls c + 1) frame = int (length frame)" using E by (simp_all add: kernel_ok_def)
  have "frame = ws_frame (fin_of LWS_WRITE_TEXT) OPC_TEXT_FRAME (Some ?key) (take (length str) (drop LWS_SEND_BUFFER_PRE_PADDING b1))"
    using o(2) b1(3) by (simp add: frame_def)
  from write_client[OF c o(1) _ _ l(2,3,4) refl k(1) this k(2)] o(3) l(1)
  obtain b' where w: "libwebsocket_write E c b1 LWS_SEND_BUFFER_PRE_PADDING (length str) LWS_WRITE_TEXT =
      Some (int (length str), tx_done_client ?key (length str) frame c, b')" "length b' = length b1"
    by (auto simp: write_ret_def c_defs)
  have "tx_ready (tx_done_client ?key (length str) frame c)" "wire (tx_done_client ?key (length str) frame c) = wire c @ frame"
      "mode (tx_done_client ?key (length str) frame c) = mode c"
    using c k(1) by (simp_all add: tx_ready_def tx_done_client_def tx_done_def)
  then show ?thesis using w b1 k(1) c(2) by (fastforce simp: frame_def tx_buf_ok_def)
qed

lemma queue_written:
  assumes "kernel_ok E"
  shows "tx_ready c \<Longrightarrow> mode c = LWS_CONNMODE_WS_CLIENT \<Longrightarrow> list_all sendable q \<Longrightarrow> tx_buf_ok b \<Longrightarrow>
    \<exists>keys b' c'. write_queue E q b c = Some (0, [], b', c') \<and> tx_buf_ok b' \<and> tx_ready c' \<and> mode c' = LWS_CONNMODE_WS_CLIENT \<and>
      length keys = length q \<and> list_all (\<lambda>k. length k = 4) keys \<and> wire c' = wire c @ text_frames keys q"
proof (induction q arbitrary: b c)
  case Nil
  then show ?case by (simp add: text_frames_def)
next
  case (Cons str q)
  from Cons.prems have "sendable str" by simp
  then obtain key b1 b2 c2 where w: "strncpy b LWS_SEND_BUFFER_PRE_PADDING str WS_MESSAGE_SIZE_MAX = Some b1"
      "libwebsocket_write E c b1 LWS_SEND_BUFFER_PRE_PADDING (length str) LWS_WRITE_TEXT = Some (int (length str), c2, b2)"
      "length key = 4" "tx_buf_ok b2" "tx_ready c2" "mode c2 = LWS_CONNMODE_WS_CLIENT"
      "wire c2 = wire c @ ws_frame True OPC_TEXT_FRAME (Some key) str"
    using write_one[OF Cons.prems(1,2) assms _ Cons.prems(4)] by blast
  obtain keys b' c' where r: "write_queue E q b2 c2 = Some (0, [], b', c')" "tx_buf_ok b'" "tx_ready c'" "mode c' = LWS_CONNMODE_WS_CLIENT"
      "length keys = length q" "list_all (\<lambda>k. length k = 4) keys" "wire c' = wire c2 @ text_frames keys q"
    using Cons.IH[OF w(5,6) _ w(4)] Cons.prems(3) by auto
  have "write_queue E (str # q) b c = Some (0, [], b', c')" by (simp add: w(1,2) r(1))
  then show ?case using r w(3,7) by (intro exI[of _ "key # keys"]) (simp add: text_frames_def)
qed

lemma frames_arrive:
  assumes s: "server_ready Es got lim s" "mode s \<noteq> LWS_CONNMODE_WS_CLIENT" "user_safe Es flow_open lim"
    and q: "list_all sendable q" "WS_MESSAGE_SIZE_MAX \<le> lim" and keys: "length keys = length q" "list_all (\<lambda>k. length k = 4) keys"
  shows "\<exists>s'. libwebsocket_interpret_incoming_packet Es s (text_frames keys q) = Some (0, s') \<and> server_ready Es got lim s' \<and>
    got (user_space s') = got (user_space s) @ q"
proof -
  let ?fs = "map (\<lambda>(key, str). (True, OPC_TEXT_FRAME, Some key, str)) (zip keys q)"
  have one: "pieces lim str = [str]" "str \<noteq> []" "length str < 2 ^ 63" if "str \<in> set q" for str
    using that q by (auto simp: list_all_iff sendable_def pieces_short WS_MESSAGE_SIZE_MAX_def)
  have "\<forall>(fin, opc, key, payload) \<in> set ?fs. server_accepts opc key \<and> payload \<noteq> [] \<and> length payload < 2 ^ 63"
    using keys(2) one(2,3) by (auto simp: server_accepts_def data_opcode_def list_all_iff dest: set_zip_leftD set_zip_rightD)
  from server_rx.stream_delivered[OF s(1) this] obtain s' where s': "feed (libwebsocket_rx_sm Es) s (text_frames keys q) = Some (0, s')"
      "server_ready Es got lim s'" "got (user_space s') = got (user_space s) @ concat (map (\<lambda>(fin, opc, key, payload). pieces lim payload) ?fs)"
    by (auto simp: text_frames_def comp_def split_def)
  have "map (\<lambda>(fin, opc, key, payload). pieces lim payload) ?fs = map (\<lambda>p. [snd p]) (zip keys q)"
    using one(1) by (auto simp: comp_def split_def dest: set_zip_rightD)
  then have "concat (map (\<lambda>(fin, opc, key, payload). pieces lim payload) ?fs) = map snd (zip keys q)"
    by (simp only: concat_map_singleton)
  then show ?thesis using s' keys(1) incoming_feed[OF s(3) server_ready_inv[OF s(1,2)]] by simp
qed

section \<open>Texts that are too long\<close>

lemma mask_loop_overrun: "length mem < i + cnt \<Longrightarrow> 0 < cnt \<Longrightarrow> mask_loop cnt i mem k nonce = None"
proof (induction cnt arbitrary: i mem k)
  case (Suc cnt)
  then show ?case by (cases "i < length mem") (auto simp: rd_def wr_def)
qed simp

lemma write_overrun:
  assumes c: "tx_ready c" "mode c = LWS_CONNMODE_WS_CLIENT" and key: "length (os_random E (sys_calls c) 4) = 4"
    and len: "length mem < off + len" "len + 4 < 2 ^ 31" "0 < len" "4 \<le> off"
  shows "libwebsocket_write E c mem off len LWS_WRITE_TEXT = None"
proof -
  let ?wb = "\<lparr>wb_mem = mem, wb_off = off, wb_len = len, wb_pre = 0, wb_dropmask = None\<rparr>"
  let ?c = "upd_ws (\<lambda>w. w\<lparr>clean_buffer := \<not> no_buffer_all_partial_tx (protocol c)\<rparr>) c"
  have o: "write_opcode LWS_WRITE_TEXT = Some OPC_TEXT_FRAME" "LWS_WRITE_TEXT AND 0xf \<noteq> LWS_WRITE_CLOSE" "LWS_WRITE_TEXT \<noteq> LWS_WRITE_HTTP"
      "LWS_WRITE_TEXT \<notin> {LWS_WRITE_PING, LWS_WRITE_PONG, LWS_WRITE_CLOSE}"
    by (simp_all add: write_opcode_def c_defs)
  have masked: "mask_frame E ?c wb = None" if "length (wb_mem wb) = length mem" "wb_dropmask wb = Some (off - 4)" "wb_len wb = len" for wb
    using that c key len mask_count_eq[OF len(2)]
    by (simp add: mask_frame_def libwebsocket_0405_frame_mask_generate_def tx_ready_def Let_def mask_loop_overrun)
  have built: "build_frame LWS_WRITE_TEXT ?c ?wb = None \<or> (\<exists>wb. build_frame LWS_WRITE_TEXT ?c ?wb = Some (Inr wb) \<and>
      length (wb_mem wb) = length mem \<and> wb_dropmask wb = Some (off - 4) \<and> wb_len wb = len)"
    using c(2) len(4) o(1,2) by (auto simp: build_frame_def Let_def blit_def)
  have "c_int (int len) = int len" "c_size (int len) = len" using len(2) c_size_nat[of len] by simp_all
  then show ?thesis using built masked c len(3) o(3,4)
    by (auto simp: libwebsocket_write_def Let_def tx_ready_def)
qed

text \<open>
  C40. A text longer than the static buffer with its padding (6000 and 4 bytes) makes the masking loop of the library run over
  the end of the buffer: \<open>strncpy\<close> cuts the copy, but the length passed to \<open>libwebsocket_write\<close> is that of the whole text.
\<close>

theorem long_text_overruns:
  assumes "tx_ready c" "mode c = LWS_CONNMODE_WS_CLIENT" "kernel_ok E" "tx_buf_ok (tx_buf t)"
    and "sendQueue t = str # q" "WS_MESSAGE_SIZE_MAX + 4 < length str" "length str + 4 < 2 ^ 31"
  shows "callback_func E handle LWS_CALLBACK_CLIENT_WRITEABLE data (t, c) = None"
proof -
  have "libwebsocket_write E c b LWS_SEND_BUFFER_PRE_PADDING (length str) LWS_WRITE_TEXT = None" if "tx_buf_ok b" for b
    using assms(3,6,7) that
    by (intro write_overrun[OF assms(1,2)]) (auto simp: tx_buf_ok_def kernel_ok_def lws_consts WS_MESSAGE_SIZE_MAX_def)
  moreover have "tx_buf_ok b" if "strncpy (tx_buf t) LWS_SEND_BUFFER_PRE_PADDING str WS_MESSAGE_SIZE_MAX = Some b" for b
    using that assms(4) by (auto simp: strncpy_def blit_def Let_def tx_buf_ok_def split: if_splits)
  ultimately have "write_queue E (str # q) (tx_buf t) c = None"
    by (cases "strncpy (tx_buf t) LWS_SEND_BUFFER_PRE_PADDING str WS_MESSAGE_SIZE_MAX") simp_all
  then show ?thesis using assms(5) by (simp add: callback_func_def del: write_queue.simps)
qed

text \<open>A text of 6005 bytes.\<close>

definition sample_thread :: "byte list list \<Rightarrow> int sage ws_thread" where
  "sample_thread q = \<lparr>sendQueue = q, was_closed = False, mSocket = True, tx_buf = replicate 6022 0, handler = sample_sage\<rparr>"

lemma sample_thread_fields: "sendQueue (sample_thread q) = q" "mSocket (sample_thread q)" "tx_buf_ok (tx_buf (sample_thread q))"
    "handler (sample_thread q) = sample_sage" "kernel_ok sample_env" "proto0_quiet sample_env"
  by (simp_all add: sample_thread_def tx_buf_ok_def lws_consts WS_MESSAGE_SIZE_MAX_def kernel_ok_def proto0_quiet_def sample_env_def)

definition sample_handler :: "byte list \<Rightarrow> int sage \<Rightarrow> (int sage \<times> (byte list \<times> bool) list) res" where
  "sample_handler = onMessage sample_numfmt of_bool (sage_player (sample_sage_env False))"

theorem long_text_overruns_witness:
  "callback_func sample_env sample_handler LWS_CALLBACK_CLIENT_WRITEABLE [] (sample_thread [replicate 6005 0x61], sample_conn LWS_CONNMODE_WS_CLIENT) = None"
  by (rule long_text_overruns[where str = "replicate 6005 0x61" and q = "[]"])
     (simp_all add: sample_thread_fields sample_ready WS_MESSAGE_SIZE_MAX_def)

section \<open>A turn, from the message to the answer\<close>

lemma serialize_char_printable: "0 \<notin> set (serialize_char c) \<and> length (serialize_char c) \<le> 6"
proof (cases "map_of escapes c")
  case (Some e)
  then show ?thesis by (auto simp: serialize_char_def escapes_def split: if_splits)
next
  case None
  have "\<forall>n\<in>set [0..<16]. hex_digit n \<noteq> 0" by code_simp
  then have "hex_digit (unat c div 16) \<noteq> 0" "hex_digit (unat c mod 16) \<noteq> 0"
    using unat_byte_less[of c] by (auto simp: div_less_iff_less_mult)
  then show ?thesis using None by (auto simp: serialize_char_def)
qed

lemma serialize_str_printable: "0 \<notin> set (serialize_str s) \<and> length (serialize_str s) \<le> 6 * length s + 2"
proof -
  have "0 \<notin> set (concat (map serialize_char s)) \<and> length (concat (map serialize_char s)) \<le> 6 * length s"
  proof (induction s)
    case (Cons c s)
    then show ?case using serialize_char_printable[of c] by auto
  qed simp
  then show ?thesis by (auto simp: serialize_str_def)
qed

lemma put_sendable: "length str \<le> 159 \<Longrightarrow> sendable (put_msg N str)"
  using serialize_str_printable[of str] serialize_str_printable[of "bytes ''Put''"] serialize_str_printable[of "bytes ''Cards''"]
    serialize_str_printable[of "bytes ''Kind''"]
  by (simp add: put_msg_def sendable_def WS_MESSAGE_SIZE_MAX_def del: bytes_Cons)

lemma tweet_sendable: "length m \<le> 100 \<Longrightarrow> sendable (tweet_msg N m)"
  using serialize_str_printable[of m] serialize_str_printable[of "bytes ''Tweet''"] serialize_str_printable[of "bytes ''Message''"]
    serialize_str_printable[of "bytes ''Kind''"]
  by (simp add: tweet_msg_def sendable_def WS_MESSAGE_SIZE_MAX_def del: bytes_Cons)

lemma texts_queued:
  "list_all (\<lambda>m. \<not> snd m) ms \<Longrightarrow> mSocket t \<Longrightarrow> sendTexts E (ms @ [(str, True)]) (t, wsi) =
    Some (t\<lparr>sendQueue := sendQueue t @ map fst ms @ [str]\<rparr>, snd (libwebsocket_callback_on_writable E wsi))"
  by (induction ms arbitrary: t) (auto simp: sendText_def)

lemma on_writable_ready:
  assumes "proto0_quiet E" "tx_ready c"
  shows "tx_ready (snd (libwebsocket_callback_on_writable E c))" "mode (snd (libwebsocket_callback_on_writable E c)) = mode c"
    "wire (snd (libwebsocket_callback_on_writable E c)) = wire c"
  using on_writable_core[OF assms(1), of c] assms(2) by (simp_all add: tx_ready_def conn_core_def)

lemma queue_sent:
  assumes "tx_ready c" "mode c = LWS_CONNMODE_WS_CLIENT" "kernel_ok E" "tx_buf_ok (tx_buf t)" "list_all sendable (sendQueue t)"
    and s: "server_ready Es got lim s" "mode s \<noteq> LWS_CONNMODE_WS_CLIENT" "user_safe Es flow_open lim" "WS_MESSAGE_SIZE_MAX \<le> lim"
  shows "\<exists>t' c' s'. callback_func E handle LWS_CALLBACK_CLIENT_WRITEABLE data (t, c) = Some (0, t', c') \<and> sendQueue t' = [] \<and>
    tx_ready c' \<and> mode c' = LWS_CONNMODE_WS_CLIENT \<and> tx_buf_ok (tx_buf t') \<and>
    libwebsocket_interpret_incoming_packet Es s (drop (length (wire c)) (wire c')) = Some (0, s') \<and>
    server_ready Es got lim s' \<and> got (user_space s') = got (user_space s) @ sendQueue t"
proof -
  obtain keys b' c' where w: "write_queue E (sendQueue t) (tx_buf t) c = Some (0, [], b', c')" "tx_buf_ok b'" "tx_ready c'"
      "mode c' = LWS_CONNMODE_WS_CLIENT" "length keys = length (sendQueue t)" "list_all (\<lambda>k. length k = 4) keys"
      "wire c' = wire c @ text_frames keys (sendQueue t)"
    using queue_written[OF assms(3,1,2,5,4)] by blast
  have "callback_func E handle LWS_CALLBACK_CLIENT_WRITEABLE data (t, c) = Some (0, t\<lparr>sendQueue := [], tx_buf := b'\<rparr>, c')"
    by (simp add: callback_func_def w(1))
  then show ?thesis using w frames_arrive[OF s(1,2,3) assms(5) s(4) w(5,6)] by auto
qed

context player
begin

lemma turn_played:
  assumes turn: "turn_ok N to_int ctx t ps" "ready ctx (handler th)"
    and th: "mSocket th" "tx_buf_ok (tx_buf th)" "list_all sendable (sendQueue th)"
    and c: "tx_ready c" "mode c = LWS_CONNMODE_WS_CLIENT" "kernel_ok E" "proto0_quiet E"
    and s: "server_ready Es got lim s" "mode s \<noteq> LWS_CONNMODE_WS_CLIENT" "user_safe Es flow_open lim" "WS_MESSAGE_SIZE_MAX \<le> lim"
  shows "\<exists>th1 c1 th2 c2 s' tw h.
    callback_func E (onMessage N to_int think) LWS_CALLBACK_CLIENT_RECEIVE (turn_text N ctx t ps) (th, c) = Some (0, th1, c1) \<and>
    callback_func E (onMessage N to_int think) LWS_CALLBACK_CLIENT_WRITEABLE data (th1, c1) = Some (0, th2, c2) \<and> sendQueue th2 = [] \<and>
    libwebsocket_interpret_incoming_packet Es s (drop (length (wire c)) (wire c2)) = Some (0, s') \<and> server_ready Es got lim s' \<and>
    got (user_space s') = got (user_space s) @ sendQueue th @ map (tweet_msg N) tw @ [put_msg N (cards_text h)] \<and>
    cards_in h \<subseteq> cards_in (deck ctx) \<and> legal_put (ctxKakumei ctx) (cards_in h) (cards_in (ba_last ctx))"
proof -
  obtain p' tw h where a: "onMessage N to_int think (turn_text N ctx t ps) (handler th) =
        Ok (p', map (\<lambda>m. (tweet_msg N m, False)) tw @ [(put_msg N (cards_text h), True)])"
      "cards_in h \<subseteq> cards_in (deck ctx)" "legal_put (ctxKakumei ctx) (cards_in h) (cards_in (ba_last ctx))" "list_all (\<lambda>m. length m \<le> 100) tw"
    using answers[OF turn] by blast
  define th1 where "th1 = th\<lparr>handler := p', sendQueue := sendQueue th @ map (tweet_msg N) tw @ [put_msg N (cards_text h)]\<rparr>"
  define c1 where "c1 = snd (libwebsocket_callback_on_writable E c)"
  have "sendTexts E (map (\<lambda>m. (tweet_msg N m, False)) tw @ [(put_msg N (cards_text h), True)]) (th\<lparr>handler := p'\<rparr>, c) = Some (th1, c1)"
    using texts_queued[of "map (\<lambda>m. (tweet_msg N m, False)) tw" "th\<lparr>handler := p'\<rparr>" E "put_msg N (cards_text h)" c] th(1)
    by (simp add: th1_def c1_def list_all_iff comp_def)
  then have r: "callback_func E (onMessage N to_int think) LWS_CALLBACK_CLIENT_RECEIVE (turn_text N ctx t ps) (th, c) = Some (0, th1, c1)"
    by (simp add: callback_func_def a(1))
  have "sendable (put_msg N (cards_text h))" by (rule put_sendable) (use cards_text_chars[of h] in simp)
  then have q: "list_all sendable (sendQueue th1)" "tx_buf_ok (tx_buf th1)" using th(2,3) a(4) by (auto simp: th1_def list_all_iff tweet_sendable)
  have c1: "tx_ready c1" "mode c1 = LWS_CONNMODE_WS_CLIENT" "wire c1 = wire c"
    using on_writable_ready[OF c(4,1)] c(2) by (simp_all add: c1_def)
  obtain th2 c2 s' where w: "callback_func E (onMessage N to_int think) LWS_CALLBACK_CLIENT_WRITEABLE data (th1, c1) = Some (0, th2, c2)"
      "sendQueue th2 = []" "libwebsocket_interpret_incoming_packet Es s (drop (length (wire c1)) (wire c2)) = Some (0, s')"
      "server_ready Es got lim s'" "got (user_space s') = got (user_space s) @ sendQueue th1"
    using queue_sent[OF c1(1,2) c(3) q(2,1) s, of "onMessage N to_int think" data] by blast
  show ?thesis
    by (rule exI[of _ th1], rule exI[of _ c1], rule exI[of _ th2], rule exI[of _ c2], rule exI[of _ s'], rule exI[of _ tw], rule exI[of _ h])
       (use r w a(2,3) c1(3) in \<open>simp add: th1_def\<close>)
qed

end

end
