(* ===== verification/Base64.thy ===== *)
theory Base64
  imports Lws_Prelude
begin

text \<open>
  \<^verbatim>\<open>lib/base64-decode.c\<close>: the base64 encoder that both ends of the WebSocket handshake use, its
  \<open>encode\<close> table and the (otherwise unused) \<open>decode\<close> table. The encoder is proved equal to a
  numeric reading of RFC 4648, with its exact output-size condition, and the \<open>decode\<close> table
  is shown to invert it.
\<close>

section \<open>The program\<close>

definition encode :: "byte list" where
  "encode = bytes (''ABCDEFGHIJKLMNOPQRSTUVWXYZ'' @
                   ''abcdefghijklmnopqrstuvwxyz0123456789+/'')"

definition decode :: "byte list" where
  "decode = bytes (''|$$$}rstuvwxyz{$$$$$$$>?@ABCDEFGHIJKLMNOPQRSTUVW'' @
                   ''$$$$$$XYZ['' @ [CHR 0x5C] @ '']^_`abcdefghijklmnopq'')"

text \<open>
  The inner \<open>for\<close> loop: \<open>k\<close> iterations are left; each takes a byte of the input or pads
  with 0. The result is the rest of \<open>triple\<close>, the bytes taken (\<open>len\<close>) and the input left.
\<close>

fun fill_triple :: "nat \<Rightarrow> byte list \<Rightarrow> byte list \<times> nat \<times> byte list" where
  "fill_triple 0 inp = ([], 0, inp)"
| "fill_triple (Suc k) (b # inp) =
     (let (t, len, rest) = fill_triple k inp in (b # t, Suc len, rest))"
| "fill_triple (Suc k) [] =
     (let (t, len, rest) = fill_triple k [] in (0 # t, len, rest))"

text \<open>The four characters written for a triple.\<close>

definition encode_triple :: "byte list \<Rightarrow> nat \<Rightarrow> byte list" where
  "encode_triple triple len =
    [encode ! unat (drop_bit 2 (triple ! 0)),
     encode ! unat (push_bit 4 (triple ! 0 AND 0x03) OR drop_bit 4 (triple ! 1 AND 0xf0)),
     (if len > 1 then encode ! unat (push_bit 2 (triple ! 1 AND 0x0f) OR
                                     drop_bit 6 (triple ! 2 AND 0xc0)) else of_char CHR ''=''),
     (if len > 2 then encode ! unat (triple ! 2 AND 0x3f) else of_char CHR ''='')]"

lemma fill_triple_shorter:
  "fill_triple k inp = (t, len, rest) \<Longrightarrow> length inp = len + length rest \<and> length t = k"
  by (induction k inp arbitrary: t len rest rule: fill_triple.induct)
     (auto split: prod.splits)

lemma fill_triple_progress:
  "fill_triple (Suc k) (b # inp) = (t, len, rest) \<Longrightarrow> 0 < len"
  by (auto split: prod.splits)

text \<open>
  The outer \<open>while\<close> loop with its state: the input left, \<open>done\<close> and the bytes written so far.
  The result is the return value with everything written to \<open>out\<close>.
\<close>

function b64_loop :: "int \<Rightarrow> byte list \<Rightarrow> int \<Rightarrow> byte list \<Rightarrow> int \<times> byte list" where
  "b64_loop out_size inp dn out =
     (if inp = [] then
        (if dn + 1 \<ge> out_size then (-1, out) else (dn, out @ [0]))
      else
        (let (triple, len, rest) = fill_triple 3 inp in
         if dn + 4 \<ge> out_size then (-1, out)
         else b64_loop out_size rest (dn + 4) (out @ encode_triple triple len)))"
  by pat_completeness auto
termination
proof (relation "measure (\<lambda>(out_size, inp, dn, out). length inp)")
  fix out_size dn :: int and inp out x xa y xb yb
  assume "inp \<noteq> []" "x = fill_triple 3 inp" "(xa, y) = x" "(xb, yb) = y"
  then show "((out_size, yb, dn + 4, out @ encode_triple xa xb), out_size, inp, dn, out)
      \<in> measure (\<lambda>(out_size, inp, dn, out). length inp)"
    using fill_triple_shorter[of 3 inp xa xb yb] fill_triple_progress[of 2 "hd inp" "tl inp" xa xb yb]
    by (cases inp) (auto simp: numeral_3_eq_3 numeral_2_eq_2)
qed simp

declare b64_loop.simps [simp del]

definition lws_b64_encode_string :: "byte list \<Rightarrow> int \<Rightarrow> int \<times> byte list" where
  "lws_b64_encode_string inp out_size = b64_loop out_size inp 0 []"

section \<open>RFC 4648 as a specification\<close>

text \<open>
  A group of up to three bytes is read as one number, padded with zero bits to a multiple of six,
  and written in base 64.
\<close>

definition b64_digit :: "nat \<Rightarrow> byte" where
  "b64_digit v = encode ! (v mod 64)"

fun b64_spec :: "byte list \<Rightarrow> byte list" where
  "b64_spec [] = []"
| "b64_spec [a] = (let v = unat a * 16 in
     [b64_digit (v div 64), b64_digit v, of_char CHR ''='', of_char CHR ''=''])"
| "b64_spec [a, b] = (let v = (unat a * 256 + unat b) * 4 in
     [b64_digit (v div 4096), b64_digit (v div 64), b64_digit v, of_char CHR ''=''])"
| "b64_spec (a # b # c # xs) = (let v = (unat a * 256 + unat b) * 256 + unat c in
     [b64_digit (v div 262144), b64_digit (v div 4096), b64_digit (v div 64), b64_digit v]
     @ b64_spec xs)"

text \<open>
  The inverse, over the program's own \<open>decode\<close> table: an input character minus 43 indexes the
  table, \<open>$\<close> marks a character outside the alphabet and the entries are biased by 62.
\<close>

definition dec_digit :: "byte \<Rightarrow> nat option" where
  "dec_digit c = (if 43 \<le> unat c \<and> unat c \<le> 122 then
      (let v = decode ! (unat c - 43) in
       if v = of_char CHR ''$'' then None else Some (unat v - 62)) else None)"

fun b64_decode :: "byte list \<Rightarrow> byte list option" where
  "b64_decode [] = Some []"
| "b64_decode (p # q # r # s # xs) =
    do { a \<leftarrow> dec_digit p; b \<leftarrow> dec_digit q;
         if r = of_char CHR ''='' \<and> s = of_char CHR ''='' \<and> xs = []
         then Some [of_nat ((a * 64 + b) div 16)]
         else do { c \<leftarrow> dec_digit r;
           if s = of_char CHR ''='' \<and> xs = []
           then (let v = ((a * 64 + b) * 64 + c) div 4
                 in Some [of_nat (v div 256), of_nat v])
           else do { d \<leftarrow> dec_digit s; rest \<leftarrow> b64_decode xs;
             let v = ((a * 64 + b) * 64 + c) * 64 + d
             in Some ([of_nat (v div 65536), of_nat (v div 256), of_nat v] @ rest) } } }"
| "b64_decode _ = None"

section \<open>The loop computes the specification\<close>

lemma fill_triple_3:
  "fill_triple 3 [a] = ([a, 0, 0], 1, [])"
  "fill_triple 3 [a, b] = ([a, b, 0], 2, [])"
  "fill_triple 3 (a # b # c # xs) = ([a, b, c], 3, xs)"
  by (simp_all add: numeral_3_eq_3)

lemma high_nibble: "drop_bit 4 ((b::byte) AND 0xf0) = drop_bit 4 b"
  using drop_bit_and_high[of 4 4 b] by (simp add: mask_eq_exp_minus_1)
lemma high_crumb: "drop_bit 6 ((b::byte) AND 0xc0) = drop_bit 6 b"
  using drop_bit_and_high[of 6 2 b] by (simp add: mask_eq_exp_minus_1)

lemma sextets:
  "unat (drop_bit 2 (a::byte)) = unat a div 4"
  "unat (push_bit 4 (a AND 0x03) OR drop_bit 4 (b AND 0xf0)) = unat a mod 4 * 16 + unat b div 16"
  "unat (push_bit 2 (b AND 0x0f) OR drop_bit 6 (c AND 0xc0)) = unat b mod 16 * 4 + unat c div 64"
  "unat (c AND 0x3f) = unat c mod 64"
proof -
  show "unat (drop_bit 2 a) = unat a div 4" using unat_drop_bit[of 2 a] by simp
  have m: "unat (a AND 3) = unat a mod 4" "unat (b AND 15) = unat b mod 16"
    using unat_and_mask[of a 2] unat_and_mask[of b 4] by (simp_all add: mask_eq_exp_minus_1)
  have d: "unat (drop_bit 4 b) = unat b div 16" "unat (drop_bit 6 c) = unat c div 64"
    using unat_drop_bit[of 4 b] unat_drop_bit[of 6 c] by simp_all
  show "unat (push_bit 4 (a AND 0x03) OR drop_bit 4 (b AND 0xf0)) = unat a mod 4 * 16 + unat b div 16"
    unfolding high_nibble using unat_byte_less[of b]
    by (subst unat_shift_or) (simp_all only: m d, simp_all)
  show "unat (push_bit 2 (b AND 0x0f) OR drop_bit 6 (c AND 0xc0)) = unat b mod 16 * 4 + unat c div 64"
    unfolding high_crumb using unat_byte_less[of c]
    by (subst unat_shift_or) (simp_all only: m d, simp_all)
  show "unat (c AND 0x3f) = unat c mod 64"
    using unat_and_mask[of c 6] by (simp add: mask_eq_exp_minus_1)
qed


lemma base64_digits:
  fixes p q r s :: nat
  assumes "p < 64" "q < 64" "r < 64" "s < 64"
  shows "(((p * 64 + q) * 64 + r) * 64 + s) mod 64 = s"
    "(((p * 64 + q) * 64 + r) * 64 + s) div 64 mod 64 = r"
    "(((p * 64 + q) * 64 + r) * 64 + s) div 4096 mod 64 = q"
    "(((p * 64 + q) * 64 + r) * 64 + s) div 262144 mod 64 = p"
proof -
  have d: "n div 4096 = n div 64 div 64" "n div 262144 = n div 64 div 64 div 64" for n :: nat
    by (simp_all add: div_mult2_eq[symmetric])
  have e: "(x * 64 + y) div 64 = x" "(x * 64 + y) mod 64 = y" if "y < 64" for x y :: nat
    using that by simp_all
  show "(((p * 64 + q) * 64 + r) * 64 + s) mod 64 = s" by (simp only: e assms)
  show "(((p * 64 + q) * 64 + r) * 64 + s) div 64 mod 64 = r" by (simp only: e assms)
  show "(((p * 64 + q) * 64 + r) * 64 + s) div 4096 mod 64 = q" by (simp only: d e assms)
  show "(((p * 64 + q) * 64 + r) * 64 + s) div 262144 mod 64 = p"
    by (simp only: d e assms) (simp add: assms)
qed

lemma regroup:
  fixes a b c :: nat
  assumes "a < 256" "b < 256" "c < 256"
  shows "(a * 256 + b) * 256 + c = (((a div 4) * 64 + (a mod 4 * 16 + b div 16)) * 64
           + (b mod 16 * 4 + c div 64)) * 64 + c mod 64"
    and "a div 4 < 64" "a mod 4 * 16 + b div 16 < 64" "b mod 16 * 4 + c div 64 < 64" "c mod 64 < 64"
proof -
  define p q r s t u where d: "p = a div 4" "q = a mod 4" "r = b div 16" "s = b mod 16"
    "t = c div 64" "u = c mod 64"
  have "p * 4 + q = a" "r * 16 + s = b" "t * 64 + u = c"
    unfolding d by (rule div_mult_mod_eq)+
  then have "(a * 256 + b) * 256 + c
      = ((p * 4 + q) * 256 + (r * 16 + s)) * 256 + (t * 64 + u)" by simp
  then show "(a * 256 + b) * 256 + c = (((a div 4) * 64 + (a mod 4 * 16 + b div 16)) * 64
           + (b mod 16 * 4 + c div 64)) * 64 + c mod 64"
    unfolding d[symmetric] by (simp add: algebra_simps)
qed (use assms in auto)

lemma nat_sextets:
  fixes a b c :: nat
  assumes "a < 256" "b < 256" "c < 256"
  shows "((a * 256 + b) * 256 + c) div 262144 mod 64 = a div 4"
    "((a * 256 + b) * 256 + c) div 4096 mod 64 = a mod 4 * 16 + b div 16"
    "((a * 256 + b) * 256 + c) div 64 mod 64 = b mod 16 * 4 + c div 64"
    "((a * 256 + b) * 256 + c) mod 64 = c mod 64"
  unfolding regroup(1)[OF assms] by (rule base64_digits regroup(2-5)[OF assms])+

lemma nat_sextets_2:
  fixes a b :: nat
  assumes "a < 256" "b < 256"
  shows "(a * 256 + b) * 4 div 4096 mod 64 = a div 4"
    "(a * 256 + b) * 4 div 64 mod 64 = a mod 4 * 16 + b div 16"
    "(a * 256 + b) * 4 mod 64 = b mod 16 * 4"
proof -
  have e: "(a * 256 + b) * 4 = ((a * 256 + b) * 256 + 0) div 64" by simp
  have d: "n div 64 div 4096 = n div 262144" "n div 64 div 64 = n div 4096" for n :: nat
    by (simp_all add: div_mult2_eq[symmetric])
  note s = nat_sextets[OF assms, of 0]
  show "(a * 256 + b) * 4 div 4096 mod 64 = a div 4" unfolding e d using s(1) by simp
  show "(a * 256 + b) * 4 div 64 mod 64 = a mod 4 * 16 + b div 16" unfolding e d using s(2) by simp
  show "(a * 256 + b) * 4 mod 64 = b mod 16 * 4" unfolding e using s(3) by simp
qed

lemma nat_sextets_1:
  fixes a :: nat
  assumes "a < 256"
  shows "a * 16 div 64 mod 64 = a div 4" "a * 16 mod 64 = a mod 4 * 16"
  using assms mod_mult_mult2[of a 16 4] by (simp_all add: div_mult2_eq)

lemma encode_triple_digits:
  "encode_triple [a, b, c] n =
    [encode ! (unat a div 4), encode ! (unat a mod 4 * 16 + unat b div 16),
     (if n > 1 then encode ! (unat b mod 16 * 4 + unat c div 64) else of_char CHR ''=''),
     (if n > 2 then encode ! (unat c mod 64) else of_char CHR ''='')]"
proof -
  have n: "[a, b, c] ! 0 = a" "[a, b, c] ! 1 = b" "[a, b, c] ! 2 = c" by simp_all
  show ?thesis unfolding encode_triple_def n sextets ..
qed

lemma encode_triple_spec:
  "encode_triple [a, 0, 0] 1 = b64_spec [a]"
  "encode_triple [a, b, 0] 2 = b64_spec [a, b]"
  "encode_triple [a, b, c] 3 @ b64_spec xs = b64_spec (a # b # c # xs)"
proof -
  note l = unat_byte_less[of a] unat_byte_less[of b] unat_byte_less[of c]
  show "encode_triple [a, 0, 0] 1 = b64_spec [a]"
    unfolding encode_triple_digits b64_spec.simps Let_def b64_digit_def nat_sextets_1[OF l(1)]
    by simp
  show "encode_triple [a, b, 0] 2 = b64_spec [a, b]"
    unfolding encode_triple_digits b64_spec.simps Let_def b64_digit_def nat_sextets_2[OF l(1,2)]
    by simp
  show "encode_triple [a, b, c] 3 @ b64_spec xs = b64_spec (a # b # c # xs)"
    unfolding encode_triple_digits b64_spec.simps Let_def b64_digit_def nat_sextets[OF l]
    by simp
qed

lemma length_b64_spec: "length (b64_spec xs) = 4 * ((length xs + 2) div 3)"
proof (induction xs rule: b64_spec.induct)
  case (4 a b c xs)
  have "(length xs + 3 + 2) div 3 = (length xs + 2) div 3 + 1" by simp
  then show ?case using 4 by (simp add: Let_def)
qed (simp_all add: Let_def)

lemma b64_loop_Nil:
  "b64_loop n [] dn out = (if dn + 1 \<ge> n then (-1, out) else (dn, out @ [0]))"
  by (simp add: b64_loop.simps[of n "[]"])

lemma b64_loop_full:
  "xs \<noteq> [] \<Longrightarrow> dn + 4 \<ge> n \<Longrightarrow> b64_loop n xs dn out = (-1, out)"
  by (simp add: b64_loop.simps[of n xs] split: prod.splits)

lemma b64_loop_step:
  assumes "dn + 4 < n"
  shows "b64_loop n [a] dn out = b64_loop n [] (dn + 4) (out @ b64_spec [a])"
    "b64_loop n [a, b] dn out = b64_loop n [] (dn + 4) (out @ b64_spec [a, b])"
    "b64_loop n (a # b # c # xs) dn out = b64_loop n xs (dn + 4) (out @ encode_triple [a, b, c] 3)"
proof -
  show "b64_loop n [a] dn out = b64_loop n [] (dn + 4) (out @ b64_spec [a])"
    unfolding b64_loop.simps[of n "[a]"] fill_triple_3 using assms
    by (simp only: encode_triple_spec prod.case Let_def) simp
  show "b64_loop n [a, b] dn out = b64_loop n [] (dn + 4) (out @ b64_spec [a, b])"
    unfolding b64_loop.simps[of n "[a, b]"] fill_triple_3 using assms
    by (simp only: encode_triple_spec prod.case Let_def) simp
  show "b64_loop n (a # b # c # xs) dn out = b64_loop n xs (dn + 4) (out @ encode_triple [a, b, c] 3)"
    unfolding b64_loop.simps[of n "a # b # c # xs"] fill_triple_3 using assms by simp
qed

lemma b64_spec_Cons3:
  "b64_spec (a # b # c # xs) = encode_triple [a, b, c] 3 @ b64_spec xs"
  "length (encode_triple [a, b, c] 3) = 4"
  by (simp_all only: encode_triple_spec) (simp add: encode_triple_digits)

lemma b64_spec_short:
  "length (b64_spec [a]) = 4" "length (b64_spec [a, b]) = 4"
  by (simp_all only: length_b64_spec) simp_all

lemma b64_loop_ok:
  "dn + int (length (b64_spec xs)) + 2 \<le> n \<Longrightarrow>
   b64_loop n xs dn out = (dn + int (length (b64_spec xs)), out @ b64_spec xs @ [0])"
proof (induction xs arbitrary: dn out rule: b64_spec.induct)
  case (4 a b c xs)
  show ?case using 4(2) 4(1)[OF refl, of "dn + 4" "out @ encode_triple [a, b, c] 3"]
    unfolding b64_spec_Cons3 by (simp add: b64_loop_step b64_spec_Cons3)
qed (simp_all add: b64_loop_step b64_loop_Nil b64_spec_short del: b64_spec.simps(2,3))

lemma b64_loop_err:
  "n < dn + int (length (b64_spec xs)) + 2 \<Longrightarrow>
   \<exists>k. b64_loop n xs dn out = (-1, out @ take k (b64_spec xs)) \<and> (0 < k \<longrightarrow> dn + int k < n)"
proof (induction xs arbitrary: dn out rule: b64_spec.induct)
  case 1
  then show ?case by (intro exI[of _ 0]) (simp add: b64_loop_Nil)
next
  case (2 a)
  then have "b64_loop n [a] dn out = (-1, out @ take (if dn + 4 < n then 4 else 0) (b64_spec [a]))"
    by (auto simp: b64_loop_step b64_loop_Nil b64_loop_full b64_spec_short simp del: b64_spec.simps(2))
  then show ?case by (intro exI[of _ "if dn + 4 < n then 4 else 0"]) auto
next
  case (3 a b)
  then have "b64_loop n [a, b] dn out = (-1, out @ take (if dn + 4 < n then 4 else 0) (b64_spec [a, b]))"
    by (auto simp: b64_loop_step b64_loop_Nil b64_loop_full b64_spec_short simp del: b64_spec.simps(3))
  then show ?case by (intro exI[of _ "if dn + 4 < n then 4 else 0"]) auto
next
  case (4 a b c xs)
  let ?e = "encode_triple [a, b, c] 3"
  show ?case
  proof (cases "dn + 4 < n")
    case True
    obtain k where "b64_loop n xs (dn + 4) (out @ ?e) = (-1, (out @ ?e) @ take k (b64_spec xs))"
      "0 < k \<longrightarrow> dn + 4 + int k < n"
      using 4(1)[OF refl, of "dn + 4" "out @ ?e"] 4(2) unfolding b64_spec_Cons3 by (auto simp: b64_spec_Cons3)
    then show ?thesis using True
      by (intro exI[of _ "4 + k"])
        (cases k; simp add: b64_loop_step b64_spec_Cons3 del: b64_spec.simps(4))
  qed (intro exI[of _ 0], simp add: b64_loop_full)
qed

section \<open>The decode table\<close>

lemma encode_list: "encode = [
     65, 66, 67, 68, 69, 70, 71, 72, 73, 74, 75, 76, 77, 78, 79, 80, 81, 82, 83, 84, 85,
     86, 87, 88, 89, 90, 97, 98, 99, 100, 101, 102, 103, 104, 105, 106, 107, 108, 109,
     110, 111, 112, 113, 114, 115, 116, 117, 118, 119, 120, 121, 122, 48, 49, 50, 51, 52,
     53, 54, 55, 56, 57, 43, 47]"
  by (simp add: encode_def)

lemma decode_list: "decode = [
     124, 36, 36, 36, 125, 114, 115, 116, 117, 118, 119, 120, 121, 122, 123, 36, 36, 36,
     36, 36, 36, 36, 62, 63, 64, 65, 66, 67, 68, 69, 70, 71, 72, 73, 74, 75, 76, 77, 78,
     79, 80, 81, 82, 83, 84, 85, 86, 87, 36, 36, 36, 36, 36, 36, 88, 89, 90, 91, 92, 93,
     94, 95, 96, 97, 98, 99, 100, 101, 102, 103, 104, 105, 106, 107, 108, 109, 110, 111,
     112, 113]"
  by (simp add: decode_def)

lemma digit_not_pad: "b64_digit v \<noteq> of_char CHR ''=''"
proof -
  have "\<forall>i \<in> set [0..<64]. encode ! i \<noteq> of_char CHR ''=''"
    by (simp add: encode_list upt_conv_Cons)
  then show ?thesis unfolding b64_digit_def by simp
qed

lemma dec_digit_b64_digit: "dec_digit (b64_digit v) = Some (v mod 64)"
proof -
  have "\<forall>i \<in> set [0..<64]. dec_digit (encode ! i) = Some i"
    by (simp add: encode_list decode_list dec_digit_def upt_conv_Cons)
  then show ?thesis unfolding b64_digit_def by simp
qed

lemma regroup_digits:
  fixes a b c :: nat
  assumes "a < 256" "b < 256" "c < 256"
  defines "v \<equiv> (a * 256 + b) * 256 + c"
  shows "((v div 262144 mod 64 * 64 + v div 4096 mod 64) * 64 + v div 64 mod 64) * 64 + v mod 64 = v"
  unfolding v_def nat_sextets[OF assms(1-3)] regroup(1)[OF assms(1-3), symmetric] ..

lemma regroup_digits_2:
  fixes a b :: nat
  assumes "a < 256" "b < 256"
  defines "v \<equiv> (a * 256 + b) * 4"
  shows "((v div 4096 mod 64 * 64 + v div 64 mod 64) * 64 + v mod 64) div 4 = a * 256 + b"
proof -
  have e: "((p * 64 + (q * 16 + r)) * 64 + s * 4) div 4 = (p * 4 + q) * 256 + (r * 16 + s)"
    for p q r s :: nat by (simp add: algebra_simps)
  show ?thesis unfolding v_def nat_sextets_2[OF assms(1,2)] e div_mult_mod_eq ..
qed

lemma bytes_of_number:
  fixes a b c :: byte
  shows "of_nat (((unat a * 256 + unat b) * 256 + unat c) div 65536) = a"
    "of_nat (((unat a * 256 + unat b) * 256 + unat c) div 256) = b"
    "(of_nat ((unat a * 256 + unat b) * 256 + unat c) :: byte) = c"
proof -
  have d: "n div 65536 = n div 256 div 256" for n :: nat by (simp add: div_mult2_eq[symmetric])
  have "((unat a * 256 + unat b) * 256 + unat c) div 256 = unat a * 256 + unat b"
    "(unat a * 256 + unat b) div 256 = unat a"
    using unat_byte_less[of b] unat_byte_less[of c] by simp_all
  note e = this
  show "of_nat (((unat a * 256 + unat b) * 256 + unat c) div 65536) = a"
    unfolding d e by simp
  have z: "(of_nat 256 :: byte) = 0" by simp
  show "of_nat (((unat a * 256 + unat b) * 256 + unat c) div 256) = b"
    unfolding e of_nat_add of_nat_mult z by simp
  show "(of_nat ((unat a * 256 + unat b) * 256 + unat c) :: byte) = c"
    unfolding of_nat_add of_nat_mult z by simp
qed

lemma b64_decode_spec: "b64_decode (b64_spec xs) = Some xs"
proof (induction xs rule: b64_spec.induct)
  case (2 a)
  have "a div 4 * 64 + a mod 4 * 16 = a * 16" for a :: nat
    using div_mult_mod_eq[of a 4] by linarith
  then have "(unat a * 16 div 64 mod 64 * 64 + unat a * 16 mod 64) div 16 = unat a"
    unfolding nat_sextets_1[OF unat_byte_less] by simp
  then show ?case unfolding b64_spec.simps Let_def
    by (simp only: b64_decode.simps dec_digit_b64_digit digit_not_pad bind.bind_lunit) simp
next
  case (3 a b)
  note v = regroup_digits_2[OF unat_byte_less[of a] unat_byte_less[of b]]
  have e: "(unat a * 256 + unat b) div 256 = unat a"
    "(of_nat (unat a * 256 + unat b) :: byte) = b"
    using unat_byte_less[of b] bytes_of_number(3)[of 0 a b] by simp_all
  show ?case unfolding b64_spec.simps Let_def
    by (simp only: b64_decode.simps dec_digit_b64_digit digit_not_pad bind.bind_lunit v e Let_def) simp
next
  case (4 a b c xs)
  let ?v = "(unat a * 256 + unat b) * 256 + unat c"
  note v = regroup_digits[OF unat_byte_less[of a] unat_byte_less[of b] unat_byte_less[of c]]
  show ?case unfolding b64_spec.simps Let_def using 4[OF refl]
    by (simp only: append.simps b64_decode.simps dec_digit_b64_digit digit_not_pad
        bind.bind_lunit v bytes_of_number Let_def) simp
qed simp

lemma b64_spec_chars: "c \<in> set (b64_spec xs) \<Longrightarrow> c \<in> insert (of_char CHR ''='') (set encode)"
proof -
  have "length encode = 64" by code_simp
  then have "b64_digit v \<in> set encode" for v unfolding b64_digit_def by simp
  then show "c \<in> set (b64_spec xs) \<Longrightarrow> ?thesis"
    by (induction xs rule: b64_spec.induct) (auto simp: Let_def)
qed

lemma b64_spec_no: "0 \<notin> set (b64_spec xs)" "13 \<notin> set (b64_spec xs)" "32 \<notin> set (b64_spec xs)"
proof -
  have e: "\<forall>c \<in> insert (of_char CHR ''='') (set encode). c \<noteq> 0 \<and> c \<noteq> 13 \<and> c \<noteq> 32" by (simp add: encode_list)
  have "c \<noteq> 0 \<and> c \<noteq> 13 \<and> c \<noteq> 32" if "c \<in> set (b64_spec xs)" for c
    by (rule bspec[OF e b64_spec_chars[OF that]])
  then show "0 \<notin> set (b64_spec xs)" "13 \<notin> set (b64_spec xs)" "32 \<notin> set (b64_spec xs)" by blast+
qed

section \<open>Properties\<close>

text \<open>
  C24. \<open>lws_b64_encode_string\<close> writes the RFC 4648 encoding of its input and a terminating NUL,
  and returns the length of the encoding, exactly when \<open>out_size\<close> exceeds that length by at
  least two; otherwise it returns -1.
\<close>

theorem b64_encode_correct:
  "fst (lws_b64_encode_string inp out_size) =
     (if int (4 * ((length inp + 2) div 3)) + 2 \<le> out_size
      then int (4 * ((length inp + 2) div 3)) else -1)
   \<and> (int (4 * ((length inp + 2) div 3)) + 2 \<le> out_size \<longrightarrow>
      snd (lws_b64_encode_string inp out_size) = b64_spec inp @ [0])"
  using b64_loop_ok[of 0 inp out_size "[]"] b64_loop_err[of out_size 0 inp "[]"]
  unfolding lws_b64_encode_string_def length_b64_spec by auto

theorem b64_encode_correct_witness:
  "lws_b64_encode_string (bytes ''Man+'') 10 = (8, bytes ''TWFuKw=='' @ [0])
   \<and> fst (lws_b64_encode_string (bytes ''Man+'') 9) = -1"
  using b64_encode_correct[of "bytes ''Man+''" 10] b64_encode_correct[of "bytes ''Man+''" 9]
  by (simp add: b64_digit_def encode_list prod_eq_iff)

text \<open>
  Whatever the input and the size given, the encoder writes at most \<open>out_size\<close> bytes to
  \<open>out\<close>, and the bytes it writes before it gives up are a prefix of the encoding.
\<close>

theorem b64_encode_in_bounds:
  "int (length (snd (lws_b64_encode_string inp out_size))) \<le> max 0 out_size \<and>
   (\<exists>k. snd (lws_b64_encode_string inp out_size) = take k (b64_spec inp @ [0]))"
proof (cases "int (length (b64_spec inp)) + 2 \<le> out_size")
  case True
  then show ?thesis using b64_loop_ok[of 0 inp out_size "[]"]
    unfolding lws_b64_encode_string_def by (auto intro!: exI[of _ "length (b64_spec inp) + 1"])
next
  case False
  then obtain k where k: "b64_loop out_size inp 0 [] = (-1, take k (b64_spec inp))"
    "0 < k \<longrightarrow> int k < out_size"
    using b64_loop_err[of out_size 0 inp "[]"] by auto
  then show ?thesis unfolding lws_b64_encode_string_def
    by (auto intro!: exI[of _ "min k (length (b64_spec inp))"] simp: min_def)
qed

text \<open>
  Decoding what the encoder left in \<open>out\<close> with the file's own \<open>decode\<close> table gives the
  input back, whenever the encoder reports success.
\<close>

theorem b64_roundtrip:
  assumes "fst (lws_b64_encode_string inp out_size) \<noteq> -1"
  shows "b64_decode (cstr (snd (lws_b64_encode_string inp out_size))) = Some inp"
proof -
  have "int (length (b64_spec inp)) + 2 \<le> out_size"
    using assms b64_loop_err[of out_size 0 inp "[]"]
    unfolding lws_b64_encode_string_def by fastforce
  then have "snd (lws_b64_encode_string inp out_size) = b64_spec inp @ [0]"
    using b64_loop_ok[of 0 inp out_size "[]"] unfolding lws_b64_encode_string_def by simp
  then show ?thesis by (simp add: b64_decode_spec cstr_append_NUL b64_spec_no(1))
qed

theorem b64_roundtrip_witness:
  "fst (lws_b64_encode_string (bytes ''Ma'') 6) = 4 \<and>
   b64_decode (cstr (snd (lws_b64_encode_string (bytes ''Ma'') 6))) = Some (bytes ''Ma'')"
proof -
  have "fst (lws_b64_encode_string (bytes ''Ma'') 6) = 4"
    by (simp add: lws_b64_encode_string_def b64_loop_step b64_loop_Nil)
  then show ?thesis using b64_roundtrip[of "bytes ''Ma''" 6] by simp
qed

end
