(* ===== verification/Sha1.thy ===== *)
theory Sha1
  imports Lws_Prelude
begin

text \<open>
  \<^verbatim>\<open>lib/sha-1.c\<close>: the SHA-1 digest of the WebSocket handshake, with its streaming interface
  (\<open>sha1_init\<close>, \<open>sha1_loop\<close>, \<open>sha1_pad\<close>, \<open>sha1_result\<close>) on a little-endian machine. The
  in-place byte swap, the 16-word circular message schedule and the incremental buffering are
  proved equal to FIPS 180-1 on the padded message.
\<close>

section \<open>The program\<close>

text \<open>
  \<open>struct sha1_ctxt\<close>: \<open>h\<close> by its \<open>b32\<close> member, \<open>c\<close> by \<open>b64\<close> and \<open>m\<close> by \<open>b8\<close>; the other member of
  each union is a little-endian view of it (\<open>le_word\<close>, \<open>le_byte\<close>).
\<close>

record sha1_ctxt =
  ctx_h :: "u32 list"
  ctx_c :: "64 word"
  ctx_m :: "byte list"
  ctx_count :: byte

definition le_word :: "byte list \<Rightarrow> nat \<Rightarrow> u32" where
  "le_word mem s = ucast (mem ! (4 * s)) OR push_bit 8 (ucast (mem ! (4 * s + 1)))
     OR push_bit 16 (ucast (mem ! (4 * s + 2))) OR push_bit 24 (ucast (mem ! (4 * s + 3)))"

definition le_byte :: "'a::len word \<Rightarrow> nat \<Rightarrow> byte" where
  "le_byte x i = ucast (drop_bit (8 * i) x)"

definition K_table :: "u32 list" where
  "K_table = [0x5a827999, 0x6ed9eba1, 0x8f1bbcdc, 0xca62c1d6]"

definition K :: "nat \<Rightarrow> u32" where
  "K t = K_table ! (t div 20)"

definition F0 :: "u32 \<Rightarrow> u32 \<Rightarrow> u32 \<Rightarrow> u32" where
  "F0 x y z = (x AND y) OR (NOT x AND z)"

definition F1 :: "u32 \<Rightarrow> u32 \<Rightarrow> u32 \<Rightarrow> u32" where
  "F1 x y z = (x XOR y) XOR z"

definition F2 :: "u32 \<Rightarrow> u32 \<Rightarrow> u32 \<Rightarrow> u32" where
  "F2 x y z = (x AND y) OR (x AND z) OR (y AND z)"

definition F3 :: "u32 \<Rightarrow> u32 \<Rightarrow> u32 \<Rightarrow> u32" where
  "F3 x y z = (x XOR y) XOR z"

definition S :: "nat \<Rightarrow> u32 \<Rightarrow> u32" where
  "S n x = push_bit n x OR drop_bit (32 - n) x"

text \<open>The byte swap at the head of \<open>sha1_step\<close>: within each group of four, byte i takes byte 3 - i.\<close>

definition swap_m :: "byte list \<Rightarrow> byte list" where
  "swap_m tm = map (\<lambda>i. tm ! (4 * (i div 4) + (3 - i mod 4))) [0..<64]"

type_synonym vars = "u32 \<times> u32 \<times> u32 \<times> u32 \<times> u32"

text \<open>The schedule update \<open>W(s) = S(1, ...)\<close> and the rest of a round, which the four loops share.\<close>

definition update_W :: "u32 list \<Rightarrow> nat \<Rightarrow> u32 list" where
  "update_W W s = W[s := S 1 (W ! ((s + 13) AND 0x0f) XOR W ! ((s + 8) AND 0x0f)
                              XOR W ! ((s + 2) AND 0x0f) XOR W ! s)]"

definition mix :: "(u32 \<Rightarrow> u32 \<Rightarrow> u32 \<Rightarrow> u32) \<Rightarrow> nat \<Rightarrow> u32 \<Rightarrow> vars \<Rightarrow> vars" where
  "mix F t w v = (case v of (a, b, c, d, e) \<Rightarrow>
     let tmp = S 5 a + F b c d + e + w + K t in (tmp, a, S 30 b, c, d))"

definition round_first :: "nat \<Rightarrow> vars \<times> u32 list \<Rightarrow> vars \<times> u32 list" where
  "round_first t = (\<lambda>(v, W). let s = t AND 0x0f; W' = (if t \<ge> 16 then update_W W s else W)
                             in (mix F0 t (W' ! s) v, W'))"

definition round_rest ::
  "(u32 \<Rightarrow> u32 \<Rightarrow> u32 \<Rightarrow> u32) \<Rightarrow> nat \<Rightarrow> vars \<times> u32 list \<Rightarrow> vars \<times> u32 list" where
  "round_rest F t = (\<lambda>(v, W). let s = t AND 0x0f; W' = update_W W s in (mix F t (W' ! s) v, W'))"

definition sha1_rounds :: "vars \<times> u32 list \<Rightarrow> vars \<times> u32 list" where
  "sha1_rounds st = fold (round_rest F3) [60..<80] (fold (round_rest F2) [40..<60]
     (fold (round_rest F1) [20..<40] (fold round_first [0..<20] st)))"

definition sha1_step :: "sha1_ctxt \<Rightarrow> sha1_ctxt" where
  "sha1_step ctxt =
    (let W = map (le_word (swap_m (ctx_m ctxt))) [0..<16];
         hh = ctx_h ctxt;
         ((a, b, c, d, e), W') = sha1_rounds ((hh ! 0, hh ! 1, hh ! 2, hh ! 3, hh ! 4), W)
     in ctxt\<lparr>ctx_h := [hh ! 0 + a, hh ! 1 + b, hh ! 2 + c, hh ! 3 + d, hh ! 4 + e],
             ctx_m := replicate 64 0\<rparr>)"

definition sha1_init :: sha1_ctxt where
  "sha1_init = \<lparr>ctx_h = [0x67452301, 0xefcdab89, 0x98badcfe, 0x10325476, 0xc3d2e1f0],
     ctx_c = 0, ctx_m = replicate 64 0, ctx_count = 0\<rparr>"

definition PUTPAD :: "byte \<Rightarrow> sha1_ctxt \<Rightarrow> sha1_ctxt" where
  "PUTPAD x ctxt =
    (let ctxt1 = ctxt\<lparr>ctx_m := (ctx_m ctxt)[unat (ctx_count ctxt) mod 64 := x],
                      ctx_count := (ctx_count ctxt + 1) mod 64\<rparr>
     in if ctx_count ctxt1 mod 64 = 0 then sha1_step ctxt1 else ctxt1)"

text \<open>\<open>memcpy(&m.b8[i], xs, length xs)\<close> and \<open>bzero(&m.b8[i], n)\<close>.\<close>

definition put_m :: "nat \<Rightarrow> byte list \<Rightarrow> sha1_ctxt \<Rightarrow> sha1_ctxt" where
  "put_m i xs ctxt = ctxt\<lparr>ctx_m := take i (ctx_m ctxt) @ xs @ drop (i + length xs) (ctx_m ctxt)\<rparr>"

definition add_count :: "nat \<Rightarrow> sha1_ctxt \<Rightarrow> sha1_ctxt" where
  "add_count n ctxt = ctxt\<lparr>ctx_count := (ctx_count ctxt + of_nat n) mod 64\<rparr>"

definition put_bitcount :: "sha1_ctxt \<Rightarrow> sha1_ctxt" where
  "put_bitcount ctxt = (let put = (\<lambda>i ctxt. PUTPAD (le_byte (ctx_c ctxt) i) ctxt)
     in put 0 (put 1 (put 2 (put 3 (put 4 (put 5 (put 6 (put 7 ctxt))))))))"

definition sha1_pad :: "sha1_ctxt \<Rightarrow> sha1_ctxt" where
  "sha1_pad ctxt0 =
    (let ctxt = PUTPAD 0x80 ctxt0;
         padstart = unat (ctx_count ctxt mod 64);
         padlen = 64 - padstart;
         ctxt = (if padlen < 8
                 then sha1_step (add_count padlen (put_m padstart (replicate padlen 0) ctxt))
                 else ctxt);
         padstart = (if padlen < 8 then unat (ctx_count ctxt mod 64) else padstart);
         padlen = (if padlen < 8 then 64 - padstart else padlen);
         ctxt = add_count (padlen - 8) (put_m padstart (replicate (padlen - 8) 0) ctxt)
     in put_bitcount ctxt)"

text \<open>
  The \<open>while (off < len)\<close> loop; \<open>input\<close> is the part of the buffer from \<open>off\<close> on.
\<close>

function sha1_loop :: "sha1_ctxt \<Rightarrow> byte list \<Rightarrow> sha1_ctxt" where
  "sha1_loop ctxt input =
    (if input = [] then ctxt
     else let gapstart = unat (ctx_count ctxt mod 64);
              gaplen = 64 - gapstart;
              copysiz = (if gaplen < length input then gaplen else length input);
              ctxt1 = add_count copysiz (put_m gapstart (take copysiz input) ctxt);
              ctxt2 = ctxt1\<lparr>ctx_c := ctx_c ctxt1 + of_nat copysiz * 8\<rparr>;
              ctxt3 = (if ctx_count ctxt2 mod 64 = 0 then sha1_step ctxt2 else ctxt2)
          in sha1_loop ctxt3 (drop copysiz input))"
  by pat_completeness auto
termination
proof (relation "measure (\<lambda>(ctxt, input). length input)")
  fix ctxt :: sha1_ctxt and input :: "byte list" and g l k x1 x2 x3
  assume "input \<noteq> []" "g = unat (ctx_count ctxt mod 64)" "l = 64 - g"
    and k: "k = (if l < length input then l else length input)"
  moreover have "unat (ctx_count ctxt mod 64) < 64" by (simp add: unat_mod)
  ultimately have "0 < k" by simp
  then show "((x3, drop k input), ctxt, input) \<in> measure (\<lambda>(ctxt, input). length input)"
    using \<open>input \<noteq> []\<close> by simp
qed simp

declare sha1_loop.simps [simp del]

definition sha1_result :: "sha1_ctxt \<Rightarrow> byte list" where
  "sha1_result ctxt0 = (let ctxt = sha1_pad ctxt0 in
     concat (map (\<lambda>w. [le_byte w 3, le_byte w 2, le_byte w 1, le_byte w 0]) (ctx_h ctxt)))"

definition SHA1 :: "byte list \<Rightarrow> byte list" where
  "SHA1 d = sha1_result (sha1_loop sha1_init d)"

section \<open>FIPS 180-1 as a specification\<close>

definition fips_f :: "nat \<Rightarrow> u32 \<Rightarrow> u32 \<Rightarrow> u32 \<Rightarrow> u32" where
  "fips_f t x y z = (if t < 20 then (x AND y) OR (NOT x AND z)
     else if t < 40 then x XOR y XOR z
     else if t < 60 then (x AND y) OR (x AND z) OR (y AND z) else x XOR y XOR z)"

definition fips_K :: "nat \<Rightarrow> u32" where
  "fips_K t = (if t < 20 then 0x5a827999 else if t < 40 then 0x6ed9eba1
               else if t < 60 then 0x8f1bbcdc else 0xca62c1d6)"

fun fips_W :: "u32 list \<Rightarrow> nat \<Rightarrow> u32" where
  "fips_W M t = (if t < 16 then M ! t else
     S 1 (fips_W M (t - 3) XOR fips_W M (t - 8) XOR fips_W M (t - 14) XOR fips_W M (t - 16)))"

declare fips_W.simps [simp del]

fun fips_round :: "u32 list \<Rightarrow> nat \<Rightarrow> vars \<Rightarrow> vars" where
  "fips_round M t (a, b, c, d, e) =
     (S 5 a + fips_f t b c d + e + fips_W M t + fips_K t, a, S 30 b, c, d)"

definition be_word :: "byte list \<Rightarrow> u32" where
  "be_word bs = of_nat (((unat (bs ! 0) * 256 + unat (bs ! 1)) * 256 + unat (bs ! 2)) * 256 + unat (bs ! 3))"

fun groups :: "nat \<Rightarrow> 'a list \<Rightarrow> 'a list list" where
  "groups 0 xs = []"
| "groups (Suc n) xs = (if xs = [] then [] else take (Suc n) xs # groups (Suc n) (drop (Suc n) xs))"

definition fips_block :: "u32 list \<Rightarrow> byte list \<Rightarrow> u32 list" where
  "fips_block H blk = (case fold (fips_round (map be_word (groups 4 blk))) [0..<80]
       (H ! 0, H ! 1, H ! 2, H ! 3, H ! 4) of (a, b, c, d, e) \<Rightarrow>
     [H ! 0 + a, H ! 1 + b, H ! 2 + c, H ! 3 + d, H ! 4 + e])"

definition fips_H0 :: "u32 list" where
  "fips_H0 = [0x67452301, 0xefcdab89, 0x98badcfe, 0x10325476, 0xc3d2e1f0]"

text \<open>A 1 bit, the fewest 0 bits that complete a block but for eight bytes, the length in bits.\<close>

definition fips_pad :: "byte list \<Rightarrow> byte list" where
  "fips_pad msg = msg @ [0x80] @ replicate ((119 - length msg mod 64) mod 64) 0
                  @ be_bytes 8 (8 * length msg)"

definition sha1_spec :: "byte list \<Rightarrow> byte list" where
  "sha1_spec msg = concat (map (\<lambda>w. be_bytes 4 (unat w))
     (fold (\<lambda>blk H. fips_block H blk) (groups 64 (fips_pad msg)) fips_H0))"

section \<open>The circular schedule refines the 80-word schedule\<close>

lemma and_15: "n AND 0x0f = n mod (16::nat)"
  using take_bit_eq_mask[of 4 n] by (simp add: mask_eq_exp_minus_1 take_bit_eq_mod)

text \<open>After \<open>n\<close> rounds the circular buffer holds the last sixteen words of the schedule.\<close>

definition window :: "u32 list \<Rightarrow> nat \<Rightarrow> u32 list \<Rightarrow> bool" where
  "window M n W \<longleftrightarrow> length W = 16 \<and>
     (\<forall>t. t < max n 16 \<and> max n 16 \<le> t + 16 \<longrightarrow> W ! (t mod 16) = fips_W M t)"

lemma window_init: "length M = 16 \<Longrightarrow> window M 0 M"
  by (simp add: window_def fips_W.simps)

lemma window_nth: "window M n W \<Longrightarrow> t < n \<Longrightarrow> n \<le> t + 16 \<Longrightarrow> 16 \<le> n \<Longrightarrow> W ! (t mod 16) = fips_W M t"
  by (simp add: window_def max_def)

lemma window_update:
  assumes w: "window M n W" and n: "16 \<le> n"
  shows "window M (Suc n) (update_W W (n mod 16)) \<and> update_W W (n mod 16) ! (n mod 16) = fips_W M n"
proof -
  have i: "(n mod 16 + 13) mod 16 = (n - 3) mod 16" "(n mod 16 + 8) mod 16 = (n - 8) mod 16"
    "(n mod 16 + 2) mod 16 = (n - 14) mod 16" "n mod 16 = (n - 16) mod 16"
  proof -
    obtain k where k: "n = 16 + k" using n le_Suc_ex by blast
    have e: "16 + k + 13 = 16 + (k + 13)" "16 + k + 8 = 16 + (k + 8)" "16 + k + 2 = 16 + (k + 2)"
      "16 + k - 3 = k + 13" "16 + k - 8 = k + 8" "16 + k - 14 = k + 2" "16 + k - 16 = k" by simp_all
    show "(n mod 16 + 13) mod 16 = (n - 3) mod 16" "(n mod 16 + 8) mod 16 = (n - 8) mod 16"
      "(n mod 16 + 2) mod 16 = (n - 14) mod 16" "n mod 16 = (n - 16) mod 16"
      unfolding k mod_add_left_eq e mod_add_self1 by (rule refl)+
  qed
  have "W ! ((n mod 16 + 13) AND 15) = fips_W M (n - 3)" "W ! ((n mod 16 + 8) AND 15) = fips_W M (n - 8)"
    "W ! ((n mod 16 + 2) AND 15) = fips_W M (n - 14)"
    unfolding and_15 i(1-3) using n by (simp_all add: window_nth[OF w])
  moreover have "W ! (n mod 16) = fips_W M (n - 16)"
    by (subst i(4), rule window_nth[OF w]) (use n in auto)
  ultimately have u: "update_W W (n mod 16) = W[n mod 16 := fips_W M n]"
    unfolding update_W_def using n by (simp add: fips_W.simps[of M n])
  have ne: "t mod 16 \<noteq> n mod 16" if "t < n" "n < t + 16" for t
  proof
    assume "t mod 16 = n mod 16"
    then have "16 dvd n - t" using that(1) mod_eq_dvd_iff_nat[of t n 16] by simp
    then show False using that by (auto dest: dvd_imp_le)
  qed
  have "window M (Suc n) (W[n mod 16 := fips_W M n])"
    unfolding window_def
  proof (intro conjI allI impI)
    fix t assume t: "t < max (Suc n) 16 \<and> max (Suc n) 16 \<le> t + 16"
    show "W[n mod 16 := fips_W M n] ! (t mod 16) = fips_W M t"
    proof (cases "t = n")
      case False
      then have "t < n" "n < t + 16" using t n by (auto simp: max_def split: if_splits)
      then show ?thesis using ne[of t] window_nth[OF w, of t] n by simp
    qed (use w in \<open>simp add: window_def\<close>)
  qed (use w in \<open>simp add: window_def\<close>)
  then show ?thesis using w unfolding u by (simp add: window_def)
qed

lemma mix_fips_eq:
  assumes "K t = fips_K t" "F = fips_f t"
  shows "mix F t (fips_W M t) v = fips_round M t v"
  by (cases v) (simp add: mix_def assms Let_def)

lemma mix_fips:
  "t < 20 \<Longrightarrow> mix F0 t (fips_W M t) v = fips_round M t v"
  "20 \<le> t \<Longrightarrow> t < 40 \<Longrightarrow> mix F1 t (fips_W M t) v = fips_round M t v"
  "40 \<le> t \<Longrightarrow> t < 60 \<Longrightarrow> mix F2 t (fips_W M t) v = fips_round M t v"
  "60 \<le> t \<Longrightarrow> t < 80 \<Longrightarrow> mix F3 t (fips_W M t) v = fips_round M t v"
proof -
  have d: "t < 20 \<Longrightarrow> t div 20 = 0" "20 \<le> t \<Longrightarrow> t < 40 \<Longrightarrow> t div 20 = 1"
    "40 \<le> t \<Longrightarrow> t < 60 \<Longrightarrow> t div 20 = 2" "60 \<le> t \<Longrightarrow> t < 80 \<Longrightarrow> t div 20 = 3"
    by (auto intro!: div_nat_eqI)
  note defs = d K_def K_table_def fips_K_def fips_f_def F0_def F1_def F2_def F3_def fun_eq_iff
  show "t < 20 \<Longrightarrow> mix F0 t (fips_W M t) v = fips_round M t v"
    by (rule mix_fips_eq) (simp_all add: defs)
  show "20 \<le> t \<Longrightarrow> t < 40 \<Longrightarrow> mix F1 t (fips_W M t) v = fips_round M t v"
    by (rule mix_fips_eq) (simp_all add: defs xor.assoc)
  show "40 \<le> t \<Longrightarrow> t < 60 \<Longrightarrow> mix F2 t (fips_W M t) v = fips_round M t v"
    by (rule mix_fips_eq) (simp_all add: defs or.assoc)
  show "60 \<le> t \<Longrightarrow> t < 80 \<Longrightarrow> mix F3 t (fips_W M t) v = fips_round M t v"
    by (rule mix_fips_eq) (simp_all add: defs xor.assoc)
qed

text \<open>A loop of rounds refines the same rounds of the standard.\<close>

definition rounds_ok :: "u32 list \<Rightarrow> nat \<Rightarrow> (nat \<Rightarrow> vars \<times> u32 list \<Rightarrow> vars \<times> u32 list) \<Rightarrow> bool" where
  "rounds_ok M t r \<longleftrightarrow> (\<forall>v W. window M t W \<longrightarrow>
     (\<exists>W'. r t (v, W) = (fips_round M t v, W') \<and> window M (Suc t) W'))"

lemma rounds_fold:
  assumes "\<And>t. i \<le> t \<Longrightarrow> t < j \<Longrightarrow> rounds_ok M t r" and "i \<le> j" "window M i W"
  shows "\<exists>W'. fold r [i..<j] (v, W) = (fold (fips_round M) [i..<j] v, W') \<and> window M j W'"
  using assms(2,1,3)
proof (induction j rule: dec_induct)
  case (step j)
  then obtain W' where "fold r [i..<j] (v, W) = (fold (fips_round M) [i..<j] v, W')" "window M j W'"
    by auto
  moreover have "rounds_ok M j r" using step by simp
  ultimately obtain W'' where "r j (fold (fips_round M) [i..<j] v, W')
      = (fips_round M j (fold (fips_round M) [i..<j] v), W'')" "window M (Suc j) W''"
    unfolding rounds_ok_def by blast
  then show ?case using step(1) \<open>fold r [i..<j] (v, W) = _\<close> by simp
qed simp

lemma round_first_ok: "t < 20 \<Longrightarrow> rounds_ok M t round_first"
  unfolding rounds_ok_def
proof (intro allI impI)
  fix v W assume t: "t < 20" and w: "window M t W"
  show "\<exists>W'. round_first t (v, W) = (fips_round M t v, W') \<and> window M (Suc t) W'"
  proof (cases "16 \<le> t")
    case True
    then show ?thesis using window_update[OF w True] mix_fips(1)[OF t]
      by (simp add: round_first_def and_15 Let_def)
  next
    case False
    then have "W ! t = fips_W M t" "window M (Suc t) W"
      using w by (auto simp: window_def max_def)
    then show ?thesis using False mix_fips(1)[OF t]
      by (simp add: round_first_def and_15 Let_def)
  qed
qed

lemma round_rest_ok:
  assumes "\<And>v. mix F t (fips_W M t) v = fips_round M t v" "16 \<le> t"
  shows "rounds_ok M t (round_rest F)"
  unfolding rounds_ok_def
  using window_update[OF _ assms(2)] by (auto simp: round_rest_def and_15 Let_def assms(1))

lemma sha1_rounds_fips:
  assumes "window M 0 W"
  shows "\<exists>W'. sha1_rounds (v, W) = (fold (fips_round M) [0..<80] v, W')"
proof -
  have s: "[0..<80] = [0..<20] @ [20..<40] @ [40..<60] @ [60..<80::nat]"
    using upt_add_eq_append[of 0 20 60] upt_add_eq_append[of 20 40 40] upt_add_eq_append[of 40 60 20] by simp
  obtain W1 where 1: "fold round_first [0..<20] (v, W) = (fold (fips_round M) [0..<20] v, W1)" "window M 20 W1"
    using rounds_fold[OF round_first_ok _ assms, of 20 v] by (auto simp del: fips_round.simps)
  obtain W2 where 2: "fold (round_rest F1) [20..<40] (fold (fips_round M) [0..<20] v, W1)
    = (fold (fips_round M) [20..<40] (fold (fips_round M) [0..<20] v), W2)" "window M 40 W2"
    using rounds_fold[OF round_rest_ok[OF mix_fips(2)] _ 1(2), of 40 "fold (fips_round M) [0..<20] v"] by (auto simp del: fips_round.simps)
  obtain W3 where 3: "fold (round_rest F2) [40..<60] (fold (fips_round M) [20..<40] (fold (fips_round M) [0..<20] v), W2)
    = (fold (fips_round M) [40..<60] (fold (fips_round M) [20..<40] (fold (fips_round M) [0..<20] v)), W3)" "window M 60 W3"
    using rounds_fold[OF round_rest_ok[OF mix_fips(3)] _ 2(2), of 60 "fold (fips_round M) [20..<40] (fold (fips_round M) [0..<20] v)"] by (auto simp del: fips_round.simps)
  show ?thesis
    using rounds_fold[OF round_rest_ok[OF mix_fips(4)] _ 3(2), of 80 "fold (fips_round M) [40..<60] (fold (fips_round M) [20..<40] (fold (fips_round M) [0..<20] v))"]
    unfolding sha1_rounds_def 1(1) 2(1) 3(1) s fold_append o_apply by (auto simp del: fips_round.simps)
qed

section \<open>The byte order of a block\<close>

lemma groups_nth:
  "0 < n \<Longrightarrow> length xs = n * k \<Longrightarrow> groups n xs = map (\<lambda>i. take n (drop (n * i) xs)) [0..<k]"
proof (induction k arbitrary: xs)
  case 0
  then show ?case by (cases n) auto
next
  case (Suc k)
  then obtain m where n: "n = Suc m" by (cases n) auto
  have "xs \<noteq> []" using Suc by auto
  then have "groups n xs = take n xs # groups n (drop n xs)" by (simp add: n)
  also have "groups n (drop n xs) = map (\<lambda>i. take n (drop (n * i) (drop n xs))) [0..<k]"
    by (rule Suc.IH) (use Suc in auto)
  finally show ?case by (simp add: upt_conv_Cons map_Suc_upt[symmetric] add.commute del: upt_Suc)
qed

lemma word_bytes:
  fixes p q r s :: byte
  shows "ucast s OR push_bit 8 (ucast r) OR push_bit 16 (ucast q) OR push_bit 24 (ucast p)
   = (of_nat (((unat p * 256 + unat q) * 256 + unat r) * 256 + unat s) :: u32)"
proof -
  let ?P = "ucast p :: u32" and ?Q = "ucast q :: u32" and ?R = "ucast r :: u32" and ?S = "ucast s :: u32"
  have u: "unat (ucast x :: u32) = unat x" for x :: byte
    using unat_byte_less[of x] by (simp add: unsigned_ucast_eq take_bit_nat_eq_self)
  note l = unat_byte_less[of p] unat_byte_less[of q] unat_byte_less[of r] unat_byte_less[of s]
  have 1: "unat (push_bit 8 ?P OR ?Q) = unat p * 256 + unat q"
    using unat_shift_or[of ?Q 8 ?P] l by (simp only: u) simp
  have 2: "unat (push_bit 8 (push_bit 8 ?P OR ?Q) OR ?R) = (unat p * 256 + unat q) * 256 + unat r"
    using unat_shift_or[of ?R 8 "push_bit 8 ?P OR ?Q"] l by (simp only: u 1) simp
  have 3: "unat (push_bit 8 (push_bit 8 (push_bit 8 ?P OR ?Q) OR ?R) OR ?S)
      = ((unat p * 256 + unat q) * 256 + unat r) * 256 + unat s"
    using unat_shift_or[of ?S 8 "push_bit 8 (push_bit 8 ?P OR ?Q) OR ?R"] l by (simp only: u 2) simp
  have "?S OR push_bit 8 ?R OR push_bit 16 ?Q OR push_bit 24 ?P
     = push_bit 8 (push_bit 8 (push_bit 8 ?P OR ?Q) OR ?R) OR ?S"
    by (simp add: push_bit_or or.commute or.left_commute or.assoc)
  moreover have "of_nat (unat w) = w" for w :: u32 by simp
  ultimately show ?thesis using 3 by metis
qed

lemma swap_m_nth: "s < 16 \<Longrightarrow> k < 4 \<Longrightarrow> swap_m blk ! (4 * s + k) = blk ! (4 * s + (3 - k))"
  by (simp add: swap_m_def)

lemma schedule_words:
  assumes "length blk = 64"
  shows "map (le_word (swap_m blk)) [0..<16] = map be_word (groups 4 blk)"
proof -
  have "groups 4 blk = map (\<lambda>i. take 4 (drop (4 * i) blk)) [0..<16]"
    using groups_nth[of 4 blk 16] assms by simp
  moreover have "le_word (swap_m blk) s = be_word (take 4 (drop (4 * s) blk))" if "s < 16" for s
    using that assms swap_m_nth[OF that, of 0 blk] swap_m_nth[OF that, of 1 blk]
      swap_m_nth[OF that, of 2 blk] swap_m_nth[OF that, of 3 blk]
    unfolding le_word_def be_word_def by (simp add: word_bytes del: of_nat_add of_nat_mult)
  ultimately show ?thesis by simp
qed

lemma sha1_step_fips:
  assumes "length (ctx_m ctxt) = 64"
  shows "sha1_step ctxt = ctxt\<lparr>ctx_h := fips_block (ctx_h ctxt) (ctx_m ctxt), ctx_m := replicate 64 0\<rparr>"
proof -
  let ?M = "map be_word (groups 4 (ctx_m ctxt))" and ?H = "ctx_h ctxt"
  have "length ?M = 16" unfolding schedule_words[OF assms, symmetric] by simp
  then obtain W' where "sha1_rounds ((?H ! 0, ?H ! 1, ?H ! 2, ?H ! 3, ?H ! 4), ?M) =
    (fold (fips_round ?M) [0..<80] (?H ! 0, ?H ! 1, ?H ! 2, ?H ! 3, ?H ! 4), W')"
    using sha1_rounds_fips[OF window_init] by blast
  then show ?thesis
    unfolding sha1_step_def schedule_words[OF assms] Let_def fips_block_def
    by (simp split: prod.splits)
qed

section \<open>Streaming\<close>

lemma groups_append:
  "0 < n \<Longrightarrow> length xs = n * k \<Longrightarrow> groups n (xs @ ys) = groups n xs @ groups n ys"
proof (induction k arbitrary: xs)
  case 0
  then show ?case by (cases n) auto
next
  case (Suc k)
  then obtain m where n: "n = Suc m" by (cases n) auto
  have "xs \<noteq> []" using Suc by auto
  have "groups n (drop n xs @ ys) = groups n (drop n xs) @ groups n ys"
    by (rule Suc.IH) (use Suc in auto)
  then show ?case using \<open>xs \<noteq> []\<close> Suc.prems by (simp add: n)
qed

lemma groups_Nil [simp]: "groups n [] = []"
  by (cases n) auto

lemma groups_one: "0 < n \<Longrightarrow> length xs = n \<Longrightarrow> groups n xs = [xs]"
  by (cases n) auto

text \<open>The digest of the complete blocks of a message, and what the context holds of the rest.\<close>

definition hash_blocks :: "byte list \<Rightarrow> u32 list" where
  "hash_blocks msg = fold (\<lambda>blk H. fips_block H blk) (groups 64 msg) fips_H0"

definition buffered :: "byte list \<Rightarrow> sha1_ctxt \<Rightarrow> bool" where
  "buffered msg ctxt \<longleftrightarrow>
     ctx_h ctxt = hash_blocks (take (64 * (length msg div 64)) msg) \<and>
     length (ctx_m ctxt) = 64 \<and>
     take (length msg mod 64) (ctx_m ctxt) = drop (64 * (length msg div 64)) msg \<and>
     ctx_count ctxt = of_nat (length msg mod 64)"

definition absorb :: "byte list \<Rightarrow> sha1_ctxt \<Rightarrow> sha1_ctxt" where
  "absorb xs ctxt = (let c1 = add_count (length xs) (put_m (unat (ctx_count ctxt mod 64)) xs ctxt)
     in if ctx_count c1 mod 64 = 0 then sha1_step c1 else c1)"

lemma hash_blocks_snoc:
  "length msg = 64 * k \<Longrightarrow> length blk = 64 \<Longrightarrow> hash_blocks (msg @ blk) = fips_block (hash_blocks msg) blk"
  by (simp add: hash_blocks_def groups_append[of 64 msg k] groups_one)

lemma count_mod: "n \<le> 64 \<Longrightarrow> (of_nat n mod 64 :: byte) = of_nat (n mod 64)"
  by (simp add: word_unat_eq_iff unat_mod unat_of_nat)

lemma unat_count: "n < 64 \<Longrightarrow> unat (of_nat n :: byte) = n"
  by (simp add: unat_of_nat)

lemma count_eq_0: "n < 64 \<Longrightarrow> (of_nat n :: byte) = 0 \<longleftrightarrow> n = 0"
  by (simp add: word_unat_eq_iff unat_of_nat)

lemma buffered_absorb:
  assumes b: "buffered msg ctxt" and xs: "xs \<noteq> []" and fit: "length msg mod 64 + length xs \<le> 64"
  shows "buffered (msg @ xs) (absorb xs ctxt)"
proof -
  define q r where qr: "q = length msg div 64" "r = length msg mod 64"
  note fit = fit[folded qr]
  let ?c = "add_count (length xs) (put_m r xs ctxt)"
  have len: "length msg = 64 * q + r" and r: "r < 64" unfolding qr by simp_all
  have ctxt: "ctx_h ctxt = hash_blocks (take (64 * q) msg)" "length (ctx_m ctxt) = 64"
    "take r (ctx_m ctxt) = drop (64 * q) msg" "ctx_count ctxt = of_nat r"
    using b unfolding buffered_def qr by auto
  have g: "unat (ctx_count ctxt mod 64) = r"
    using ctxt(4) r by (simp add: count_mod unat_count)
  have cm: "ctx_m ?c = drop (64 * q) msg @ xs @ drop (r + length xs) (ctx_m ctxt)"
    by (simp add: add_count_def put_m_def ctxt(3))
  have lm: "length (ctx_m ?c) = 64" using ctxt(2) fit by (simp add: add_count_def put_m_def)
  have ch: "ctx_h ?c = hash_blocks (take (64 * q) msg)"
    by (simp add: add_count_def put_m_def ctxt(1))
  have cc: "ctx_count ?c = of_nat ((r + length xs) mod 64)"
    using count_mod[OF fit] by (simp add: add_count_def put_m_def ctxt(4))
  have a: "absorb xs ctxt = (if (r + length xs) mod 64 = 0 then sha1_step ?c else ?c)"
    unfolding absorb_def g Let_def cc by (simp add: count_mod count_eq_0 del: of_nat_add)
  show ?thesis
  proof (cases "r + length xs = 64")
    case True
    then have l: "length (msg @ xs) = 64 * (q + 1)" using len by simp
    have "msg @ xs = take (64 * q) msg @ ctx_m ?c" using True cm ctxt(2) by simp
    then have "hash_blocks (msg @ xs) = fips_block (ctx_h ?c) (ctx_m ?c)"
      using hash_blocks_snoc[OF _ lm, of "take (64 * q) msg" q] ch len by simp
    moreover have d: "length (msg @ xs) div 64 = q + 1" "length (msg @ xs) mod 64 = 0"
      unfolding l by simp_all
    moreover have "take (64 * (q + 1)) (msg @ xs) = msg @ xs" "drop (64 * (q + 1)) (msg @ xs) = []"
      by (simp_all only: take_all drop_all l order_refl)
    ultimately show ?thesis unfolding a sha1_step_fips[OF lm] buffered_def d using True cc
      by simp
  next
    case False
    then have s: "r + length xs < 64" using fit by simp
    then have "length (msg @ xs) div 64 = q" "length (msg @ xs) mod 64 = r + length xs"
      using len by (auto intro!: div_nat_eqI mod_nat_eqI)
    then show ?thesis unfolding a buffered_def using s xs lm ch cc cm len ctxt(2)
      by (simp del: length_append)
  qed
qed

lemma absorb_c: "length (ctx_m ctxt) = 64 \<Longrightarrow> unat (ctx_count ctxt mod 64) + length xs \<le> 64 \<Longrightarrow>
    ctx_c (absorb xs ctxt) = ctx_c ctxt"
  unfolding absorb_def Let_def
  by (subst sha1_step_fips) (auto simp: add_count_def put_m_def)

lemma step_set_c: "sha1_step (ctxt\<lparr>ctx_c := v\<rparr>) = (sha1_step ctxt)\<lparr>ctx_c := v\<rparr>"
  by (simp add: sha1_step_def Let_def split: prod.splits)

lemma buffered_set_c [simp]: "buffered msg (ctxt\<lparr>ctx_c := v\<rparr>) = buffered msg ctxt"
  by (simp add: buffered_def)

lemma buffered_count: "buffered msg ctxt \<Longrightarrow> unat (ctx_count ctxt mod 64) = length msg mod 64"
  by (simp add: buffered_def count_mod unat_count)

lemma buffered_m: "buffered msg ctxt \<Longrightarrow> length (ctx_m ctxt) = 64"
  by (simp add: buffered_def)

text \<open>The context represents the message fed so far: its blocks, its tail and its bit length.\<close>

definition streamed :: "byte list \<Rightarrow> sha1_ctxt \<Rightarrow> bool" where
  "streamed msg ctxt \<longleftrightarrow> buffered msg ctxt \<and> ctx_c ctxt = of_nat (8 * length msg)"

lemma streamed_init: "streamed [] sha1_init"
  by (simp add: streamed_def buffered_def sha1_init_def hash_blocks_def fips_H0_def groups_Nil)

lemma streamed_absorb:
  assumes "streamed msg ctxt" "xs \<noteq> []" "length msg mod 64 + length xs \<le> 64"
  shows "streamed (msg @ xs) ((absorb xs ctxt)\<lparr>ctx_c := ctx_c ctxt + of_nat (length xs) * 8\<rparr>)"
  using assms buffered_absorb[of msg ctxt xs]
  by (simp add: streamed_def algebra_simps)

lemma sha1_loop_absorb:
  assumes "streamed msg ctxt" "input \<noteq> []"
  defines "k \<equiv> min (64 - length msg mod 64) (length input)"
  shows "sha1_loop ctxt input = sha1_loop
     ((absorb (take k input) ctxt)\<lparr>ctx_c := ctx_c ctxt + of_nat k * 8\<rparr>) (drop k input)"
proof -
  have g: "unat (ctx_count ctxt mod 64) = length msg mod 64"
    using assms(1) buffered_count by (simp add: streamed_def)
  have k: "(if 64 - length msg mod 64 < length input then 64 - length msg mod 64 else length input) = k"
    "length (take k input) = k"
    by (auto simp: k_def)
  have "(if ctx_count (c\<lparr>ctx_c := v\<rparr>) mod 64 = 0 then sha1_step (c\<lparr>ctx_c := v\<rparr>) else c\<lparr>ctx_c := v\<rparr>)
    = (if ctx_count c mod 64 = 0 then sha1_step c else c)\<lparr>ctx_c := v\<rparr>" for c v
    by (simp add: step_set_c)
  moreover have "ctx_c (add_count k (put_m g xs ctxt)) = ctx_c ctxt" for g xs
    by (simp add: add_count_def put_m_def)
  ultimately show ?thesis
    by (subst sha1_loop.simps) (simp only: assms(2) if_False Let_def g k absorb_def)
qed

lemma streamed_loop: "streamed msg ctxt \<Longrightarrow> streamed (msg @ input) (sha1_loop ctxt input)"
proof (induction input arbitrary: msg ctxt rule: length_induct)
  case (1 input)
  show ?case
  proof (cases "input = []")
    case True
    then show ?thesis using 1(2) by (subst sha1_loop.simps) simp
  next
    case False
    define k where "k = min (64 - length msg mod 64) (length input)"
    have k: "0 < k" "k \<le> length input" "length msg mod 64 + k \<le> 64"
      using False mod_less_divisor[of 64 "length msg"] by (auto simp: k_def min_def)
    let ?c = "(absorb (take k input) ctxt)\<lparr>ctx_c := ctx_c ctxt + of_nat k * 8\<rparr>"
    have "streamed (msg @ take k input) ?c"
      using streamed_absorb[OF 1(2), of "take k input"] k False by (simp add: min_absorb2)
    then have "streamed ((msg @ take k input) @ drop k input) (sha1_loop ?c (drop k input))"
      using 1(1) k by (intro 1(1)[rule_format]) auto
    then show ?thesis using sha1_loop_absorb[OF 1(2) False] by (simp add: k_def)
  qed
qed

text \<open>The two zero fills and the single-byte writes of \<open>sha1_pad\<close> are absorptions.\<close>

lemma PUTPAD_absorb:
  assumes "buffered msg ctxt"
  shows "PUTPAD x ctxt = absorb [x] ctxt"
proof -
  have g: "unat (ctx_count ctxt mod 64) = length msg mod 64" by (rule buffered_count[OF assms])
  then have "unat (ctx_count ctxt) mod 64 = length msg mod 64" by (simp add: unat_mod)
  moreover have "take i xs @ x # drop (Suc i) xs = xs[i := x]" if "i < length xs" for i xs
    using that by (simp add: upd_conv_take_nth_drop)
  ultimately show ?thesis unfolding PUTPAD_def absorb_def add_count_def put_m_def g Let_def
    using buffered_m[OF assms] by simp
qed

lemma buffered_PUTPAD:
  assumes "buffered msg ctxt"
  shows "buffered (msg @ [x]) (PUTPAD x ctxt)" "ctx_c (PUTPAD x ctxt) = ctx_c ctxt"
proof -
  have l: "length msg mod 64 + length [x] \<le> 64" by (simp add: Suc_le_eq)
  show "buffered (msg @ [x]) (PUTPAD x ctxt)" "ctx_c (PUTPAD x ctxt) = ctx_c ctxt"
    using buffered_absorb[OF assms _ l] absorb_c[of ctxt "[x]"] l
    by (simp_all add: PUTPAD_absorb[OF assms] buffered_count[OF assms] buffered_m[OF assms])
qed

lemma put_m_Nil: "put_m i [] ctxt = ctxt"
  by (simp add: put_m_def)

lemma fill_step:
  assumes "buffered msg ctxt" "length msg mod 64 + n = 64"
  shows "sha1_step (add_count n (put_m (length msg mod 64) (replicate n 0) ctxt)) = absorb (replicate n 0) ctxt"
  using assms count_mod[of 64] unfolding absorb_def buffered_count[OF assms(1)] Let_def
  by (simp add: add_count_def put_m_def buffered_def flip: of_nat_add)

lemma fill_56:
  assumes "buffered msg ctxt" "length msg mod 64 + n = 56"
  shows "buffered (msg @ replicate n 0) (add_count n (put_m (length msg mod 64) (replicate n 0) ctxt))"
    "ctx_c (add_count n (put_m (length msg mod 64) (replicate n 0) ctxt)) = ctx_c ctxt"
proof -
  let ?c = "add_count n (put_m (length msg mod 64) (replicate n 0) ctxt)"
  have c: "ctx_count ?c = 56" 
    using assms count_mod[of 56] by (simp add: add_count_def put_m_def buffered_def flip: of_nat_add)
  show "buffered (msg @ replicate n 0) ?c"
  proof (cases "n = 0")
    case True
    then show ?thesis using assms c by (simp add: put_m_Nil add_count_def buffered_def)
  next
    case False
    have "?c = absorb (replicate n 0) ctxt"
      unfolding absorb_def buffered_count[OF assms(1)] Let_def using c by simp
    then show ?thesis using buffered_absorb[OF assms(1), of "replicate n 0"] assms(2) False by simp
  qed
  show "ctx_c ?c = ctx_c ctxt" by (simp add: add_count_def put_m_def)
qed

lemma le_byte_of_nat: "i < 8 \<Longrightarrow> le_byte (of_nat v :: 64 word) i = of_nat (v div 256 ^ i)"
proof -
  assume i: "i < 8"
  have "v div 256 ^ i = drop_bit (8 * i) v" by (simp add: drop_bit_eq_div power_mult)
  then show ?thesis unfolding le_byte_def using i
    by (intro bit_word_eqI) (auto simp: bit_simps)
qed

lemma le_byte_u32: "i < 4 \<Longrightarrow> le_byte (w :: u32) i = of_nat (unat w div 256 ^ i)"
proof -
  assume i: "i < 4"
  have "unat w div 256 ^ i = drop_bit (8 * i) (unat w)" by (simp add: drop_bit_eq_div power_mult)
  then show ?thesis unfolding le_byte_def using i
    by (intro bit_word_eqI) (auto simp: bit_simps)
qed

lemma put_lengths:
  assumes "buffered msg ctxt" "ctx_c ctxt = of_nat v"
  shows "buffered (msg @ be_bytes 8 v) (put_bitcount ctxt)"
proof -
  define put where "put = (\<lambda>i ctxt. PUTPAD (le_byte (ctx_c ctxt) i) ctxt)"
  have p: "buffered (ms @ [of_nat (v div 256 ^ i)]) (put i cx) \<and> ctx_c (put i cx) = of_nat v"
    if "buffered ms cx \<and> ctx_c cx = of_nat v" "i < 8" for ms cx i
    using that buffered_PUTPAD[of ms cx] by (simp add: put_def le_byte_of_nat)
  have b: "be_bytes 8 v = [of_nat (v div 256 ^ 7), of_nat (v div 256 ^ 6), of_nat (v div 256 ^ 5),
     of_nat (v div 256 ^ 4), of_nat (v div 256 ^ 3), of_nat (v div 256 ^ 2), of_nat (v div 256 ^ 1),
     of_nat (v div 256 ^ 0)]"
    by (simp add: be_bytes_def upt_conv_Cons)
  show ?thesis
    using p[OF p[OF p[OF p[OF p[OF p[OF p[OF p[of msg ctxt 7]]]]]]], of 6 5 4 3 2 1 0] assms(1,2)
    unfolding put_bitcount_def put_def[symmetric] Let_def
    by (simp add: b del: power_0 power_one_right)
qed

lemma pad_zeros: "(119 - n mod 64) mod 64 = (if n mod 64 \<le> 55 then 55 - n mod 64 else 119 - n mod (64::nat))"
proof (cases "n mod 64 \<le> 55")
  case True
  then have "119 - n mod 64 = (55 - n mod 64) + 64" by simp
  then show ?thesis using True by (simp only: mod_add_self2) simp
next
  case False
  then show ?thesis using mod_less_divisor[of 64 n] by simp
qed

lemma length_fips_pad: "64 dvd length (fips_pad msg)"
proof -
  define q r where qr: "q = length msg div 64" "r = length msg mod 64"
  have r: "r < 64" and n: "length msg = 64 * q + r" unfolding qr by simp_all
  have l: "length (fips_pad msg) = 64 * q + (r + (119 - r) mod 64 + 9)"
    by (simp add: fips_pad_def be_bytes_def n[symmetric] qr(2)[symmetric])
  have "r + (119 - r) mod 64 + 9 = (if r \<le> 55 then 64 * 1 else 64 * 2)"
    using pad_zeros[of "length msg", folded qr] r by auto
  then show ?thesis unfolding l by auto
qed

text \<open>The state after the marker byte and the optional extra block, before the last fill.\<close>

lemma sha1_pad_prepare:
  assumes "buffered (msg @ [0x80]) c1"
  defines "p \<equiv> length (msg @ [0x80]) mod 64"
  defines "c2 \<equiv> (if 64 - p < 8 then sha1_step (add_count (64 - p) (put_m p (replicate (64 - p) 0) c1)) else c1)"
    and "z \<equiv> (if 64 - p < 8 then 64 - p else 0)"
  shows "buffered (msg @ [0x80] @ replicate z 0) c2" "ctx_c c2 = ctx_c c1"
    "(if 64 - p < 8 then unat (ctx_count c2 mod 64) else p) = length (msg @ [0x80] @ replicate z 0) mod 64"
    "length (msg @ [0x80] @ replicate z 0) mod 64 \<le> 56"
    "z + (56 - length (msg @ [0x80] @ replicate z 0) mod 64) = (119 - length msg mod 64) mod 64"
proof -
  have p: "p < 64" by (simp add: p_def)
  let ?ms = "msg @ [0x80] @ replicate z 0"
  show b: "buffered ?ms c2" 
    using assms(1) fill_step[OF assms(1), of "64 - p"] buffered_absorb[OF assms(1), of "replicate (64 - p) 0"] p
    by (auto simp: c2_def z_def p_def)
  show "ctx_c c2 = ctx_c c1"
    using fill_step[OF assms(1), of "64 - p"] absorb_c[of c1 "replicate (64 - p) 0"]
      buffered_count[OF assms(1)] buffered_m[OF assms(1)] p
    by (auto simp: c2_def z_def p_def)
  have l: "length ?ms mod 64 = (if 64 - p < 8 then 0 else p)"
  proof -
    have "length ?ms = length (msg @ [0x80]) + z" by simp
    then have "length ?ms mod 64 = (p + z) mod 64" by (simp only: p_def mod_add_left_eq)
    then show ?thesis using p by (auto simp: z_def)
  qed
  show "(if 64 - p < 8 then unat (ctx_count c2 mod 64) else p) = length ?ms mod 64"
    using l buffered_count[OF b] by simp
  show "length ?ms mod 64 \<le> 56" using l by auto
  have "p = (if length msg mod 64 = 63 then 0 else Suc (length msg mod 64))"
    by (simp add: p_def mod_Suc)
  then show "z + (56 - length ?ms mod 64) = (119 - length msg mod 64) mod 64"
    unfolding l unfolding z_def pad_zeros using mod_less_divisor[of 64 "length msg"] by (auto split: if_splits)
qed

lemma sha1_pad_hash:
  assumes "streamed msg ctxt"
  shows "ctx_h (sha1_pad ctxt) = hash_blocks (fips_pad msg)"
proof -
  define c1 where "c1 = PUTPAD 0x80 ctxt"
  have b1: "buffered (msg @ [0x80]) c1" "ctx_c c1 = of_nat (8 * length msg)"
    using assms buffered_PUTPAD[of msg ctxt] by (simp_all add: streamed_def c1_def)
  define p where "p = length (msg @ [0x80]) mod 64"
  define c2 where "c2 = (if 64 - p < 8 then sha1_step (add_count (64 - p) (put_m p (replicate (64 - p) 0) c1)) else c1)"
  define z :: nat where "z = (if 64 - p < 8 then 64 - p else 0)"
  define q where "q = length (msg @ [0x80] @ replicate z (0::byte)) mod 64"
  note prep = sha1_pad_prepare[OF b1(1), folded p_def, folded c2_def, folded z_def, folded q_def]
  have f: "(if 64 - p < 8 then 64 - q else 64 - p) - 8 = 56 - q"
    using prep(3) by (auto split: if_splits)
  have fill: "q + (56 - q) = 56" using prep(4) by simp
  note fill = fill_56[OF prep(1), of "56 - q", folded q_def, OF fill]
  have cc: "ctx_c (add_count (56 - q) (put_m q (replicate (56 - q) 0) c2)) = of_nat (8 * length msg)"
    using fill(2) prep(2) b1(2) by simp
  have m: "fips_pad msg = ((msg @ [0x80] @ replicate z 0) @ replicate (56 - q) 0)
      @ be_bytes 8 (8 * length msg)"
    unfolding fips_pad_def prep(5)[symmetric] replicate_add by (simp only: append_assoc)
  have "buffered (fips_pad msg) (sha1_pad ctxt)"
    using put_lengths[OF fill(1) cc]
    unfolding m sha1_pad_def Let_def c1_def[symmetric] buffered_count[OF b1(1)] p_def[symmetric]
      c2_def[symmetric] prep(3) f .
  then show ?thesis using length_fips_pad[of msg] by (auto simp: buffered_def)
qed

lemma be_bytes_u32: "be_bytes 4 (unat w) = [le_byte w 3, le_byte w 2, le_byte w 1, le_byte (w :: u32) 0]"
  by (simp add: be_bytes_def upt_conv_Cons le_byte_u32)

lemma sha1_result_spec: "streamed msg ctxt \<Longrightarrow> sha1_result ctxt = sha1_spec msg"
  by (simp add: sha1_result_def sha1_spec_def sha1_pad_hash be_bytes_u32 hash_blocks_def)

section \<open>The streaming interface\<close>

text \<open>
  What a client of a streaming hash relies on: a relation \<open>repr\<close> between contexts and the message
  fed so far, which \<open>init\<close> establishes and \<open>update\<close> maintains, and a digest that depends on
  that message alone.
\<close>

locale hash_stream =
  fixes init :: 'ctx
    and update :: "'ctx \<Rightarrow> 'a list \<Rightarrow> 'ctx"
    and finish :: "'ctx \<Rightarrow> 'd"
    and repr :: "'a list \<Rightarrow> 'ctx \<Rightarrow> bool"
    and digest :: "'a list \<Rightarrow> 'd"
  assumes init_repr: "repr [] init"
    and update_repr: "repr msg ctx \<Longrightarrow> repr (msg @ xs) (update ctx xs)"
    and finish_digest: "repr msg ctx \<Longrightarrow> finish ctx = digest msg"
begin

lemma chunks_repr: "repr msg ctx \<Longrightarrow> repr (msg @ concat xss) (fold (\<lambda>xs ctx. update ctx xs) xss ctx)"
proof (induction xss arbitrary: msg ctx)
  case (Cons xs xss)
  then show ?case using Cons.IH[OF update_repr[OF Cons.prems, of xs]] by simp
qed simp

lemma chunks_digest: "finish (fold (\<lambda>xs ctx. update ctx xs) xss init) = digest (concat xss)"
  using chunks_repr[OF init_repr] finish_digest by fastforce

lemma one_shot: "finish (update init xs) = digest xs"
  using chunks_digest[of "[xs]"] by simp

end

interpretation sha1_stream: hash_stream sha1_init sha1_loop sha1_result streamed sha1_spec
  by unfold_locales (fact streamed_init, erule streamed_loop, erule sha1_result_spec)

lemma length_fips_block: "length (fips_block H blk) = 5"
  by (simp add: fips_block_def split: prod.splits)

lemma length_sha1_spec: "length (sha1_spec msg) = 20"
proof -
  have "length (fold (\<lambda>blk H. fips_block H blk) bs H) = 5" if "length H = 5" for bs H
    using that by (induction bs arbitrary: H) (simp_all add: length_fips_block)
  moreover have "length fips_H0 = 5" by (simp add: fips_H0_def)
  ultimately show ?thesis
    by (simp add: sha1_spec_def length_concat be_bytes_def o_def sum_list_triv comp_def)
qed

section \<open>Properties\<close>

text \<open>
  C19. \<open>SHA1\<close> computes the FIPS 180-1 digest of its input, for every input length.
\<close>

theorem SHA1_correct: "SHA1 d = sha1_spec d"
  unfolding SHA1_def by (rule sha1_stream.one_shot)

text \<open>
  Feeding a message to \<open>sha1_loop\<close> in pieces of any sizes (empty ones included) and closing
  with \<open>sha1_result\<close> gives the digest of the concatenation.
\<close>

theorem sha1_loop_chunks:
  "sha1_result (fold (\<lambda>xs ctx. sha1_loop ctx xs) xss sha1_init) = sha1_spec (concat xss)"
  by (rule sha1_stream.chunks_digest)

text \<open>
  \<open>sha1_step\<close> on a full buffer (the little-endian byte swap, the in-place 16-word circular
  schedule, the four loops of twenty rounds) is the FIPS 180-1 block function over the 80-word
  schedule; it leaves the bit count and the byte count alone and clears the buffer.
\<close>

theorem sha1_step_block:
  assumes "length (ctx_m ctxt) = 64"
  shows "sha1_step ctxt =
    ctxt\<lparr>ctx_h := fips_block (ctx_h ctxt) (ctx_m ctxt), ctx_m := replicate 64 0\<rparr>"
  using assms by (rule sha1_step_fips)

theorem sha1_step_block_witness:
  "length (ctx_m sha1_init) = 64 \<and>
   ctx_h (sha1_step sha1_init) = fips_block fips_H0 (replicate 64 0) \<and>
   ctx_m (sha1_step sha1_init) = replicate 64 0"
proof -
  have "length (ctx_m sha1_init) = 64" by (simp add: sha1_init_def)
  moreover have "ctx_h sha1_init = fips_H0" "ctx_m sha1_init = replicate 64 0"
    by (simp_all add: sha1_init_def fips_H0_def)
  ultimately show ?thesis using sha1_step_block[of sha1_init] by simp
qed

end
