(* ===== verification/Headers.thy ===== *)
theory Headers
  imports Lws_Types Lextable
begin

text \<open>
  The HTTP header store and parser of \<^verbatim>\<open>lib/parsers.c\<close>: fragments chained per token over one data
  block, filled byte by byte by \<open>libwebsocket_parse\<close>. Every array access is checked; the result
  \<open>None\<close> is undefined behaviour or a loop that does not end. The parser is proved total and
  memory safe on every input, and the readers total on every table it builds; \<open>Header_Lines\<close>
  proves what the lines of a request are turned into.
\<close>

section \<open>The header store\<close>

text \<open>
  \<open>malloc\<close> hands out a block with arbitrary contents, or none; \<open>lws_allocate_header_table\<close> clears what
  it relies on.
\<close>

definition lws_allocate_header_table :: "allocated_headers option \<Rightarrow> 'u lws \<Rightarrow> int \<times> 'u lws" where
  "lws_allocate_header_table block wsi = (case block of
      None \<Rightarrow> (-1, upd_hdr (\<lambda>hd. hd\<lparr>hdr_ah := None\<rparr>) wsi)
    | Some ah \<Rightarrow> (0, upd_hdr (\<lambda>hd. hd\<lparr>hdr_ah := Some (ah\<lparr>
         ah_frag_index := replicate WSI_TOKEN_COUNT 0,
         ah_next_frag_index := 0, ah_pos := 0\<rparr>)\<rparr>) wsi))"

text \<open>The \<open>do ... while (n)\<close> loops along a chain of fragments; they need not end on a cyclic chain.\<close>

partial_function (option) chain_length :: "allocated_headers \<Rightarrow> nat \<Rightarrow> nat \<Rightarrow> nat option" where
  "chain_length ah n len = do { f \<leftarrow> rd (ah_frags ah) n;
     if frag_next f = 0 then Some (len + frag_len f)
     else chain_length ah (frag_next f) (len + frag_len f) }"

definition lws_hdr_total_length :: "allocated_headers \<Rightarrow> nat \<Rightarrow> nat option" where
  "lws_hdr_total_length ah h = do { n \<leftarrow> rd (ah_frag_index ah) h;
     if n = 0 then Some 0 else chain_length ah n 0 }"

text \<open>\<open>strcpy\<close>: the source is what lies in its block from the pointer on; it has to hold a NUL.\<close>

fun c_strcpy :: "byte list \<Rightarrow> nat \<Rightarrow> byte list \<Rightarrow> byte list option" where
  "c_strcpy dest i [] = None"
| "c_strcpy dest i (ch # src) = do { dest \<leftarrow> wr dest i ch;
     if ch = 0 then Some dest else c_strcpy dest (i + 1) src }"

partial_function (option) chain_copy ::
  "allocated_headers \<Rightarrow> byte list \<Rightarrow> nat \<Rightarrow> nat \<Rightarrow> byte list option" where
  "chain_copy ah dest i n = do { f \<leftarrow> rd (ah_frags ah) n;
     dest \<leftarrow> c_strcpy dest i (drop (frag_offset f) (ah_data ah));
     if frag_next f = 0 then Some dest
     else chain_copy ah dest (i + frag_len f) (frag_next f) }"

text \<open>\<open>dest\<close> is the block the destination pointer starts, \<open>len\<close> the size the caller gives.\<close>

definition lws_hdr_copy :: "allocated_headers \<Rightarrow> byte list \<Rightarrow> int \<Rightarrow> nat \<Rightarrow> (int \<times> byte list) option" where
  "lws_hdr_copy ah dest len h = do { toklen \<leftarrow> lws_hdr_total_length ah h;
     if int toklen \<ge> len then Some (-1, dest)
     else do { n \<leftarrow> rd (ah_frag_index ah) h;
       if n = 0 then Some (0, dest)
       else do { dest \<leftarrow> chain_copy ah dest 0 n; Some (int toklen, dest) } } }"

text \<open>A pointer into \<open>data\<close> by its index, \<open>None\<close> for NULL.\<close>

definition lws_hdr_simple_ptr :: "allocated_headers \<Rightarrow> nat \<Rightarrow> nat option option" where
  "lws_hdr_simple_ptr ah h = do { n \<leftarrow> rd (ah_frag_index ah) h;
     if n = 0 then Some None
     else do { f \<leftarrow> rd (ah_frags ah) n; Some (Some (frag_offset f)) } }"

text \<open>\<open>data[pos++] = c; if (c) frags[next_frag_index].len++;\<close>\<close>

definition put_char :: "byte \<Rightarrow> allocated_headers \<Rightarrow> allocated_headers option" where
  "put_char ch ah = do { d \<leftarrow> wr (ah_data ah) (ah_pos ah) ch;
     f \<leftarrow> rd (ah_frags ah) (ah_next_frag_index ah);
     fs \<leftarrow> wr (ah_frags ah) (ah_next_frag_index ah)
            (if ch \<noteq> 0 then f\<lparr>frag_len := frag_len f + 1\<rparr> else f);
     Some (ah\<lparr>ah_data := d, ah_pos := ah_pos ah + 1, ah_frags := fs\<rparr>) }"

fun put_chars :: "byte list \<Rightarrow> allocated_headers \<Rightarrow> (int \<times> allocated_headers) option" where
  "put_chars [] ah = Some (0, ah)"
| "put_chars (ch # s) ah =
     (if ah_pos ah = LWS_MAX_HEADER_LEN then Some (-1, ah)
      else do { ah \<leftarrow> put_char ch ah; put_chars s ah })"

text \<open>Starting a fragment: \<open>frags[next_frag_index] = { pos, 0, 0 }\<close>.\<close>

definition new_frag :: "allocated_headers \<Rightarrow> allocated_headers option" where
  "new_frag ah = do { fs \<leftarrow> wr (ah_frags ah) (ah_next_frag_index ah)
       \<lparr>frag_offset = ah_pos ah, frag_len = 0, frag_next = 0\<rparr>;
     Some (ah\<lparr>ah_frags := fs\<rparr>) }"

text \<open>\<open>s\<close> is the C string without its NUL, which the loop copies too.\<close>

definition lws_hdr_simple_create :: "nat \<Rightarrow> byte list \<Rightarrow> allocated_headers \<Rightarrow> (int \<times> allocated_headers) option"
  where
  "lws_hdr_simple_create h s ah =
    (let ah = ah\<lparr>ah_next_frag_index := ah_next_frag_index ah + 1\<rparr> in
     if ah_next_frag_index ah = WSI_TOKEN_COUNT * 2 then Some (-1, ah)
     else do { fi \<leftarrow> wr (ah_frag_index ah) h (ah_next_frag_index ah);
       ah \<leftarrow> new_frag (ah\<lparr>ah_frag_index := fi\<rparr>);
       put_chars (s @ [0]) ah })"

declare chain_length.simps [code] chain_copy.simps [code]

section \<open>The parser\<close>

text \<open>\<open>atoi\<close>: white space, an optional sign, decimal digits, on the C string at a pointer.\<close>

definition c_isspace :: "byte \<Rightarrow> bool" where
  "c_isspace ch \<longleftrightarrow> ch = 32 \<or> (9 \<le> ch \<and> ch \<le> 13)"

fun digits :: "int \<Rightarrow> byte list \<Rightarrow> int" where
  "digits v [] = v"
| "digits v (ch # s) = (if 48 \<le> ch \<and> ch \<le> 57 then digits (v * 10 + (uint ch - 48)) s else v)"

definition c_atoi :: "byte list \<Rightarrow> int" where
  "c_atoi s = (case dropWhile c_isspace s of [] \<Rightarrow> 0
     | ch # r \<Rightarrow> if ch = 45 then - digits 0 r else if ch = 43 then digits 0 r else digits 0 (ch # r))"

text \<open>The C string at index \<open>i\<close> of a block, if the block holds its NUL.\<close>

definition c_string_at :: "byte list \<Rightarrow> nat \<Rightarrow> byte list option" where
  "c_string_at d i = (if 0 \<in> set (drop i d) then Some (cstr (drop i d)) else None)"

definition set_parsing_complete :: "'u lws \<Rightarrow> (int \<times> 'u lws) option" where
  "set_parsing_complete wsi = do { ah \<leftarrow> hdr_ah (u_hdr wsi);
     up \<leftarrow> lws_hdr_total_length ah WSI_TOKEN_UPGRADE;
     rev \<leftarrow> (if up = 0 then Some (ietf_spec_revision wsi)
       else do { ver \<leftarrow> lws_hdr_total_length ah WSI_TOKEN_VERSION;
         if ver = 0 then Some (ietf_spec_revision wsi)
         else do { p \<leftarrow> lws_hdr_simple_ptr ah WSI_TOKEN_VERSION; i \<leftarrow> p;
           s \<leftarrow> c_string_at (ah_data ah) i; Some (of_int (c_atoi s)) } });
     Some (0, upd_hdr (\<lambda>hd. hd\<lparr>parser_state := WSI_PARSING_COMPLETE\<rparr>)
       (wsi\<lparr>ietf_spec_revision := rev, hdr_parsing_completed := True\<rparr>)) }"

partial_function (option) chain_last :: "allocated_headers \<Rightarrow> nat \<Rightarrow> nat option" where
  "chain_last ah n = do { f \<leftarrow> rd (ah_frags ah) n;
     if frag_next f = 0 then Some n else chain_last ah (frag_next f) }"

declare chain_last.simps [code]

definition set_ah :: "allocated_headers \<Rightarrow> 'u lws \<Rightarrow> 'u lws" where
  [st_defs]: "set_ah ah = upd_hdr (\<lambda>hd. hd\<lparr>hdr_ah := Some ah\<rparr>)"

definition set_ps :: "parser_state \<Rightarrow> 'u lws \<Rightarrow> 'u lws" where
  [st_defs]: "set_ps ps = upd_hdr (\<lambda>hd. hd\<lparr>parser_state := ps\<rparr>)"

text \<open>The label \<open>start_fragment\<close>, for the token \<open>t\<close> just recognised.\<close>

definition start_fragment :: "nat \<Rightarrow> allocated_headers \<Rightarrow> (int \<times> allocated_headers) option" where
  "start_fragment t ah0 =
    (let ah = ah0\<lparr>ah_next_frag_index := ah_next_frag_index ah0 + 1\<rparr> in
     if ah_next_frag_index ah = WSI_TOKEN_COUNT * 2 then Some (-1, ah)
     else do { ah \<leftarrow> new_frag ah;
       n \<leftarrow> rd (ah_frag_index ah) t;
       if n = 0 then
         do { fi \<leftarrow> wr (ah_frag_index ah) t (ah_next_frag_index ah);
              Some (0, ah\<lparr>ah_frag_index := fi\<rparr>) }
       else
         do { l \<leftarrow> chain_last ah n;
              f \<leftarrow> rd (ah_frags ah) l;
              fs \<leftarrow> wr (ah_frags ah) l (f\<lparr>frag_next := ah_next_frag_index ah\<rparr>);
              ah \<leftarrow> Some (ah\<lparr>ah_frags := fs\<rparr>);
              if ah_pos ah = LWS_MAX_HEADER_LEN then Some (-1, ah)
              else do { ah \<leftarrow> put_char 32 ah; Some (0, ah) } } })"

text \<open>Collecting the value of token \<open>t\<close>.\<close>

definition parse_token :: "nat \<Rightarrow> byte \<Rightarrow> 'u lws \<Rightarrow> (int \<times> 'u lws) option" where
  "parse_token t ch wsi = do { ah \<leftarrow> hdr_ah (u_hdr wsi);
     fi \<leftarrow> rd (ah_frag_index ah) t;
     f \<leftarrow> rd (ah_frags ah) fi;
     if frag_len f = 0 \<and> ch = 32 then Some (0, wsi)
     else
       let (ch, ps) = (if t = WSI_TOKEN_GET_URI \<and> ch = 32 then (0, WSI_TOKEN_SKIPPING)
                       else (ch, WSI_TOKEN t));
           (ch, ps) = (if ps \<noteq> WSI_TOKEN WSI_TOKEN_CHALLENGE \<and> ch = 0x0d
                       then (0, WSI_TOKEN_SKIPPING_SAW_CR) else (ch, ps));
           wsi = set_ps ps wsi
       in if ah_pos ah = LWS_MAX_HEADER_LEN then Some (-1, wsi)
          else do { ah \<leftarrow> put_char ch ah;
            wsi \<leftarrow> Some (set_ah ah wsi);
            if ps = WSI_TOKEN WSI_TOKEN_CHALLENGE then set_parsing_complete wsi
            else Some (0, wsi) } }"

text \<open>Matching a header name.\<close>

definition parse_name :: "byte \<Rightarrow> 'u lws \<Rightarrow> (int \<times> 'u lws) option" where
  "parse_name ch wsi0 = do { ah \<leftarrow> hdr_ah (u_hdr wsi0);
     p \<leftarrow> lextable_decode (lextable_pos (u_hdr wsi0)) ch;
     wsi \<leftarrow> Some (upd_hdr (\<lambda>hd. hd\<lparr>lextable_pos := p\<rparr>) wsi0);
     if p < 0 then
       do { g \<leftarrow> rd (ah_frag_index ah) WSI_TOKEN_GET_URI;
            ht \<leftarrow> rd (ah_frag_index ah) WSI_TOKEN_HTTP;
            if g \<noteq> 0 \<or> ht \<noteq> 0 then Some (0, set_ps WSI_TOKEN_SKIPPING wsi)
            else Some (-1, wsi) }
     else do { nxt \<leftarrow> rd lextable (nat p + 1);
       if nxt = 0 then
         do { cur \<leftarrow> rd lextable (nat p);
              n \<leftarrow> Some (unat (cur AND 0x7f));
              g \<leftarrow> rd (ah_frag_index ah) WSI_TOKEN_GET_URI;
              if n = WSI_TOKEN_GET_URI \<and> g \<noteq> 0 then Some (-1, wsi)
              else
                let n = (if n = WSI_TOKEN_SWORIGIN then WSI_TOKEN_ORIGIN else n);
                    wsi = set_ps (WSI_TOKEN n) wsi
                in if n = WSI_TOKEN_CHALLENGE then set_parsing_complete wsi
                   else do { (r, ah) \<leftarrow> start_fragment n ah; Some (r, set_ah ah wsi) } }
       else Some (0, wsi) } }"

definition libwebsocket_parse :: "'u lws \<Rightarrow> byte \<Rightarrow> (int \<times> 'u lws) option" where
  "libwebsocket_parse wsi ch = (case parser_state (u_hdr wsi) of
      WSI_TOKEN t \<Rightarrow> if t < 17 then parse_token t ch wsi else Some (0, wsi)
    | WSI_TOKEN_NAME_PART \<Rightarrow> parse_name ch wsi
    | WSI_TOKEN_SKIPPING \<Rightarrow>
        Some (0, if ch = 0x0d then set_ps WSI_TOKEN_SKIPPING_SAW_CR wsi else wsi)
    | WSI_TOKEN_SKIPPING_SAW_CR \<Rightarrow>
        Some (0, if ch = 0x0a
                 then upd_hdr (\<lambda>hd. hd\<lparr>lextable_pos := 0\<rparr>) (set_ps WSI_TOKEN_NAME_PART wsi)
                 else set_ps WSI_TOKEN_SKIPPING wsi)
    | WSI_PARSING_COMPLETE \<Rightarrow> Some (0, wsi)
    | WSI_INIT_TOKEN_MUXURL \<Rightarrow> Some (0, wsi))"

text \<open>
  The callers feed the parser byte by byte, stop at its first error and, once the headers are
  complete, leave the rest of the input to the next stage.
\<close>

fun parse_bytes :: "'u lws \<Rightarrow> byte list \<Rightarrow> (int \<times> 'u lws \<times> byte list) option" where
  "parse_bytes wsi [] = Some (0, wsi, [])"
| "parse_bytes wsi (ch # s) =
     (if parser_state (u_hdr wsi) = WSI_PARSING_COMPLETE then Some (0, wsi, ch # s)
      else do { (r, wsi) \<leftarrow> libwebsocket_parse wsi ch;
                if r \<noteq> 0 then Some (r, wsi, s) else parse_bytes wsi s })"

section \<open>Well-formed tables\<close>

text \<open>The bytes stored since the start of fragment \<open>i\<close>.\<close>

definition seg :: "allocated_headers \<Rightarrow> nat \<Rightarrow> byte list" where
  "seg ah i = drop (frag_offset (ah_frags ah ! i)) (take (ah_pos ah) (ah_data ah))"

text \<open>A finished fragment is NUL-terminated within its length; one being collected has no NUL yet.\<close>

definition frag_closed :: "allocated_headers \<Rightarrow> nat \<Rightarrow> bool" where
  "frag_closed ah i \<longleftrightarrow> 0 \<in> set (seg ah i) \<and> length (cstr (seg ah i)) \<le> frag_len (ah_frags ah ! i)"

definition frag_open :: "allocated_headers \<Rightarrow> nat \<Rightarrow> bool" where
  "frag_open ah i \<longleftrightarrow> 0 \<notin> set (seg ah i) \<and> length (seg ah i) \<le> frag_len (ah_frags ah ! i)"

definition chain_ok :: "lws_fragments list \<Rightarrow> nat \<Rightarrow> bool" where
  "chain_ok fs k \<longleftrightarrow> k < length fs \<and>
     (\<forall>i. 1 \<le> i \<and> i \<le> k \<longrightarrow> frag_next (fs ! i) = 0 \<or> i < frag_next (fs ! i) \<and> frag_next (fs ! i) \<le> k)"

definition ah_sized :: "allocated_headers \<Rightarrow> bool" where
  "ah_sized ah \<longleftrightarrow> length (ah_frag_index ah) = 23 \<and> length (ah_frags ah) = 46 \<and>
     length (ah_data ah) = 1024 \<and> ah_pos ah \<le> 1024 \<and> ah_next_frag_index ah \<le> 45"

definition ah_wf :: "bool \<Rightarrow> allocated_headers \<Rightarrow> bool" where
  "ah_wf collecting ah \<longleftrightarrow> ah_sized ah \<and> chain_ok (ah_frags ah) (ah_next_frag_index ah) \<and>
     (\<forall>t<23. ah_frag_index ah ! t \<le> ah_next_frag_index ah) \<and>
     (\<forall>i. 1 \<le> i \<and> i \<le> ah_next_frag_index ah \<longrightarrow>
        frag_offset (ah_frags ah ! i) \<le> ah_pos ah \<and> frag_len (ah_frags ah ! i) \<le> ah_pos ah \<and>
        (frag_closed ah i \<or> collecting \<and> i = ah_next_frag_index ah \<and> frag_open ah i))"

lemma ah_wfD:
  assumes "ah_wf b ah"
  shows "length (ah_frag_index ah) = 23" "length (ah_frags ah) = 46" "length (ah_data ah) = 1024"
    "ah_pos ah \<le> 1024" "ah_next_frag_index ah \<le> 45" "chain_ok (ah_frags ah) (ah_next_frag_index ah)"
    "t < 23 \<Longrightarrow> ah_frag_index ah ! t \<le> ah_next_frag_index ah"
  using assms by (auto simp: ah_wf_def ah_sized_def)

lemma ah_wf_mono: "ah_wf b ah \<Longrightarrow> ah_wf True ah"
  by (auto simp: ah_wf_def)

section \<open>Chains of fragments\<close>

lemma chain_last_Some:
  assumes "chain_ok (ah_frags ah) k"
  shows "1 \<le> n \<Longrightarrow> n \<le> k \<Longrightarrow>
    \<exists>l. chain_last ah n = Some l \<and> n \<le> l \<and> l \<le> k \<and> frag_next (ah_frags ah ! l) = 0"
proof (induction "k - n" arbitrary: n rule: less_induct)
  case less
  have r: "rd (ah_frags ah) n = Some (ah_frags ah ! n)"
    using assms less(3) by (simp add: chain_ok_def rd_def)
  show ?case
  proof (cases "frag_next (ah_frags ah ! n) = 0")
    case True
    then show ?thesis using r less by (subst chain_last.simps) simp
  next
    case False
    then have n: "n < frag_next (ah_frags ah ! n)" "frag_next (ah_frags ah ! n) \<le> k"
      using assms less(2,3) by (auto simp: chain_ok_def)
    then obtain l where "chain_last ah (frag_next (ah_frags ah ! n)) = Some l"
       "frag_next (ah_frags ah ! n) \<le> l" "l \<le> k" "frag_next (ah_frags ah ! l) = 0"
      using less(1)[of "frag_next (ah_frags ah ! n)"] less(2) diff_less_mono2[of n _ k] by fastforce
    then show ?thesis using r False n by (subst chain_last.simps) auto
  qed
qed

lemma chain_length_Some:
  assumes "chain_ok (ah_frags ah) k"
  shows "1 \<le> n \<Longrightarrow> n \<le> k \<Longrightarrow> \<exists>T. (\<forall>a. chain_length ah n a = Some (a + T)) \<and> frag_len (ah_frags ah ! n) \<le> T"
proof (induction "k - n" arbitrary: n rule: less_induct)
  case less
  let ?f = "ah_frags ah ! n"
  have r: "rd (ah_frags ah) n = Some ?f"
    using assms less(3) by (simp add: chain_ok_def rd_def)
  show ?case
  proof (cases "frag_next ?f = 0")
    case True
    then show ?thesis using r by (intro exI[of _ "frag_len ?f"]) (simp add: chain_length.simps[of ah n])
  next
    case False
    then have n: "n < frag_next ?f" "frag_next ?f \<le> k"
      using assms less(2,3) by (auto simp: chain_ok_def)
    then obtain T where "\<forall>a. chain_length ah (frag_next ?f) a = Some (a + T)"
      using less(1)[of "frag_next ?f"] less(2) diff_less_mono2[of n _ k] by fastforce
    then show ?thesis using r False
      by (intro exI[of _ "frag_len ?f + T"]) (simp add: chain_length.simps[of ah n])
  qed
qed

lemma total_length_Some:
  assumes "ah_wf b ah" "t < 23"
  shows "\<exists>T. lws_hdr_total_length ah t = Some T \<and> (ah_frag_index ah ! t = 0 \<longrightarrow> T = 0)"
proof -
  note wf = ah_wfD[OF assms(1)]
  have r: "rd (ah_frag_index ah) t = Some (ah_frag_index ah ! t)" using wf(1) assms(2) by (simp add: rd_def)
  show ?thesis
  proof (cases "ah_frag_index ah ! t = 0")
    case True
    then show ?thesis using r by (simp add: lws_hdr_total_length_def)
  next
    case False
    then obtain T where "\<forall>a. chain_length ah (ah_frag_index ah ! t) a = Some (a + T)"
      using chain_length_Some[OF wf(6), of "ah_frag_index ah ! t"] wf(7)[OF assms(2)] by auto
    then show ?thesis using r False by (simp add: lws_hdr_total_length_def)
  qed
qed

section \<open>Storing a byte\<close>

lemma put_char_eq:
  assumes "ah_sized ah" "ah_pos ah < 1024"
  shows "put_char ch ah = Some (ah\<lparr>ah_data := (ah_data ah)[ah_pos ah := ch], ah_pos := ah_pos ah + 1,
     ah_frags := (ah_frags ah)[ah_next_frag_index ah :=
       (if ch \<noteq> 0 then (ah_frags ah ! ah_next_frag_index ah)
           \<lparr>frag_len := frag_len (ah_frags ah ! ah_next_frag_index ah) + 1\<rparr>
        else ah_frags ah ! ah_next_frag_index ah)]\<rparr>)"
  using assms by (simp add: put_char_def ah_sized_def rd_def wr_def)

lemma put_char_frags:
  assumes "ah_sized ah" "ah_pos ah < 1024" "put_char ch ah = Some ah'"
  shows "ah_sized ah'" "ah_pos ah' = ah_pos ah + 1" "ah_next_frag_index ah' = ah_next_frag_index ah"
    "ah_frag_index ah' = ah_frag_index ah"
    "i < 46 \<Longrightarrow> frag_offset (ah_frags ah' ! i) = frag_offset (ah_frags ah ! i)"
    "i < 46 \<Longrightarrow> frag_next (ah_frags ah' ! i) = frag_next (ah_frags ah ! i)"
    "i < 46 \<Longrightarrow> frag_len (ah_frags ah' ! i) = frag_len (ah_frags ah ! i) +
       (if i = ah_next_frag_index ah \<and> ch \<noteq> 0 then 1 else 0)"
    "take (ah_pos ah') (ah_data ah') = take (ah_pos ah) (ah_data ah) @ [ch]"
  using assms(1,2) assms(3)[unfolded put_char_eq[OF assms(1,2)]]
  by (auto simp: ah_sized_def nth_list_update take_Suc_conv_app_nth)

lemma put_char_seg:
  assumes "ah_sized ah" "ah_pos ah < 1024" "put_char ch ah = Some ah'" "i < 46"
    "frag_offset (ah_frags ah ! i) \<le> ah_pos ah"
  shows "seg ah' i = seg ah i @ [ch]"
  using assms put_char_frags[OF assms(1-3)] by (simp add: seg_def ah_sized_def)

lemma cstr_snoc: "cstr (xs @ [ch]) = (if 0 \<in> set xs \<or> ch = 0 then cstr xs else xs @ [ch])"
  by (induction xs) auto

lemma length_cstr_le: "length (cstr xs) \<le> length xs"
  by (induction xs) auto

lemma put_char_closed:
  assumes "ah_sized ah" "ah_pos ah < 1024" "put_char ch ah = Some ah'" "i < 46"
    "frag_offset (ah_frags ah ! i) \<le> ah_pos ah" "frag_closed ah i"
  shows "frag_closed ah' i"
  using assms put_char_seg[OF assms(1-5)] put_char_frags(7)[OF assms(1-4)]
  by (auto simp: frag_closed_def cstr_snoc)

lemma put_char_open:
  assumes "ah_sized ah" "ah_pos ah < 1024" "put_char ch ah = Some ah'"
    "frag_offset (ah_frags ah ! ah_next_frag_index ah) \<le> ah_pos ah" "frag_open ah (ah_next_frag_index ah)"
  shows "ch \<noteq> 0 \<Longrightarrow> frag_open ah' (ah_next_frag_index ah)" "ch = 0 \<Longrightarrow> frag_closed ah' (ah_next_frag_index ah)"
proof -
  have n: "ah_next_frag_index ah < 46" using assms(1) by (simp add: ah_sized_def)
  note s = put_char_seg[OF assms(1-3) n assms(4)] put_char_frags(7)[OF assms(1-3) n]
  show "ch \<noteq> 0 \<Longrightarrow> frag_open ah' (ah_next_frag_index ah)"
    using assms(5) s by (simp add: frag_open_def)
  show "ch = 0 \<Longrightarrow> frag_closed ah' (ah_next_frag_index ah)"
    using assms(5) s length_cstr_le[of "seg ah (ah_next_frag_index ah)"]
    by (auto simp: frag_open_def frag_closed_def cstr_snoc)
qed

lemma put_char_wf:
  assumes "ah_wf b ah" "ah_pos ah < 1024"
  shows "\<exists>ah'. put_char ch ah = Some ah' \<and> ah_wf (b \<and> ch \<noteq> 0) ah' \<and> ah_frag_index ah' = ah_frag_index ah"
proof -
  have s: "ah_sized ah" using assms(1) by (simp add: ah_wf_def)
  obtain ah' where p: "put_char ch ah = Some ah'" using put_char_eq[OF s assms(2)] by simp
  note f = put_char_frags[OF s assms(2) p]
  have k: "ah_next_frag_index ah \<le> 45" using s by (simp add: ah_sized_def)
  have "chain_ok (ah_frags ah') (ah_next_frag_index ah')"
    using assms(1) f(1,3,6) k by (auto simp: ah_wf_def chain_ok_def ah_sized_def)
  moreover have "frag_offset (ah_frags ah' ! i) \<le> ah_pos ah' \<and> frag_len (ah_frags ah' ! i) \<le> ah_pos ah' \<and>
        (frag_closed ah' i \<or> (b \<and> ch \<noteq> 0) \<and> i = ah_next_frag_index ah' \<and> frag_open ah' i)"
    if i: "1 \<le> i" "i \<le> ah_next_frag_index ah'" for i
  proof -
    have i46: "i < 46" using i k f(3) by simp
    have w: "frag_offset (ah_frags ah ! i) \<le> ah_pos ah" "frag_len (ah_frags ah ! i) \<le> ah_pos ah"
       "frag_closed ah i \<or> b \<and> i = ah_next_frag_index ah \<and> frag_open ah i"
      using assms(1) i f(3) by (auto simp: ah_wf_def)
    from w(3) have "frag_closed ah' i \<or> (b \<and> ch \<noteq> 0) \<and> i = ah_next_frag_index ah' \<and> frag_open ah' i"
      using put_char_closed[OF s assms(2) p i46 w(1)] put_char_open[OF s assms(2) p] w(1) f(3) by auto
    then show ?thesis using w(1,2) f(2) f(5)[OF i46] f(7)[OF i46] by (auto split: if_splits)
  qed
  ultimately have "ah_wf (b \<and> ch \<noteq> 0) ah'" using assms(1) f(1,3,4) by (auto simp: ah_wf_def)
  then show ?thesis using p f(4) by blast
qed

section \<open>Starting a fragment\<close>

lemma seg_cong:
  assumes "frag_offset (ah_frags ah' ! i) = frag_offset (ah_frags ah ! i)"
    "ah_pos ah' = ah_pos ah" "ah_data ah' = ah_data ah"
  shows "seg ah' i = seg ah i"
  using assms by (simp add: seg_def)

lemma frag_closed_cong:
  assumes "frag_offset (ah_frags ah' ! i) = frag_offset (ah_frags ah ! i)"
    "frag_len (ah_frags ah' ! i) = frag_len (ah_frags ah ! i)"
    "ah_pos ah' = ah_pos ah" "ah_data ah' = ah_data ah"
  shows "frag_closed ah' i = frag_closed ah i"
  using assms seg_cong[of ah' i ah] by (simp add: frag_closed_def)

text \<open>The table after \<open>new_frag\<close> and, where the token already has fragments, after linking the new one.\<close>

definition with_frag :: "allocated_headers \<Rightarrow> nat option \<Rightarrow> allocated_headers" where
  "with_frag ah l = (let k = ah_next_frag_index ah + 1;
      fs = (ah_frags ah)[k := \<lparr>frag_offset = ah_pos ah, frag_len = 0, frag_next = 0\<rparr>] in
    ah\<lparr>ah_next_frag_index := k,
       ah_frags := (case l of None \<Rightarrow> fs | Some l \<Rightarrow> fs[l := (fs ! l)\<lparr>frag_next := k\<rparr>])\<rparr>)"

lemma with_frag_pos [simp]: "ah_pos (with_frag ah l) = ah_pos ah"
  by (simp add: with_frag_def Let_def)

lemma with_frag_wf:
  assumes "ah_wf False ah" "ah_next_frag_index ah \<le> 44"
    and l: "\<And>j. l = Some j \<Longrightarrow> 1 \<le> j \<and> j \<le> ah_next_frag_index ah"
  shows "ah_wf True (with_frag ah l)"
proof -
  let ?k = "ah_next_frag_index ah" and ?ah = "with_frag ah l"
  note wf = ah_wfD[OF assms(1)]
  have fs: "frag_offset (ah_frags ?ah ! i) = frag_offset (ah_frags ah ! i)"
      "frag_len (ah_frags ?ah ! i) = frag_len (ah_frags ah ! i)"
      "frag_next (ah_frags ?ah ! i) = (if l = Some i then ?k + 1 else frag_next (ah_frags ah ! i))"
    if "i \<le> ?k" for i
    using that l wf(2) assms(2) by (auto simp: with_frag_def Let_def nth_list_update split: option.splits)
  have new: "frag_offset (ah_frags ?ah ! (?k + 1)) = ah_pos ah" "frag_len (ah_frags ?ah ! (?k + 1)) = 0"
      "frag_next (ah_frags ?ah ! (?k + 1)) = 0"
    using l wf(2) assms(2) by (auto simp: with_frag_def Let_def nth_list_update split: option.splits)
  have same: "ah_pos ?ah = ah_pos ah" "ah_data ?ah = ah_data ah" "ah_next_frag_index ?ah = ?k + 1"
      "ah_frag_index ?ah = ah_frag_index ah" "length (ah_frags ?ah) = 46"
    using wf(2) by (auto simp: with_frag_def Let_def split: option.splits)
  have "ah_sized ?ah" using wf assms(2) same by (simp add: ah_sized_def)
  moreover have "chain_ok (ah_frags ?ah) (?k + 1)"
    unfolding chain_ok_def
  proof (intro conjI allI impI)
    show "?k + 1 < length (ah_frags ?ah)" using assms(2) same(5) by simp
    fix i assume i: "1 \<le> i \<and> i \<le> ?k + 1"
    show "frag_next (ah_frags ?ah ! i) = 0 \<or> i < frag_next (ah_frags ?ah ! i) \<and> frag_next (ah_frags ?ah ! i) \<le> ?k + 1"
      using i fs(3)[of i] new(3) wf(6) l by (cases "i = ?k + 1") (auto simp: chain_ok_def)
  qed
  moreover have "frag_offset (ah_frags ?ah ! i) \<le> ah_pos ah \<and> frag_len (ah_frags ?ah ! i) \<le> ah_pos ah \<and>
        (frag_closed ?ah i \<or> i = ?k + 1 \<and> frag_open ?ah i)" if i: "1 \<le> i" "i \<le> ?k + 1" for i
  proof (cases "i = ?k + 1")
    case True
    have "seg ?ah (?k + 1) = []" using new(1) same(1,2) by (simp add: seg_def)
    then show ?thesis using True new by (simp add: frag_open_def)
  next
    case False
    then have "i \<le> ?k" using i by simp
    then show ?thesis using assms(1) i fs[of i] frag_closed_cong[of ?ah i ah] same by (auto simp: ah_wf_def)
  qed
  ultimately show ?thesis using same wf(7) by (auto simp: ah_wf_def le_SucI)
qed

lemma new_frag_eq:
  assumes "ah_sized ah" "ah_next_frag_index ah \<le> 44"
  shows "new_frag (ah\<lparr>ah_next_frag_index := ah_next_frag_index ah + 1\<rparr>) = Some (with_frag ah None)"
  using assms by (simp add: new_frag_def with_frag_def wr_def ah_sized_def Let_def)

lemma ah_wf_frag_index:
  assumes "ah_wf b ah" "v \<le> ah_next_frag_index ah"
  shows "ah_wf b (ah\<lparr>ah_frag_index := (ah_frag_index ah)[t := v]\<rparr>)"
proof -
  have "(ah_frag_index ah)[t := v] ! j \<le> ah_next_frag_index ah" if "j < 23" for j
    using that assms ah_wfD[OF assms(1)] by (cases "j = t") auto
  then show ?thesis using assms
    by (auto simp: ah_wf_def ah_sized_def frag_closed_def frag_open_def seg_def)
qed

lemma start_fragment_wf:
  assumes "ah_wf False ah" "t < 23"
  shows "\<exists>r ah'. start_fragment t ah = Some (r, ah') \<and> (r = -1 \<or>
    r = 0 \<and> ah_wf True ah' \<and> ah_frag_index ah' ! t \<noteq> 0)"
proof (cases "ah_next_frag_index ah = 45")
  case True
  then show ?thesis by (simp add: start_fragment_def c_defs)
next
  case False
  note wf = ah_wfD[OF assms(1)]
  let ?k = "ah_next_frag_index ah"
  have k: "?k \<le> 44" using wf(5) False by simp
  have s: "ah_sized ah" using assms(1) by (simp add: ah_wf_def)
  let ?ah = "with_frag ah None"
  have same: "ah_frag_index ?ah = ah_frag_index ah" "ah_next_frag_index ?ah = ?k + 1" "ah_pos ?ah = ah_pos ah"
    by (simp_all add: with_frag_def Let_def)
  have r: "rd (ah_frag_index ah) t = Some (ah_frag_index ah ! t)"
      "wr (ah_frag_index ah) t v = Some ((ah_frag_index ah)[t := v])" for v
    using wf(1) assms(2) by (simp_all add: rd_def wr_def)
  have e: "start_fragment t ah = (if ah_frag_index ah ! t = 0
      then Some (0, ?ah\<lparr>ah_frag_index := (ah_frag_index ah)[t := ?k + 1]\<rparr>)
      else do { l \<leftarrow> chain_last ?ah (ah_frag_index ah ! t);
              f \<leftarrow> rd (ah_frags ?ah) l;
              fs \<leftarrow> wr (ah_frags ?ah) l (f\<lparr>frag_next := ?k + 1\<rparr>);
              ah \<leftarrow> Some (?ah\<lparr>ah_frags := fs\<rparr>);
              if ah_pos ah = LWS_MAX_HEADER_LEN then Some (-1, ah)
              else do { ah \<leftarrow> put_char 32 ah; Some (0, ah) } })"
    using k new_frag_eq[OF s k] r same
    by (simp add: start_fragment_def c_defs Let_def)
  show ?thesis
  proof (cases "ah_frag_index ah ! t = 0")
    case True
    let ?ah' = "?ah\<lparr>ah_frag_index := (ah_frag_index ah)[t := ?k + 1]\<rparr>"
    have w: "ah_wf True ?ah" by (rule with_frag_wf[OF assms(1) k]) simp
    have "ah_wf True ?ah'"
      using ah_wf_frag_index[OF w, of "?k + 1" t] same by simp
    then show ?thesis using e True wf(1) assms(2) by simp
  next
    case False
    have "chain_ok (ah_frags ?ah) ?k"
      using wf(2,6) k by (auto simp: chain_ok_def with_frag_def Let_def nth_list_update)
    then obtain l where l: "chain_last ?ah (ah_frag_index ah ! t) = Some l" "1 \<le> l" "l \<le> ?k"
      using chain_last_Some[of ?ah ?k "ah_frag_index ah ! t"] False wf(7)[OF assms(2)] by auto
    let ?ah' = "with_frag ah (Some l)"
    have "?ah\<lparr>ah_frags := (ah_frags ?ah)[l := (ah_frags ?ah ! l)\<lparr>frag_next := ?k + 1\<rparr>]\<rparr> = ?ah'"
      by (simp add: with_frag_def Let_def)
    moreover have "l < length (ah_frags ?ah)" using l k wf(2) by (simp add: with_frag_def Let_def)
    ultimately have e': "start_fragment t ah = (if ah_pos ?ah' = LWS_MAX_HEADER_LEN then Some (-1, ?ah')
              else do { ah \<leftarrow> put_char 32 ?ah'; Some (0, ah) })"
      unfolding e using False l(1) by (simp add: rd_def wr_def)
    have w: "ah_wf True ?ah'" using l by (intro with_frag_wf[OF assms(1) k]) auto
    have i: "ah_frag_index ?ah' = ah_frag_index ah" by (simp add: with_frag_def Let_def)
    show ?thesis
    proof (cases "ah_pos ?ah' = LWS_MAX_HEADER_LEN")
      case True
      then show ?thesis using e' by simp
    next
      case pos: False
      then have "ah_pos ?ah' < 1024" using ah_wfD(4)[OF w] by (simp add: lws_consts)
      from put_char_wf[OF w this, of 32] obtain ah' where
        "put_char 32 ?ah' = Some ah'" "ah_wf True ah'" "ah_frag_index ah' = ah_frag_index ?ah'" by auto
      then show ?thesis using e' pos False i by simp
    qed
  qed
qed

section \<open>The parser's invariant\<close>

definition collecting :: "parser_state \<Rightarrow> bool" where
  "collecting ps \<longleftrightarrow> (\<exists>t. ps = WSI_TOKEN t)"

definition hdr_inv :: "'u lws \<Rightarrow> bool" where
  "hdr_inv wsi \<longleftrightarrow> (case hdr_ah (u_hdr wsi) of None \<Rightarrow> False | Some ah \<Rightarrow>
     ah_wf (collecting (parser_state (u_hdr wsi))) ah \<and>
     (case parser_state (u_hdr wsi) of
        WSI_TOKEN t \<Rightarrow> t < 17 \<and> t \<noteq> WSI_TOKEN_CHALLENGE \<and> ah_frag_index ah ! t \<noteq> 0
      | WSI_TOKEN_NAME_PART \<Rightarrow> lex_pos (lextable_pos (u_hdr wsi))
      | _ \<Rightarrow> True))"

lemma set_parsing_complete_safe:
  assumes "hdr_ah (u_hdr wsi) = Some ah" "ah_wf False ah"
  shows "\<exists>wsi'. set_parsing_complete wsi = Some (0, wsi') \<and> hdr_inv wsi' \<and>
     hdr_ah (u_hdr wsi') = Some ah \<and> parser_state (u_hdr wsi') = WSI_PARSING_COMPLETE"
proof -
  note wf = ah_wfD[OF assms(2)]
  obtain up where up: "lws_hdr_total_length ah WSI_TOKEN_UPGRADE = Some up"
    using total_length_Some[OF assms(2), of WSI_TOKEN_UPGRADE] by (auto simp: c_defs)
  obtain ver where ver: "lws_hdr_total_length ah WSI_TOKEN_VERSION = Some ver"
      "ah_frag_index ah ! WSI_TOKEN_VERSION = 0 \<longrightarrow> ver = 0"
    using total_length_Some[OF assms(2), of WSI_TOKEN_VERSION] by (auto simp: c_defs)
  have "\<exists>i s. lws_hdr_simple_ptr ah WSI_TOKEN_VERSION = Some (Some i) \<and> c_string_at (ah_data ah) i = Some s"
    if "ver \<noteq> 0"
  proof -
    let ?n = "ah_frag_index ah ! WSI_TOKEN_VERSION"
    have n: "?n \<noteq> 0" "?n \<le> ah_next_frag_index ah" using that ver(2) wf(7) by (auto simp: c_defs)
    then have "frag_closed ah ?n" using assms(2) by (auto simp: ah_wf_def)
    then have "0 \<in> set (drop (frag_offset (ah_frags ah ! ?n)) (ah_data ah))"
      unfolding frag_closed_def seg_def by (metis drop_take in_set_takeD)
    then show ?thesis using n wf(1,2,5)
      by (auto simp: lws_hdr_simple_ptr_def c_string_at_def rd_def c_defs)
  qed
  then show ?thesis using assms up ver(1)
    by (cases "up \<noteq> 0 \<and> ver \<noteq> 0")
      (auto simp: set_parsing_complete_def hdr_inv_def upd_hdr_def collecting_def)
qed

lemma parse_token_safe:
  assumes "hdr_inv wsi" "parser_state (u_hdr wsi) = WSI_TOKEN t"
  shows "\<exists>r wsi'. parse_token t ch wsi = Some (r, wsi') \<and> (r = -1 \<or> r = 0 \<and> hdr_inv wsi')"
proof -
  obtain ah where ah: "hdr_ah (u_hdr wsi) = Some ah" "ah_wf True ah" "t < 17"
      "t \<noteq> WSI_TOKEN_CHALLENGE" "ah_frag_index ah ! t \<noteq> 0"
    using assms by (auto simp: hdr_inv_def collecting_def split: option.splits)
  note wf = ah_wfD[OF ah(2)]
  let ?n = "ah_frag_index ah ! t"
  have r: "rd (ah_frag_index ah) t = Some ?n" "rd (ah_frags ah) ?n = Some (ah_frags ah ! ?n)"
    using wf(1,2,5) wf(7)[of t] ah(3) by (simp_all add: rd_def)
  show ?thesis
  proof (cases "frag_len (ah_frags ah ! ?n) = 0 \<and> ch = 32 \<or> ah_pos ah = 1024")
    case True
    then show ?thesis using r ah assms
      by (auto simp: parse_token_def lws_consts Let_def split: prod.splits)
  next
    case False
    define cp where "cp = (if t = WSI_TOKEN_GET_URI \<and> ch = 32 then (0, WSI_TOKEN_SKIPPING)
       else if ch = 0x0d then (0, WSI_TOKEN_SKIPPING_SAW_CR) else (ch, WSI_TOKEN t))"
    obtain ch' ps where cp: "cp = (ch', ps)" by (cases cp)
    have ps: "ps \<noteq> WSI_TOKEN WSI_TOKEN_CHALLENGE" "ps \<noteq> WSI_TOKEN_NAME_PART"
        "ch' \<noteq> 0 \<Longrightarrow> ps = WSI_TOKEN t" "ps = WSI_TOKEN t \<or> (\<forall>t. ps \<noteq> WSI_TOKEN t)"
        "ps \<noteq> WSI_TOKEN t \<Longrightarrow> ch' = 0"
      using cp ah(4) by (auto simp: cp_def split: if_splits)
    have "ah_pos ah < 1024" using False wf(4) by simp
    from put_char_wf[OF ah(2) this, of ch'] obtain ah' where
      p: "put_char ch' ah = Some ah'" "ah_wf (ch' \<noteq> 0) ah'" "ah_frag_index ah' = ah_frag_index ah" by auto
    have "parse_token t ch wsi = Some (0, set_ah ah' (set_ps ps wsi))"
      using False r ah(1) p(1) ps(1) cp ah(4)
      by (auto simp: parse_token_def lws_consts Let_def cp_def split: if_splits)
    moreover have "hdr_inv (set_ah ah' (set_ps ps wsi))"
      using p ps ah(3-5) ah_wf_mono
      by (auto simp: hdr_inv_def set_ah_def set_ps_def upd_hdr_def collecting_def split: parser_state.splits)
    ultimately show ?thesis by blast
  qed
qed

lemma parse_name_safe:
  assumes "hdr_inv wsi" "parser_state (u_hdr wsi) = WSI_TOKEN_NAME_PART"
  shows "\<exists>r wsi'. parse_name ch wsi = Some (r, wsi') \<and> (r = -1 \<or> r = 0 \<and> hdr_inv wsi')"
proof -
  obtain ah where ah: "hdr_ah (u_hdr wsi) = Some ah" "ah_wf False ah" "lex_pos (lextable_pos (u_hdr wsi))"
    using assms by (auto simp: hdr_inv_def collecting_def split: option.splits)
  note wf = ah_wfD[OF ah(2)]
  obtain p where p: "lextable_decode (lextable_pos (u_hdr wsi)) ch = Some p" "p = -1 \<or> lex_pos p"
    using lextable_decode_safe[OF ah(3)] by blast
  have r: "rd (ah_frag_index ah) t = Some (ah_frag_index ah ! t)" if "t < 23" for t
    using that wf(1) by (simp add: rd_def)
  let ?w = "upd_hdr (\<lambda>hd. hd\<lparr>lextable_pos := p\<rparr>) wsi"
  consider "p = -1" | "lex_pos p" "lextable ! (nat p + 1) \<noteq> 0" | "lex_pos p" "lextable ! (nat p + 1) = 0"
    using p(2) by blast
  then show ?thesis
  proof cases
    case 1
    then show ?thesis using ah p r
      by (auto simp: parse_name_def c_defs st_defs hdr_inv_def collecting_def)
  next
    case 2
    then show ?thesis using ah p assms(2) lex_pos_entry[OF 2(1)]
      by (auto simp: parse_name_def c_defs st_defs hdr_inv_def collecting_def lex_pos_def)
  next
    case 3
    define n where "n = unat (lextable ! nat p AND 0x7f)"
    define n' where "n' = (if n = WSI_TOKEN_SWORIGIN then WSI_TOKEN_ORIGIN else n)"
    have n: "n < 17" "n' < 17" using lex_token_bound[OF 3] by (auto simp: n_def n'_def c_defs)
    have e: "parse_name ch wsi = (if n = WSI_TOKEN_GET_URI \<and> ah_frag_index ah ! WSI_TOKEN_GET_URI \<noteq> 0
         then Some (-1, ?w)
         else if n' = WSI_TOKEN_CHALLENGE then set_parsing_complete (set_ps (WSI_TOKEN n') ?w)
         else do { (r, ah) \<leftarrow> start_fragment n' ah; Some (r, set_ah ah (set_ps (WSI_TOKEN n') ?w)) })"
      using ah p r 3 lex_pos_entry[OF 3(1)] n
      by (auto simp: parse_name_def lex_pos_def Let_def n'_def n_def WSI_TOKEN_GET_URI_def)
    show ?thesis
    proof (cases "n' = WSI_TOKEN_CHALLENGE")
      case True
      then show ?thesis unfolding e using set_parsing_complete_safe[of "set_ps (WSI_TOKEN n') ?w" ah] ah
        by (auto simp: set_ps_def upd_hdr_def)
    next
      case False
      then show ?thesis unfolding e using start_fragment_wf[OF ah(2), of n'] n
        by (auto simp: hdr_inv_def set_ah_def set_ps_def upd_hdr_def collecting_def)
    qed
  qed
qed

lemma libwebsocket_parse_safe:
  assumes "hdr_inv wsi"
  shows "\<exists>r wsi'. libwebsocket_parse wsi ch = Some (r, wsi') \<and> (r = -1 \<or> r = 0 \<and> hdr_inv wsi')"
proof (cases "parser_state (u_hdr wsi)")
  case (WSI_TOKEN t)
  then have "t < 17" using assms by (auto simp: hdr_inv_def split: option.splits)
  then show ?thesis using parse_token_safe[OF assms WSI_TOKEN] WSI_TOKEN
    by (simp add: libwebsocket_parse_def)
next
  case WSI_TOKEN_NAME_PART
  then show ?thesis using parse_name_safe[OF assms] by (simp add: libwebsocket_parse_def)
qed (use assms in \<open>auto simp: libwebsocket_parse_def hdr_inv_def c_defs st_defs collecting_def lex_pos_def split: option.splits\<close>)

lemma parse_bytes_safe:
  "hdr_inv wsi \<Longrightarrow> \<exists>r wsi' rest. parse_bytes wsi s = Some (r, wsi', rest) \<and> (r = -1 \<or> r = 0 \<and> hdr_inv wsi')"
proof (induction s arbitrary: wsi)
  case (Cons ch s)
  obtain r wsi' where r: "libwebsocket_parse wsi ch = Some (r, wsi')" "r = -1 \<or> r = 0 \<and> hdr_inv wsi'"
    using libwebsocket_parse_safe[OF Cons.prems] by blast
  then show ?case using Cons.IH[of wsi'] Cons.prems by auto
qed simp

section \<open>Reading a header\<close>

lemma c_strcpy_eq:
  "0 \<in> set src \<Longrightarrow> i + length (cstr src) < length dest \<Longrightarrow>
   c_strcpy dest i src = Some (take i dest @ cstr src @ [0] @ drop (i + length (cstr src) + 1) dest)"
proof (induction src arbitrary: dest i)
  case (Cons ch src)
  show ?case
  proof (cases "ch = 0")
    case True
    then show ?thesis using Cons.prems by (simp add: wr_def upd_conv_take_nth_drop)
  next
    case False
    then have "c_strcpy (dest[i := ch]) (Suc i) src = Some (take (Suc i) (dest[i := ch]) @ cstr src @ [0]
        @ drop (Suc i + length (cstr src) + 1) (dest[i := ch]))"
      using Cons.IH[of "Suc i" "dest[i := ch]"] Cons.prems by simp
    then show ?thesis using False Cons.prems by (simp add: wr_def take_Suc_conv_app_nth)
  qed
qed simp

lemma cstr_seg:
  assumes "0 \<in> set (seg ah i)"
  shows "cstr (drop (frag_offset (ah_frags ah ! i)) (ah_data ah)) = cstr (seg ah i)"
    "0 \<in> set (drop (frag_offset (ah_frags ah ! i)) (ah_data ah))"
proof -
  obtain ys where d: "drop (frag_offset (ah_frags ah ! i)) (ah_data ah) = seg ah i @ ys"
    unfolding seg_def by (metis append_take_drop_id drop_take)
  have "0 \<in> set xs \<Longrightarrow> cstr (xs @ ys) = cstr xs" for xs :: "byte list"
    by (induction xs) auto
  then show "cstr (drop (frag_offset (ah_frags ah ! i)) (ah_data ah)) = cstr (seg ah i)"
    "0 \<in> set (drop (frag_offset (ah_frags ah ! i)) (ah_data ah))"
    using assms by (simp_all add: d)
qed

text \<open>The value of a chain: its fragments' strings in order.\<close>

partial_function (option) chain_value :: "allocated_headers \<Rightarrow> nat \<Rightarrow> byte list option" where
  "chain_value ah n = do { f \<leftarrow> rd (ah_frags ah) n;
     if frag_next f = 0 then Some (cstr (seg ah n))
     else do { v \<leftarrow> chain_value ah (frag_next f); Some (cstr (seg ah n) @ v) } }"

definition frag_exact :: "allocated_headers \<Rightarrow> bool" where
  "frag_exact ah \<longleftrightarrow> (\<forall>i. 1 \<le> i \<and> i \<le> ah_next_frag_index ah \<longrightarrow>
     frag_len (ah_frags ah ! i) = length (cstr (seg ah i)))"

lemma chain_copy_Some:
  assumes "ah_wf False ah"
  shows "1 \<le> n \<Longrightarrow> n \<le> ah_next_frag_index ah \<Longrightarrow>
    \<exists>T v. (\<forall>a. chain_length ah n a = Some (a + T)) \<and> chain_value ah n = Some v \<and>
      (\<forall>dest i. i + T < length dest \<longrightarrow>
        (\<exists>dest'. chain_copy ah dest i n = Some dest' \<and> length dest' = length dest \<and>
           take i dest' = take i dest \<and> drop (i + T + 1) dest' = drop (i + T + 1) dest \<and>
           (frag_exact ah \<longrightarrow> T = length v \<and> drop i dest' = v @ 0 # drop (i + length v + 1) dest)))"
proof (induction "ah_next_frag_index ah - n" arbitrary: n rule: less_induct)
  case less
  let ?k = "ah_next_frag_index ah" and ?f = "ah_frags ah ! n" and ?s = "cstr (seg ah n)"
  note wf = ah_wfD[OF assms]
  have r: "rd (ah_frags ah) n = Some ?f" using wf(2,5) less(3) by (simp add: rd_def)
  have cl: "0 \<in> set (seg ah n)" "length ?s \<le> frag_len ?f"
    using assms less(2,3) by (auto simp: ah_wf_def frag_closed_def)
  have cp: "c_strcpy dest i (drop (frag_offset ?f) (ah_data ah))
      = Some (take i dest @ ?s @ [0] @ drop (i + length ?s + 1) dest)" if "i + length ?s < length dest" for dest i
    using c_strcpy_eq[OF cstr_seg(2)[OF cl(1)]] that unfolding cstr_seg(1)[OF cl(1)] .
  show ?case
  proof (cases "frag_next ?f = 0")
    case True
    show ?thesis
    proof (rule exI[of _ "frag_len ?f"], rule exI[of _ ?s], intro conjI allI impI)
      show "chain_length ah n a = Some (a + frag_len ?f)" for a
        using r True by (simp add: chain_length.simps[of ah n])
      show "chain_value ah n = Some ?s" using r True by (simp add: chain_value.simps[of ah n])
      fix dest :: "byte list" and i assume i: "i + frag_len ?f < length dest"
      have "chain_copy ah dest i n = Some (take i dest @ ?s @ [0] @ drop (i + length ?s + 1) dest)"
        using r True cp[of i dest] cl(2) i by (simp add: chain_copy.simps[of ah dest i n])
      then show "\<exists>dest'. chain_copy ah dest i n = Some dest' \<and> length dest' = length dest \<and>
           take i dest' = take i dest \<and> drop (i + frag_len ?f + 1) dest' = drop (i + frag_len ?f + 1) dest \<and>
           (frag_exact ah \<longrightarrow> frag_len ?f = length ?s \<and> drop i dest' = ?s @ 0 # drop (i + length ?s + 1) dest)"
        using cl(2) less(2,3) i by (auto simp: frag_exact_def Suc_diff_le add.commute)
    qed
  next
    case False
    define q where "q = frag_next ?f"
    have q: "n < q" "q \<le> ?k" using False wf(6) less(2,3) by (auto simp: chain_ok_def q_def)
    have "?k - q < ?k - n" using q by simp
    from less(1)[OF this] q less(2) obtain T v where
      T: "\<And>a. chain_length ah q a = Some (a + T)" and v: "chain_value ah q = Some v" and
      c: "\<And>dest i. i + T < length dest \<Longrightarrow>
        \<exists>dest'. chain_copy ah dest i q = Some dest' \<and> length dest' = length dest \<and>
           take i dest' = take i dest \<and> drop (i + T + 1) dest' = drop (i + T + 1) dest \<and>
           (frag_exact ah \<longrightarrow> T = length v \<and> drop i dest' = v @ 0 # drop (i + length v + 1) dest)"
      by auto
    show ?thesis
    proof (rule exI[of _ "frag_len ?f + T"], rule exI[of _ "?s @ v"], intro conjI allI impI)
      show "chain_length ah n a = Some (a + (frag_len ?f + T))" for a
        using r False T by (simp add: chain_length.simps[of ah n] q_def)
      show "chain_value ah n = Some (?s @ v)" using r False v by (simp add: chain_value.simps[of ah n] q_def)
      fix dest :: "byte list" and i assume i: "i + (frag_len ?f + T) < length dest"
      let ?d = "take i dest @ ?s @ [0] @ drop (i + length ?s + 1) dest"
      have ld: "length ?d = length dest" using i cl(2) by simp
      then have "i + frag_len ?f + T < length ?d" using i by simp
      from c[OF this] obtain dest' where d: "chain_copy ah ?d (i + frag_len ?f) q = Some dest'"
        "length dest' = length ?d" "take (i + frag_len ?f) dest' = take (i + frag_len ?f) ?d"
        "drop (i + frag_len ?f + T + 1) dest' = drop (i + frag_len ?f + T + 1) ?d"
        "frag_exact ah \<Longrightarrow> T = length v \<and>
           drop (i + frag_len ?f) dest' = v @ 0 # drop (i + frag_len ?f + length v + 1) ?d" by blast
      have "chain_copy ah dest i n = Some dest'"
        using r False cp[of i dest] cl(2) i d(1) by (simp add: chain_copy.simps[of ah dest i n] q_def)
      moreover have "take i dest' = take i dest"
        using arg_cong[OF d(3), of "take i"] i by simp
      moreover have "drop (i + (frag_len ?f + T) + 1) dest' = drop (i + (frag_len ?f + T) + 1) dest"
        using d(4) cl(2) i by (simp add: Suc_diff_le add.commute add.left_commute)
      moreover have "frag_len ?f + T = length (?s @ v) \<and>
          drop i dest' = (?s @ v) @ 0 # drop (i + length (?s @ v) + 1) dest" if ex: "frag_exact ah"
      proof -
        have l: "frag_len ?f = length ?s" using ex less(2,3) by (auto simp: frag_exact_def)
        have "drop i dest' = drop i (take (i + length ?s) dest') @ drop (i + length ?s) dest'"
          by (metis append_take_drop_id drop_drop drop_take add.commute diff_add_inverse)
        also have "drop i (take (i + length ?s) dest') = ?s" using d(3) i l by simp
        finally show ?thesis using d(5)[OF ex] l i by (simp add: ac_simps)
      qed
      ultimately show "\<exists>dest'. chain_copy ah dest i n = Some dest' \<and> length dest' = length dest \<and>
           take i dest' = take i dest \<and>
           drop (i + (frag_len ?f + T) + 1) dest' = drop (i + (frag_len ?f + T) + 1) dest \<and>
           (frag_exact ah \<longrightarrow> frag_len ?f + T = length (?s @ v) \<and>
             drop i dest' = (?s @ v) @ 0 # drop (i + length (?s @ v) + 1) dest)"
        using d(2) ld by simp
    qed
  qed
qed

definition hdr_value :: "allocated_headers \<Rightarrow> nat \<Rightarrow> byte list option" where
  "hdr_value ah t = (if ah_frag_index ah ! t = 0 then None else chain_value ah (ah_frag_index ah ! t))"

lemma lws_hdr_copy_safe:
  assumes "ah_wf False ah" "t < 23" "len \<le> int (length dest)"
  shows "\<exists>T r dest'. lws_hdr_total_length ah t = Some T \<and> lws_hdr_copy ah dest len t = Some (r, dest') \<and>
    length dest' = length dest \<and> (int T \<ge> len \<longrightarrow> r = -1 \<and> dest' = dest) \<and>
    (int T < len \<longrightarrow> r = int T \<and> drop (nat len) dest' = drop (nat len) dest \<and>
       (ah_frag_index ah ! t = 0 \<longrightarrow> T = 0 \<and> dest' = dest) \<and>
       (\<forall>v. frag_exact ah \<and> hdr_value ah t = Some v \<longrightarrow> T = length v \<and> dest' = v @ 0 # drop (length v + 1) dest))"
proof -
  note wf = ah_wfD[OF assms(1)]
  let ?n = "ah_frag_index ah ! t"
  have r: "rd (ah_frag_index ah) t = Some ?n" using wf(1) assms(2) by (simp add: rd_def)
  show ?thesis
  proof (cases "?n = 0")
    case True
    then show ?thesis using r by (auto simp: lws_hdr_total_length_def lws_hdr_copy_def hdr_value_def)
  next
    case False
    then obtain T v where T: "\<And>a. chain_length ah ?n a = Some (a + T)" and v: "chain_value ah ?n = Some v"
      and c: "\<And>dest i. i + T < length dest \<Longrightarrow>
        \<exists>dest'. chain_copy ah dest i ?n = Some dest' \<and> length dest' = length dest \<and>
           take i dest' = take i dest \<and> drop (i + T + 1) dest' = drop (i + T + 1) dest \<and>
           (frag_exact ah \<longrightarrow> T = length v \<and> drop i dest' = v @ 0 # drop (i + length v + 1) dest)"
      using chain_copy_Some[OF assms(1), of ?n] wf(7)[OF assms(2)] by auto
    have tl: "lws_hdr_total_length ah t = Some T" using r False T by (simp add: lws_hdr_total_length_def)
    show ?thesis
    proof (cases "int T < len")
      case True
      then have "0 + T < length dest" using assms(3) by linarith
      from c[OF this] obtain dest' where d: "chain_copy ah dest 0 ?n = Some dest'" "length dest' = length dest"
        "drop (T + 1) dest' = drop (T + 1) dest"
        "frag_exact ah \<longrightarrow> T = length v \<and> dest' = v @ 0 # drop (length v + 1) dest" by auto
      have "drop (nat len) dest' = drop (nat len) dest"
      proof -
        have "nat len = (nat len - (T + 1)) + (T + 1)" using True by linarith
        then show ?thesis using d(3) by (metis drop_drop)
      qed
      then show ?thesis using True r False tl d v by (auto simp: lws_hdr_copy_def hdr_value_def)
    next
      case F: False
      then show ?thesis using tl by (auto simp: lws_hdr_copy_def)
    qed
  qed
qed

end
