(* ===== verification/Header_Lines.thy ===== *)
theory Header_Lines
  imports Headers
begin

text \<open>
  The header store as a map and the parser on whole lines: a table represents a finite map from tokens to
  strings, creating an entry and parsing a header line update the map, copying reads it, and a
  complete request parses to the map of its headers. The locale \<open>header_store\<close> is the interface the
  handshake code uses.
\<close>

section \<open>Header tables as maps\<close>

text \<open>The table \<open>ah\<close> holds exactly the values of the finite map \<open>mp\<close>, one fragment each.\<close>

definition holds_value :: "allocated_headers \<Rightarrow> nat \<Rightarrow> byte list \<Rightarrow> bool" where
  "holds_value ah n v \<longleftrightarrow> 1 \<le> n \<and> n \<le> ah_next_frag_index ah \<and> frag_next (ah_frags ah ! n) = 0 \<and>
     frag_len (ah_frags ah ! n) = length v \<and> 0 \<notin> set v \<and> (\<exists>ys. seg ah n = v @ 0 # ys)"

text \<open>The values of different tokens lie apart in the data block.\<close>

definition apart :: "allocated_headers \<Rightarrow> (nat \<rightharpoonup> byte list) \<Rightarrow> bool" where
  "apart ah mp \<longleftrightarrow> (\<forall>t u v w. t < 23 \<and> u < 23 \<and> t \<noteq> u \<and> mp t = Some v \<and> mp u = Some w \<longrightarrow>
     frag_offset (ah_frags ah ! (ah_frag_index ah ! t)) + length v < frag_offset (ah_frags ah ! (ah_frag_index ah ! u)) \<or>
     frag_offset (ah_frags ah ! (ah_frag_index ah ! u)) + length w < frag_offset (ah_frags ah ! (ah_frag_index ah ! t)))"

definition hdr_repr :: "allocated_headers \<Rightarrow> (nat \<rightharpoonup> byte list) \<Rightarrow> bool" where
  "hdr_repr ah mp \<longleftrightarrow> ah_wf False ah \<and> (\<forall>t<23. case mp t of
      None \<Rightarrow> ah_frag_index ah ! t = 0
    | Some v \<Rightarrow> holds_value ah (ah_frag_index ah ! t) v) \<and> apart ah mp"

lemma holds_value_end:
  assumes "holds_value ah n v" "ah_wf b ah"
  shows "frag_offset (ah_frags ah ! n) + length v < ah_pos ah"
proof -
  obtain ys where "seg ah n = v @ 0 # ys" using assms(1) by (auto simp: holds_value_def)
  then have "length (seg ah n) = length v + 1 + length ys" by simp
  then show ?thesis by (simp add: seg_def)
qed

lemma put_chars_ok:
  "ah_sized ah \<Longrightarrow> ah_pos ah + length s \<le> 1024 \<Longrightarrow>
   \<exists>ah'. put_chars s ah = Some (0, ah') \<and> ah_sized ah' \<and> ah_pos ah' = ah_pos ah + length s \<and>
     ah_next_frag_index ah' = ah_next_frag_index ah \<and> ah_frag_index ah' = ah_frag_index ah \<and>
     take (ah_pos ah') (ah_data ah') = take (ah_pos ah) (ah_data ah) @ s \<and>
     (\<forall>i<46. frag_offset (ah_frags ah' ! i) = frag_offset (ah_frags ah ! i) \<and>
       frag_next (ah_frags ah' ! i) = frag_next (ah_frags ah ! i) \<and>
       frag_len (ah_frags ah' ! i) = frag_len (ah_frags ah ! i) +
         (if i = ah_next_frag_index ah then length (filter (\<lambda>ch. ch \<noteq> 0) s) else 0))"
proof (induction s arbitrary: ah)
  case (Cons ch s)
  have p: "ah_pos ah < 1024" using Cons.prems by simp
  obtain ah1 where a: "put_char ch ah = Some ah1" using put_char_eq[OF Cons.prems(1) p] by simp
  note f = put_char_frags[OF Cons.prems(1) p a]
  have "ah_pos ah1 + length s \<le> 1024" using f(2) Cons.prems(2) by simp
  from Cons.IH[OF f(1) this] obtain ah' where ah': "put_chars s ah1 = Some (0, ah')" "ah_sized ah'"
     "ah_pos ah' = ah_pos ah1 + length s" "ah_next_frag_index ah' = ah_next_frag_index ah1"
     "ah_frag_index ah' = ah_frag_index ah1"
     "take (ah_pos ah') (ah_data ah') = take (ah_pos ah1) (ah_data ah1) @ s"
     "\<And>i. i < 46 \<Longrightarrow> frag_offset (ah_frags ah' ! i) = frag_offset (ah_frags ah1 ! i) \<and>
       frag_next (ah_frags ah' ! i) = frag_next (ah_frags ah1 ! i) \<and>
       frag_len (ah_frags ah' ! i) = frag_len (ah_frags ah1 ! i) +
         (if i = ah_next_frag_index ah1 then length (filter (\<lambda>ch. ch \<noteq> 0) s) else 0)" by blast
  show ?case
  proof (intro exI conjI allI impI)
    show "put_chars (ch # s) ah = Some (0, ah')" using a ah'(1) p by (simp add: lws_consts)
  qed (use ah' f in \<open>auto\<close>)
qed simp

lemma put_chars_append:
  "put_chars (s @ t) ah = do { (r, ah1) \<leftarrow> put_chars s ah; if r = 0 then put_chars t ah1 else Some (r, ah1) }"
proof (induction s arbitrary: ah)
  case (Cons ch s)
  then show ?case by (cases "put_char ch ah") auto
qed simp

text \<open>The effect both \<open>lws_hdr_simple_create\<close> and a parsed header line have on the table.\<close>

lemma store_value:
  assumes rep: "hdr_repr ah mp" and k: "ah_next_frag_index ah \<le> 44" and t: "t < 23"
    and v: "0 \<notin> set v" and room: "ah_pos ah + length v + 1 \<le> 1024"
  defines "ah1 \<equiv> (with_frag ah None)\<lparr>ah_frag_index := (ah_frag_index ah)[t := ah_next_frag_index ah + 1]\<rparr>"
  shows "\<exists>ah'. put_chars (v @ [0]) ah1 = Some (0, ah') \<and> hdr_repr ah' (mp(t \<mapsto> v)) \<and>
     ah_next_frag_index ah' = ah_next_frag_index ah + 1 \<and> ah_pos ah' = ah_pos ah + length v + 1"
proof -
  let ?k = "ah_next_frag_index ah"
  have wf: "ah_wf False ah" using rep by (simp add: hdr_repr_def)
  have w1: "ah_wf True ah1" unfolding ah1_def
    using ah_wf_frag_index[OF with_frag_wf[OF wf k], of None "?k + 1" t] by (simp add: with_frag_def Let_def)
  have s1: "ah_sized ah1" "ah_pos ah1 = ah_pos ah" "ah_next_frag_index ah1 = ?k + 1" "ah_data ah1 = ah_data ah"
      "ah_frag_index ah1 = (ah_frag_index ah)[t := ?k + 1]"
    using w1 by (auto simp: ah_wf_def ah1_def with_frag_def Let_def)
  have l: "length (ah_frags ah) = 46" "length (ah_frag_index ah) = 23" using ah_wfD[OF wf] by auto
  have f1: "ah_frags ah1 ! i = (if i = ?k + 1 then \<lparr>frag_offset = ah_pos ah, frag_len = 0, frag_next = 0\<rparr> else ah_frags ah ! i)"
    for i using l k by (auto simp: ah1_def with_frag_def Let_def nth_list_update)
  obtain ah' where ah': "put_chars (v @ [0]) ah1 = Some (0, ah')" "ah_sized ah'"
     "ah_pos ah' = ah_pos ah + length v + 1" "ah_next_frag_index ah' = ?k + 1"
     "ah_frag_index ah' = (ah_frag_index ah)[t := ?k + 1]"
     "take (ah_pos ah') (ah_data ah') = take (ah_pos ah) (ah_data ah) @ v @ [0]"
     "\<And>i. i < 46 \<Longrightarrow> frag_offset (ah_frags ah' ! i) = frag_offset (ah_frags ah1 ! i) \<and>
       frag_next (ah_frags ah' ! i) = frag_next (ah_frags ah1 ! i) \<and>
       frag_len (ah_frags ah' ! i) = frag_len (ah_frags ah1 ! i) +
         (if i = ?k + 1 then length (filter (\<lambda>ch. ch \<noteq> 0) v) else 0)"
    using put_chars_ok[OF s1(1), of "v @ [0]"] room s1 by auto
  have fv: "filter (\<lambda>ch. ch \<noteq> 0) v = v" using v by (induction v) auto
  have pd: "length (take (ah_pos ah) (ah_data ah)) = ah_pos ah" using ah_wfD[OF wf] by simp
  have new: "holds_value ah' (?k + 1) v"
    using ah'(4,6) ah'(7)[of "?k + 1"] f1[of "?k + 1"] fv v k pd by (auto simp: holds_value_def seg_def)
  have old: "seg ah' i = seg ah i @ v @ [0]" if "1 \<le> i" "i \<le> ?k" for i
    using that wf ah'(6) ah'(7)[of i] f1[of i] k pd by (auto simp: seg_def ah_wf_def)
  have keep: "holds_value ah' i x" if "holds_value ah i x" for i x
    using that old[of i] ah'(4) ah'(7)[of i] f1[of i] k by (auto simp: holds_value_def)
  have "frag_offset (ah_frags ah' ! i) \<le> ah_pos ah' \<and> frag_len (ah_frags ah' ! i) \<le> ah_pos ah' \<and> frag_closed ah' i"
    if i: "1 \<le> i" "i \<le> ?k + 1" for i
  proof (cases "i = ?k + 1")
    case True
    then show ?thesis using new ah'(3) ah'(7)[of i] f1[of i] k
      by (auto simp: holds_value_def frag_closed_def cstr_append_NUL)
  next
    case False
    then have c: "frag_closed ah i" "frag_offset (ah_frags ah ! i) \<le> ah_pos ah" "frag_len (ah_frags ah ! i) \<le> ah_pos ah"
      using i wf by (auto simp: ah_wf_def)
    have "0 \<in> set xs \<Longrightarrow> cstr (xs @ ys) = cstr xs" for xs ys :: "byte list" by (induction xs) auto
    then show ?thesis using c old[of i] i False ah'(3) ah'(7)[of i] f1[of i] k
      by (auto simp: frag_closed_def)
  qed
  moreover have "chain_ok (ah_frags ah') (?k + 1)"
    using w1 s1(3) ah'(2,7) k by (auto simp: ah_wf_def chain_ok_def ah_sized_def)
  moreover have "ah_frag_index ah' ! j \<le> ?k + 1" if "j < 23" for j
    using ah_wfD(7)[OF w1 that] s1(3,5) ah'(5) by simp
  ultimately have "ah_wf False ah'" using ah'(2,4) by (auto simp: ah_wf_def)
  moreover have "apart ah' (mp(t \<mapsto> v))"
  proof -
    have off: "frag_offset (ah_frags ah' ! i) = (if i = ?k + 1 then ah_pos ah else frag_offset (ah_frags ah ! i))" if "i \<le> ?k + 1" for i
      using that ah'(7)[of i] f1[of i] k by simp
    have idx: "ah_frag_index ah' ! u = (if u = t then ?k + 1 else ah_frag_index ah ! u)" "ah_frag_index ah ! u \<le> ?k" if "u < 23" for u
      using that ah'(5) l t ah_wfD(7)[OF wf that] by (simp_all add: nth_list_update)
    have "frag_offset (ah_frags ah ! (ah_frag_index ah ! u)) + length w < ah_pos ah" if "u < 23" "mp u = Some w" for u w
      using holds_value_end[OF _ wf, of "ah_frag_index ah ! u" w] rep that by (auto simp: hdr_repr_def split: option.splits)
    moreover have "apart ah mp" using rep by (simp add: hdr_repr_def)
    ultimately show ?thesis unfolding apart_def using off idx by (auto simp: le_SucI split: if_splits) (metis Suc_n_not_le_n)+
  qed
  ultimately have "hdr_repr ah' (mp(t \<mapsto> v))"
    using rep new keep ah'(5) l t by (auto simp: hdr_repr_def nth_list_update split: option.splits)
  then show ?thesis using ah' by blast
qed

lemma simple_create_store:
  assumes "hdr_repr ah mp" "ah_next_frag_index ah \<le> 44" "t < 23" "0 \<notin> set v"
    "ah_pos ah + length v + 1 \<le> 1024"
  shows "\<exists>ah'. lws_hdr_simple_create t v ah = Some (0, ah') \<and> hdr_repr ah' (mp(t \<mapsto> v)) \<and>
     ah_next_frag_index ah' = ah_next_frag_index ah + 1 \<and> ah_pos ah' = ah_pos ah + length v + 1"
proof -
  have l: "length (ah_frag_index ah) = 23" "length (ah_frags ah) = 46"
    using assms(1) ah_wfD by (auto simp: hdr_repr_def)
  have "lws_hdr_simple_create t v ah = put_chars (v @ [0])
      ((with_frag ah None)\<lparr>ah_frag_index := (ah_frag_index ah)[t := ah_next_frag_index ah + 1]\<rparr>)"
    using l assms(2,3)
    by (cases ah) (simp add: lws_hdr_simple_create_def new_frag_def with_frag_def wr_def c_defs Let_def)
  then show ?thesis using store_value[OF assms] by simp
qed

lemma start_fragment_first:
  assumes "hdr_repr ah mp" "ah_next_frag_index ah \<le> 44" "t < 23" "mp t = None"
  shows "start_fragment t ah = Some (0,
    (with_frag ah None)\<lparr>ah_frag_index := (ah_frag_index ah)[t := ah_next_frag_index ah + 1]\<rparr>)"
proof -
  have wf: "ah_wf False ah" using assms(1) by (simp add: hdr_repr_def)
  then have s: "ah_sized ah" "length (ah_frag_index ah) = 23" by (auto simp: ah_wf_def ah_sized_def)
  have "ah_frag_index ah ! t = 0" using assms by (auto simp: hdr_repr_def split: option.splits)
  moreover have "ah_frag_index (with_frag ah None) = ah_frag_index ah"
      "ah_next_frag_index (with_frag ah None) = ah_next_frag_index ah + 1"
    by (simp_all add: with_frag_def Let_def)
  ultimately show ?thesis using new_frag_eq[OF s(1) assms(2)] s(2) assms(2,3)
    by (simp add: start_fragment_def c_defs Let_def rd_def wr_def)
qed

lemma repr_total_length:
  assumes "hdr_repr ah mp" "t < 23"
  shows "lws_hdr_total_length ah t = Some (case mp t of None \<Rightarrow> 0 | Some v \<Rightarrow> length v)"
proof -
  have l: "length (ah_frag_index ah) = 23" "length (ah_frags ah) = 46" "ah_next_frag_index ah \<le> 45"
    using assms(1) ah_wfD by (auto simp: hdr_repr_def)
  show ?thesis using assms l chain_length.simps[of ah "ah_frag_index ah ! t" 0]
    by (cases "mp t") (auto simp: hdr_repr_def holds_value_def lws_hdr_total_length_def rd_def
        split: option.splits)
qed

lemma repr_copy:
  assumes "hdr_repr ah mp" "t < 23" "mp t = Some v" "int (length v) < len" "len \<le> int (length dest)"
  shows "lws_hdr_copy ah dest len t = Some (int (length v), v @ 0 # drop (length v + 1) dest)"
proof -
  let ?n = "ah_frag_index ah ! t"
  have l: "length (ah_frag_index ah) = 23" "length (ah_frags ah) = 46" "ah_next_frag_index ah \<le> 45"
    using assms(1) ah_wfD by (auto simp: hdr_repr_def)
  have h: "holds_value ah ?n v" using assms(1-3) by (auto simp: hdr_repr_def split: option.splits)
  then obtain ys where s: "seg ah ?n = v @ 0 # ys" "0 \<notin> set v" by (auto simp: holds_value_def)
  then have z: "0 \<in> set (seg ah ?n)" "cstr (seg ah ?n) = v" by (simp_all add: cstr_append_NUL)
  have "c_strcpy dest 0 (drop (frag_offset (ah_frags ah ! ?n)) (ah_data ah)) = Some (v @ 0 # drop (length v + 1) dest)"
    using c_strcpy_eq[OF cstr_seg(2)[OF z(1)], of 0 dest] assms(4,5)
    unfolding cstr_seg(1)[OF z(1)] z(2) by simp
  then have "chain_copy ah dest 0 ?n = Some (v @ 0 # drop (length v + 1) dest)"
    using h l by (simp add: chain_copy.simps[of ah dest 0 ?n] holds_value_def rd_def)
  then show ?thesis using repr_total_length[OF assms(1,2)] h l assms(2-4)
    by (simp add: lws_hdr_copy_def rd_def holds_value_def)
qed

lemma repr_string:
  assumes "hdr_repr ah mp" "t < 23" "mp t = Some v"
  shows "\<exists>i. lws_hdr_simple_ptr ah t = Some (Some i) \<and> c_string_at (ah_data ah) i = Some v"
proof -
  let ?n = "ah_frag_index ah ! t"
  have l: "length (ah_frag_index ah) = 23" "length (ah_frags ah) = 46" "ah_next_frag_index ah \<le> 45"
    using assms(1) ah_wfD by (auto simp: hdr_repr_def)
  have h: "holds_value ah ?n v" using assms(1-3) by (auto simp: hdr_repr_def split: option.splits)
  then obtain ys where s: "seg ah ?n = v @ 0 # ys" "0 \<notin> set v" by (auto simp: holds_value_def)
  then have z: "0 \<in> set (seg ah ?n)" "cstr (seg ah ?n) = v" by (simp_all add: cstr_append_NUL)
  show ?thesis using cstr_seg[OF z(1)] z(2) h l assms(2)
    by (auto simp: lws_hdr_simple_ptr_def c_string_at_def rd_def holds_value_def)
qed

section \<open>Parsing a line\<close>

definition with_hdr :: "'u lws \<Rightarrow> allocated_headers \<Rightarrow> int \<Rightarrow> parser_state \<Rightarrow> 'u lws" where
  "with_hdr wsi ah p ps = wsi\<lparr>u_hdr := \<lparr>hdr_ah = Some ah, lextable_pos = p, parser_state = ps\<rparr>\<rparr>"

lemma with_hdr_simps [simp]:
  "hdr_ah (u_hdr (with_hdr wsi ah p ps)) = Some ah" "lextable_pos (u_hdr (with_hdr wsi ah p ps)) = p"
  "parser_state (u_hdr (with_hdr wsi ah p ps)) = ps"
  "set_ah ah' (with_hdr wsi ah p ps) = with_hdr wsi ah' p ps"
  "set_ps ps' (with_hdr wsi ah p ps) = with_hdr wsi ah p ps'"
  "upd_hdr (\<lambda>hd. hd\<lparr>lextable_pos := p'\<rparr>) (with_hdr wsi ah p ps) = with_hdr wsi ah p' ps"
  "ietf_spec_revision (with_hdr wsi ah p ps) = ietf_spec_revision wsi"
  by (simp_all add: with_hdr_def set_ah_def set_ps_def upd_hdr_def)

text \<open>A name the lexer accepts starts the first fragment of its token.\<close>

lemma parse_known_name:
  assumes "lex_name lextable p s = Some n" "n < 17" "n \<noteq> WSI_TOKEN_CHALLENGE" "n \<noteq> WSI_TOKEN_SWORIGIN"
    and "length (ah_frag_index ah) = 23" "n = 0 \<Longrightarrow> ah_frag_index ah ! 0 = 0" "start_fragment n ah = Some (0, ah')"
  shows "\<exists>q. parse_bytes (with_hdr wsi ah p WSI_TOKEN_NAME_PART) (s @ rest)
     = parse_bytes (with_hdr wsi ah' q (WSI_TOKEN n)) rest"
  using assms(1)
proof (induction s arbitrary: p)
  case (Cons ch s)
  then obtain lx where lx: "lex_step lextable p ch = Some lx" by (auto split: option.splits)
  then obtain q where q: "lextable_decode p ch = Some q"
    by (auto simp: lex_step_def lextable_decode_def split: bind_splits)
  have i: "rd (ah_frag_index ah) 0 = Some (ah_frag_index ah ! 0)" using assms(5) by (simp add: rd_def)
  show ?case
  proof (cases lx)
    case (Token k)
    then have k: "k = n" "s = []" using Cons.prems lx by (auto split: if_splits)
    obtain cur where c: "0 \<le> q" "rd lextable (nat q + 1) = Some 0" "rd lextable (nat q) = Some cur"
        "unat (cur AND 0x7f) = n"
      using lx Token k q by (auto simp: lex_step_def lextable_decode_def split: bind_splits if_splits)
    have "libwebsocket_parse (with_hdr wsi ah p WSI_TOKEN_NAME_PART) ch = Some (0, with_hdr wsi ah' q (WSI_TOKEN n))"
      using q c i assms(2-4,6,7)
      by (cases "n = 0") (auto simp: libwebsocket_parse_def parse_name_def Let_def WSI_TOKEN_GET_URI_def)
    then show ?thesis using k by auto
  next
    case (More k)
    then have "lex_name lextable k s = Some n" using Cons.prems lx by simp
    from Cons.IH[OF this] obtain q' where
      ih: "parse_bytes (with_hdr wsi ah k WSI_TOKEN_NAME_PART) (s @ rest) = parse_bytes (with_hdr wsi ah' q' (WSI_TOKEN n)) rest" ..
    obtain nxt cur where "k = q" "0 \<le> q" "rd lextable (nat q + 1) = Some nxt" "nxt \<noteq> 0"
      using lx More q by (auto simp: lex_step_def lextable_decode_def split: bind_splits if_splits)
    then have "libwebsocket_parse (with_hdr wsi ah p WSI_TOKEN_NAME_PART) ch = Some (0, with_hdr wsi ah k WSI_TOKEN_NAME_PART)"
      using q by (auto simp: libwebsocket_parse_def parse_name_def)
    then show ?thesis using ih by auto
  next
    case Unknown
    then show ?thesis using Cons.prems lx by simp
  qed
qed simp

text \<open>The bytes of a value are stored as they come.\<close>

lemma parse_value:
  assumes "t < 17" "t \<noteq> WSI_TOKEN_CHALLENGE" "13 \<notin> set v" "t = WSI_TOKEN_GET_URI \<longrightarrow> 32 \<notin> set v"
  shows "ah_sized ah \<Longrightarrow> ah_frag_index ah ! t = ah_next_frag_index ah \<Longrightarrow> ah_pos ah + length v \<le> 1024 \<Longrightarrow>
    0 \<notin> set v \<Longrightarrow> frag_len (ah_frags ah ! ah_next_frag_index ah) \<noteq> 0 \<or> v = [] \<or> hd v \<noteq> 32 \<Longrightarrow>
    put_chars v ah = Some (0, ah') \<Longrightarrow>
    parse_bytes (with_hdr wsi ah p (WSI_TOKEN t)) (v @ rest) = parse_bytes (with_hdr wsi ah' p (WSI_TOKEN t)) rest"
  using assms(3,4)
proof (induction v arbitrary: ah)
  case (Cons ch v)
  have p: "ah_pos ah < 1024" using Cons.prems(3) by simp
  obtain ah1 where a: "put_char ch ah = Some ah1" using put_char_eq[OF Cons.prems(1) p] by simp
  note f = put_char_frags[OF Cons.prems(1) p a]
  have k: "ah_next_frag_index ah < 46" using Cons.prems(1) by (simp add: ah_sized_def)
  have r: "rd (ah_frag_index ah) t = Some (ah_next_frag_index ah)"
      "rd (ah_frags ah) (ah_next_frag_index ah) = Some (ah_frags ah ! ah_next_frag_index ah)"
    using Cons.prems(1,2) assms(1) by (auto simp: rd_def ah_sized_def)
  have "libwebsocket_parse (with_hdr wsi ah p (WSI_TOKEN t)) ch = Some (0, with_hdr wsi ah1 p (WSI_TOKEN t))"
    using r a p Cons.prems(4,5,7,8) assms(1,2)
    by (auto simp: libwebsocket_parse_def parse_token_def lws_consts)
  moreover have "parse_bytes (with_hdr wsi ah1 p (WSI_TOKEN t)) (v @ rest) = parse_bytes (with_hdr wsi ah' p (WSI_TOKEN t)) rest"
    using Cons.prems f a p f(7)[OF k] by (intro Cons.IH) (auto simp: lws_consts)
  ultimately show ?case by simp
qed simp

definition crlf :: "byte list" where [simp]: "crlf = [13, 10]"

lemma parse_end_of_value:
  assumes "t < 17" "t \<noteq> WSI_TOKEN_CHALLENGE" "ah_sized ah" "ah_frag_index ah ! t \<le> 45"
    "ah_pos ah < 1024" "put_char 0 ah = Some ah'"
  shows "parse_bytes (with_hdr wsi ah p (WSI_TOKEN t)) (crlf @ rest) = parse_bytes (with_hdr wsi ah' 0 WSI_TOKEN_NAME_PART) rest"
proof -
  have r: "rd (ah_frag_index ah) t = Some (ah_frag_index ah ! t)"
      "rd (ah_frags ah) (ah_frag_index ah ! t) = Some (ah_frags ah ! (ah_frag_index ah ! t))"
    using assms(1,3,4) by (auto simp: rd_def ah_sized_def)
  have "libwebsocket_parse (with_hdr wsi ah p (WSI_TOKEN t)) 13 = Some (0, with_hdr wsi ah' p WSI_TOKEN_SKIPPING_SAW_CR)"
    using r assms by (auto simp: libwebsocket_parse_def parse_token_def lws_consts)
  moreover have "libwebsocket_parse (with_hdr wsi ah' p WSI_TOKEN_SKIPPING_SAW_CR) 10 = Some (0, with_hdr wsi ah' 0 WSI_TOKEN_NAME_PART)"
    by (simp add: libwebsocket_parse_def)
  ultimately show ?thesis by simp
qed

lemma hdr_reprD:
  assumes "hdr_repr ah mp"
  shows "ah_sized ah" "length (ah_frag_index ah) = 23" "t < 23 \<Longrightarrow> ah_frag_index ah ! t \<le> 45"
    "t < 23 \<Longrightarrow> mp t = None \<Longrightarrow> ah_frag_index ah ! t = 0" "t < 23 \<Longrightarrow> mp t = Some v \<Longrightarrow> ah_frag_index ah ! t \<noteq> 0"
proof -
  have wf: "ah_wf False ah" using assms by (simp add: hdr_repr_def)
  then show "ah_sized ah" "length (ah_frag_index ah) = 23" "t < 23 \<Longrightarrow> ah_frag_index ah ! t \<le> 45"
    using ah_wfD(5,7)[OF wf] by (force simp: ah_wf_def ah_sized_def)+
  show "t < 23 \<Longrightarrow> mp t = None \<Longrightarrow> ah_frag_index ah ! t = 0"
    "t < 23 \<Longrightarrow> mp t = Some v \<Longrightarrow> ah_frag_index ah ! t \<noteq> 0"
    using assms by (auto simp: hdr_repr_def holds_value_def split: option.splits)
qed

text \<open>A header line \<open>Name: value\<close>, with any number of blanks before the value.\<close>

definition hdr_line :: "nat \<Rightarrow> nat \<Rightarrow> byte list \<Rightarrow> byte list" where
  "hdr_line t blanks v = set_names ! t @ replicate blanks 32 @ v @ crlf"

definition value_ok :: "byte list \<Rightarrow> bool" where
  "value_ok v \<longleftrightarrow> 0 \<notin> set v \<and> 13 \<notin> set v \<and> (v \<noteq> [] \<longrightarrow> hd v \<noteq> 32)"

lemma parse_blanks:
  assumes "t < 17" "length (ah_frag_index ah) = 23" "length (ah_frags ah) = 46" "ah_frag_index ah ! t \<le> 45"
    "frag_len (ah_frags ah ! (ah_frag_index ah ! t)) = 0"
  shows "parse_bytes (with_hdr wsi ah p (WSI_TOKEN t)) (replicate k 32 @ rest)
     = parse_bytes (with_hdr wsi ah p (WSI_TOKEN t)) rest"
  using assms by (induction k) (auto simp: libwebsocket_parse_def parse_token_def rd_def)

lemma store_split:
  assumes "put_chars (v @ [0]) ah = Some (0, ah')" "ah_sized ah" "ah_pos ah + length v + 1 \<le> 1024"
  shows "\<exists>ah1. put_chars v ah = Some (0, ah1) \<and> ah_sized ah1 \<and> ah_pos ah1 < 1024 \<and> put_char 0 ah1 = Some ah' \<and>
     ah_frag_index ah1 = ah_frag_index ah \<and>
     length (filter (\<lambda>ch. ch \<noteq> 0) v) \<le> frag_len (ah_frags ah1 ! ah_next_frag_index ah)"
proof -
  obtain ah1 where a: "put_chars v ah = Some (0, ah1)" "ah_sized ah1" "ah_pos ah1 = ah_pos ah + length v"
      "ah_frag_index ah1 = ah_frag_index ah"
    and l: "\<forall>i<46. frag_len (ah_frags ah1 ! i) = frag_len (ah_frags ah ! i) +
         (if i = ah_next_frag_index ah then length (filter (\<lambda>ch. ch \<noteq> 0) v) else 0)"
    using put_chars_ok[OF assms(2), of v] assms(3) by auto
  have k: "ah_next_frag_index ah < 46" using assms(2) by (simp add: ah_sized_def)
  have "put_char 0 ah1 = Some ah'"
    using assms(1,3) a(1,3) by (simp add: put_chars_append lws_consts split: bind_splits)
  then show ?thesis using a assms(3) l[rule_format, OF k] by auto
qed

lemma parse_hdr_line:
  assumes rep: "hdr_repr ah mp" and t: "t < 17" "t \<notin> {WSI_TOKEN_GET_URI, WSI_TOKEN_CHALLENGE, WSI_TOKEN_SWORIGIN}"
    and new: "mp t = None" and v: "value_ok v"
    and room: "ah_next_frag_index ah \<le> 44" "ah_pos ah + length v + 1 \<le> 1024"
  shows "\<exists>ah'. parse_bytes (with_hdr wsi ah 0 WSI_TOKEN_NAME_PART) (hdr_line t k v @ rest)
      = parse_bytes (with_hdr wsi ah' 0 WSI_TOKEN_NAME_PART) rest \<and>
    hdr_repr ah' (mp(t \<mapsto> v)) \<and> ah_next_frag_index ah' = ah_next_frag_index ah + 1 \<and>
    ah_pos ah' = ah_pos ah + length v + 1"
proof -
  note d = hdr_reprD[OF rep]
  have t23: "t < 23" using t by simp
  have nm: "lex_name lextable 0 (set_names ! t) = Some t"
    using t(1) by (simp add: lex_name_lextable) (simp add: set_names_def)
  define ah1 where "ah1 = (with_frag ah None)\<lparr>ah_frag_index := (ah_frag_index ah)[t := ah_next_frag_index ah + 1]\<rparr>"
  have sf: "start_fragment t ah = Some (0, ah1)"
    unfolding ah1_def by (rule start_fragment_first[OF rep room(1) t23 new])
  obtain q where q: "\<And>rest. parse_bytes (with_hdr wsi ah 0 WSI_TOKEN_NAME_PART) (set_names ! t @ rest)
      = parse_bytes (with_hdr wsi ah1 (q rest) (WSI_TOKEN t)) rest"
    using parse_known_name[OF nm t(1) _ _ d(2) _ sf, of wsi] t(2) by (simp add: c_defs) metis
  have s1: "ah_sized ah1" "ah_pos ah1 = ah_pos ah" "ah_next_frag_index ah1 = ah_next_frag_index ah + 1"
      "ah_frag_index ah1 ! t = ah_next_frag_index ah1" "frag_len (ah_frags ah1 ! ah_next_frag_index ah1) = 0"
    using d(1,2) room(1) t23 by (auto simp: ah1_def with_frag_def Let_def ah_sized_def)
  obtain ah' where ah': "put_chars (v @ [0]) ah1 = Some (0, ah')" "hdr_repr ah' (mp(t \<mapsto> v))"
      "ah_next_frag_index ah' = ah_next_frag_index ah + 1" "ah_pos ah' = ah_pos ah + length v + 1"
    using store_value[OF rep room(1) t23 _ room(2)] v unfolding ah1_def value_ok_def by blast
  obtain ah2 where ah2: "put_chars v ah1 = Some (0, ah2)" "ah_sized ah2" "ah_pos ah2 < 1024" "put_char 0 ah2 = Some ah'"
      "ah_frag_index ah2 = ah_frag_index ah1"
    using store_split[OF ah'(1) s1(1)] s1(2) room(2) by auto
  have sw: "length (ah_frag_index ah1) = 23" "length (ah_frags ah1) = 46" using s1(1) by (auto simp: ah_sized_def)
  have "parse_bytes (with_hdr wsi ah1 p (WSI_TOKEN t)) (replicate k 32 @ v @ crlf @ rest)
      = parse_bytes (with_hdr wsi ah' 0 WSI_TOKEN_NAME_PART) rest" for p
  proof -
    have "parse_bytes (with_hdr wsi ah1 p (WSI_TOKEN t)) (replicate k 32 @ v @ crlf @ rest)
        = parse_bytes (with_hdr wsi ah1 p (WSI_TOKEN t)) (v @ crlf @ rest)"
      using t(1) sw s1 room(1) by (intro parse_blanks) auto
    also have "\<dots> = parse_bytes (with_hdr wsi ah2 p (WSI_TOKEN t)) (crlf @ rest)"
      using t v s1 ah2(1) room(2) by (intro parse_value) (auto simp: value_ok_def)
    also have "\<dots> = parse_bytes (with_hdr wsi ah' 0 WSI_TOKEN_NAME_PART) rest"
      using t ah2 s1 room(1) by (intro parse_end_of_value) auto
    finally show ?thesis .
  qed
  then show ?thesis using q ah'(2-4) unfolding hdr_line_def append_assoc by auto
qed

section \<open>Parsing a request\<close>

lemma parse_skipping:
  "13 \<notin> set s \<Longrightarrow> parse_bytes (with_hdr wsi ah p WSI_TOKEN_SKIPPING) (s @ crlf @ rest)
     = parse_bytes (with_hdr wsi ah 0 WSI_TOKEN_NAME_PART) rest"
  by (induction s) (auto simp: libwebsocket_parse_def)

text \<open>The request line.\<close>

definition get_line :: "byte list \<Rightarrow> byte list \<Rightarrow> byte list" where
  "get_line uri tail = bytes ''GET '' @ uri @ [32] @ tail @ crlf"

definition uri_ok :: "byte list \<Rightarrow> bool" where
  "uri_ok uri \<longleftrightarrow> uri \<noteq> [] \<and> 0 \<notin> set uri \<and> 13 \<notin> set uri \<and> 32 \<notin> set uri"

lemma parse_get_line:
  assumes rep: "hdr_repr ah mp" and new: "mp WSI_TOKEN_GET_URI = None" and u: "uri_ok uri" "13 \<notin> set tail"
    and room: "ah_next_frag_index ah \<le> 44" "ah_pos ah + length uri + 1 \<le> 1024"
  shows "\<exists>ah'. parse_bytes (with_hdr wsi ah 0 WSI_TOKEN_NAME_PART) (get_line uri tail @ rest)
      = parse_bytes (with_hdr wsi ah' 0 WSI_TOKEN_NAME_PART) rest \<and>
    hdr_repr ah' (mp(WSI_TOKEN_GET_URI \<mapsto> uri)) \<and> ah_next_frag_index ah' = ah_next_frag_index ah + 1 \<and>
    ah_pos ah' = ah_pos ah + length uri + 1"
proof -
  note d = hdr_reprD[OF rep]
  have new0: "mp 0 = None" using new by (simp add: WSI_TOKEN_GET_URI_def)
  have nm: "lex_name lextable 0 (bytes ''GET '') = Some 0"
    by (simp only: lex_name_lextable) (simp add: set_names_def)
  define ah1 where "ah1 = (with_frag ah None)\<lparr>ah_frag_index := (ah_frag_index ah)[0 := ah_next_frag_index ah + 1]\<rparr>"
  have sf: "start_fragment 0 ah = Some (0, ah1)"
    unfolding ah1_def by (rule start_fragment_first[OF rep room(1) _ new0]) simp
  have i0: "ah_frag_index ah ! 0 = 0" using d(4)[of 0] new0 by simp
  obtain q where q: "\<And>rest. parse_bytes (with_hdr wsi ah 0 WSI_TOKEN_NAME_PART) (bytes ''GET '' @ rest)
      = parse_bytes (with_hdr wsi ah1 (q rest) (WSI_TOKEN 0)) rest"
    using parse_known_name[OF nm _ _ _ d(2) i0 sf, of wsi] unfolding c_defs by (simp del: bytes_Cons) metis
  have s1: "ah_sized ah1" "ah_pos ah1 = ah_pos ah" "ah_next_frag_index ah1 = ah_next_frag_index ah + 1"
      "ah_frag_index ah1 ! 0 = ah_next_frag_index ah1"
    using d(1,2) room(1) by (auto simp: ah1_def with_frag_def Let_def ah_sized_def)
  obtain ah' where ah': "put_chars (uri @ [0]) ah1 = Some (0, ah')" "hdr_repr ah' (mp(0 \<mapsto> uri))"
      "ah_next_frag_index ah' = ah_next_frag_index ah + 1" "ah_pos ah' = ah_pos ah + length uri + 1"
    using store_value[OF rep room(1) _ _ room(2), of 0] u unfolding ah1_def uri_ok_def by auto
  obtain ah2 where ah2: "put_chars uri ah1 = Some (0, ah2)" "ah_sized ah2" "ah_pos ah2 < 1024" "put_char 0 ah2 = Some ah'"
      "ah_frag_index ah2 = ah_frag_index ah1" "frag_len (ah_frags ah2 ! (ah_frag_index ah2 ! 0)) \<noteq> 0"
  proof -
    have f: "filter (\<lambda>ch. ch \<noteq> 0) uri = uri" using u(1) by (simp add: uri_ok_def filter_id_conv) metis
    show ?thesis using store_split[OF ah'(1) s1(1)] s1(2-4) room(2) u(1) that unfolding f uri_ok_def
      by (cases uri) auto
  qed
  have r2: "rd (ah_frag_index ah2) 0 = Some (ah_frag_index ah2 ! 0)"
      "rd (ah_frags ah2) (ah_frag_index ah2 ! 0) = Some (ah_frags ah2 ! (ah_frag_index ah2 ! 0))"
    using ah2(2,5) s1(3,4) room(1) by (auto simp: rd_def ah_sized_def)
  have "parse_bytes (with_hdr wsi ah1 p (WSI_TOKEN 0)) (uri @ [32] @ tail @ crlf @ rest)
      = parse_bytes (with_hdr wsi ah' 0 WSI_TOKEN_NAME_PART) rest" for p
  proof -
    have "parse_bytes (with_hdr wsi ah1 p (WSI_TOKEN 0)) (uri @ [32] @ tail @ crlf @ rest)
        = parse_bytes (with_hdr wsi ah2 p (WSI_TOKEN 0)) ([32] @ tail @ crlf @ rest)"
      using u s1 ah2(1) room(2) by (intro parse_value) (auto simp: uri_ok_def WSI_TOKEN_CHALLENGE_def dest: hd_in_set)
    also have "\<dots> = parse_bytes (with_hdr wsi ah' p WSI_TOKEN_SKIPPING) (tail @ crlf @ rest)"
      using r2 ah2 by (auto simp: libwebsocket_parse_def parse_token_def lws_consts c_defs)
    finally show ?thesis using parse_skipping[OF u(2)] by simp
  qed
  then show ?thesis using q ah'(2-4) unfolding get_line_def append_assoc WSI_TOKEN_GET_URI_def by auto
qed

text \<open>A line with a name outside the table is skipped once the first line is in.\<close>

fun lex_rejects :: "int \<Rightarrow> byte list \<Rightarrow> bool" where
  "lex_rejects p [] = False"
| "lex_rejects p (ch # s) = (case lex_step lextable p ch of
      Some Unknown \<Rightarrow> 13 \<notin> set s | Some (More q) \<Rightarrow> lex_rejects q s | _ \<Rightarrow> False)"

lemma parse_other_line:
  assumes "length (ah_frag_index ah) = 23" "ah_frag_index ah ! WSI_TOKEN_GET_URI \<noteq> 0 \<or> ah_frag_index ah ! WSI_TOKEN_HTTP \<noteq> 0"
  shows "lex_rejects p s \<Longrightarrow> parse_bytes (with_hdr wsi ah p WSI_TOKEN_NAME_PART) (s @ crlf @ rest)
     = parse_bytes (with_hdr wsi ah 0 WSI_TOKEN_NAME_PART) rest"
proof (induction p s rule: lex_rejects.induct)
  case (2 p ch s)
  then obtain lx where lx: "lex_step lextable p ch = Some lx" by (auto split: option.splits)
  then obtain q where q: "lextable_decode p ch = Some q"
    by (auto simp: lex_step_def lextable_decode_def split: bind_splits)
  have i: "rd (ah_frag_index ah) t = Some (ah_frag_index ah ! t)" if "t < 23" for t
    using that assms(1) by (simp add: rd_def)
  show ?case
  proof (cases lx)
    case Unknown
    then have "q < 0" "13 \<notin> set s" using 2(2) lx q
      by (auto simp: lex_step_def lextable_decode_def split: bind_splits if_splits)
    then have "libwebsocket_parse (with_hdr wsi ah p WSI_TOKEN_NAME_PART) ch = Some (0, with_hdr wsi ah q WSI_TOKEN_SKIPPING)"
      using q i assms(2) by (auto simp: libwebsocket_parse_def parse_name_def c_defs)
    then show ?thesis using parse_skipping[OF \<open>13 \<notin> set s\<close>] by simp
  next
    case (More k)
    then have "lex_rejects k s" using 2(2) lx by simp
    note ih = 2(1)[OF lx More this]
    obtain nxt where "k = q" "0 \<le> q" "rd lextable (nat q + 1) = Some nxt" "nxt \<noteq> 0"
      using lx More q by (auto simp: lex_step_def lextable_decode_def split: bind_splits if_splits)
    then have "libwebsocket_parse (with_hdr wsi ah p WSI_TOKEN_NAME_PART) ch = Some (0, with_hdr wsi ah k WSI_TOKEN_NAME_PART)"
      using q by (auto simp: libwebsocket_parse_def parse_name_def)
    then show ?thesis using ih by simp
  next
    case (Token n)
    then show ?thesis using 2(2) lx by simp
  qed
qed simp

lemma parse_blank_line:
  assumes rep: "hdr_repr ah mp"
  shows "\<exists>q. parse_bytes (with_hdr wsi ah 0 WSI_TOKEN_NAME_PART) (crlf @ rest) = Some (0,
    with_hdr (wsi\<lparr>ietf_spec_revision := (case (mp WSI_TOKEN_UPGRADE, mp WSI_TOKEN_VERSION) of
        (Some u, Some v) \<Rightarrow> if u \<noteq> [] \<and> v \<noteq> [] then of_int (c_atoi v) else ietf_spec_revision wsi
      | _ \<Rightarrow> ietf_spec_revision wsi), hdr_parsing_completed := True\<rparr>) ah q WSI_PARSING_COMPLETE, rest)"
proof -
  have lx: "lextable_decode 0 13 = Some 176" "rd lextable 177 = Some 1" "lextable_decode 176 10 = Some 178"
      "rd lextable 179 = Some 0" "rd lextable 178 = Some 0x89"
    by code_simp+
  have i: "rd (ah_frag_index ah) 0 = Some (ah_frag_index ah ! 0)"
    using hdr_reprD(2)[OF rep] by (simp add: rd_def)
  have len: "lws_hdr_total_length ah t = Some (case mp t of None \<Rightarrow> 0 | Some v \<Rightarrow> length v)"
      if "t < 23" for t by (rule repr_total_length[OF rep that])
  have n: "unat (0x89 AND 0x7f :: byte) = 9" by simp
  have 1: "libwebsocket_parse (with_hdr wsi ah 0 WSI_TOKEN_NAME_PART) 13 = Some (0, with_hdr wsi ah 176 WSI_TOKEN_NAME_PART)"
    using lx by (simp add: libwebsocket_parse_def parse_name_def)
  have 2: "libwebsocket_parse (with_hdr wsi ah 176 WSI_TOKEN_NAME_PART) 10
      = set_parsing_complete (with_hdr wsi ah 178 (WSI_TOKEN WSI_TOKEN_CHALLENGE))"
    using lx i n by (simp add: libwebsocket_parse_def parse_name_def c_defs)
  have 3: "set_parsing_complete (with_hdr wsi ah 178 (WSI_TOKEN WSI_TOKEN_CHALLENGE)) = Some (0,
     with_hdr (wsi\<lparr>ietf_spec_revision := (case (mp WSI_TOKEN_UPGRADE, mp WSI_TOKEN_VERSION) of
        (Some u, Some v) \<Rightarrow> if u \<noteq> [] \<and> v \<noteq> [] then of_int (c_atoi v) else ietf_spec_revision wsi
      | _ \<Rightarrow> ietf_spec_revision wsi), hdr_parsing_completed := True\<rparr>) ah 178 WSI_PARSING_COMPLETE)"
    using len[of WSI_TOKEN_UPGRADE] len[of WSI_TOKEN_VERSION] repr_string[OF rep, of WSI_TOKEN_VERSION]
    by (cases "mp WSI_TOKEN_UPGRADE"; cases "mp WSI_TOKEN_VERSION")
      (auto simp: set_parsing_complete_def with_hdr_def upd_hdr_def WSI_TOKEN_UPGRADE_def WSI_TOKEN_VERSION_def)
  show ?thesis using 1 2 3 by (intro exI[of _ 178]) (cases rest; simp)
qed

datatype req_line = Hdr nat nat "byte list" | Other "byte list"

fun line_bytes :: "req_line \<Rightarrow> byte list" where
  "line_bytes (Hdr t k v) = hdr_line t k v"
| "line_bytes (Other s) = s @ crlf"

fun lines_map :: "(nat \<rightharpoonup> byte list) \<Rightarrow> req_line list \<Rightarrow> (nat \<rightharpoonup> byte list)" where
  "lines_map mp [] = mp"
| "lines_map mp (Hdr t k v # ls) = lines_map (mp(t \<mapsto> v)) ls"
| "lines_map mp (Other s # ls) = lines_map mp ls"

fun lines_ok :: "(nat \<rightharpoonup> byte list) \<Rightarrow> req_line list \<Rightarrow> bool" where
  "lines_ok mp [] = True"
| "lines_ok mp (Hdr t k v # ls) = (t < 17 \<and> t \<notin> {WSI_TOKEN_GET_URI, WSI_TOKEN_CHALLENGE, WSI_TOKEN_SWORIGIN} \<and>
     mp t = None \<and> value_ok v \<and> lines_ok (mp(t \<mapsto> v)) ls)"
| "lines_ok mp (Other s # ls) = ((mp WSI_TOKEN_GET_URI \<noteq> None \<or> mp WSI_TOKEN_HTTP \<noteq> None) \<and>
     lex_rejects 0 s \<and> lines_ok mp ls)"

fun lines_values :: "req_line list \<Rightarrow> byte list list" where
  "lines_values [] = []"
| "lines_values (Hdr t k v # ls) = v # lines_values ls"
| "lines_values (Other s # ls) = lines_values ls"

lemma parse_lines:
  "hdr_repr ah mp \<Longrightarrow> lines_ok mp ls \<Longrightarrow> ah_next_frag_index ah + length (lines_values ls) \<le> 45 \<Longrightarrow>
   ah_pos ah + sum_list (map (\<lambda>v. length v + 1) (lines_values ls)) \<le> 1024 \<Longrightarrow>
   \<exists>ah'. parse_bytes (with_hdr wsi ah 0 WSI_TOKEN_NAME_PART) (concat (map line_bytes ls) @ rest)
      = parse_bytes (with_hdr wsi ah' 0 WSI_TOKEN_NAME_PART) rest \<and> hdr_repr ah' (lines_map mp ls)"
proof (induction mp ls arbitrary: ah rule: lines_map.induct)
  case (2 mp t k v ls)
  from 2(3) have t: "t < 17" "t \<notin> {WSI_TOKEN_GET_URI, WSI_TOKEN_CHALLENGE, WSI_TOKEN_SWORIGIN}" "mp t = None" "value_ok v"
    and ls: "lines_ok (mp(t \<mapsto> v)) ls" by auto
  have room: "ah_next_frag_index ah \<le> 44" "ah_pos ah + length v + 1 \<le> 1024" using 2(4,5) by auto
  from parse_hdr_line[OF 2(2) t room, of wsi k "concat (map line_bytes ls) @ rest"] obtain ah1 where ah1:
    "parse_bytes (with_hdr wsi ah 0 WSI_TOKEN_NAME_PART) (hdr_line t k v @ concat (map line_bytes ls) @ rest)
      = parse_bytes (with_hdr wsi ah1 0 WSI_TOKEN_NAME_PART) (concat (map line_bytes ls) @ rest)"
    "hdr_repr ah1 (mp(t \<mapsto> v))" "ah_next_frag_index ah1 = ah_next_frag_index ah + 1"
    "ah_pos ah1 = ah_pos ah + length v + 1" by blast
  from 2(1)[OF ah1(2) ls] ah1(3,4) 2(4,5) ah1(1) show ?case by (simp del: fun_upd_apply)
next
  case (3 mp s ls)
  have "ah_frag_index ah ! WSI_TOKEN_GET_URI \<noteq> 0 \<or> ah_frag_index ah ! WSI_TOKEN_HTTP \<noteq> 0"
    using 3(3) hdr_reprD(5)[OF 3(2), of 0] hdr_reprD(5)[OF 3(2), of 16] by (auto simp: c_defs)
  from parse_other_line[OF hdr_reprD(2)[OF 3(2)] this, of 0 s wsi "concat (map line_bytes ls) @ rest"] 3
  show ?case by simp
qed auto

text \<open>A whole request, with the connection it leaves.\<close>

lemma request_parsed:
  assumes rep: "hdr_repr ah Map.empty" "ah_next_frag_index ah = 0" "ah_pos ah = 0"
    and req: "uri_ok uri" "13 \<notin> set tail" "lines_ok [WSI_TOKEN_GET_URI \<mapsto> uri] ls" "length (lines_values ls) \<le> 44"
      "length uri + 1 + sum_list (map (\<lambda>v. length v + 1) (lines_values ls)) \<le> 1024"
  defines "mp \<equiv> lines_map [WSI_TOKEN_GET_URI \<mapsto> uri] ls"
  shows "\<exists>ah' q. parse_bytes (with_hdr wsi ah 0 WSI_TOKEN_NAME_PART) (get_line uri tail @ concat (map line_bytes ls) @ crlf @ rest) = Some (0,
      with_hdr (wsi\<lparr>ietf_spec_revision := (case (mp WSI_TOKEN_UPGRADE, mp WSI_TOKEN_VERSION) of
        (Some u, Some v) \<Rightarrow> if u \<noteq> [] \<and> v \<noteq> [] then of_int (c_atoi v) else ietf_spec_revision wsi
      | _ \<Rightarrow> ietf_spec_revision wsi), hdr_parsing_completed := True\<rparr>) ah' q WSI_PARSING_COMPLETE, rest) \<and> hdr_repr ah' mp"
proof -
  obtain ah1 where ah1: "parse_bytes (with_hdr wsi ah 0 WSI_TOKEN_NAME_PART) (get_line uri tail @ concat (map line_bytes ls) @ crlf @ rest)
      = parse_bytes (with_hdr wsi ah1 0 WSI_TOKEN_NAME_PART) (concat (map line_bytes ls) @ crlf @ rest)"
      "hdr_repr ah1 [WSI_TOKEN_GET_URI \<mapsto> uri]" "ah_next_frag_index ah1 = 1" "ah_pos ah1 = length uri + 1"
    using parse_get_line[OF rep(1) _ req(1,2), of wsi] rep(2,3) req(5) by fastforce
  obtain ah2 where ah2: "parse_bytes (with_hdr wsi ah1 0 WSI_TOKEN_NAME_PART) (concat (map line_bytes ls) @ crlf @ rest)
      = parse_bytes (with_hdr wsi ah2 0 WSI_TOKEN_NAME_PART) (crlf @ rest)" "hdr_repr ah2 mp"
    using parse_lines[OF ah1(2) req(3), of wsi "crlf @ rest"] ah1(3,4) req(4,5) unfolding mp_def by fastforce
  from parse_blank_line[OF ah2(2), of wsi rest] ah1(1) ah2 show ?thesis by fastforce
qed

text \<open>
  Storing several strings, giving up at the first failure (\<open>if (lws_hdr_simple_create(...)) goto bail1;\<close>
  in \<^verbatim>\<open>lib/client-handshake.c\<close>).
\<close>

fun stash :: "(nat \<Rightarrow> byte list \<Rightarrow> 'a \<Rightarrow> (int \<times> 'a) option) \<Rightarrow> (nat \<times> byte list) list \<Rightarrow> 'a \<Rightarrow> (int \<times> 'a) option"
  where
  "stash create [] st = Some (0, st)"
| "stash create ((t, v) # kvs) st = do { (r, st) \<leftarrow> create t v st;
     if r \<noteq> 0 then Some (r, st) else stash create kvs st }"

section \<open>The interface of the header store\<close>

text \<open>
  What the handshake code relies on: a table represents a map from tokens to strings; creating an entry
  updates the map while slots and space last, and copying an entry out returns the mapped string with
  its NUL.
\<close>

locale header_store =
  fixes repr :: "'a \<Rightarrow> (nat \<rightharpoonup> byte list) \<Rightarrow> bool"
    and create :: "nat \<Rightarrow> byte list \<Rightarrow> 'a \<Rightarrow> (int \<times> 'a) option"
    and copy :: "'a \<Rightarrow> byte list \<Rightarrow> int \<Rightarrow> nat \<Rightarrow> (int \<times> byte list) option"
    and slots :: "'a \<Rightarrow> nat"
    and space :: "'a \<Rightarrow> nat"
  assumes create_repr: "repr st mp \<Longrightarrow> t < 23 \<Longrightarrow> 0 \<notin> set v \<Longrightarrow> 0 < slots st \<Longrightarrow> length v < space st \<Longrightarrow>
      \<exists>st'. create t v st = Some (0, st') \<and> repr st' (mp(t \<mapsto> v)) \<and>
        slots st' = slots st - 1 \<and> space st' = space st - (length v + 1)"
    and copy_repr: "repr st mp \<Longrightarrow> t < 23 \<Longrightarrow> mp t = Some v \<Longrightarrow> int (length v) < len \<Longrightarrow>
      len \<le> int (length dest) \<Longrightarrow> copy st dest len t = Some (int (length v), v @ 0 # drop (length v + 1) dest)"
begin

lemma stash_repr:
  "repr st mp \<Longrightarrow> \<forall>(t, v) \<in> set kvs. t < 23 \<and> 0 \<notin> set v \<Longrightarrow> length kvs \<le> slots st \<Longrightarrow>
   sum_list (map (\<lambda>(t, v). length v + 1) kvs) \<le> space st \<Longrightarrow>
   \<exists>st'. stash create kvs st = Some (0, st') \<and> repr st' (mp ++ map_of (rev kvs)) \<and>
     slots st' = slots st - length kvs \<and> space st' = space st - sum_list (map (\<lambda>(t, v). length v + 1) kvs)"
proof (induction kvs arbitrary: st mp)
  case (Cons kv kvs)
  obtain t v where kv: "kv = (t, v)" by (cases kv)
  obtain st1 where st1: "create t v st = Some (0, st1)" "repr st1 (mp(t \<mapsto> v))"
      "slots st1 = slots st - 1" "space st1 = space st - (length v + 1)"
    using create_repr[of st mp t v] Cons.prems kv by auto
  have "\<exists>st'. stash create kvs st1 = Some (0, st') \<and> repr st' (mp(t \<mapsto> v) ++ map_of (rev kvs)) \<and>
      slots st' = slots st1 - length kvs \<and> space st' = space st1 - sum_list (map (\<lambda>(t, v). length v + 1) kvs)"
    by (rule Cons.IH[OF st1(2)]) (use Cons.prems kv st1(3,4) in auto)
  then show ?case using st1 kv by (simp add: map_add_assoc)
qed simp

end

interpretation ah_store: header_store hdr_repr lws_hdr_simple_create lws_hdr_copy
  "\<lambda>ah. 45 - ah_next_frag_index ah" "\<lambda>ah. 1024 - ah_pos ah"
proof
  show "\<exists>st'. lws_hdr_simple_create t v st = Some (0, st') \<and> hdr_repr st' (mp(t \<mapsto> v)) \<and>
      45 - ah_next_frag_index st' = 45 - ah_next_frag_index st - 1 \<and>
      1024 - ah_pos st' = 1024 - ah_pos st - (length v + 1)"
    if "hdr_repr st mp" "t < 23" "0 \<notin> set v" "0 < 45 - ah_next_frag_index st" "length v < 1024 - ah_pos st"
    for st mp t v
    using simple_create_store[OF that(1) _ that(2,3)] that(4,5) by fastforce
qed (rule repr_copy)

section \<open>Properties\<close>

text \<open>The connection as the servers and clients hand it to the parser: a fresh table, at a line start.\<close>

definition hdr_start :: "allocated_headers \<Rightarrow> 'u lws \<Rightarrow> 'u lws" where
  "hdr_start block wsi = with_hdr wsi
     (block\<lparr>ah_frag_index := replicate WSI_TOKEN_COUNT 0, ah_next_frag_index := 0, ah_pos := 0\<rparr>)
     0 WSI_TOKEN_NAME_PART"

lemma fresh_repr:
  assumes "length (ah_frags block) = 46" "length (ah_data block) = 1024"
  shows "hdr_repr (block\<lparr>ah_frag_index := replicate WSI_TOKEN_COUNT 0, ah_next_frag_index := 0,
     ah_pos := 0\<rparr>) Map.empty"
  using assms by (auto simp: hdr_repr_def apart_def ah_wf_def ah_sized_def chain_ok_def WSI_TOKEN_COUNT_def)

lemma hdr_start_inv:
  "length (ah_frags block) = 46 \<Longrightarrow> length (ah_data block) = 1024 \<Longrightarrow> hdr_inv (hdr_start block wsi)"
  using fresh_repr[of block]
  by (simp add: hdr_inv_def hdr_start_def collecting_def lex_pos_def hdr_repr_def)

text \<open>A malloc'd block of the right shape, with garbage in it.\<close>

definition sample_block :: allocated_headers where
  "sample_block = \<lparr>ah_next_frag_index = 7, ah_pos = 9, ah_frag_index = replicate 23 5,
     ah_frags = replicate 46 \<lparr>frag_offset = 3, frag_len = 3, frag_next = 3\<rparr>,
     ah_data = replicate 1024 1, initial_handshake_hash_base64 = replicate 30 0, c_port = 0\<rparr>"

text \<open>
  C5. Whatever bytes arrive, and whatever the freshly allocated table contained, the header parser
  never reads or writes outside its arrays and never loops: each byte returns 0, with the table's
  invariant kept, or -1.
\<close>

theorem parse_memory_safe:
  assumes "length (ah_frags block) = 46" "length (ah_data block) = 1024"
  shows "\<exists>r wsi' rest. parse_bytes (hdr_start block wsi) s = Some (r, wsi', rest) \<and>
     (r = -1 \<or> r = 0 \<and> hdr_inv wsi')"
  using parse_bytes_safe[OF hdr_start_inv[OF assms]] .

theorem parse_memory_safe_witness:
  "length (ah_frags sample_block) = 46 \<and> length (ah_data sample_block) = 1024 \<and>
   (\<exists>r wsi' rest. parse_bytes (hdr_start sample_block (zero_lws
       \<lparr>protocol_name = [], has_callback = True, rx_buffer_size = 0, no_buffer_all_partial_tx = False\<rparr> ()))
     (bytes ''GET /'' @ [0, 13, 10, 255]) = Some (r, wsi', rest) \<and> (r = -1 \<or> r = 0))"
proof -
  have "length (ah_frags sample_block) = 46" "length (ah_data sample_block) = 1024"
    by (simp_all add: sample_block_def)
  from this parse_memory_safe[OF this] show ?thesis by blast
qed

text \<open>
  One byte of input keeps the header invariant: fragment chains strictly increase (so they end),
  offsets, lengths and indices stay within the arrays and below the widths of their C types, and every
  finished fragment is NUL-terminated within its length.
\<close>

theorem parse_keeps_invariant:
  assumes "hdr_inv wsi" "libwebsocket_parse wsi ch = Some (0, wsi')"
  shows "hdr_inv wsi'"
  using libwebsocket_parse_safe[OF assms(1), of ch] assms(2) by auto

theorem parse_keeps_invariant_witness:
  "\<exists>w w' :: unit lws. hdr_inv w \<and> libwebsocket_parse w 71 = Some (0, w') \<and> hdr_inv w'"
proof -
  let ?w = "hdr_start sample_block (zero_lws
       \<lparr>protocol_name = [], has_callback = True, rx_buffer_size = 0, no_buffer_all_partial_tx = False\<rparr> ())"
  let ?w' = "upd_hdr (\<lambda>hd. hd\<lparr>lextable_pos := 14\<rparr>) ?w"
  have i: "hdr_inv ?w" by (rule hdr_start_inv) (simp_all add: sample_block_def)
  have "lextable_decode 0 71 = Some 14" "rd lextable 15 = Some 1" by code_simp+
  then have p: "libwebsocket_parse ?w 71 = Some (0, ?w')"
    by (simp add: libwebsocket_parse_def parse_name_def hdr_start_def)
  from i p parse_keeps_invariant[OF i p] show ?thesis by blast
qed

text \<open>
  C22. \<open>lws_hdr_copy\<close> on a table the parser has left between headers is total and bounded: it
  returns -1 and leaves the buffer alone when the header (with its NUL) does not fit in \<open>len\<close>,
  and otherwise returns the header's length without touching the buffer from \<open>len\<close> on.
\<close>

theorem hdr_copy_bounded:
  assumes "ah_wf False ah" "t < 23" "len \<le> int (length dest)"
  shows "\<exists>T r dest'. lws_hdr_total_length ah t = Some T \<and> lws_hdr_copy ah dest len t = Some (r, dest') \<and>
    length dest' = length dest \<and> (len \<le> int T \<longrightarrow> r = -1 \<and> dest' = dest) \<and>
    (int T < len \<longrightarrow> r = int T \<and> drop (nat len) dest' = drop (nat len) dest)"
  using lws_hdr_copy_safe[OF assms] by blast

theorem hdr_copy_bounded_witness:
  "\<exists>ah. ah_wf False ah \<and> (\<exists>r dest'. lws_hdr_copy ah [1, 2, 3] 2 6 = Some (r, dest') \<and> length dest' = 3)"
proof -
  let ?ah = "sample_block\<lparr>ah_frag_index := replicate WSI_TOKEN_COUNT 0, ah_next_frag_index := 0, ah_pos := 0\<rparr>"
  have "ah_wf False ?ah" using fresh_repr[of sample_block] by (simp add: hdr_repr_def sample_block_def)
  with hdr_copy_bounded[OF this, of 6 2 "[1, 2, 3]"] show ?thesis by fastforce
qed

text \<open>
  C6. A request made of a GET line, known headers (each once, any number of blanks before the value),
  unknown headers and an empty line, small enough for the table, is accepted: the parser stops right after the
  empty line, the table holds exactly the values of the request's headers, and the protocol version
  is the number in the Version header when Upgrade is present.
\<close>

theorem parse_request:
  assumes "length (ah_frags block) = 46" "length (ah_data block) = 1024"
    and "uri_ok uri" "13 \<notin> set tail" "lines_ok [WSI_TOKEN_GET_URI \<mapsto> uri] ls"
    and "length (lines_values ls) \<le> 44"
    and "length uri + 1 + sum_list (map (\<lambda>v. length v + 1) (lines_values ls)) \<le> 1024"
  defines "mp \<equiv> lines_map [WSI_TOKEN_GET_URI \<mapsto> uri] ls"
  shows "\<exists>wsi' ah. parse_bytes (hdr_start block wsi)
        (get_line uri tail @ concat (map line_bytes ls) @ crlf @ rest) = Some (0, wsi', rest) \<and>
     parser_state (u_hdr wsi') = WSI_PARSING_COMPLETE \<and> hdr_ah (u_hdr wsi') = Some ah \<and> hdr_repr ah mp \<and>
     ietf_spec_revision wsi' = (case (mp WSI_TOKEN_UPGRADE, mp WSI_TOKEN_VERSION) of
        (Some u, Some v) \<Rightarrow> if u \<noteq> [] \<and> v \<noteq> [] then of_int (c_atoi v) else ietf_spec_revision wsi
      | _ \<Rightarrow> ietf_spec_revision wsi)"
  using request_parsed[OF fresh_repr[OF assms(1,2)] _ _ assms(3-7), of wsi rest] unfolding hdr_start_def mp_def by fastforce

theorem parse_request_witness:
  "\<exists>wsi' ah. parse_bytes (hdr_start sample_block (zero_lws
       \<lparr>protocol_name = [], has_callback = True, rx_buffer_size = 0, no_buffer_all_partial_tx = False\<rparr> ()))
      (get_line (bytes ''/chat'') (bytes ''HTTP/1.1'') @ concat (map line_bytes
         [Hdr 6 1 (bytes ''websocket''), Other (bytes ''Pragma: no-cache''), Hdr 11 1 (bytes ''13'')])
       @ crlf @ [0x81]) = Some (0, wsi', [0x81]) \<and>
     hdr_ah (u_hdr wsi') = Some ah \<and>
     lws_hdr_copy ah [9, 9, 9, 9, 9, 9, 9] 7 0 = Some (5, bytes ''/chat'' @ [0, 9]) \<and>
     ietf_spec_revision wsi' = 13"
proof -
  let ?ls = "[Hdr 6 1 (bytes ''websocket''), Other (bytes ''Pragma: no-cache''), Hdr 11 1 (bytes ''13'')]"
  let ?w = "zero_lws \<lparr>protocol_name = [], has_callback = True, rx_buffer_size = 0, no_buffer_all_partial_tx = False\<rparr> ()"
  have "lex_rejects 0 (bytes ''Pragma: no-cache'')" by code_simp
  then have ok: "lines_ok [WSI_TOKEN_GET_URI \<mapsto> bytes ''/chat''] ?ls"
    by (simp add: value_ok_def c_defs)
  have u: "uri_ok (bytes ''/chat'')" "13 \<notin> set (bytes ''HTTP/1.1'')"
    by (simp_all add: uri_ok_def)
  have b: "length (ah_frags sample_block) = 46" "length (ah_data sample_block) = 1024"
    by (simp_all add: sample_block_def)
  have sz: "length (lines_values ?ls) \<le> 44"
    "length (bytes ''/chat'') + 1 + sum_list (map (\<lambda>v. length v + 1) (lines_values ?ls)) \<le> 1024" by simp_all
  obtain wsi' ah where p: "parse_bytes (hdr_start sample_block ?w)
      (get_line (bytes ''/chat'') (bytes ''HTTP/1.1'') @ concat (map line_bytes ?ls) @ crlf @ [0x81])
        = Some (0, wsi', [0x81])" "hdr_ah (u_hdr wsi') = Some ah"
    "hdr_repr ah (lines_map [WSI_TOKEN_GET_URI \<mapsto> bytes ''/chat''] ?ls)"
    "ietf_spec_revision wsi' = (case (lines_map [WSI_TOKEN_GET_URI \<mapsto> bytes ''/chat''] ?ls WSI_TOKEN_UPGRADE,
        lines_map [WSI_TOKEN_GET_URI \<mapsto> bytes ''/chat''] ?ls WSI_TOKEN_VERSION) of
        (Some u, Some v) \<Rightarrow> if u \<noteq> [] \<and> v \<noteq> [] then of_int (c_atoi v) else ietf_spec_revision ?w
      | _ \<Rightarrow> ietf_spec_revision ?w)"
    using parse_request[OF b u ok sz, of ?w "[0x81]"] by blast
  have "c_atoi (bytes ''13'') = 13" by code_simp
  then have "ietf_spec_revision wsi' = 13" using p(4) by (simp add: c_defs)
  moreover have "lws_hdr_copy ah [9, 9, 9, 9, 9, 9, 9] 7 0 = Some (5, bytes ''/chat'' @ [0, 9])"
    using repr_copy[OF p(3), of 0 "bytes ''/chat''" 7 "[9, 9, 9, 9, 9, 9, 9]"] by (simp add: c_defs)
  ultimately show ?thesis using p(1,2) by blast
qed

end
