(* ===== verification/Server_Handshake.thy ===== *)
theory Server_Handshake
  imports Base64 Sha1 Header_Lines Frame_Safety
begin

text \<open>
  The opening handshake: \<^verbatim>\<open>lib/server-handshake.c\<close> and \<open>libwebsocket_read\<close> of \<^verbatim>\<open>lib/handshake.c\<close> for the server,
  \<^verbatim>\<open>lib/client.c\<close> for the client, in the build without TLS. \<open>sb\<close> is the \<open>service_buffer\<close> of the context. \<open>None\<close> is
  undefined behaviour: a write outside an array, a null pointer followed, a block freed twice.
\<close>

section \<open>The context\<close>

definition WSI_TOKEN_CLIENT_SENT_PROTOCOLS :: nat where [c_defs]: "WSI_TOKEN_CLIENT_SENT_PROTOCOLS = 18"
definition WSI_TOKEN_CLIENT_PEER_ADDRESS :: nat where [c_defs]: "WSI_TOKEN_CLIENT_PEER_ADDRESS = 19"
definition WSI_TOKEN_CLIENT_URI :: nat where [c_defs]: "WSI_TOKEN_CLIENT_URI = 20"
definition WSI_TOKEN_CLIENT_HOST :: nat where [c_defs]: "WSI_TOKEN_CLIENT_HOST = 21"
definition WSI_TOKEN_CLIENT_ORIGIN :: nat where [c_defs]: "WSI_TOKEN_CLIENT_ORIGIN = 22"
definition MAX_WEBSOCKET_04_KEY_LEN :: nat where "MAX_WEBSOCKET_04_KEY_LEN = 128"
definition LWS_MAX_EXTENSIONS_ACTIVE :: nat where "LWS_MAX_EXTENSIONS_ACTIVE = 3"

definition ws_guid :: "byte list" where "ws_guid = bytes ''258EAFA5-E914-47DA-95CA-C5AB0DC85B11''"

text \<open>
  What the code reads of \<open>struct libwebsocket_context\<close>, and what it asks of the user code and the system: the protocols before the
  terminator, each with a name; the names of the extensions; the size of the user memory of a protocol, with the null pointer and the
  cleared block; the callback of protocol 0 for an extension name, and for further headers; a block from \<open>malloc\<close> with
  whatever is in it; whether \<open>setsockopt\<close> fails.
\<close>

record 'u hs_context =
  hs_protocols :: "libwebsocket_protocols list"
  hs_extensions :: "byte list list"
  per_session_data_size :: "libwebsocket_protocols \<Rightarrow> nat"
  user_null :: "'u \<Rightarrow> bool"
  user_zero :: 'u
  confirm_ext :: "callback_reason \<Rightarrow> byte list \<Rightarrow> 'u lws \<Rightarrow> int \<times> 'u lws"
  append_hdrs :: "int \<Rightarrow> 'u lws \<Rightarrow> byte list \<times> 'u lws"
  hs_block :: "nat \<Rightarrow> byte list"
  sndbuf_fails :: "nat \<Rightarrow> bool"

definition libwebsocket_ensure_user_space :: "'u hs_context \<Rightarrow> 'u env \<Rightarrow> 'u lws \<Rightarrow> int \<times> 'u lws" where
  "libwebsocket_ensure_user_space C E wsi =
    (if per_session_data_size C (protocol wsi) \<noteq> 0 \<and> user_null C (user_space wsi) then
       let got = os_malloc E (sys_calls wsi); wsi = wsi\<lparr>sys_calls := sys_calls wsi + 1\<rparr> in
       if got then (0, wsi\<lparr>user_space := user_zero C\<rparr>) else (1, wsi)
     else (0, wsi))"

text \<open>The string a header pointer refers to; the inner \<open>None\<close> is the null pointer.\<close>

definition hdr_string :: "allocated_headers \<Rightarrow> nat \<Rightarrow> byte list option option" where
  "hdr_string ah t = do { p \<leftarrow> lws_hdr_simple_ptr ah t;
     case p of None \<Rightarrow> Some None | Some i \<Rightarrow> do { s \<leftarrow> c_string_at (ah_data ah) i; Some (Some s) } }"

text \<open>\<open>LWS_CPYAPP\<close> and \<open>p += sprintf(p, "%s", ...)\<close>: the text and its NUL are stored at \<open>p\<close>.\<close>

definition cpyapp :: "byte list \<Rightarrow> byte list \<times> nat \<Rightarrow> (byte list \<times> nat) option" where
  "cpyapp s bp = (case bp of (b, p) \<Rightarrow> do { b \<leftarrow> blit b p (s @ [0]); Some (b, p + length s) })"

fun lws_any_extension_handled :: "'u env \<Rightarrow> ext_reason \<Rightarrow> lws_tokens \<Rightarrow> nat list \<Rightarrow> 'u lws \<Rightarrow> bool \<times> 'u lws" where
  "lws_any_extension_handled E r tok [] wsi = (False, wsi)"
| "lws_any_extension_handled E r tok (x # xs) wsi = (case ext_cb E x r tok wsi of (n, _, wsi) \<Rightarrow>
     if n \<noteq> 0 then (True, wsi) else lws_any_extension_handled E r tok xs wsi)"

section \<open>The server\<close>

text \<open>
  The extensions \<open>(j, name)\<close> left to compare with the one the client asks for. A failed \<open>malloc\<close> leads to \<open>free\<close> of a pointer
  into the service buffer. The result: what to return, the buffer and the place in it, how many were accepted, the connection.
\<close>

fun ext_apply :: "'u hs_context \<Rightarrow> 'u env \<Rightarrow> byte list \<Rightarrow> (nat \<times> byte list) list \<Rightarrow> byte list \<times> nat \<Rightarrow> nat \<Rightarrow> 'u lws \<Rightarrow>
    ((byte list \<times> nat) \<times> nat \<times> 'u lws) option" where
  "ext_apply C E name [] bp cnt wsi = Some (bp, cnt, wsi)"
| "ext_apply C E name ((j, x) # xs) bp cnt wsi =
    (if name \<noteq> x then ext_apply C E name xs bp cnt wsi
     else case confirm_ext C LWS_CALLBACK_CONFIRM_EXTENSION_OKAY name wsi of (n, wsi) \<Rightarrow>
       if n \<noteq> 0 then ext_apply C E name xs bp cnt wsi
       else do {
         bp \<leftarrow> (if cnt \<noteq> 0 then do { b \<leftarrow> wr (fst bp) (snd bp) 44; Some (b, snd bp + 1) }
                else cpyapp (crlf @ bytes ''Sec-WebSocket-Extensions: '') bp);
         bp \<leftarrow> cpyapp name bp;
         if length (active_extensions wsi) \<ge> LWS_MAX_EXTENSIONS_ACTIVE \<or> \<not> os_malloc E (sys_calls wsi) then None
         else let wsi = wsi\<lparr>sys_calls := sys_calls wsi + 1, active_extensions := active_extensions wsi @ [j]\<rparr>;
                  (_, _, wsi) = ext_cb E j LWS_EXT_CALLBACK_CONSTRUCT no_tokens wsi
              in ext_apply C E name xs bp (cnt + 1) wsi })"

text \<open>The walk over the client's list, read from the service buffer at \<open>c\<close>; a name is cut at 127 characters.\<close>

definition ext_char :: "byte \<Rightarrow> bool" where
  "ext_char ch \<longleftrightarrow> ch \<noteq> 0 \<and> ch \<noteq> 44 \<and> ch \<noteq> 32 \<and> ch \<noteq> 9"

definition ext_name_char :: "byte list \<Rightarrow> byte \<Rightarrow> byte list" where
  "ext_name_char name ch = (if length name < 127 then name @ [ch] else name)"

partial_function (option) ext_scan :: "'u hs_context \<Rightarrow> 'u env \<Rightarrow> nat \<Rightarrow> byte list \<Rightarrow> byte list \<times> nat \<Rightarrow> nat \<Rightarrow> 'u lws \<Rightarrow>
    ((byte list \<times> nat) \<times> 'u lws) option" where
  "ext_scan C E c name bp cnt wsi = do { ch \<leftarrow> rd (fst bp) c;
     if ext_char ch then ext_scan C E (c + 1) (ext_name_char name ch) bp cnt wsi
     else if ch \<noteq> 0 \<and> name = [] then ext_scan C E (c + 1) [] bp cnt wsi
     else do { (bp, cnt, wsi) \<leftarrow> ext_apply C E name (enumerate 0 (hs_extensions C)) bp cnt wsi;
       if ch = 0 then Some (bp, wsi) else ext_scan C E (c + 1) [] bp cnt wsi } }"

declare ext_scan.simps [code]

definition reply_extensions :: "'u hs_context \<Rightarrow> 'u env \<Rightarrow> allocated_headers \<Rightarrow> byte list \<times> nat \<Rightarrow> 'u lws \<Rightarrow>
    (int \<times> (byte list \<times> nat) \<times> 'u lws) option" where
  "reply_extensions C E ah bp wsi = do { len \<leftarrow> lws_hdr_total_length ah WSI_TOKEN_EXTENSIONS;
     if len = 0 then Some (0, bp, wsi)
     else do { (n, b) \<leftarrow> lws_hdr_copy ah (fst bp) (int LWS_MAX_SOCKET_IO_BUF) WSI_TOKEN_EXTENSIONS;
       if n < 0 then Some (-1, bp, wsi)
       else do { (bp, wsi) \<leftarrow> ext_scan C E 0 [] (b, snd bp) 0 (wsi\<lparr>active_extensions := []\<rparr>); Some (0, bp, wsi) } } }"

definition reply_protocol :: "allocated_headers \<Rightarrow> byte list \<times> nat \<Rightarrow> (int \<times> byte list \<times> nat) option" where
  "reply_protocol ah bp = do { len \<leftarrow> lws_hdr_total_length ah WSI_TOKEN_PROTOCOL;
     if len = 0 then Some (0, bp)
     else do { (b, p) \<leftarrow> cpyapp (crlf @ bytes ''Sec-WebSocket-Protocol: '') bp;
       (n, d) \<leftarrow> lws_hdr_copy ah (drop p b) 128 WSI_TOKEN_PROTOCOL;
       if n < 0 then Some (-1, b, p) else Some (0, take p b @ d, p + nat n) } }"

definition accept_key :: "byte list \<Rightarrow> int \<Rightarrow> int \<times> byte list" where
  "accept_key key n = lws_b64_encode_string (SHA1 (key @ ws_guid)) n"

definition reply_head :: "byte list" where
  "reply_head = bytes ''HTTP/1.1 101 Switching Protocols'' @ crlf @ bytes ''Upgrade: WebSocket'' @ crlf @
     bytes ''Connection: Upgrade'' @ crlf @ bytes ''Sec-WebSocket-Accept: ''"

text \<open>The last part of \<open>handshake_0405\<close>: sending the response and opening the connection.\<close>

definition send_reply :: "'u env \<Rightarrow> byte list \<times> nat \<Rightarrow> 'u lws \<Rightarrow> (int \<times> 'u lws) option" where
  "send_reply E bp wsi = do { (b, p) \<leftarrow> cpyapp (crlf @ crlf) bp;
     len \<leftarrow> Some (p - MAX_WEBSOCKET_04_KEY_LEN);
     (sent, wsi) \<leftarrow> (case lws_any_extension_handled E LWS_EXT_CALLBACK_HANDSHAKE_REPLY_TX
           \<lparr>tok_mem = b, tok_off = MAX_WEBSOCKET_04_KEY_LEN, tok_len = int len, tok_moved = False\<rparr> (active_extensions wsi) wsi of
         (True, wsi) \<Rightarrow> Some (True, wsi)
       | (False, wsi) \<Rightarrow> do { (n, wsi, _) \<leftarrow> libwebsocket_write E wsi b MAX_WEBSOCKET_04_KEY_LEN len LWS_WRITE_HTTP; Some (n = int len, wsi) });
     if \<not> sent then Some (-1, wsi)
     else let wsi = wsi\<lparr>state := WSI_STATE_ESTABLISHED, lws_rx_parse_state := LWS_RXPS_NEW\<rparr> in
       Some (0, if has_callback (protocol wsi) then snd (user_cb E LWS_CALLBACK_ESTABLISHED [] wsi) else wsi) }"

text \<open>A result of \<open>-1\<close> means that the header table has been freed.\<close>

definition handshake_0405 :: "'u hs_context \<Rightarrow> 'u env \<Rightarrow> byte list \<Rightarrow> 'u lws \<Rightarrow> (int \<times> 'u lws) option" where
  "handshake_0405 C E sb wsi = do { ah \<leftarrow> hdr_ah (u_hdr wsi);
     host \<leftarrow> lws_hdr_total_length ah WSI_TOKEN_HOST;
     klen \<leftarrow> lws_hdr_total_length ah WSI_TOKEN_KEY;
     if host = 0 \<or> klen = 0 \<or> klen \<ge> MAX_WEBSOCKET_04_KEY_LEN then Some (-1, wsi)
     else do { ks \<leftarrow> hdr_string ah WSI_TOKEN_KEY; key \<leftarrow> ks;
       sb \<leftarrow> blit sb 0 (key @ ws_guid @ [0]);
       (alen, out) \<leftarrow> Some (accept_key key (int LWS_MAX_SOCKET_IO_BUF));
       sb \<leftarrow> blit sb 0 out;
       if alen < 0 then Some (-1, wsi)
       else let (r, wsi) = libwebsocket_ensure_user_space C E wsi in
         if r \<noteq> 0 then Some (-1, wsi)
         else do { (b, p) \<leftarrow> cpyapp reply_head (sb, MAX_WEBSOCKET_04_KEY_LEN);
           acc \<leftarrow> c_string_at b 0;
           b \<leftarrow> blit b p (acc @ [0]);
           (r, bp) \<leftarrow> reply_protocol ah (b, p + nat alen);
           if r < 0 then Some (-1, wsi)
           else do { (r, bp, wsi) \<leftarrow> reply_extensions C E ah bp wsi;
             if r < 0 then Some (-1, wsi) else send_reply E bp wsi } } } }"

text \<open>The part of \<open>libwebsocket_read\<close> for a request that is not for a WebSocket.\<close>

definition http_request :: "'u hs_context \<Rightarrow> 'u env \<Rightarrow> allocated_headers \<Rightarrow> 'u lws \<Rightarrow> (int \<times> 'u lws) option" where
  "http_request C E ah wsi = do { len \<leftarrow> lws_hdr_total_length ah WSI_TOKEN_GET_URI;
     if len = 0 then Some (-1, wsi)
     else let (r, wsi) = libwebsocket_ensure_user_space C E wsi in
       if r \<noteq> 0 then Some (-1, wsi)
       else do { us \<leftarrow> hdr_string ah WSI_TOKEN_GET_URI; uri \<leftarrow> us;
         let wsi = wsi\<lparr>u_hdr := zero_hdr, u_ws := zero_ws, mode := LWS_CONNMODE_HTTP_SERVING_ACCEPTED, state := WSI_STATE_HTTP\<rparr>;
             (n, wsi) = (if has_callback (protocol wsi) then user_cb E LWS_CALLBACK_HTTP uri wsi else (0, wsi))
         in Some (if n \<noteq> 0 then -1 else 0, wsi) } }"

text \<open>The search for the protocol the client asks for; the inner \<open>None\<close> refuses the connection.\<close>

definition choose_protocol :: "'u hs_context \<Rightarrow> allocated_headers \<Rightarrow> libwebsocket_protocols option option" where
  "choose_protocol C ah = do { len \<leftarrow> lws_hdr_total_length ah WSI_TOKEN_PROTOCOL;
     asked \<leftarrow> hdr_string ah WSI_TOKEN_PROTOCOL;
     case (if len = 0 then None else List.find (\<lambda>pr. asked = Some (protocol_name pr)) (hs_protocols C)) of
       Some pr \<Rightarrow> Some (Some pr)
     | None \<Rightarrow> if asked \<noteq> None then Some None
         else case hs_protocols C of [] \<Rightarrow> None | pr # _ \<Rightarrow> Some (Some pr) }"

text \<open>
  The union is cleared and the receive buffer allocated; shared by server and client. The size is computed in an \<open>int\<close>, which
  \<open>malloc\<close> gets as a \<open>size_t\<close>.
\<close>

definition rx_block_size :: "libwebsocket_protocols \<Rightarrow> nat" where
  "rx_block_size pr =
    (let n = c_int (int (rx_buffer_size pr)); n = (if n = 0 then int LWS_MAX_SOCKET_IO_BUF else n)
     in c_size (n + int LWS_SEND_BUFFER_PRE_PADDING + int LWS_SEND_BUFFER_POST_PADDING))"

definition open_ws :: "'u hs_context \<Rightarrow> 'u env \<Rightarrow> 'u lws \<Rightarrow> bool \<times> 'u lws" where
  "open_ws C E wsi =
    (let wsi = wsi\<lparr>u_hdr := zero_hdr, u_ws := zero_ws\<lparr>rxflow_change_to := LWS_RXFLOW_ALLOW\<rparr>\<rparr>;
         n = rx_block_size (protocol wsi);
         got = os_malloc E (sys_calls wsi); wsi = wsi\<lparr>sys_calls := sys_calls wsi + 1\<rparr> in
     if \<not> got then (False, wsi)
     else (\<not> sndbuf_fails C n, upd_ws (\<lambda>w. w\<lparr>rx_user_buffer := Some (hs_block C n)\<rparr>) wsi))"

text \<open>
  The rest of \<open>libwebsocket_read\<close> once the headers are complete. After a failed \<open>handshake_0405\<close> the header table is freed for
  the second time.
\<close>

definition read_request :: "'u hs_context \<Rightarrow> 'u env \<Rightarrow> byte list \<Rightarrow> 'u lws \<Rightarrow> (int \<times> 'u lws) option" where
  "read_request C E sb wsi0 = do { ah \<leftarrow> hdr_ah (u_hdr wsi0);
     wsi \<leftarrow> Some (wsi0\<lparr>mode := LWS_CONNMODE_PRE_WS_SERVING_ACCEPT\<rparr>);
     up \<leftarrow> lws_hdr_total_length ah WSI_TOKEN_UPGRADE;
     con \<leftarrow> lws_hdr_total_length ah WSI_TOKEN_CONNECTION;
     if up = 0 \<or> con = 0 then http_request C E ah wsi
     else do { pr \<leftarrow> choose_protocol C ah;
       case pr of None \<Rightarrow> Some (-1, wsi)
       | Some pr \<Rightarrow>
         let (r, wsi) = libwebsocket_ensure_user_space C E (wsi\<lparr>protocol := pr\<rparr>) in
         if r \<noteq> 0 then Some (-1, wsi)
         else do { asked \<leftarrow> hdr_string ah WSI_TOKEN_PROTOCOL;
           (r, wsi) \<leftarrow> Some (user_cb E LWS_CALLBACK_FILTER_PROTOCOL_CONNECTION (case asked of None \<Rightarrow> [] | Some s \<Rightarrow> s) wsi);
           if r \<noteq> 0 \<or> ietf_spec_revision wsi \<noteq> 13 then Some (-1, wsi)
           else do { (r, wsi) \<leftarrow> handshake_0405 C E sb wsi;
             if r \<noteq> 0 then None
             else case open_ws C E (wsi\<lparr>mode := LWS_CONNMODE_WS_SERVING\<rparr>) of (okay, wsi) \<Rightarrow> Some (if okay then 0 else -1, wsi) } } } }"

fun parse_all :: "'u lws \<Rightarrow> byte list \<Rightarrow> (int \<times> 'u lws) option" where
  "parse_all wsi [] = Some (0, wsi)"
| "parse_all wsi (ch # s) = do { (r, wsi) \<leftarrow> libwebsocket_parse wsi ch; if r \<noteq> 0 then Some (r, wsi) else parse_all wsi s }"

fun client_all :: "'u env \<Rightarrow> 'u lws \<Rightarrow> byte list \<Rightarrow> (int \<times> 'u lws) option" where
  "client_all E wsi [] = Some (0, wsi)"
| "client_all E wsi (ch # s) = do { (r, wsi) \<leftarrow> libwebsocket_client_rx_sm E wsi ch; if r \<noteq> 0 then Some (-1, wsi) else client_all E wsi s }"

text \<open>\<open>libwebsocket_read\<close>; after \<open>-1\<close> the connection has been closed and freed.\<close>

definition libwebsocket_read :: "'u hs_context \<Rightarrow> 'u env \<Rightarrow> byte list \<Rightarrow> 'u lws \<Rightarrow> byte list \<Rightarrow> (int \<times> 'u lws) option" where
  "libwebsocket_read C E sb wsi buf =
    (if state wsi \<in> {WSI_STATE_HTTP_ISSUING_FILE, WSI_STATE_HTTP, WSI_STATE_HTTP_HEADERS} then
       let wsi = (if state wsi = WSI_STATE_HTTP_HEADERS then wsi
                  else upd_hdr (\<lambda>hd. hd\<lparr>parser_state := WSI_TOKEN_NAME_PART, lextable_pos := 0\<rparr>) (wsi\<lparr>state := WSI_STATE_HTTP_HEADERS\<rparr>)) in
       if mode wsi \<in> {LWS_CONNMODE_WS_CLIENT_WAITING_PROXY_REPLY, LWS_CONNMODE_WS_CLIENT_ISSUE_HANDSHAKE,
            LWS_CONNMODE_WS_CLIENT_WAITING_SERVER_REPLY, LWS_CONNMODE_WS_CLIENT_WAITING_EXTENSION_CONNECT, LWS_CONNMODE_WS_CLIENT}
       then client_all E wsi buf
       else do { (r, wsi) \<leftarrow> parse_all wsi buf;
         if r \<noteq> 0 then Some (-1, wsi)
         else if parser_state (u_hdr wsi) \<noteq> WSI_PARSING_COMPLETE then Some (0, wsi)
         else read_request C E sb wsi }
     else if state wsi \<in> {WSI_STATE_AWAITING_CLOSE_ACK, WSI_STATE_ESTABLISHED} then
       do { (r, wsi) \<leftarrow> (if mode wsi = LWS_CONNMODE_WS_CLIENT then feed (libwebsocket_client_rx_sm E) wsi buf
                          else libwebsocket_interpret_incoming_packet E wsi buf);
            Some (if r < 0 then -1 else 0, wsi) }
     else Some (0, wsi))"

section \<open>Text in the service buffer\<close>

text \<open>Texts stored one after the other are one text.\<close>

lemma cpyapp_cpyapp: "Option.bind (cpyapp s bp) (cpyapp t) = cpyapp (s @ t) bp"
  by (cases bp) (auto simp: cpyapp_def blit_def ac_simps)

lemma cpyapp_bind [simp]: "Option.bind (cpyapp s bp) (\<lambda>bp. Option.bind (cpyapp t bp) f) = Option.bind (cpyapp (s @ t) bp) f"
  by (simp flip: cpyapp_cpyapp)

lemma cpyapp_room:
  "p + length s + 1 \<le> length b \<Longrightarrow> cpyapp s (b, p) = Some (take p b @ s @ 0 # drop (p + length s + 1) b, p + length s)"
  by (simp add: cpyapp_def blit_def)

section \<open>Reading the header table\<close>

lemma repr_hdr_string:
  assumes "hdr_repr ah mp" "t < 23"
  shows "hdr_string ah t = Some (mp t)"
proof (cases "mp t")
  case None
  then have "ah_frag_index ah ! t = 0" "length (ah_frag_index ah) = 23" using hdr_reprD[OF assms(1)] assms(2) by auto
  then show ?thesis using assms(2) None by (simp add: hdr_string_def lws_hdr_simple_ptr_def rd_def)
next
  case (Some v)
  then show ?thesis using repr_string[OF assms Some] by (auto simp: hdr_string_def)
qed

lemma parse_all_bytes:
  "parse_bytes w s = Some (0, w', []) \<Longrightarrow> parse_all w s = Some (0, w')"
  by (induction w s rule: parse_bytes.induct) (auto split: if_splits Option.bind_splits prod.splits)

section \<open>The answer to a good request\<close>

text \<open>
  The surroundings of a handshake that works: the kernel takes what it is given and has memory and random bytes, and the user code leaves
  the connection alone, except for its own memory and the poll table.
\<close>

definition kernel_willing :: "'u env \<Rightarrow> bool" where
  "kernel_willing E \<longleftrightarrow> (\<forall>t bs. os_send E t bs = int (length bs)) \<and> (\<forall>t n. length (os_random E t n) = n) \<and> (\<forall>t. os_malloc E t)"

definition user_calm :: "'u env \<Rightarrow> bool" where
  "user_calm E \<longleftrightarrow> (\<forall>r s w. r \<in> {LWS_CALLBACK_FILTER_PROTOCOL_CONNECTION, LWS_CALLBACK_ESTABLISHED,
       LWS_CALLBACK_CLIENT_FILTER_PRE_ESTABLISH, LWS_CALLBACK_CLIENT_ESTABLISHED} \<longrightarrow>
     (\<exists>u a b n. user_cb E r s w = (0, w\<lparr>user_space := u, pollin := a, pollout := b, sys_calls := n\<rparr>)))"

definition context_calm :: "'u hs_context \<Rightarrow> bool" where
  "context_calm C \<longleftrightarrow> (\<forall>n. length (hs_block C n) = n) \<and> (\<forall>n. \<not> sndbuf_fails C n)"

lemma ensure_user_space_ok:
  assumes "kernel_willing E"
  obtains u n where "libwebsocket_ensure_user_space C E w = (0, w\<lparr>user_space := u, sys_calls := n\<rparr>)"
proof -
  have "\<exists>u n. libwebsocket_ensure_user_space C E w = (0, w\<lparr>user_space := u, sys_calls := n\<rparr>)"
  proof (cases "per_session_data_size C (protocol w) \<noteq> 0 \<and> user_null C (user_space w)")
    case True
    then have "libwebsocket_ensure_user_space C E w = (0, w\<lparr>user_space := user_zero C, sys_calls := sys_calls w + 1\<rparr>)"
      using assms by (simp add: libwebsocket_ensure_user_space_def kernel_willing_def)
    then show ?thesis by blast
  next
    case False
    then have "libwebsocket_ensure_user_space C E w = (0, w\<lparr>user_space := user_space w, sys_calls := sys_calls w\<rparr>)"
      by (auto simp: libwebsocket_ensure_user_space_def)
    then show ?thesis by blast
  qed
  then show ?thesis using that by blast
qed

lemma open_ws_ok:
  assumes "kernel_willing E" "context_calm C"
  shows "open_ws C E w = (True, w\<lparr>u_hdr := zero_hdr, u_ws := zero_ws\<lparr>rxflow_change_to := LWS_RXFLOW_ALLOW,
     rx_user_buffer := Some (hs_block C (rx_block_size (protocol w)))\<rparr>, sys_calls := sys_calls w + 1\<rparr>)"
  using assms by (simp add: open_ws_def kernel_willing_def context_calm_def upd_ws_def Let_def)

lemma write_http:
  assumes "active_extensions w = []" "truncated_send_malloc (u_ws w) = None" "0 < n" "n < 2 ^ 31" "off + n \<le> length b"
    "\<forall>t bs. os_send E t bs = int (length bs)"
  shows "libwebsocket_write E w b off n LWS_WRITE_HTTP = Some (int n,
     w\<lparr>sys_calls := sys_calls w + 1, wire := wire w @ take n (drop off b)\<rparr>, b)"
proof -
  let ?wb = "\<lparr>wb_mem = b, wb_off = off, wb_len = n, wb_pre = 0, wb_dropmask = None\<rparr>"
  have "send_raw E LWS_WRITE_HTTP n w ?wb = Some (int n, w\<lparr>sys_calls := sys_calls w + 1, wire := wire w @ take n (drop off b)\<rparr>)"
    using send_raw_all[OF assms(1,2), of ?wb "take n (drop off b)" E LWS_WRITE_HTTP n] assms(3-6) by simp
  then show ?thesis using assms(3) by (simp add: libwebsocket_write_def)
qed

definition reply_text :: "byte list \<Rightarrow> byte list option \<Rightarrow> byte list" where
  "reply_text acc po = reply_head @ acc @ (case po of None \<Rightarrow> [] | Some s \<Rightarrow> crlf @ bytes ''Sec-WebSocket-Protocol: '' @ s) @ crlf @ crlf"

text \<open>The service buffer holds \<open>txt\<close> as the response so far.\<close>

definition reply_at :: "byte list \<Rightarrow> byte list \<times> nat \<Rightarrow> bool" where
  "reply_at txt bp \<longleftrightarrow> length (fst bp) = LWS_MAX_SOCKET_IO_BUF \<and> snd bp = MAX_WEBSOCKET_04_KEY_LEN + length txt \<and>
     take (length txt) (drop MAX_WEBSOCKET_04_KEY_LEN (fst bp)) = txt"

lemma cpyapp_reply:
  assumes "reply_at txt bp" "128 + length txt + length s < 4096"
  obtains bp' where "cpyapp s bp = Some bp'" "reply_at (txt @ s) bp'"
proof -
  obtain b p where bp: "bp = (b, p)" by (cases bp)
  have l: "length b = 4096" "p = 128 + length txt" "take (length txt) (drop 128 b) = txt"
    using assms(1) bp by (simp_all add: reply_at_def LWS_MAX_SOCKET_IO_BUF_def MAX_WEBSOCKET_04_KEY_LEN_def)
  have "take p b = take 128 b @ txt" using l(2,3) take_add[of 128 "length txt" b] by simp
  then have "reply_at (txt @ s) (take p b @ s @ 0 # drop (p + length s + 1) b, p + length s)"
    using assms(2) l by (simp add: reply_at_def LWS_MAX_SOCKET_IO_BUF_def MAX_WEBSOCKET_04_KEY_LEN_def)
  moreover have "cpyapp s bp = Some (take p b @ s @ 0 # drop (p + length s + 1) b, p + length s)"
    unfolding bp using assms(2) l by (intro cpyapp_room) simp
  ultimately show ?thesis using that by blast
qed

lemma reply_protocol_ok:
  assumes "hdr_repr ah mp" "\<And>s. mp WSI_TOKEN_PROTOCOL = Some s \<Longrightarrow> s \<noteq> [] \<and> length s < 128"
    and at: "reply_at txt bp" "length txt < 1000"
  obtains bp' where "reply_protocol ah bp = Some (0, bp')"
    "reply_at (txt @ (case mp WSI_TOKEN_PROTOCOL of None \<Rightarrow> [] | Some s \<Rightarrow> crlf @ bytes ''Sec-WebSocket-Protocol: '' @ s)) bp'"
proof (cases "mp WSI_TOKEN_PROTOCOL")
  case None
  then show ?thesis using that[of bp] repr_total_length[OF assms(1), of WSI_TOKEN_PROTOCOL] at(1)
    by (simp add: reply_protocol_def WSI_TOKEN_PROTOCOL_def)
next
  case (Some s)
  let ?h = "crlf @ bytes ''Sec-WebSocket-Protocol: ''"
  have s: "s \<noteq> []" "length s < 128" using assms(2) Some by auto
  obtain bp1 where h: "cpyapp ?h bp = Some bp1" "reply_at (txt @ ?h) bp1"
    by (rule cpyapp_reply[OF at(1), of ?h]) (use at(2) in simp_all)
  obtain b p where b: "bp1 = (b, p)" by (cases bp1)
  have l: "length b = 4096" "p < 2000" using h(2) at(2)
    by (simp_all add: b reply_at_def LWS_MAX_SOCKET_IO_BUF_def MAX_WEBSOCKET_04_KEY_LEN_def)
  obtain bp2 where c: "cpyapp s bp1 = Some bp2" "reply_at ((txt @ ?h) @ s) bp2"
    by (rule cpyapp_reply[OF h(2), of s]) (use at(2) s in simp_all)
  have "lws_hdr_copy ah (drop p b) 128 WSI_TOKEN_PROTOCOL = Some (int (length s), s @ 0 # drop (length s + 1) (drop p b))"
    by (rule repr_copy[OF assms(1) _ Some]) (use s l in \<open>simp_all add: WSI_TOKEN_PROTOCOL_def\<close>)
  moreover have "bp2 = (take p b @ s @ 0 # drop (length s + 1) (drop p b), p + length s)"
    using c(1) cpyapp_room[of p s b] s l by (simp add: b ac_simps)
  ultimately have "reply_protocol ah bp = Some (0, bp2)"
    using h(1) s repr_total_length[OF assms(1), of WSI_TOKEN_PROTOCOL] Some
    by (simp add: reply_protocol_def b) (simp add: WSI_TOKEN_PROTOCOL_def)
  then show ?thesis using c(2) that Some by simp
qed

lemma length_accept: "length (b64_spec (SHA1 d)) = 28"
  using sha1_stream.one_shot[of d] by (simp add: length_b64_spec SHA1_def length_sha1_spec)

lemma accept_key_text: "30 \<le> n \<Longrightarrow> accept_key key n = (28, b64_spec (SHA1 (key @ ws_guid)) @ [0])"
  using b64_loop_ok[of 0 "SHA1 (key @ ws_guid)" n "[]"] by (simp add: accept_key_def lws_b64_encode_string_def length_accept)

lemma send_reply_ok:
  assumes w: "active_extensions w = []" "truncated_send_malloc (u_ws w) = None" "has_callback (protocol w)"
    and E: "kernel_willing E" "user_calm E" and at: "reply_at txt bp" "length txt < 2000"
  obtains u a b n where "send_reply E bp w = Some (0, w\<lparr>state := WSI_STATE_ESTABLISHED, lws_rx_parse_state := LWS_RXPS_NEW,
    wire := wire w @ txt @ crlf @ crlf, user_space := u, pollin := a, pollout := b, sys_calls := n\<rparr>)"
proof -
  obtain bp1 where c: "cpyapp (crlf @ crlf) bp = Some bp1" "reply_at (txt @ crlf @ crlf) bp1"
    by (rule cpyapp_reply[OF at(1), of "crlf @ crlf"]) (use at(2) in simp_all)
  obtain b p where b: "bp1 = (b, p)" by (cases bp1)
  have l: "length b = 4096" "p = 128 + length txt + 4" "take (4 + length txt) (drop 128 b) = txt @ crlf @ crlf"
    using c(2) by (simp_all add: b reply_at_def LWS_MAX_SOCKET_IO_BUF_def MAX_WEBSOCKET_04_KEY_LEN_def numeral_eq_Suc)
  let ?w1 = "w\<lparr>sys_calls := sys_calls w + 1, wire := wire w @ txt @ crlf @ crlf\<rparr>"
  have wr: "libwebsocket_write E w b 128 (4 + length txt) LWS_WRITE_HTTP = Some (int (4 + length txt), ?w1, b)"
    using write_http[OF w(1,2), of "4 + length txt" 128 b E] E(1) l at(2) by (simp add: kernel_willing_def)
  let ?w2 = "?w1\<lparr>state := WSI_STATE_ESTABLISHED, lws_rx_parse_state := LWS_RXPS_NEW\<rparr>"
  obtain u a e n where u: "user_cb E LWS_CALLBACK_ESTABLISHED [] ?w2 = (0, ?w2\<lparr>user_space := u, pollin := a, pollout := e, sys_calls := n\<rparr>)"
    using E(2) unfolding user_calm_def by blast
  have "send_reply E bp w = Some (0, ?w2\<lparr>user_space := u, pollin := a, pollout := e, sys_calls := n\<rparr>)"
    using c(1) w(1,3) wr u l(2) by (simp add: send_reply_def b MAX_WEBSOCKET_04_KEY_LEN_def)
  also have "?w2\<lparr>user_space := u, pollin := a, pollout := e, sys_calls := n\<rparr> = w\<lparr>state := WSI_STATE_ESTABLISHED, lws_rx_parse_state := LWS_RXPS_NEW,
    wire := wire w @ txt @ crlf @ crlf, user_space := u, pollin := a, pollout := e, sys_calls := n\<rparr>" by simp
  finally show ?thesis by (rule that)
qed

lemma handshake_0405_ok:
  assumes w: "hdr_ah (u_hdr w) = Some ah" "active_extensions w = []" "truncated_send_malloc (u_ws w) = None" "has_callback (protocol w)"
    and mp: "hdr_repr ah mp" "mp WSI_TOKEN_HOST = Some host" "host \<noteq> []" "mp WSI_TOKEN_KEY = Some key" "key \<noteq> []" "length key < 128"
      "mp WSI_TOKEN_EXTENSIONS \<in> {None, Some []}" "\<And>s. mp WSI_TOKEN_PROTOCOL = Some s \<Longrightarrow> s \<noteq> [] \<and> length s < 128"
    and E: "kernel_willing E" "user_calm E" "length sb = LWS_MAX_SOCKET_IO_BUF"
  obtains u a b n where "handshake_0405 C E sb w = Some (0, w\<lparr>state := WSI_STATE_ESTABLISHED, lws_rx_parse_state := LWS_RXPS_NEW,
    wire := wire w @ reply_text (b64_spec (SHA1 (key @ ws_guid))) (mp WSI_TOKEN_PROTOCOL),
    user_space := u, pollin := a, pollout := b, sys_calls := n\<rparr>)"
proof -
  let ?acc = "b64_spec (SHA1 (key @ ws_guid))"
  let ?pt = "case mp WSI_TOKEN_PROTOCOL of None \<Rightarrow> [] | Some s \<Rightarrow> crlf @ bytes ''Sec-WebSocket-Protocol: '' @ s"
  obtain sb1 where sb1: "blit sb 0 (key @ ws_guid @ [0]) = Some sb1" "length sb1 = 4096"
    using E(3) mp(6) by (simp add: blit_def ws_guid_def LWS_MAX_SOCKET_IO_BUF_def)
  obtain sb2 where sb2: "blit sb1 0 (?acc @ [0]) = Some sb2" "length sb2 = 4096" "take 29 sb2 = ?acc @ [0]"
    using sb1(2) by (simp add: blit_def length_accept)
  obtain u1 n1 where us: "libwebsocket_ensure_user_space C E w = (0, w\<lparr>user_space := u1, sys_calls := n1\<rparr>)"
    by (rule ensure_user_space_ok[OF E(1)])
  have "reply_at [] (sb2, 128)" using sb2(2) by (simp add: reply_at_def LWS_MAX_SOCKET_IO_BUF_def MAX_WEBSOCKET_04_KEY_LEN_def)
  then obtain bp1 where h: "cpyapp reply_head (sb2, 128) = Some bp1" "reply_at reply_head bp1"
    by (rule cpyapp_reply[where s = reply_head]) (simp_all add: reply_head_def)
  obtain b p where b: "bp1 = (b, p)" by (cases bp1)
  have "take 29 b = ?acc @ [0]" using h(1) sb2(2,3) unfolding b
    by (subst (asm) cpyapp_room) (auto simp: reply_head_def min_def)
  then have "b = ?acc @ 0 # drop 29 b" by (metis append.assoc append_Cons append_Nil append_take_drop_id)
  then have acc: "c_string_at b 0 = Some ?acc"
    using b64_spec_no(1)[of "SHA1 (key @ ws_guid)"] cstr_append_NUL[of ?acc "drop 29 b"]
    by (metis c_string_at_def drop_0 in_set_conv_decomp)
  obtain bp2 where c: "cpyapp ?acc bp1 = Some bp2" "reply_at (reply_head @ ?acc) bp2"
    by (rule cpyapp_reply[OF h(2), of ?acc]) (simp_all add: length_accept reply_head_def)
  obtain b2 where b2: "blit b p (?acc @ [0]) = Some b2" "bp2 = (b2, p + 28)"
    using c(1) by (auto simp: b cpyapp_def length_accept split: bind_splits)
  obtain bp3 where r: "reply_protocol ah bp2 = Some (0, bp3)" "reply_at ((reply_head @ ?acc) @ ?pt) bp3"
    by (rule reply_protocol_ok[OF mp(1,8) c(2)]) (simp_all add: length_accept reply_head_def)
  have x: "reply_extensions C E ah bp3 v = Some (0, bp3, v)" for v
    using repr_total_length[OF mp(1), of WSI_TOKEN_EXTENSIONS] mp(7) by (auto simp: reply_extensions_def WSI_TOKEN_EXTENSIONS_def)
  let ?w1 = "w\<lparr>user_space := u1, sys_calls := n1\<rparr>"
  have pt: "length ?pt < 200" using mp(8) by (auto split: option.split)
  obtain u a e n where sr: "send_reply E bp3 ?w1 = Some (0, ?w1\<lparr>state := WSI_STATE_ESTABLISHED, lws_rx_parse_state := LWS_RXPS_NEW,
      wire := wire ?w1 @ ((reply_head @ ?acc) @ ?pt) @ crlf @ crlf, user_space := u, pollin := a, pollout := e, sys_calls := n\<rparr>)"
    by (rule send_reply_ok[of ?w1, OF _ _ _ E(1,2) r(2)]) (use w pt in \<open>simp_all add: length_accept reply_head_def\<close>)
  have len: "lws_hdr_total_length ah WSI_TOKEN_HOST = Some (length host)" "lws_hdr_total_length ah WSI_TOKEN_KEY = Some (length key)"
    "hdr_string ah WSI_TOKEN_KEY = Some (Some key)"
    using repr_total_length[OF mp(1), of WSI_TOKEN_HOST] repr_total_length[OF mp(1), of WSI_TOKEN_KEY] repr_hdr_string[OF mp(1), of WSI_TOKEN_KEY] mp(2,4)
    by (simp_all add: WSI_TOKEN_HOST_def WSI_TOKEN_KEY_def)
  have ak: "accept_key key 4096 = (28, ?acc @ [0])" by (rule accept_key_text) simp
  have "handshake_0405 C E sb w = send_reply E bp3 ?w1"
    unfolding handshake_0405_def w(1) using len mp(3,5,6) sb1(1) sb2(1) ak us h(1) acc b2 r(1) x
    by (simp add: b MAX_WEBSOCKET_04_KEY_LEN_def LWS_MAX_SOCKET_IO_BUF_def)
  then show ?thesis using sr by (intro that[where u = u and a = a and b = e and n = n]) (simp add: reply_text_def)
qed

section \<open>A request is answered\<close>

text \<open>The request of a client that offers no extension.\<close>

definition request_lines :: "byte list \<Rightarrow> byte list \<Rightarrow> byte list option \<Rightarrow> byte list option \<Rightarrow> req_line list" where
  "request_lines host key origin po =
     [Other (bytes ''Pragma: no-cache''), Other (bytes ''Cache-Control: no-cache''), Hdr WSI_TOKEN_HOST 1 host,
      Hdr WSI_TOKEN_UPGRADE 1 (bytes ''websocket''), Hdr WSI_TOKEN_CONNECTION 1 (bytes ''Upgrade''), Hdr WSI_TOKEN_KEY 1 key] @
     (case origin of None \<Rightarrow> [] | Some s \<Rightarrow> [Hdr WSI_TOKEN_ORIGIN 1 (bytes ''http://'' @ s)]) @
     (case po of None \<Rightarrow> [] | Some s \<Rightarrow> [Hdr WSI_TOKEN_PROTOCOL 1 s]) @
     [Hdr WSI_TOKEN_EXTENSIONS 1 [], Hdr WSI_TOKEN_VERSION 1 (bytes ''13'')]"

definition request_text :: "byte list \<Rightarrow> byte list \<Rightarrow> byte list \<Rightarrow> byte list option \<Rightarrow> byte list option \<Rightarrow> byte list" where
  "request_text uri host key origin po =
     get_line uri (bytes ''HTTP/1.1'') @ concat (map line_bytes (request_lines host key origin po)) @ crlf"

definition opt_ok :: "(byte list \<Rightarrow> bool) \<Rightarrow> byte list option \<Rightarrow> bool" where
  "opt_ok P x \<longleftrightarrow> (case x of None \<Rightarrow> True | Some s \<Rightarrow> P s)"

definition opt_len :: "byte list option \<Rightarrow> nat" where
  "opt_len x = (case x of None \<Rightarrow> 0 | Some s \<Rightarrow> length s)"

lemma opt_simps [simp]: "opt_ok P None" "opt_ok P (Some s) = P s" "opt_len None = 0" "opt_len (Some s) = length s"
  by (simp_all add: opt_ok_def opt_len_def)

definition request_ok :: "byte list \<Rightarrow> byte list \<Rightarrow> byte list option \<Rightarrow> byte list option \<Rightarrow> bool" where
  "request_ok uri host origin po \<longleftrightarrow> uri_ok uri \<and> value_ok host \<and> host \<noteq> [] \<and> opt_ok value_ok origin \<and>
     opt_ok (\<lambda>s. value_ok s \<and> s \<noteq> [] \<and> length s < 128) po \<and> length uri + length host + opt_len origin + 2 * opt_len po \<le> 800"

lemma no_cache_lines: "lex_rejects 0 (bytes ''Pragma: no-cache'')" "lex_rejects 0 (bytes ''Cache-Control: no-cache'')"
  by code_simp+

lemma request_lines_ok:
  assumes "request_ok uri host origin po" "value_ok key"
  shows "lines_ok [WSI_TOKEN_GET_URI \<mapsto> uri] (request_lines host key origin po)"
  using assms no_cache_lines
  by (cases origin; cases po) (auto simp: request_ok_def request_lines_def c_defs value_ok_def)

lemma request_lines_map:
  fixes uri host key origin po
  defines "mp \<equiv> lines_map [WSI_TOKEN_GET_URI \<mapsto> uri] (request_lines host key origin po)"
  shows "mp WSI_TOKEN_HOST = Some host" "mp WSI_TOKEN_UPGRADE = Some (bytes ''websocket'')" "mp WSI_TOKEN_CONNECTION = Some (bytes ''Upgrade'')"
    "mp WSI_TOKEN_KEY = Some key" "mp WSI_TOKEN_EXTENSIONS = Some []" "mp WSI_TOKEN_VERSION = Some (bytes ''13'')" "mp WSI_TOKEN_PROTOCOL = po"
  unfolding mp_def by (cases origin; cases po; simp add: request_lines_def c_defs)+

lemma request_lines_size:
  assumes "request_ok uri host origin po" "length key = 24"
  shows "length (lines_values (request_lines host key origin po)) \<le> 44"
    "length uri + 1 + sum_list (map (\<lambda>v. length v + 1) (lines_values (request_lines host key origin po))) \<le> 1024"
  using assms by (cases origin; cases po; simp add: request_ok_def request_lines_def)+

text \<open>A connection whose handshake is over.\<close>

definition ws_open :: "'u hs_context \<Rightarrow> libwebsocket_protocols \<Rightarrow> connection_mode \<Rightarrow> 'u lws \<Rightarrow> bool" where
  "ws_open C pr md w \<longleftrightarrow> protocol w = pr \<and> mode w = md \<and> state w = WSI_STATE_ESTABLISHED \<and> lws_rx_parse_state w = LWS_RXPS_NEW \<and>
     active_extensions w = [] \<and> ietf_spec_revision w = 13 \<and>
     u_ws w = zero_ws\<lparr>rxflow_change_to := LWS_RXFLOW_ALLOW, rx_user_buffer := Some (hs_block C (rx_block_size pr))\<rparr>"

lemma ws_open_tx: "ws_open C pr md w \<Longrightarrow> tx_ready w"
  by (simp add: ws_open_def tx_ready_def zero_ws_def)

text \<open>The receive buffer of a protocol, with its padding, has a size that an \<open>int\<close> can hold.\<close>

definition rx_fits :: "libwebsocket_protocols \<Rightarrow> bool" where
  "rx_fits pr \<longleftrightarrow> rx_buffer_size pr + LWS_SEND_BUFFER_PRE_PADDING + LWS_SEND_BUFFER_POST_PADDING < 2 ^ 31"

lemma rx_block_size_eq:
  assumes "rx_fits pr"
  shows "rx_block_size pr = (if rx_buffer_size pr = 0 then LWS_MAX_SOCKET_IO_BUF else rx_buffer_size pr) + 22"
  using assms c_size_nat[of "rx_buffer_size pr + 22"] c_size_nat[of 4118]
  by (simp add: rx_block_size_def rx_fits_def lws_consts Let_def add.commute)

lemma ws_open_rx:
  assumes "ws_open C pr md w" "context_calm C" "has_callback pr" "rx_fits pr"
  shows "server_user E got \<Longrightarrow> server_ready E got (rx_limit w) w" "client_user E got \<Longrightarrow> client_ready E got (rx_limit w) w"
  using assms rx_block_size_eq[OF assms(4)]
  by (auto simp: ws_open_def server_ready_def client_ready_def rx_base_def client_base_def rx_buf_def zero_ws_def rx_limit_def
      context_calm_def rx_fits_def lws_consts LWS_RXFLOW_ALLOW_def)

text \<open>The protocol a server gives a client that asks for \<open>po\<close>.\<close>

definition protocol_for :: "'u hs_context \<Rightarrow> byte list option \<Rightarrow> libwebsocket_protocols option" where
  "protocol_for C po = (case po of None \<Rightarrow> (case hs_protocols C of [] \<Rightarrow> None | pr # _ \<Rightarrow> Some pr)
     | Some s \<Rightarrow> List.find (\<lambda>pr. s = protocol_name pr) (hs_protocols C))"

lemma choose_protocol_ok:
  assumes "hdr_repr ah mp" "opt_ok (\<lambda>s. s \<noteq> []) (mp WSI_TOKEN_PROTOCOL)" "protocol_for C (mp WSI_TOKEN_PROTOCOL) = Some pr"
  shows "choose_protocol C ah = Some (Some pr)"
proof -
  have "lws_hdr_total_length ah WSI_TOKEN_PROTOCOL = Some (opt_len (mp WSI_TOKEN_PROTOCOL))" "hdr_string ah WSI_TOKEN_PROTOCOL = Some (mp WSI_TOKEN_PROTOCOL)"
    using repr_total_length[OF assms(1), of WSI_TOKEN_PROTOCOL] repr_hdr_string[OF assms(1), of WSI_TOKEN_PROTOCOL]
    by (simp_all add: opt_len_def WSI_TOKEN_PROTOCOL_def)
  then show ?thesis using assms(2,3) by (auto simp: choose_protocol_def protocol_for_def split: option.splits list.splits)
qed

lemma read_request_ok:
  assumes w: "hdr_ah (u_hdr w) = Some ah" "active_extensions w = []" "truncated_send_malloc (u_ws w) = None" "ietf_spec_revision w = 13"
    and mp: "hdr_repr ah mp" "mp WSI_TOKEN_HOST = Some host" "host \<noteq> []" "mp WSI_TOKEN_KEY = Some key" "key \<noteq> []" "length key < 128"
      "mp WSI_TOKEN_UPGRADE = Some up" "up \<noteq> []" "mp WSI_TOKEN_CONNECTION = Some con" "con \<noteq> []"
      "mp WSI_TOKEN_EXTENSIONS \<in> {None, Some []}" "opt_ok (\<lambda>s. s \<noteq> [] \<and> length s < 128) (mp WSI_TOKEN_PROTOCOL)"
      "protocol_for C (mp WSI_TOKEN_PROTOCOL) = Some pr" "has_callback pr"
    and E: "kernel_willing E" "user_calm E" "context_calm C" "length sb = LWS_MAX_SOCKET_IO_BUF"
  obtains w' where "read_request C E sb w = Some (0, w')" "ws_open C pr LWS_CONNMODE_WS_SERVING w'"
    "wire w' = wire w @ reply_text (b64_spec (SHA1 (key @ ws_guid))) (mp WSI_TOKEN_PROTOCOL)"
proof -
  let ?w0 = "w\<lparr>mode := LWS_CONNMODE_PRE_WS_SERVING_ACCEPT, protocol := pr\<rparr>"
  obtain u1 n1 where us: "libwebsocket_ensure_user_space C E ?w0 = (0, ?w0\<lparr>user_space := u1, sys_calls := n1\<rparr>)"
    by (rule ensure_user_space_ok[OF E(1)])
  let ?w1 = "?w0\<lparr>user_space := u1, sys_calls := n1\<rparr>"
  let ?asked = "case mp WSI_TOKEN_PROTOCOL of None \<Rightarrow> [] | Some s \<Rightarrow> s"
  obtain u2 a2 b2 n2 where cb: "user_cb E LWS_CALLBACK_FILTER_PROTOCOL_CONNECTION ?asked ?w1
      = (0, ?w1\<lparr>user_space := u2, pollin := a2, pollout := b2, sys_calls := n2\<rparr>)"
    using E(2) unfolding user_calm_def by blast
  let ?w2 = "?w1\<lparr>user_space := u2, pollin := a2, pollout := b2, sys_calls := n2\<rparr>"
  let ?txt = "reply_text (b64_spec (SHA1 (key @ ws_guid))) (mp WSI_TOKEN_PROTOCOL)"
  have po: "\<And>s. mp WSI_TOKEN_PROTOCOL = Some s \<Longrightarrow> s \<noteq> [] \<and> length s < 128" using mp(12) by simp
  obtain u a b n where hs: "handshake_0405 C E sb ?w2 = Some (0, ?w2\<lparr>state := WSI_STATE_ESTABLISHED, lws_rx_parse_state := LWS_RXPS_NEW,
      wire := wire ?w2 @ ?txt, user_space := u, pollin := a, pollout := b, sys_calls := n\<rparr>)"
    by (rule handshake_0405_ok[of ?w2, OF _ _ _ _ mp(1-6,11) po E(1,2,4)]) (use w mp(14) in simp_all)
  have len: "lws_hdr_total_length ah WSI_TOKEN_UPGRADE = Some (length up)" "lws_hdr_total_length ah WSI_TOKEN_CONNECTION = Some (length con)"
    "hdr_string ah WSI_TOKEN_PROTOCOL = Some (mp WSI_TOKEN_PROTOCOL)"
    using repr_total_length[OF mp(1), of WSI_TOKEN_UPGRADE] repr_total_length[OF mp(1), of WSI_TOKEN_CONNECTION]
      repr_hdr_string[OF mp(1), of WSI_TOKEN_PROTOCOL] mp(7,9)
    by (simp_all add: WSI_TOKEN_UPGRADE_def WSI_TOKEN_CONNECTION_def WSI_TOKEN_PROTOCOL_def)
  have ch: "choose_protocol C ah = Some (Some pr)"
    by (rule choose_protocol_ok[OF mp(1)]) (use mp(12,13) in \<open>auto simp: opt_ok_def split: option.splits\<close>)
  let ?w3 = "?w2\<lparr>state := WSI_STATE_ESTABLISHED, lws_rx_parse_state := LWS_RXPS_NEW, wire := wire ?w2 @ ?txt,
     user_space := u, pollin := a, pollout := b, sys_calls := n, mode := LWS_CONNMODE_WS_SERVING\<rparr>"
  have "read_request C E sb w = Some (0, snd (open_ws C E ?w3))"
    unfolding read_request_def w(1) using len mp(8,10) ch us cb hs w(4) open_ws_ok[OF E(1,3), of ?w3] by simp
  moreover have "ws_open C pr LWS_CONNMODE_WS_SERVING (snd (open_ws C E ?w3))" "wire (snd (open_ws C E ?w3)) = wire w @ ?txt"
    unfolding open_ws_ok[OF E(1,3)] using w by (simp_all add: ws_open_def)
  ultimately show ?thesis by (rule that)
qed

text \<open>A connection the server has accepted, before the first byte.\<close>

definition http_fresh :: "'u lws \<Rightarrow> bool" where
  "http_fresh s \<longleftrightarrow> state s = WSI_STATE_HTTP \<and> mode s = LWS_CONNMODE_HTTP_SERVING \<and> active_extensions s = [] \<and>
     truncated_send_malloc (u_ws s) = None \<and>
     (case hdr_ah (u_hdr s) of None \<Rightarrow> False | Some ah \<Rightarrow> hdr_repr ah Map.empty \<and> ah_next_frag_index ah = 0 \<and> ah_pos ah = 0)"

lemma atoi_13: "c_atoi (bytes ''13'') = 13"
  by (simp add: c_atoi_def c_isspace_def)

lemma read_parsed:
  assumes s: "http_fresh s" and req: "uri_ok uri" "13 \<notin> set tail" "lines_ok [WSI_TOKEN_GET_URI \<mapsto> uri] ls" "length (lines_values ls) \<le> 44"
      "length uri + 1 + sum_list (map (\<lambda>v. length v + 1) (lines_values ls)) \<le> 1024"
    and mp: "mp = lines_map [WSI_TOKEN_GET_URI \<mapsto> uri] ls" "mp WSI_TOKEN_UPGRADE = Some u" "u \<noteq> []" "mp WSI_TOKEN_VERSION = Some (bytes ''13'')"
  obtains ah w where "libwebsocket_read C E sb s (get_line uri tail @ concat (map line_bytes ls) @ crlf) = read_request C E sb w"
    "hdr_ah (u_hdr w) = Some ah" "active_extensions w = []" "truncated_send_malloc (u_ws w) = None" "ietf_spec_revision w = 13"
    "hdr_repr ah mp" "wire w = wire s"
proof -
  obtain ah where ah: "hdr_ah (u_hdr s) = Some ah" "hdr_repr ah Map.empty" "ah_next_frag_index ah = 0" "ah_pos ah = 0"
    using s by (auto simp: http_fresh_def split: option.splits)
  let ?s0 = "s\<lparr>state := WSI_STATE_HTTP_HEADERS\<rparr>" and ?s1 = "with_hdr (s\<lparr>state := WSI_STATE_HTTP_HEADERS\<rparr>) ah 0 WSI_TOKEN_NAME_PART"
  obtain ah' q where p: "parse_bytes ?s1 (get_line uri tail @ concat (map line_bytes ls) @ crlf) = Some (0,
      with_hdr (?s0\<lparr>ietf_spec_revision := 13, hdr_parsing_completed := True\<rparr>) ah' q WSI_PARSING_COMPLETE, [])" "hdr_repr ah' mp"
    using request_parsed[OF ah(2-4) req, of ?s0 "[]", folded mp(1)] mp(2-4) atoi_13 by auto
  let ?w = "with_hdr (?s0\<lparr>ietf_spec_revision := 13, hdr_parsing_completed := True\<rparr>) ah' q WSI_PARSING_COMPLETE"
  have w: "hdr_ah (u_hdr ?w) = Some ah'" "active_extensions ?w = []" "truncated_send_malloc (u_ws ?w) = None" "ietf_spec_revision ?w = 13"
    using s by (simp_all add: http_fresh_def with_hdr_def)
  have "upd_hdr (\<lambda>hd. hd\<lparr>parser_state := WSI_TOKEN_NAME_PART, lextable_pos := 0\<rparr>) ?s0 = ?s1"
    using ah(1) by (cases "u_hdr s") (simp add: upd_hdr_def with_hdr_def)
  then have "libwebsocket_read C E sb s (get_line uri tail @ concat (map line_bytes ls) @ crlf) = read_request C E sb ?w"
    using s parse_all_bytes[OF p(1)] by (simp add: libwebsocket_read_def http_fresh_def) (simp add: with_hdr_def)
  from that[OF this w p(2)] show ?thesis by (simp add: with_hdr_def)
qed

lemma read_ok:
  assumes s: "http_fresh s" and req: "request_ok uri host origin po" and key: "value_ok key" "length key = 24"
    and pr: "protocol_for C po = Some pr" "has_callback pr"
    and E: "kernel_willing E" "user_calm E" "context_calm C" "length sb = LWS_MAX_SOCKET_IO_BUF"
  obtains s' where "libwebsocket_read C E sb s (request_text uri host key origin po) = Some (0, s')"
    "ws_open C pr LWS_CONNMODE_WS_SERVING s'" "wire s' = wire s @ reply_text (b64_spec (SHA1 (key @ ws_guid))) po"
proof -
  have u: "uri_ok uri" "13 \<notin> set (bytes ''HTTP/1.1'')" using req by (simp_all add: request_ok_def)
  define mp where "mp = lines_map [WSI_TOKEN_GET_URI \<mapsto> uri] (request_lines host key origin po)"
  note m = request_lines_map[of uri host key origin po, folded mp_def]
  have up: "bytes ''websocket'' \<noteq> []" by simp
  obtain ah w where rd: "libwebsocket_read C E sb s (request_text uri host key origin po) = read_request C E sb w"
    and w: "hdr_ah (u_hdr w) = Some ah" "active_extensions w = []" "truncated_send_malloc (u_ws w) = None" "ietf_spec_revision w = 13"
    and ah: "hdr_repr ah mp" and wi: "wire w = wire s"
    unfolding request_text_def
    by (rule read_parsed[OF s u request_lines_ok[OF req key(1)] request_lines_size[OF req key(2)] mp_def m(2) up m(6)])
  have po: "opt_ok (\<lambda>s. s \<noteq> [] \<and> length s < 128) (mp WSI_TOKEN_PROTOCOL)" "protocol_for C (mp WSI_TOKEN_PROTOCOL) = Some pr" "host \<noteq> []"
    using req pr(1) m(7) by (auto simp: request_ok_def opt_ok_def split: option.splits)
  obtain w' where w': "read_request C E sb w = Some (0, w')" "ws_open C pr LWS_CONNMODE_WS_SERVING w'"
      "wire w' = wire w @ reply_text (b64_spec (SHA1 (key @ ws_guid))) (mp WSI_TOKEN_PROTOCOL)"
    by (rule read_request_ok[OF w ah m(1) po(3) m(4) _ _ m(2) _ m(3) _ _ po(1,2) pr(2) E]) (use key(2) m(5) in auto)
  show ?thesis using w' m(7) rd wi by (intro that[of w']) simp_all
qed

text \<open>A request that \<open>handshake_0405\<close> refuses.\<close>

lemma read_request_no_key:
  assumes w: "hdr_ah (u_hdr w) = Some ah" "ietf_spec_revision w = 13"
    and mp: "hdr_repr ah mp" "mp WSI_TOKEN_KEY = None" "mp WSI_TOKEN_UPGRADE = Some up" "up \<noteq> []"
      "mp WSI_TOKEN_CONNECTION = Some con" "con \<noteq> []" "mp WSI_TOKEN_PROTOCOL = None" "protocol_for C None = Some pr"
    and E: "kernel_willing E" "user_calm E"
  shows "read_request C E sb w = None"
proof -
  let ?w0 = "w\<lparr>mode := LWS_CONNMODE_PRE_WS_SERVING_ACCEPT, protocol := pr\<rparr>"
  obtain u1 n1 where us: "libwebsocket_ensure_user_space C E ?w0 = (0, ?w0\<lparr>user_space := u1, sys_calls := n1\<rparr>)"
    by (rule ensure_user_space_ok[OF E(1)])
  let ?w1 = "?w0\<lparr>user_space := u1, sys_calls := n1\<rparr>"
  obtain u2 a2 b2 n2 where cb: "user_cb E LWS_CALLBACK_FILTER_PROTOCOL_CONNECTION [] ?w1
      = (0, ?w1\<lparr>user_space := u2, pollin := a2, pollout := b2, sys_calls := n2\<rparr>)"
    using E(2) unfolding user_calm_def by blast
  have len: "lws_hdr_total_length ah WSI_TOKEN_UPGRADE = Some (length up)" "lws_hdr_total_length ah WSI_TOKEN_CONNECTION = Some (length con)"
    "hdr_string ah WSI_TOKEN_PROTOCOL = Some None" "lws_hdr_total_length ah WSI_TOKEN_KEY = Some 0" "lws_hdr_total_length ah WSI_TOKEN_HOST \<noteq> None"
    using repr_total_length[OF mp(1), of WSI_TOKEN_UPGRADE] repr_total_length[OF mp(1), of WSI_TOKEN_CONNECTION] repr_total_length[OF mp(1), of WSI_TOKEN_KEY]
      repr_hdr_string[OF mp(1), of WSI_TOKEN_PROTOCOL] repr_total_length[OF mp(1), of WSI_TOKEN_HOST] mp(2,3,5,7)
    by (simp_all add: c_defs)
  have ch: "choose_protocol C ah = Some (Some pr)" by (rule choose_protocol_ok[OF mp(1)]) (use mp(7,8) in simp_all)
  have "handshake_0405 C E sb (?w1\<lparr>user_space := u2, pollin := a2, pollout := b2, sys_calls := n2\<rparr>)
      = Some (-1, ?w1\<lparr>user_space := u2, pollin := a2, pollout := b2, sys_calls := n2\<rparr>)"
    using w(1) len(4,5) by (auto simp: handshake_0405_def)
  then show ?thesis unfolding read_request_def w(1) using len mp(4,6) ch us cb w(2) by simp
qed

section \<open>Properties\<close>

lemma user_calm_log: "(\<And>r s w. user_cb E r s w = (0, w\<lparr>user_space := f s w\<rparr>)) \<Longrightarrow> user_calm E"
  unfolding user_calm_def
proof (intro allI impI)
  fix r s w assume e: "\<And>r s w. user_cb E r s w = (0, w\<lparr>user_space := f s w\<rparr>)"
  have "user_cb E r s w = (0, w\<lparr>user_space := f s w, pollin := pollin w, pollout := pollout w, sys_calls := sys_calls w\<rparr>)" by (simp add: e)
  then show "\<exists>u a b n. user_cb E r s w = (0, w\<lparr>user_space := u, pollin := a, pollout := b, sys_calls := n\<rparr>)" by blast
qed

text \<open>Surroundings to evaluate on: user code that records what it is told and refuses extensions, of which there is one.\<close>

definition hs_env :: "byte list list env" where
  "hs_env = log_env\<lparr>os_random := \<lambda>t n. replicate n 0x11\<rparr>"

definition hs_sample :: "byte list list hs_context" where
  "hs_sample = \<lparr>hs_protocols = [sample_protocol], hs_extensions = [bytes ''x-webkit-deflate-frame''], per_session_data_size = \<lambda>pr. 0,
     user_null = \<lambda>u. False, user_zero = [], confirm_ext = \<lambda>r x w. (1, w), append_hdrs = \<lambda>n w. ([], w),
     hs_block = \<lambda>n. replicate n 7, sndbuf_fails = \<lambda>n. False\<rparr>"

lemma hs_env_ok: "kernel_willing hs_env" "user_calm hs_env" "server_user hs_env id" "client_user hs_env id"
  by (simp add: hs_env_def log_env_def kernel_willing_def, rule user_calm_log[of _ "\<lambda>s w. user_space w @ [s]"])
    (simp_all add: hs_env_def log_env_def server_user_def client_user_def proto0_quiet_def conn_core_def rx_view_def client_view_def)

lemma hs_sample_ok: "context_calm hs_sample" "protocol_for hs_sample None = Some sample_protocol" "has_callback sample_protocol"
  "rx_fits sample_protocol"
  by (simp_all add: hs_sample_def context_calm_def protocol_for_def sample_protocol_def rx_fits_def lws_consts)

definition hs_server :: "byte list list lws" where "hs_server = hdr_start sample_block (zero_lws sample_protocol [])"

lemma hs_server_fresh: "http_fresh hs_server" "wire hs_server = []"
  using fresh_repr[of sample_block]
  by (simp_all add: hs_server_def http_fresh_def hdr_start_def with_hdr_def zero_lws_def zero_ws_def sample_block_def)

text \<open>
  C27. A WebSocket request with everything but its key brings the server down: \<open>handshake_0405\<close> frees the header table on its way out, and so does
  \<open>libwebsocket_read\<close>.
\<close>

theorem missing_key_double_free:
  assumes "http_fresh s" "uri_ok path" "value_ok host" "length path + length host \<le> 900"
    and "protocol_for C None = Some pr" "kernel_willing E" "user_calm E"
  shows "libwebsocket_read C E sb s (get_line path (bytes ''HTTP/1.1'') @ concat (map line_bytes [Hdr WSI_TOKEN_HOST 1 host,
      Hdr WSI_TOKEN_UPGRADE 1 (bytes ''websocket''), Hdr WSI_TOKEN_CONNECTION 1 (bytes ''Upgrade''), Hdr WSI_TOKEN_VERSION 1 (bytes ''13'')]) @ crlf) = None"
proof -
  let ?ls = "[Hdr WSI_TOKEN_HOST 1 host, Hdr WSI_TOKEN_UPGRADE 1 (bytes ''websocket''), Hdr WSI_TOKEN_CONNECTION 1 (bytes ''Upgrade''),
     Hdr WSI_TOKEN_VERSION 1 (bytes ''13'')]"
  define mp where "mp = lines_map [WSI_TOKEN_GET_URI \<mapsto> path] ?ls"
  have m: "mp WSI_TOKEN_KEY = None" "mp WSI_TOKEN_UPGRADE = Some (bytes ''websocket'')" "mp WSI_TOKEN_CONNECTION = Some (bytes ''Upgrade'')"
    "mp WSI_TOKEN_PROTOCOL = None" "mp WSI_TOKEN_VERSION = Some (bytes ''13'')" by (simp_all add: mp_def c_defs)
  have ok: "lines_ok [WSI_TOKEN_GET_URI \<mapsto> path] ?ls" using assms(3) by (simp add: value_ok_def c_defs)
  have ne: "bytes ''websocket'' \<noteq> []" "bytes ''Upgrade'' \<noteq> []" "13 \<notin> set (bytes ''HTTP/1.1'')" by simp_all
  obtain ah w where w: "libwebsocket_read C E sb s (get_line path (bytes ''HTTP/1.1'') @ concat (map line_bytes ?ls) @ crlf) = read_request C E sb w"
    "hdr_ah (u_hdr w) = Some ah" "ietf_spec_revision w = 13" "hdr_repr ah mp"
    by (rule read_parsed[OF assms(1,2) ne(3) ok _ _ mp_def m(2) ne(1) m(5), of C E sb]) (use assms(4) in simp_all)
  show ?thesis unfolding w(1) by (rule read_request_no_key[OF w(2-4) m(1,2) ne(1) m(3) ne(2) m(4) assms(5-7)])
qed

theorem missing_key_double_free_witness:
  "libwebsocket_read hs_sample hs_env [] hs_server (get_line (bytes ''/'') (bytes ''HTTP/1.1'') @ concat (map line_bytes [Hdr WSI_TOKEN_HOST 1 (bytes ''srv''),
      Hdr WSI_TOKEN_UPGRADE 1 (bytes ''websocket''), Hdr WSI_TOKEN_CONNECTION 1 (bytes ''Upgrade''), Hdr WSI_TOKEN_VERSION 1 (bytes ''13'')]) @ crlf) = None"
  by (rule missing_key_double_free[OF hs_server_fresh(1) _ _ _ hs_sample_ok(2) hs_env_ok(1,2)]) (simp_all add: uri_ok_def value_ok_def)

end
