(* ===== verification/Poll_Table.thy ===== *)
theory Poll_Table
  imports Server_Handshake "HOL-Library.Multiset"
begin

text \<open>
  The table of the sockets a context polls: \<open>fds\<close>, \<open>lws_lookup\<close> and \<open>fds_count\<close> of \<open>struct libwebsocket_context\<close>, with the two operations of
  \<^verbatim>\<open>lib/libwebsockets.c\<close> on it. The table is kept dense by moving the last entry into a slot that becomes free; each connection knows its
  slot. It is shown to implement a finite map from sockets to connections.
\<close>

section \<open>The program\<close>

text \<open>Array accesses with an \<open>int\<close> as index.\<close>

definition rdi :: "'a list \<Rightarrow> int \<Rightarrow> 'a option" where
  "rdi xs i = (if i < 0 then None else rd xs (nat i))"

definition wri :: "'a list \<Rightarrow> int \<Rightarrow> 'a \<Rightarrow> 'a list option" where
  "wri xs i v = (if i < 0 then None else wr xs (nat i) v)"

text \<open>An entry of the poll table; its \<open>events\<close> are \<open>pollin\<close> and \<open>pollout\<close> of the connection in the slot.\<close>

record pollfd =
  pfd_fd :: int
  pfd_revents :: nat

datatype timeout_reason =
    NO_PENDING_TIMEOUT | PENDING_TIMEOUT_AWAITING_PROXY_RESPONSE | PENDING_TIMEOUT_AWAITING_CONNECT_RESPONSE
  | PENDING_TIMEOUT_ESTABLISH_WITH_SERVER | PENDING_TIMEOUT_AWAITING_SERVER_RESPONSE | PENDING_TIMEOUT_AWAITING_PING
  | PENDING_TIMEOUT_CLOSE_ACK | PENDING_TIMEOUT_AWAITING_EXTENSION_CONNECT_RESPONSE
  | PENDING_TIMEOUT_SENT_CLIENT_HANDSHAKE | PENDING_TIMEOUT_SSL_ACCEPT

text \<open>The rest of \<open>struct libwebsocket\<close>: the timeout, and the member \<open>http\<close> of the union.\<close>

record 'u session =
  s_wsi :: "'u lws"
  pending_timeout :: timeout_reason
  pending_timeout_limit :: size_t
  http_fd :: int
  http_filepos :: size_t
  http_filelen :: size_t

text \<open>
  \<open>struct libwebsocket_context\<close>. \<open>wsis\<close> is the memory of the connections by address: \<open>None\<close> is a block that is not (or no longer) allocated.
  \<open>closed\<close> logs the descriptors given back to the system, \<open>sys_no\<close> counts the system calls made for the context, and \<open>dangling\<close> records that a connection
  has been freed while the table still pointed to it.
\<close>

record 'u lws_context =
  fds :: "pollfd list"
  lws_lookup :: "nat option list"
  fds_count :: int
  max_fds :: int
  last_timeout_check_s :: size_t
  service_buffer :: "byte list"
  listen_service_modulo :: int
  listen_service_count :: int
  listen_service_fd :: int
  listen_service_extraseen :: int
  http_proxy_address :: "byte list"
  http_proxy_port :: nat
  ka_time :: int
  sys_no :: nat
  wsis :: "nat \<Rightarrow> 'u session option"
  closed :: "int list"
  dangling :: bool

definition upd_session :: "nat \<Rightarrow> ('u session \<Rightarrow> 'u session) \<Rightarrow> 'u lws_context \<Rightarrow> 'u lws_context" where
  [st_defs]: "upd_session p f cx = cx\<lparr>wsis := (wsis cx)(p := map_option f (wsis cx p))\<rparr>"

definition upd_wsi :: "nat \<Rightarrow> ('u lws \<Rightarrow> 'u lws) \<Rightarrow> 'u lws_context \<Rightarrow> 'u lws_context" where
  [st_defs]: "upd_wsi p f = upd_session p (\<lambda>s. s\<lparr>s_wsi := f (s_wsi s)\<rparr>)"

definition insert_wsi_socket_into_fds :: "'u env \<Rightarrow> nat \<Rightarrow> 'u lws_context \<Rightarrow> (int \<times> 'u lws_context) option" where
  "insert_wsi_socket_into_fds E p cx = do { s \<leftarrow> wsis cx p; k \<leftarrow> Some (sock (s_wsi s));
     if fds_count cx \<ge> max_fds cx then Some (1, cx)
     else if k > max_fds cx then Some (1, cx)
     else if k < 0 then None
     else do { lk \<leftarrow> wri (lws_lookup cx) k (Some p);
       fs \<leftarrow> wri (fds cx) (fds_count cx) \<lparr>pfd_fd = k, pfd_revents = 0\<rparr>;
       Some (0, upd_wsi p (\<lambda>wsi. proto0_cb E LWS_CALLBACK_ADD_POLL_FD k POLLIN
                  (wsi\<lparr>position_in_fds_table := fds_count cx, pollin := True, pollout := False\<rparr>))
                (cx\<lparr>lws_lookup := lk, fds := fs, fds_count := fds_count cx + 1\<rparr>)) } }"

text \<open>The label \<open>do_ext\<close>.\<close>

definition del_poll_fd :: "'u env \<Rightarrow> nat \<Rightarrow> 'u lws_context \<Rightarrow> 'u lws_context" where
  "del_poll_fd E p = upd_wsi p (\<lambda>wsi. if sock wsi \<noteq> 0 then proto0_cb E LWS_CALLBACK_DEL_POLL_FD (sock wsi) 0 wsi else wsi)"

definition remove_wsi_socket_from_fds :: "'u env \<Rightarrow> nat \<Rightarrow> 'u lws_context \<Rightarrow> (int \<times> 'u lws_context) option" where
  "remove_wsi_socket_from_fds E p cx = do { s \<leftarrow> wsis cx p; k \<leftarrow> Some (sock (s_wsi s)); m \<leftarrow> Some (position_in_fds_table (s_wsi s));
     cx \<leftarrow> Some (cx\<lparr>fds_count := fds_count cx - 1\<rparr>);
     if fds_count cx = 0 then Some (0, del_poll_fd E p cx)
     else if k > max_fds cx then Some (1, cx)
     else do { end \<leftarrow> rdi (fds cx) (fds_count cx);
       fs \<leftarrow> wri (fds cx) m end;
       q \<leftarrow> rdi (lws_lookup cx) (pfd_fd end); q \<leftarrow> q; _ \<leftarrow> wsis cx q;
       lk \<leftarrow> wri (lws_lookup cx) k None;
       Some (0, del_poll_fd E p (upd_wsi p (\<lambda>wsi. wsi\<lparr>position_in_fds_table := -1\<rparr>)
                  (upd_wsi q (\<lambda>wsi. wsi\<lparr>position_in_fds_table := m\<rparr>) (cx\<lparr>fds := fs, lws_lookup := lk\<rparr>)))) } }"

text \<open>Does the table still point to a connection?\<close>

definition in_table :: "nat \<Rightarrow> 'u lws_context \<Rightarrow> bool" where
  "in_table p cx = list_ex (\<lambda>e. rdi (lws_lookup cx) (pfd_fd e) = Some (Some p)) (take (nat (fds_count cx)) (fds cx))"

section \<open>The table as a finite map\<close>

text \<open>The sockets in the table, and the map it stands for.\<close>

definition socks :: "'u lws_context \<Rightarrow> int list" where
  "socks cx = map pfd_fd (take (nat (fds_count cx)) (fds cx))"

definition table_map :: "'u lws_context \<Rightarrow> int \<Rightarrow> nat option" where
  "table_map cx k = (if k \<in> set (socks cx) then lws_lookup cx ! nat k else None)"

text \<open>The socket of a connection.\<close>

definition sock_of :: "'u lws_context \<Rightarrow> nat \<Rightarrow> int option" where
  "sock_of cx p = map_option (\<lambda>s. sock (s_wsi s)) (wsis cx p)"

text \<open>Slot \<open>n\<close> refers to a connection that is allocated, has the socket of the slot, and knows the slot.\<close>

definition slot_ok :: "'u lws_context \<Rightarrow> nat \<Rightarrow> bool" where
  "slot_ok cx n = (let k = socks cx ! n in 0 \<le> k \<and> k < max_fds cx \<and>
     (case lws_lookup cx ! nat k of None \<Rightarrow> False
      | Some p \<Rightarrow> (case wsis cx p of None \<Rightarrow> False
          | Some s \<Rightarrow> sock (s_wsi s) = k \<and> position_in_fds_table (s_wsi s) = int n)))"

definition table_ok :: "'u lws_context \<Rightarrow> bool" where
  "table_ok cx \<longleftrightarrow> 0 \<le> fds_count cx \<and> fds_count cx \<le> max_fds cx \<and> length (fds cx) = nat (max_fds cx) \<and>
     length (lws_lookup cx) = nat (max_fds cx) \<and> (\<forall>n < length (socks cx). slot_ok cx n)"

text \<open>
  User code and extensions leave the two fields alone that tie a connection to the table, and the callback of protocol 0 the active extensions too: the
  structure is opaque to them.
\<close>

definition slot :: "'u lws \<Rightarrow> int \<times> int" where
  "slot wsi = (sock wsi, position_in_fds_table wsi)"

definition slot_safe :: "'u env \<Rightarrow> bool" where
  "slot_safe E \<longleftrightarrow> (\<forall>r k n w. slot (proto0_cb E r k n w) = slot w) \<and> (\<forall>r bs w. slot (snd (user_cb E r bs w)) = slot w) \<and>
     (\<forall>x r tok w. slot (snd (snd (ext_cb E x r tok w))) = slot w) \<and>
     (\<forall>r k n w. active_extensions (proto0_cb E r k n w) = active_extensions w)"

named_theorems slot_simps \<open>what keeps a connection in its slot\<close>

lemma slot_eqD: "slot v = slot w \<Longrightarrow> sock v = sock w" "slot v = slot w \<Longrightarrow> position_in_fds_table v = position_in_fds_table w"
  by (simp_all add: slot_def)

lemma slot_safeD:
  assumes "slot_safe E"
  shows "slot (proto0_cb E r k n w) = slot w" "user_cb E r bs w = (m, v) \<Longrightarrow> slot v = slot w"
    "ext_cb E x er tok w = (m, tok', v) \<Longrightarrow> slot v = slot w"
    "sock (proto0_cb E r k n w) = sock w" "position_in_fds_table (proto0_cb E r k n w) = position_in_fds_table w"
    "active_extensions (proto0_cb E r k n w) = active_extensions w"
  using assms unfolding slot_safe_def slot_def
  by (metis prod.inject snd_conv)+

lemma length_socks: "table_ok cx \<Longrightarrow> length (socks cx) = nat (fds_count cx)"
  by (auto simp: table_ok_def socks_def)

text \<open>What a slot says, and that sockets are unique.\<close>

lemma table_slot:
  assumes "table_ok cx" "n < length (socks cx)"
  obtains p s where "lws_lookup cx ! nat (socks cx ! n) = Some p" "wsis cx p = Some s" "sock (s_wsi s) = socks cx ! n"
    "position_in_fds_table (s_wsi s) = int n" "0 \<le> socks cx ! n" "socks cx ! n < max_fds cx"
    "table_map cx (socks cx ! n) = Some p"
proof -
  have "slot_ok cx n" using assms by (simp add: table_ok_def)
  then show ?thesis using assms(2) that by (auto simp: slot_ok_def Let_def table_map_def split: option.splits)
qed

lemma distinct_socks:
  assumes "table_ok cx"
  shows "distinct (socks cx)"
proof -
  have "i = j" if "i < length (socks cx)" "j < length (socks cx)" "socks cx ! i = socks cx ! j" for i j
    using table_slot[OF assms that(1)] table_slot[OF assms that(2)] that(3) by (metis of_nat_eq_iff option.inject)
  then show ?thesis by (auto simp: distinct_conv_nth)
qed

lemma socks_range:
  assumes "table_ok cx" "j \<in> set (socks cx)"
  shows "0 \<le> j" "j < max_fds cx"
proof -
  obtain n where "n < length (socks cx)" "j = socks cx ! n" using assms(2) by (auto simp: in_set_conv_nth)
  then show "0 \<le> j" "j < max_fds cx" using table_slot[OF assms(1), of n] by auto
qed

lemma table_mapE:
  assumes "table_ok cx" "table_map cx k = Some p"
  obtains n s where "n < length (socks cx)" "socks cx ! n = k" "wsis cx p = Some s" "sock (s_wsi s) = k"
    "position_in_fds_table (s_wsi s) = int n" "0 \<le> k" "k < max_fds cx" "lws_lookup cx ! nat k = Some p"
proof -
  have "k \<in> set (socks cx)" using assms(2) by (auto simp: table_map_def split: if_splits)
  then obtain n where n: "n < length (socks cx)" "socks cx ! n = k" by (auto simp: in_set_conv_nth)
  from table_slot[OF assms(1) n(1)] obtain q s where "lws_lookup cx ! nat k = Some q" "wsis cx q = Some s" "sock (s_wsi s) = k"
    "position_in_fds_table (s_wsi s) = int n" "0 \<le> k" "k < max_fds cx" "table_map cx k = Some q" by (auto simp: n)
  then show ?thesis using that[OF n] assms(2) by simp
qed

lemma dom_table_map:
  assumes "table_ok cx"
  shows "dom (table_map cx) = set (socks cx)"
proof -
  have "table_map cx k \<noteq> None" if "k \<in> set (socks cx)" for k
    using that table_slot[OF assms] by (metis in_set_conv_nth option.distinct(1))
  then show ?thesis by (auto simp: dom_def) (auto simp: table_map_def split: if_splits)
qed

lemma table_map_inj: "table_ok cx \<Longrightarrow> table_map cx k = Some p \<Longrightarrow> table_map cx k' = Some p \<Longrightarrow> k = k'"
  by (metis table_mapE option.inject)

lemma upd_fields [simp]:
  "listen_service_fd (upd_session p g cx) = listen_service_fd cx"
  "fds (upd_wsi p f cx) = fds cx" "lws_lookup (upd_wsi p f cx) = lws_lookup cx" "fds_count (upd_wsi p f cx) = fds_count cx"
  "max_fds (upd_wsi p f cx) = max_fds cx" "closed (upd_wsi p f cx) = closed cx" "listen_service_fd (upd_wsi p f cx) = listen_service_fd cx"
  "service_buffer (upd_wsi p f cx) = service_buffer cx" "last_timeout_check_s (upd_wsi p f cx) = last_timeout_check_s cx"
  "wsis (upd_wsi p f cx) = (wsis cx)(p := map_option (\<lambda>s. s\<lparr>s_wsi := f (s_wsi s)\<rparr>) (wsis cx p))"
  by (simp_all add: upd_wsi_def upd_session_def)

lemma in_table_iff: "table_ok cx \<Longrightarrow> in_table p cx \<longleftrightarrow> p \<in> ran (table_map cx)"
proof -
  assume ok: "table_ok cx"
  have "rdi (lws_lookup cx) k = Some (Some p) \<longleftrightarrow> table_map cx k = Some p" if k: "k \<in> set (socks cx)" for k
  proof -
    obtain n where n: "n < length (socks cx)" "socks cx ! n = k" using k by (auto simp: in_set_conv_nth)
    have "0 \<le> k" "k < max_fds cx" using ok n by (auto simp: table_ok_def slot_ok_def Let_def)
    then show ?thesis using ok k by (simp add: table_ok_def table_map_def rdi_def rd_def)
  qed
  moreover have "in_table p cx \<longleftrightarrow> (\<exists>k \<in> set (socks cx). rdi (lws_lookup cx) k = Some (Some p))"
    by (auto simp: in_table_def socks_def list_ex_iff)
  ultimately show ?thesis by (auto simp: ran_def table_map_def)
qed

text \<open>The table only looks at the slots of the connections.\<close>

definition slot_of :: "'u lws_context \<Rightarrow> nat \<Rightarrow> (int \<times> int) option" where
  "slot_of cx p = map_option (\<lambda>s. slot (s_wsi s)) (wsis cx p)"

lemma slot_ok_alt: "slot_ok cx n \<longleftrightarrow> 0 \<le> socks cx ! n \<and> socks cx ! n < max_fds cx \<and>
    (\<exists>p. lws_lookup cx ! nat (socks cx ! n) = Some p \<and> slot_of cx p = Some (socks cx ! n, int n))"
  by (auto simp: slot_ok_def slot_of_def slot_def Let_def split: option.splits)

lemma sock_of_slot: "sock_of cx p = map_option fst (slot_of cx p)"
  by (simp add: sock_of_def slot_of_def slot_def option.map_comp comp_def)

lemma table_cong:
  assumes "slot_of cx' = slot_of cx" "fds cx' = fds cx" "lws_lookup cx' = lws_lookup cx" "fds_count cx' = fds_count cx" "max_fds cx' = max_fds cx"
  shows "table_ok cx' = table_ok cx" "table_map cx' = table_map cx" "sock_of cx' = sock_of cx" "socks cx' = socks cx"
proof -
  have "socks cx' = socks cx" using assms by (simp add: socks_def)
  then show "table_ok cx' = table_ok cx" "table_map cx' = table_map cx" "sock_of cx' = sock_of cx" "socks cx' = socks cx"
    using assms by (auto simp: table_ok_def slot_ok_alt table_map_def sock_of_slot fun_eq_iff)
qed

lemma slot_of_upd [simp]: "slot_of (upd_wsi p f cx) q = (if q = p then map_option (\<lambda>s. slot (f (s_wsi s))) (wsis cx p) else slot_of cx q)"
  by (simp add: slot_of_def option.map_comp comp_def)

lemma slot_of_fields [simp]: "slot_of (cx\<lparr>fds := a\<rparr>) = slot_of cx" "slot_of (cx\<lparr>lws_lookup := b\<rparr>) = slot_of cx"
  "slot_of (cx\<lparr>fds_count := c\<rparr>) = slot_of cx" "slot_of (cx\<lparr>closed := d\<rparr>) = slot_of cx"
  by (simp_all add: slot_of_def fun_eq_iff)

section \<open>Insertion\<close>

lemma insert_ok:
  assumes ok: "table_ok cx" and E: "slot_safe E" and p: "wsis cx p = Some s" "sock (s_wsi s) = k"
    and k: "0 \<le> k" "k < max_fds cx" "table_map cx k = None" and room: "fds_count cx < max_fds cx"
  obtains cx' where "insert_wsi_socket_into_fds E p cx = Some (0, cx')" "table_ok cx'" "table_map cx' = (table_map cx)(k \<mapsto> p)"
    "sock_of cx' = sock_of cx" "socks cx' = socks cx @ [k]" "max_fds cx' = max_fds cx" "\<And>q. q \<noteq> p \<Longrightarrow> wsis cx' q = wsis cx q"
    "listen_service_fd cx' = listen_service_fd cx"
proof -
  let ?c = "fds_count cx"
  let ?w = "\<lambda>wsi. proto0_cb E LWS_CALLBACK_ADD_POLL_FD k POLLIN (wsi\<lparr>position_in_fds_table := ?c, pollin := True, pollout := False\<rparr>)"
  define cx' where "cx' = upd_wsi p ?w (cx\<lparr>lws_lookup := (lws_lookup cx)[nat k := Some p],
     fds := (fds cx)[nat ?c := \<lparr>pfd_fd = k, pfd_revents = 0\<rparr>], fds_count := ?c + 1\<rparr>)"
  have t: "0 \<le> ?c" "length (fds cx) = nat (max_fds cx)" "length (lws_lookup cx) = nat (max_fds cx)" using ok by (simp_all add: table_ok_def)
  have i: "nat k < length (lws_lookup cx)" "nat ?c < length (fds cx)" using t k room by auto
  have ins: "insert_wsi_socket_into_fds E p cx = Some (0, cx')"
    using p k room t i by (simp add: insert_wsi_socket_into_fds_def wri_def wr_in cx'_def)
  have sk: "socks cx' = socks cx @ [k]"
    using t i by (simp add: cx'_def socks_def nat_add_distrib take_Suc_conv_app_nth)
  have nk: "k \<notin> set (socks cx)" using dom_table_map[OF ok] k(3) by auto
  have so: "slot_of cx' q = (if q = p then Some (k, ?c) else slot_of cx q)" for q
    using p slot_safeD(1)[OF E] by (simp add: cx'_def slot_def)
  have nth: "nat k \<noteq> nat j" if "j \<in> set (socks cx)" for j using that nk socks_range(1)[OF ok that] k(1) by (metis eq_nat_nat_iff)
  have tm: "table_map cx' = (table_map cx)(k \<mapsto> p)"
    using i nk by (auto simp: fun_eq_iff table_map_def sk) (simp_all add: cx'_def nth)
  have "slot_ok cx' n" if "n < length (socks cx')" for n
  proof (cases "n = length (socks cx)")
    case True
    have "lws_lookup cx' ! nat k = Some p" "max_fds cx' = max_fds cx" using i by (simp_all add: cx'_def)
    then show ?thesis using k so[of p] t length_socks[OF ok] True by (auto simp: slot_ok_alt sk nth_append)
  next
    case False
    then have n: "n < length (socks cx)" using that sk by simp
    from table_slot[OF ok n] obtain q s' where q: "lws_lookup cx ! nat (socks cx ! n) = Some q" "wsis cx q = Some s'"
      "sock (s_wsi s') = socks cx ! n" "position_in_fds_table (s_wsi s') = int n" "0 \<le> socks cx ! n" "socks cx ! n < max_fds cx" by blast
    have "q \<noteq> p" using q(2,3) p nk n nth_mem by fastforce
    then show ?thesis using q n nth[of "socks cx ! n"] so[of q] by (simp add: slot_ok_alt sk nth_append) (simp add: cx'_def slot_of_def slot_def)
  qed
  then have "table_ok cx'" using t room length_socks[OF ok] by (simp add: table_ok_def) (simp add: cx'_def)
  moreover have "sock_of cx' = sock_of cx" using so p by (auto simp: fun_eq_iff sock_of_slot) (simp add: slot_of_def slot_def)
  ultimately show ?thesis using that[OF ins] tm sk by (simp add: cx'_def)
qed

section \<open>Removal\<close>

text \<open>A session without its place in the table.\<close>

definition unplaced :: "'u session \<Rightarrow> 'u session" where
  "unplaced s = s\<lparr>s_wsi := (s_wsi s)\<lparr>position_in_fds_table := 0\<rparr>\<rparr>"

definition others_same :: "nat \<Rightarrow> 'u lws_context \<Rightarrow> 'u lws_context \<Rightarrow> bool" where
  "others_same p cx cx' \<longleftrightarrow> (\<forall>q. q \<noteq> p \<longrightarrow> map_option unplaced (wsis cx' q) = map_option unplaced (wsis cx q))"

definition exts_of :: "'u lws_context \<Rightarrow> nat \<Rightarrow> nat list option" where
  "exts_of cx p = map_option (\<lambda>s. active_extensions (s_wsi s)) (wsis cx p)"

text \<open>Moving the last element into the place of the one that goes.\<close>

definition fill_gap :: "'a list \<Rightarrow> nat \<Rightarrow> 'a list" where
  "fill_gap xs m = (butlast xs)[m := last xs]"

lemma set_fill_gap: "distinct xs \<Longrightarrow> m < length xs \<Longrightarrow> set (fill_gap xs m) = set xs - {xs ! m}"
proof (induction xs rule: rev_induct)
  case (snoc z ys)
  show ?case
  proof (cases "m < length ys")
    case True
    then show ?thesis using snoc.prems by (auto simp: fill_gap_def set_update_distinct nth_append)
  next
    case False
    then have "m = length ys" using snoc.prems by simp
    then show ?thesis using snoc.prems by (simp add: fill_gap_def list_update_beyond)
  qed
qed simp

lemma length_fill_gap [simp]: "length (fill_gap xs m) = length xs - 1"
  by (simp add: fill_gap_def)

lemma distinct_fill_gap:
  assumes "distinct xs" "m < length xs"
  shows "distinct (fill_gap xs m)"
proof (rule card_distinct)
  show "card (set (fill_gap xs m)) = length (fill_gap xs m)"
    using set_fill_gap[OF assms] distinct_card[OF assms(1)] nth_mem[OF assms(2)] by (simp add: card_Diff_singleton)
qed

lemma nth_fill_gap: "n < length xs - 1 \<Longrightarrow> fill_gap xs m ! n = (if n = m then last xs else xs ! n)"
  by (simp add: fill_gap_def nth_list_update nth_butlast)

lemma slot_of_del [simp]: "slot_safe E \<Longrightarrow> slot_of (del_poll_fd E p cx) = slot_of cx"
  by (auto simp: fun_eq_iff del_poll_fd_def slot_safeD) (auto simp: slot_of_def slot_safeD option.map_comp intro!: option.map_cong0)

lemma del_fields [simp]:
  "fds (del_poll_fd E p cx) = fds cx" "lws_lookup (del_poll_fd E p cx) = lws_lookup cx" "fds_count (del_poll_fd E p cx) = fds_count cx"
  "max_fds (del_poll_fd E p cx) = max_fds cx" "closed (del_poll_fd E p cx) = closed cx" "socks (del_poll_fd E p cx) = socks cx"
  "listen_service_fd (del_poll_fd E p cx) = listen_service_fd cx"
  by (simp_all add: del_poll_fd_def socks_def)

lemma remove_last:
  assumes ok: "table_ok cx" and E: "slot_safe E" and k: "table_map cx k = Some p" and one: "fds_count cx = 1"
  defines "cx' \<equiv> del_poll_fd E p (cx\<lparr>fds_count := 0\<rparr>)"
  shows "remove_wsi_socket_from_fds E p cx = Some (0, cx')" "table_ok cx'" "table_map cx' = (table_map cx)(k := None)"
    "sock_of cx' = sock_of cx" "socks cx' = []"
proof -
  obtain m s where m: "m < length (socks cx)" "socks cx ! m = k" "wsis cx p = Some s" using table_mapE[OF ok k] by metis
  have t: "fds_count cx \<le> max_fds cx" "length (fds cx) = nat (max_fds cx)" "length (lws_lookup cx) = nat (max_fds cx)"
    using ok by (simp_all add: table_ok_def)
  show "remove_wsi_socket_from_fds E p cx = Some (0, cx')" using m one by (simp add: remove_wsi_socket_from_fds_def cx'_def)
  show sk: "socks cx' = []" by (simp add: cx'_def socks_def)
  show "table_ok cx'" using t sk one by (simp add: table_ok_def) (simp add: cx'_def)
  have "set (socks cx) = {k}" using length_socks[OF ok] one m by (auto simp: length_Suc_conv)
  then show "table_map cx' = (table_map cx)(k := None)" by (auto simp: table_map_def sk fun_eq_iff)
  show "sock_of cx' = sock_of cx" using E by (simp add: fun_eq_iff sock_of_slot cx'_def)
qed

text \<open>With more than one entry: what the table looks like afterwards, and that its slots are right.\<close>

definition after_remove :: "'u env \<Rightarrow> nat \<Rightarrow> nat \<Rightarrow> int \<Rightarrow> nat \<Rightarrow> 'u lws_context \<Rightarrow> 'u lws_context" where
  "after_remove E p q k m cx = del_poll_fd E p (upd_wsi p (\<lambda>wsi. wsi\<lparr>position_in_fds_table := -1\<rparr>)
     (upd_wsi q (\<lambda>wsi. wsi\<lparr>position_in_fds_table := int m\<rparr>) (cx\<lparr>fds_count := fds_count cx - 1,
       fds := (fds cx)[m := fds cx ! nat (fds_count cx - 1)], lws_lookup := (lws_lookup cx)[nat k := None]\<rparr>)))"

lemma after_remove_slots:
  assumes "slot_safe E" "wsis cx p = Some s" "sock (s_wsi s) = k" "wsis cx q = Some s'"
  shows "slot_of (after_remove E p q k m cx) r =
    (if r = p then Some (k, -1) else if r = q then Some (sock (s_wsi s'), int m) else slot_of cx r)"
proof -
  define cx1 where "cx1 = cx\<lparr>fds_count := fds_count cx - 1, fds := (fds cx)[m := fds cx ! nat (fds_count cx - 1)],
    lws_lookup := (lws_lookup cx)[nat k := None]\<rparr>"
  have "wsis cx1 = wsis cx" "slot_of cx1 = slot_of cx" by (simp_all add: cx1_def)
  then show ?thesis using assms
    by (cases "q = p"; cases "r = p"; cases "r = q") (simp_all add: after_remove_def cx1_def[symmetric] slot_def)
qed

lemma after_remove_socks:
  assumes "table_ok cx" "1 < fds_count cx" "m < length (socks cx)"
  shows "socks (after_remove E p q k m cx) = fill_gap (socks cx) m" "last (socks cx) = socks cx ! nat (fds_count cx - 1)"
    "socks cx ! nat (fds_count cx - 1) = pfd_fd (fds cx ! nat (fds_count cx - 1))"
proof -
  let ?c = "nat (fds_count cx - 1)"
  have ls: "length (socks cx) = nat (fds_count cx)" using length_socks[OF assms(1)] .
  have c: "?c < length (socks cx)" "?c < length (fds cx)" "m < length (fds cx)" using assms ls by (auto simp: table_ok_def)
  show la: "last (socks cx) = socks cx ! ?c" using c(1) ls by (subst last_conv_nth) (auto simp: nat_diff_distrib)
  show l2: "socks cx ! ?c = pfd_fd (fds cx ! ?c)" using c by (simp add: socks_def)
  show "socks (after_remove E p q k m cx) = fill_gap (socks cx) m"
    using c ls la l2 by (simp add: after_remove_def socks_def fill_gap_def take_update_swap map_update butlast_take nat_diff_distrib flip: map_butlast)
qed

lemma remove_inner:
  assumes ok: "table_ok cx" and E: "slot_safe E" and k: "table_map cx k = Some p" and many: "1 < fds_count cx"
  obtains q m where "remove_wsi_socket_from_fds E p cx = Some (0, after_remove E p q k m cx)" "table_ok (after_remove E p q k m cx)"
    "table_map (after_remove E p q k m cx) = (table_map cx)(k := None)" "sock_of (after_remove E p q k m cx) = sock_of cx"
    "m < length (socks cx)" "socks cx ! m = k"
proof -
  let ?c = "nat (fds_count cx - 1)"
  obtain m s where m: "m < length (socks cx)" "socks cx ! m = k" "wsis cx p = Some s" "sock (s_wsi s) = k"
    "position_in_fds_table (s_wsi s) = int m" "0 \<le> k" "k < max_fds cx" "lws_lookup cx ! nat k = Some p" using table_mapE[OF ok k] .
  have t: "length (fds cx) = nat (max_fds cx)" "length (lws_lookup cx) = nat (max_fds cx)" "fds_count cx \<le> max_fds cx"
    using ok by (simp_all add: table_ok_def)
  have ls: "length (socks cx) = nat (fds_count cx)" using length_socks[OF ok] .
  have c: "?c < length (socks cx)" "?c < length (fds cx)" "m < length (fds cx)" using many m(1) ls t by auto
  obtain q s' where q: "lws_lookup cx ! nat (socks cx ! ?c) = Some q" "wsis cx q = Some s'" "sock (s_wsi s') = socks cx ! ?c"
    "position_in_fds_table (s_wsi s') = int ?c" "0 \<le> socks cx ! ?c" "socks cx ! ?c < max_fds cx" using table_slot[OF ok c(1)] by metis
  define cx' where "cx' = after_remove E p q k m cx"
  note sk = after_remove_socks(1)[OF ok many m(1), of E p q k, folded cx'_def] after_remove_socks(2,3)[OF ok many m(1)]
  note so = after_remove_slots[OF E m(3,4) q(2), of m, folded cx'_def]
  have r: "remove_wsi_socket_from_fds E p cx = Some (0, cx')"
    using m c q t sk(3) many by (simp add: remove_wsi_socket_from_fds_def rdi_def wri_def rd_in wr_in cx'_def after_remove_def)
  have st: "set (socks cx') = set (socks cx) - {k}" using set_fill_gap[OF distinct_socks[OF ok] m(1)] m(2) sk(1) by simp
  have lk: "lws_lookup cx' ! nat j = lws_lookup cx ! nat j" if "j \<in> set (socks cx)" "j \<noteq> k" for j
    using that socks_range(1)[OF ok that(1)] m(6) by (simp add: cx'_def after_remove_def eq_nat_nat_iff)
  have tm: "table_map cx' = (table_map cx)(k := None)" using lk by (auto simp: fun_eq_iff table_map_def st)
  have mx: "max_fds cx' = max_fds cx" by (simp add: cx'_def after_remove_def)
  have "slot_ok cx' n" if n': "n < length (socks cx')" for n
  proof -
    have n: "n < length (socks cx)" "n < ?c" "n < length (socks cx) - 1" using n' sk(1) ls by simp_all
    have mem: "socks cx' ! n \<in> set (socks cx)" "socks cx' ! n \<noteq> k" using st nth_mem[OF n'] by auto
    show ?thesis
    proof (cases "n = m")
      case True
      then have v: "socks cx' ! n = socks cx ! ?c" using sk nth_fill_gap[OF n(3)] by simp
      then have "q \<noteq> p" using mem q m by auto
      moreover have "lws_lookup cx' ! nat (socks cx ! ?c) = Some q" using lk[OF mem] v q(1) by simp
      ultimately show ?thesis using q(3,5,6) so[of q] True unfolding slot_ok_alt v mx by simp
    next
      case False
      then have v: "socks cx' ! n = socks cx ! n" using sk nth_fill_gap[OF n(3)] by simp
      obtain u s'' where u: "lws_lookup cx ! nat (socks cx ! n) = Some u" "wsis cx u = Some s''" "sock (s_wsi s'') = socks cx ! n"
        "position_in_fds_table (s_wsi s'') = int n" "0 \<le> socks cx ! n" "socks cx ! n < max_fds cx" using table_slot[OF ok n(1)] by metis
      have "u \<noteq> q" using u(2,4) q(2,4) n(2) by (metis of_nat_eq_iff less_irrefl option.inject)
      moreover have "u \<noteq> p" using u(2,3) m(3,4) mem(2) v by auto
      ultimately have "slot_of cx' u = Some (socks cx ! n, int n)" using so[of u] u(2-4) by (simp add: slot_of_def slot_def)
      moreover have "lws_lookup cx' ! nat (socks cx ! n) = Some u" using lk[OF mem] v u(1) by simp
      ultimately show ?thesis using u(5,6) unfolding slot_ok_alt v mx by simp
    qed
  qed
  then have "table_ok cx'" using t many by (simp add: table_ok_def) (simp add: cx'_def after_remove_def)
  moreover have "sock_of cx' = sock_of cx" using so m q by (auto simp: fun_eq_iff sock_of_slot) (simp_all add: slot_of_def slot_def)
  ultimately show ?thesis using that[of q m] r tm m(1,2) by (simp add: cx'_def)
qed

lemma remove_frame:
  assumes "slot_safe E"
  shows "others_same p cx (del_poll_fd E p (cx\<lparr>fds_count := 0\<rparr>))" "exts_of (del_poll_fd E p (cx\<lparr>fds_count := 0\<rparr>)) p = exts_of cx p"
    "others_same p cx (after_remove E p q k m cx)" "exts_of (after_remove E p q k m cx) p = exts_of cx p"
  using slot_safeD[OF assms]
  by (auto simp: others_same_def exts_of_def del_poll_fd_def after_remove_def unplaced_def option.map_comp comp_def intro!: option.map_cong0)

lemma remove_ok:
  assumes ok: "table_ok cx" and E: "slot_safe E" and k: "table_map cx k = Some p"
  obtains cx' where "remove_wsi_socket_from_fds E p cx = Some (0, cx')" "table_ok cx'" "table_map cx' = (table_map cx)(k := None)"
    "sock_of cx' = sock_of cx" "length (socks cx') + 1 = length (socks cx)" "max_fds cx' = max_fds cx" "closed cx' = closed cx"
    "others_same p cx cx'" "exts_of cx' p = exts_of cx p" "\<And>m. m < length (socks cx) \<Longrightarrow> socks cx ! m = k \<Longrightarrow> socks cx' = fill_gap (socks cx) m"
    "listen_service_fd cx' = listen_service_fd cx"
proof (cases "fds_count cx = 1")
  case True
  then show ?thesis using that[OF remove_last(1-4)[OF ok E k True]] remove_last(5)[OF ok E k True] length_socks[OF ok] remove_frame(1,2)[OF E]
    by (simp add: fill_gap_def butlast_conv_take)
next
  case False
  have "0 < length (socks cx)" using table_mapE[OF ok k] by (metis gr_zeroI less_zeroE)
  then have "1 < fds_count cx" using False length_socks[OF ok] by simp
  from remove_inner[OF ok E k this] obtain q m where r: "remove_wsi_socket_from_fds E p cx = Some (0, after_remove E p q k m cx)"
    "table_ok (after_remove E p q k m cx)" "table_map (after_remove E p q k m cx) = (table_map cx)(k := None)"
    "sock_of (after_remove E p q k m cx) = sock_of cx" "m < length (socks cx)" "socks cx ! m = k" by blast
  note sk = after_remove_socks(1)[OF ok \<open>1 < fds_count cx\<close> r(5)]
  have "length (socks (after_remove E p q k m cx)) + 1 = length (socks cx)"
    using sk \<open>0 < length (socks cx)\<close> by simp
  moreover have "j = m" if "j < length (socks cx)" "socks cx ! j = k" for j using that r(5,6) distinct_socks[OF ok] nth_eq_iff_index_eq by metis
  moreover have "max_fds (after_remove E p q k m cx) = max_fds cx" "closed (after_remove E p q k m cx) = closed cx"
    "listen_service_fd (after_remove E p q k m cx) = listen_service_fd cx" by (simp_all add: after_remove_def)
  ultimately show ?thesis using that[OF r(1-4)] remove_frame(3,4)[OF E] sk by metis
qed

section \<open>The interface of the table\<close>

text \<open>
  What the rest of the library relies on. The specification is a finite map from sockets to connections, with \<open>key\<close> the socket of each connection:
  a connection can be added unless its socket is taken or too high, and taken out when it is there.
\<close>

datatype table_op = Add nat | Del nat

definition spec_op :: "(nat \<Rightarrow> int option) \<Rightarrow> int \<Rightarrow> table_op \<Rightarrow> (int \<rightharpoonup> nat) \<Rightarrow> (int \<rightharpoonup> nat) option" where
  "spec_op key lim x mp = (case x of
     Add p \<Rightarrow> do { k \<leftarrow> key p; if 0 \<le> k \<and> k < lim \<and> mp k = None then Some (mp(k \<mapsto> p)) else None }
   | Del p \<Rightarrow> do { k \<leftarrow> key p; if mp k = Some p then Some (mp(k := None)) else None })"

fun run_ops :: "('x \<Rightarrow> 't \<Rightarrow> 't option) \<Rightarrow> 'x list \<Rightarrow> 't \<Rightarrow> 't option" where
  "run_ops f [] t = Some t"
| "run_ops f (x # xs) t = do { t \<leftarrow> f x t; run_ops f xs t }"

definition code_op :: "(nat \<Rightarrow> 't \<Rightarrow> (int \<times> 't) option) \<Rightarrow> (nat \<Rightarrow> 't \<Rightarrow> (int \<times> 't) option) \<Rightarrow> table_op \<Rightarrow> 't \<Rightarrow> 't option" where
  "code_op ins del x t = do { (r, t) \<leftarrow> (case x of Add p \<Rightarrow> ins p t | Del p \<Rightarrow> del p t); if r = 0 then Some t else None }"

text \<open>Taking out connection after connection, as \<open>pick\<close> chooses them.\<close>

fun drain :: "(nat \<Rightarrow> 't \<Rightarrow> 't option) \<Rightarrow> ('t \<Rightarrow> nat) \<Rightarrow> nat \<Rightarrow> 't \<Rightarrow> 't option" where
  "drain close pick 0 t = Some t"
| "drain close pick (Suc n) t = do { t \<leftarrow> close (pick t) t; drain close pick n t }"

locale fd_close =
  fixes ok :: "'t \<Rightarrow> bool" and tab :: "'t \<Rightarrow> int \<Rightarrow> nat option" and close :: "nat \<Rightarrow> 't \<Rightarrow> 't option"
  assumes close_law: "ok t \<Longrightarrow> tab t k = Some p \<Longrightarrow> \<exists>t'. close p t = Some t' \<and> ok t' \<and> tab t' = (tab t)(k := None)"
    and tab_finite: "ok t \<Longrightarrow> finite (dom (tab t))"
begin

lemma drain_empties:
  assumes "ok t" "\<And>t. ok t \<Longrightarrow> tab t \<noteq> Map.empty \<Longrightarrow> pick t \<in> ran (tab t)" "card (dom (tab t)) = n"
  shows "\<exists>t'. drain close pick n t = Some t' \<and> ok t' \<and> tab t' = Map.empty"
  using assms(1,3)
proof (induction n arbitrary: t)
  case 0
  then show ?case using tab_finite[OF 0(1)] by simp
next
  case (Suc n)
  have "tab t \<noteq> Map.empty" using Suc.prems(2) by auto
  then obtain k where k: "tab t k = Some (pick t)" using assms(2)[OF Suc.prems(1)] by (auto simp: ran_def)
  obtain t' where t': "close (pick t) t = Some t'" "ok t'" "tab t' = (tab t)(k := None)" using close_law[OF Suc.prems(1) k] by blast
  have "card (dom (tab t')) = n" using t'(3) k Suc.prems(2) by (simp add: dom_fun_upd card_Diff_singleton domI)
  from Suc.IH[OF t'(2) this] show ?case using t'(1) by simp
qed

end

text \<open>Closing that also gives things back: \<open>out\<close> is what has been given back so far, \<open>held\<close> what a connection holds, \<open>gone\<close> the memory that is free.\<close>

locale fd_dispose = fd_close ok tab close for ok :: "'t \<Rightarrow> bool" and tab close +
  fixes out :: "'t \<Rightarrow> int multiset" and held :: "'t \<Rightarrow> int \<Rightarrow> int multiset" and gone :: "'t \<Rightarrow> nat set"
  assumes dispose_law: "ok t \<Longrightarrow> tab t k = Some p \<Longrightarrow> close p t = Some t' \<Longrightarrow>
      out t' = out t + held t k \<and> (\<forall>j \<in> dom (tab t) - {k}. held t' j = held t j) \<and> gone t' = insert p (gone t)"
begin

lemma drain_disposes:
  assumes "ok t" "\<And>t. ok t \<Longrightarrow> tab t \<noteq> Map.empty \<Longrightarrow> pick t \<in> ran (tab t)" "card (dom (tab t)) = n" "drain close pick n t = Some t'"
  shows "out t' = out t + (\<Sum>k \<in> dom (tab t). held t k) \<and> ran (tab t) \<subseteq> gone t' \<and> gone t \<subseteq> gone t'"
  using assms(1,3,4)
proof (induction n arbitrary: t)
  case 0
  then have "dom (tab t) = {}" using tab_finite[OF 0(1)] by simp
  then show ?case using 0 by simp
next
  case (Suc n)
  have "tab t \<noteq> Map.empty" using Suc.prems(2) by auto
  then obtain k where k: "tab t k = Some (pick t)" using assms(2)[OF Suc.prems(1)] by (auto simp: ran_def)
  obtain u where u: "close (pick t) t = Some u" "ok u" "tab u = (tab t)(k := None)" using close_law[OF Suc.prems(1) k] by blast
  note d = dispose_law[OF Suc.prems(1) k u(1)]
  have du: "dom (tab u) = dom (tab t) - {k}" using u(3) by simp
  have "card (dom (tab u)) = n" using du k Suc.prems(2) by (simp add: card_Diff_singleton domI)
  from Suc.IH[OF u(2) this] have IH: "out t' = out u + (\<Sum>j \<in> dom (tab u). held u j)" "ran (tab u) \<subseteq> gone t'" "gone u \<subseteq> gone t'"
    using Suc.prems(3) u(1) by auto
  have "(\<Sum>j \<in> dom (tab u). held u j) = (\<Sum>j \<in> dom (tab t) - {k}. held t j)" unfolding du using d by (intro sum.cong) auto
  then have "out t' = out t + (\<Sum>k \<in> dom (tab t). held t k)"
    using IH(1) d sum.remove[OF tab_finite[OF Suc.prems(1)] domI[of "tab t", OF k], of "held t"] by simp
  moreover have "ran (tab t) \<subseteq> insert (pick t) (ran (tab u))" 
  proof
    fix x
    assume "x \<in> ran (tab t)"
    then obtain a where "tab t a = Some x" by (auto simp: ran_def)
    then show "x \<in> insert (pick t) (ran (tab u))" using u(3) k ranI[of "tab u" a x] by (cases "a = k") auto
  qed
  ultimately show ?case using IH(2,3) d by auto
qed

end

locale fd_map =
  fixes ok :: "'t \<Rightarrow> bool" and tab :: "'t \<Rightarrow> int \<Rightarrow> nat option" and key :: "'t \<Rightarrow> nat \<Rightarrow> int option" and lim :: "'t \<Rightarrow> int"
    and ins del :: "nat \<Rightarrow> 't \<Rightarrow> (int \<times> 't) option"
  assumes ins_law: "ok t \<Longrightarrow> key t p = Some k \<Longrightarrow> 0 \<le> k \<Longrightarrow> k < lim t \<Longrightarrow> tab t k = None \<Longrightarrow>
      \<exists>t'. ins p t = Some (0, t') \<and> ok t' \<and> tab t' = (tab t)(k \<mapsto> p) \<and> key t' = key t \<and> lim t' = lim t"
    and del_law: "ok t \<Longrightarrow> tab t k = Some p \<Longrightarrow>
      \<exists>t'. del p t = Some (0, t') \<and> ok t' \<and> tab t' = (tab t)(k := None) \<and> key t' = key t \<and> lim t' = lim t"
    and dom_law: "ok t \<Longrightarrow> finite (dom (tab t))"
begin

lemma op_refines:
  assumes "ok t" "spec_op (key t) (lim t) x (tab t) = Some m"
  shows "\<exists>t'. code_op ins del x t = Some t' \<and> ok t' \<and> tab t' = m \<and> key t' = key t \<and> lim t' = lim t"
  using assms ins_law[OF assms(1)] del_law[OF assms(1)]
  by (cases x) (fastforce simp: spec_op_def code_op_def split: Option.bind_splits if_splits)+

lemma ops_refine:
  assumes "ok t" "run_ops (spec_op (key t) (lim t)) xs (tab t) = Some m"
  shows "\<exists>t'. run_ops (code_op ins del) xs t = Some t' \<and> ok t' \<and> tab t' = m \<and> key t' = key t \<and> lim t' = lim t"
  using assms
proof (induction xs arbitrary: t)
  case (Cons x xs)
  from Cons.prems(2) obtain m1 where m1: "spec_op (key t) (lim t) x (tab t) = Some m1" "run_ops (spec_op (key t) (lim t)) xs m1 = Some m"
    by (auto split: Option.bind_splits)
  obtain t1 where t1: "code_op ins del x t = Some t1" "ok t1" "tab t1 = m1" "key t1 = key t" "lim t1 = lim t"
    using op_refines[OF Cons.prems(1) m1(1)] by blast
  from Cons.IH[OF t1(2)] m1(2) t1(3-5) show ?case using t1(1,4,5) by simp
qed simp

end

sublocale fd_map \<subseteq> fd_close ok tab "\<lambda>p t. map_option snd (del p t)"
  by unfold_locales (use del_law dom_law in fastforce)+

text \<open>There is always room for a socket below \<open>max_fds\<close> that is not in the table.\<close>

lemma table_room:
  assumes "table_ok cx" "0 \<le> k" "k < max_fds cx" "table_map cx k = None"
  shows "fds_count cx < max_fds cx"
proof -
  have "set (socks cx) \<subseteq> {0..<max_fds cx} - {k}"
    using socks_range[OF assms(1)] dom_table_map[OF assms(1)] assms(4) by auto
  then have "card (set (socks cx)) \<le> card ({0..<max_fds cx} - {k})" by (rule card_mono[rotated]) simp
  also have "\<dots> = nat (max_fds cx) - 1" using assms(2,3) by (simp add: card_Diff_singleton)
  finally have "length (socks cx) \<le> nat (max_fds cx) - 1" using distinct_card[OF distinct_socks[OF assms(1)]] by simp
  then show ?thesis using length_socks[OF assms(1)] assms(2,3) by linarith
qed

interpretation poll: fd_map "\<lambda>cx. slot_safe E \<and> table_ok cx" table_map sock_of max_fds
    "insert_wsi_socket_into_fds E" "remove_wsi_socket_from_fds E" for E :: "'u env"
proof
  fix cx :: "'u lws_context" and k p
  assume ok: "slot_safe E \<and> table_ok cx"
  show "finite (dom (table_map cx))" using dom_table_map[of cx] ok by simp
  show "\<exists>cx'. remove_wsi_socket_from_fds E p cx = Some (0, cx') \<and> (slot_safe E \<and> table_ok cx') \<and>
      table_map cx' = (table_map cx)(k := None) \<and> sock_of cx' = sock_of cx \<and> max_fds cx' = max_fds cx" if "table_map cx k = Some p"
    using remove_ok[of cx E k p] ok that by metis
  show "\<exists>cx'. insert_wsi_socket_into_fds E p cx = Some (0, cx') \<and> (slot_safe E \<and> table_ok cx') \<and>
      table_map cx' = (table_map cx)(k \<mapsto> p) \<and> sock_of cx' = sock_of cx \<and> max_fds cx' = max_fds cx"
    if "sock_of cx p = Some k" "0 \<le> k" "k < max_fds cx" "table_map cx k = None"
    using insert_ok[of cx E p _ k] table_room[of cx k] ok that by (auto simp: sock_of_def) metis
qed

section \<open>Properties\<close>

definition sample_session :: "int \<Rightarrow> byte list list session" where
  "sample_session k = \<lparr>s_wsi = (zero_lws sample_protocol [])\<lparr>sock := k\<rparr>, pending_timeout = NO_PENDING_TIMEOUT, pending_timeout_limit = 0,
     http_fd = 0, http_filepos = 0, http_filelen = 0\<rparr>"

text \<open>A context after \<open>libwebsocket_create_context\<close> without a port, and three connections that are not in the table yet.\<close>

definition empty_context :: "int \<Rightarrow> (nat \<rightharpoonup> 'u session) \<Rightarrow> 'u lws_context" where
  "empty_context n mem = \<lparr>fds = replicate (nat n) \<lparr>pfd_fd = 0, pfd_revents = 0\<rparr>, lws_lookup = replicate (nat n) None, fds_count = 0, max_fds = n,
     last_timeout_check_s = 0, service_buffer = replicate LWS_MAX_SOCKET_IO_BUF 0, listen_service_modulo = 0, listen_service_count = 0,
     listen_service_fd = 0, listen_service_extraseen = 0, http_proxy_address = [], http_proxy_port = 0, ka_time = 0, sys_no = 0, wsis = mem, closed = [],
     dangling = False\<rparr>"

definition sample_context :: "byte list list lws_context" where
  "sample_context = empty_context 8 [0 \<mapsto> sample_session 3, 1 \<mapsto> sample_session 5, 2 \<mapsto> sample_session 6]"

lemma empty_table: "0 \<le> n \<Longrightarrow> table_ok (empty_context n mem)" "table_map (empty_context n mem) = Map.empty"
  by (auto simp: table_ok_def socks_def empty_context_def table_map_def fun_eq_iff)

lemma sample_socks:
  "sock_of sample_context 0 = Some 3" "sock_of sample_context (Suc 0) = Some 5" "sock_of sample_context 2 = Some 6"
  "max_fds sample_context = 8"
  by (simp_all add: sample_context_def sock_of_def empty_context_def sample_session_def)

lemma sample_table: "table_map sample_context = Map.empty" "table_ok sample_context"
  by (simp_all add: sample_context_def empty_table)

lemma hs_env_slots: "slot_safe hs_env"
  by (simp add: slot_safe_def hs_env_def log_env_def sample_env_def slot_def)

text \<open>
  C9. The poll table implements a finite map from sockets to connections: any sequence of additions and removals that the map allows runs through, within
  the bounds of the arrays and with live pointers only, and leaves a well-formed table that stands for the map's result.
\<close>

theorem table_refines_map:
  assumes "slot_safe E" "table_ok cx" "run_ops (spec_op (sock_of cx) (max_fds cx)) xs (table_map cx) = Some m"
  shows "\<exists>cx'. run_ops (code_op (insert_wsi_socket_into_fds E) (remove_wsi_socket_from_fds E)) xs cx = Some cx' \<and>
     table_ok cx' \<and> table_map cx' = m"
  using poll.ops_refine[of E cx xs m] assms by auto

theorem table_refines_map_witness:
  "\<exists>cx'. run_ops (code_op (insert_wsi_socket_into_fds hs_env) (remove_wsi_socket_from_fds hs_env)) [Add 0, Add 1, Add 2, Del 0] sample_context = Some cx' \<and>
     table_ok cx' \<and> table_map cx' = [5 \<mapsto> 1, 6 \<mapsto> 2]"
proof -
  have "run_ops (spec_op (sock_of sample_context) (max_fds sample_context)) [Add 0, Add 1, Add 2, Del 0] (table_map sample_context)
      = Some [5 \<mapsto> 1, 6 \<mapsto> 2]"
    by (simp add: sample_socks sample_table spec_op_def fun_upd_twist[of 3])
  then show ?thesis by (rule table_refines_map[OF hs_env_slots sample_table(2)])
qed

end
