(* ===== verification/Client_Handshake.thy ===== *)
theory Client_Handshake
  imports Server_Handshake
begin

text \<open>
  \<^verbatim>\<open>lib/client.c\<close>: the client's request and its reading of the server's answer, in the build without TLS, and the stashing of the request's
  strings by \<open>libwebsocket_client_connect\<close>. At the end the two handshakes are run against each other.
\<close>

section \<open>The request\<close>

text \<open>
  The strings \<open>libwebsocket_client_connect\<close> keeps in the header table, in its order; \<open>origin\<close> and \<open>protocol\<close> may be null
  pointers.
\<close>

definition connect_strings :: "byte list \<Rightarrow> byte list \<Rightarrow> byte list \<Rightarrow> byte list option \<Rightarrow> byte list option \<Rightarrow> (nat \<times> byte list) list" where
  "connect_strings address path host origin prot = [(WSI_TOKEN_CLIENT_PEER_ADDRESS, address), (WSI_TOKEN_CLIENT_URI, path),
     (WSI_TOKEN_CLIENT_HOST, host)] @ (case origin of None \<Rightarrow> [] | Some s \<Rightarrow> [(WSI_TOKEN_CLIENT_ORIGIN, s)]) @
     (case prot of None \<Rightarrow> [] | Some s \<Rightarrow> [(WSI_TOKEN_CLIENT_SENT_PROTOCOLS, s)])"

text \<open>\<open>sprintf(p, "%d", v)\<close>.\<close>

fun c_digits :: "nat \<Rightarrow> byte list" where
  "c_digits n = (if n < 10 then [] else c_digits (n div 10)) @ [of_nat (48 + n mod 10)]"

declare c_digits.simps [simp del]

definition c_dec :: "int \<Rightarrow> byte list" where
  "c_dec v = (if v < 0 then 45 # c_digits (nat (- v)) else c_digits (nat v))"

text \<open>Does any extension veto the one called \<open>name\<close>? All are asked.\<close>

fun ext_veto :: "'u env \<Rightarrow> byte list \<Rightarrow> nat list \<Rightarrow> 'u lws \<Rightarrow> bool \<times> 'u lws" where
  "ext_veto E name [] wsi = (False, wsi)"
| "ext_veto E name (j # js) wsi = (case ext_cb E j LWS_EXT_CALLBACK_CHECK_OK_TO_PROPOSE_EXTENSION
       \<lparr>tok_mem = name @ [0], tok_off = 0, tok_len = 0, tok_moved = False\<rparr> wsi of (n, _, wsi) \<Rightarrow>
     case ext_veto E name js wsi of (v, wsi) \<Rightarrow> (n \<noteq> 0 \<or> v, wsi))"

fun propose :: "'u hs_context \<Rightarrow> 'u env \<Rightarrow> byte list list \<Rightarrow> nat \<Rightarrow> byte list \<times> nat \<Rightarrow> 'u lws \<Rightarrow> ((byte list \<times> nat) \<times> 'u lws) option" where
  "propose C E [] cnt bp wsi = Some (bp, wsi)"
| "propose C E (x # xs) cnt bp wsi = (case ext_veto E x [0..<length (hs_extensions C)] wsi of (v, wsi) \<Rightarrow>
     if v then propose C E xs cnt bp wsi
     else case confirm_ext C LWS_CALLBACK_CLIENT_CONFIRM_EXTENSION_SUPPORTED x wsi of (n, wsi) \<Rightarrow>
       if n \<noteq> 0 then propose C E xs cnt bp wsi
       else do { bp \<leftarrow> (if cnt \<noteq> 0 then do { b \<leftarrow> wr (fst bp) (snd bp) 44; Some (b, snd bp + 1) } else Some bp);
                 bp \<leftarrow> cpyapp x bp; propose C E xs (cnt + 1) bp wsi })"

text \<open>A line with a string from the header table; a null pointer for \<open>%s\<close> is undefined.\<close>

definition hdr_text :: "allocated_headers \<Rightarrow> nat \<Rightarrow> byte list option" where
  "hdr_text ah t = do { s \<leftarrow> hdr_string ah t; s }"

definition cpy_optional :: "allocated_headers \<Rightarrow> nat \<Rightarrow> byte list \<Rightarrow> byte list \<times> nat \<Rightarrow> (byte list \<times> nat) option" where
  "cpy_optional ah t name bp = do { s \<leftarrow> hdr_string ah t;
     case s of None \<Rightarrow> Some bp | Some v \<Rightarrow> cpyapp (name @ v @ crlf) bp }"

text \<open>
  The request is built in the service buffer; the result is the buffer and the length. Without sixteen random bytes the connection is closed
  and freed here and again by the caller.
\<close>

definition libwebsockets_generate_client_handshake :: "'u hs_context \<Rightarrow> 'u env \<Rightarrow> byte list \<Rightarrow> 'u lws \<Rightarrow> ((byte list \<times> nat) \<times> 'u lws) option" where
  "libwebsockets_generate_client_handshake C E sb wsi = do { ah \<leftarrow> hdr_ah (u_hdr wsi);
     hash \<leftarrow> Some (os_random E (sys_calls wsi) 16);
     wsi \<leftarrow> Some (wsi\<lparr>sys_calls := sys_calls wsi + 1\<rparr>);
     if length hash \<noteq> 16 then None
     else do { key_b64 \<leftarrow> Some (cstr (snd (lws_b64_encode_string hash 40)));
       uri \<leftarrow> hdr_text ah WSI_TOKEN_CLIENT_URI;
       bp \<leftarrow> cpyapp (bytes ''GET '' @ uri @ bytes '' HTTP/1.1'' @ crlf) (sb, 0);
       bp \<leftarrow> cpyapp (bytes ''Pragma: no-cache'' @ crlf @ bytes ''Cache-Control: no-cache'' @ crlf) bp;
       host \<leftarrow> hdr_text ah WSI_TOKEN_CLIENT_HOST;
       bp \<leftarrow> cpyapp (bytes ''Host: '' @ host @ crlf) bp;
       bp \<leftarrow> cpyapp (bytes ''Upgrade: websocket'' @ crlf @ bytes ''Connection: Upgrade'' @ crlf @ bytes ''Sec-WebSocket-Key: '') bp;
       bp \<leftarrow> cpyapp key_b64 bp;
       bp \<leftarrow> cpyapp crlf bp;
       bp \<leftarrow> cpy_optional ah WSI_TOKEN_CLIENT_ORIGIN (bytes ''Origin: http://'') bp;
       bp \<leftarrow> cpy_optional ah WSI_TOKEN_CLIENT_SENT_PROTOCOLS (bytes ''Sec-WebSocket-Protocol: '') bp;
       bp \<leftarrow> cpyapp (bytes ''Sec-WebSocket-Extensions: '') bp;
       (bp, wsi) \<leftarrow> propose C E (hs_extensions C) 0 bp wsi;
       bp \<leftarrow> cpyapp crlf bp;
       bp \<leftarrow> (if ietf_spec_revision wsi \<noteq> 0
              then cpyapp (bytes ''Sec-WebSocket-Version: '' @ c_dec (uint (ietf_spec_revision wsi)) @ crlf) bp else Some bp);
       (hdrs, wsi) \<leftarrow> Some (append_hdrs C (int LWS_MAX_SOCKET_IO_BUF - int (snd bp) - 12) wsi);
       bp \<leftarrow> cpyapp hdrs bp;
       bp \<leftarrow> cpyapp crlf bp;
       hash_b64 \<leftarrow> blit (initial_handshake_hash_base64 ah) 0 (snd (accept_key key_b64 (int (length (initial_handshake_hash_base64 ah)))));
       Some (bp, set_ah (ah\<lparr>initial_handshake_hash_base64 := hash_b64\<rparr>) wsi) } }"

text \<open>
  The case \<open>LWS_CONNMODE_WS_CLIENT_ISSUE_HANDSHAKE\<close> of \<open>lws_client_socket_service\<close>. A short count from \<open>send\<close> is not
  looked at. After a negative one the connection is closed; the first component tells whether it is still there.
\<close>

definition issue_handshake :: "'u hs_context \<Rightarrow> 'u env \<Rightarrow> byte list \<Rightarrow> 'u lws \<Rightarrow> (bool \<times> 'u lws) option" where
  "issue_handshake C E sb wsi = do { ((b, p), wsi) \<leftarrow> libwebsockets_generate_client_handshake C E sb wsi;
     n \<leftarrow> Some (os_send E (sys_calls wsi) (take p b));
     wsi \<leftarrow> Some (wsi\<lparr>sys_calls := sys_calls wsi + 1\<rparr>);
     if n < 0 then Some (False, wsi)
     else Some (True, upd_hdr (\<lambda>hd. hd\<lparr>parser_state := WSI_TOKEN_NAME_PART, lextable_pos := 0\<rparr>)
       (wsi\<lparr>wire := wire wsi @ take (nat n) (take p b), mode := LWS_CONNMODE_WS_CLIENT_WAITING_SERVER_REPLY\<rparr>)) }"

section \<open>The answer\<close>

definition c_tolower :: "byte \<Rightarrow> byte" where
  "c_tolower c = (if 65 \<le> c \<and> c \<le> 90 then c + 32 else c)"

function strtolower :: "byte list \<Rightarrow> nat \<Rightarrow> byte list option" where
  "strtolower b i = do { c \<leftarrow> rd b i; if c = 0 then Some b else strtolower (b[i := c_tolower c]) (i + 1) }"
  by pat_completeness auto
termination
  by (relation "measure (\<lambda>(b, i). length b - i)") (auto simp: rd_eq_Some_iff)

declare strtolower.simps [simp del]

text \<open>
  A header that has to be there, put into lower case and compared. The inner \<open>None\<close> is a header that is missing or different; the table is
  changed in place.
\<close>

definition expect_lower :: "nat \<Rightarrow> byte list \<Rightarrow> allocated_headers \<Rightarrow> (bool \<times> allocated_headers) option" where
  "expect_lower t want ah = do { p \<leftarrow> lws_hdr_simple_ptr ah t;
     case p of None \<Rightarrow> Some (False, ah)
     | Some i \<Rightarrow> do { d \<leftarrow> strtolower (ah_data ah) i; s \<leftarrow> c_string_at d i; Some (s = want, ah\<lparr>ah_data := d\<rparr>) } }"

text \<open>Is \<open>p\<close> one of the protocols offered in the list at \<open>pc\<close>? After a blank the comparison starts at the blank.\<close>

function offered :: "byte list \<Rightarrow> byte list \<Rightarrow> bool" where
  "offered p pc = (if pc = [] then False
     else if take (length p) pc = p \<and> (length pc = length p \<or> pc ! length p = 44) then True
     else offered p (dropWhile (\<lambda>c. c \<noteq> 32) (dropWhile (\<lambda>c. c \<noteq> 44) pc)))"
  by pat_completeness auto

lemma length_skip_name:
  "pc \<noteq> [] \<Longrightarrow> length (dropWhile (\<lambda>c. c \<noteq> 32) (dropWhile (\<lambda>c. c \<noteq> 44) pc)) < length (pc :: byte list)"
proof -
  assume a: "pc \<noteq> []"
  let ?q = "dropWhile (\<lambda>c. c \<noteq> 44) pc"
  show ?thesis
  proof (cases ?q)
    case (Cons c cs)
    have "c = 44" using hd_dropWhile[of "\<lambda>c. c \<noteq> 44" pc] Cons by auto
    then have "length (dropWhile (\<lambda>c. c \<noteq> 32) ?q) < length ?q"
      using Cons length_dropWhile_le[of "\<lambda>c. c \<noteq> 32" cs] by simp
    then show ?thesis using length_dropWhile_le[of "\<lambda>c. c \<noteq> 44" pc] by simp
  next
    case Nil
    show ?thesis unfolding Nil using a by simp
  qed
qed

termination offered
  by (relation "measure (\<lambda>(p, pc). length pc)") (auto simp: length_skip_name)

declare offered.simps [simp del]

text \<open>The extensions of the context called \<open>name\<close> are set up; the first component is \<open>n\<close>, 2 stands for the failed \<open>malloc\<close>.\<close>

fun ext_setup :: "'u env \<Rightarrow> byte list \<Rightarrow> (nat \<times> byte list) list \<Rightarrow> nat \<Rightarrow> 'u lws \<Rightarrow> (nat \<times> 'u lws) option" where
  "ext_setup E name [] n wsi = Some (n, wsi)"
| "ext_setup E name ((j, x) # xs) n wsi =
    (if name \<noteq> x then ext_setup E name xs n wsi
     else if length (active_extensions wsi) \<ge> LWS_MAX_EXTENSIONS_ACTIVE then None
     else let got = os_malloc E (sys_calls wsi); wsi = wsi\<lparr>sys_calls := sys_calls wsi + 1\<rparr> in
       if \<not> got then Some (2, wsi)
       else let wsi = wsi\<lparr>active_extensions := active_extensions wsi @ [j]\<rparr>;
                (_, _, wsi) = ext_cb E j LWS_EXT_CALLBACK_CLIENT_CONSTRUCT no_tokens wsi
            in ext_setup E name xs 1 wsi)"

text \<open>The server's list of extensions, a C string.\<close>

fun ext_accept :: "'u hs_context \<Rightarrow> 'u env \<Rightarrow> byte list \<Rightarrow> byte list \<Rightarrow> 'u lws \<Rightarrow> (bool \<times> 'u lws) option" where
  "ext_accept C E [] name wsi = do { (n, wsi) \<leftarrow> ext_setup E name (enumerate 0 (hs_extensions C)) 0 wsi; Some (n = 1, wsi) }"
| "ext_accept C E (ch # s) name wsi =
    (if ext_char ch then ext_accept C E s (ext_name_char name ch) wsi
     else if name = [] then ext_accept C E s [] wsi
     else do { (n, wsi) \<leftarrow> ext_setup E name (enumerate 0 (hs_extensions C)) 0 wsi;
       if n = 1 then ext_accept C E s [] wsi else Some (False, wsi) })"

definition check_extensions :: "'u hs_context \<Rightarrow> 'u env \<Rightarrow> byte list \<Rightarrow> allocated_headers \<Rightarrow> 'u lws \<Rightarrow> (bool \<times> 'u lws) option" where
  "check_extensions C E sb ah wsi = do { len \<leftarrow> lws_hdr_total_length ah WSI_TOKEN_EXTENSIONS;
     if len = 0 then Some (True, wsi)
     else do { (n, b) \<leftarrow> lws_hdr_copy ah sb (int LWS_MAX_SOCKET_IO_BUF) WSI_TOKEN_EXTENSIONS;
       if n < 0 then Some (False, wsi)
       else do { s \<leftarrow> c_string_at b 0; ext_accept C E s [] wsi } } }"

text \<open>
  The label \<open>bail2\<close>: the user code is told, then the connection is closed. \<open>bail3\<close> comes before it and differs in the close reason; the result 2
  stands for it, where the code returns 1 too.
\<close>

definition hs_bail :: "'u env \<Rightarrow> 'u lws \<Rightarrow> int \<times> 'u lws" where
  "hs_bail E wsi = (1, snd (user_cb E LWS_CALLBACK_CLIENT_CONNECTION_ERROR [] wsi))"

text \<open>All extensions of the context are told that the connection is up.\<close>

fun ext_tell :: "'u env \<Rightarrow> nat list \<Rightarrow> 'u lws \<Rightarrow> 'u lws" where
  "ext_tell E [] wsi = wsi"
| "ext_tell E (j # js) wsi = ext_tell E js (snd (snd (ext_cb E j LWS_EXT_CALLBACK_ANY_WSI_ESTABLISHED no_tokens wsi)))"

text \<open>From \<open>check_accept\<close> on; the table is released.\<close>

definition check_accept :: "'u hs_context \<Rightarrow> 'u env \<Rightarrow> allocated_headers \<Rightarrow> 'u lws \<Rightarrow> (int \<times> 'u lws) option" where
  "check_accept C E ah wsi = do { p \<leftarrow> hdr_text ah WSI_TOKEN_ACCEPT;
     expected \<leftarrow> c_string_at (initial_handshake_hash_base64 ah) 0;
     if p \<noteq> expected then Some (hs_bail E wsi)
     else let (r, wsi) = libwebsocket_ensure_user_space C E wsi in
       if r \<noteq> 0 then Some (hs_bail E wsi)
       else let wsi = snd (user_cb E LWS_CALLBACK_CLIENT_FILTER_PRE_ESTABLISH [] wsi);
                (okay, wsi) = open_ws C E (wsi\<lparr>state := WSI_STATE_ESTABLISHED, mode := LWS_CONNMODE_WS_CLIENT\<rparr>) in
         if \<not> okay then (if rx_user_buffer (u_ws wsi) = None then Some (hs_bail E wsi)
           else Some (2, snd (hs_bail E (upd_ws (\<lambda>w. w\<lparr>rx_user_buffer := None\<rparr>) wsi))))
         else Some (0, ext_tell E [0..<length (hs_extensions C)] (snd (user_cb E LWS_CALLBACK_CLIENT_ESTABLISHED [] wsi))) }"

text \<open>Which protocol the server chose: \<open>Inl\<close> gives up, without a call of the user code when no protocol is left.\<close>

definition server_choice :: "'u hs_context \<Rightarrow> allocated_headers \<Rightarrow> (bool + libwebsocket_protocols) option" where
  "server_choice C ah = do { pc \<leftarrow> hdr_string ah WSI_TOKEN_CLIENT_SENT_PROTOCOLS;
     len \<leftarrow> lws_hdr_total_length ah WSI_TOKEN_PROTOCOL;
     if len = 0 then (case hs_protocols C of [] \<Rightarrow> None | pr # _ \<Rightarrow> Some (Inr pr))
     else do { p \<leftarrow> hdr_text ah WSI_TOKEN_PROTOCOL; pc \<leftarrow> pc;
       if \<not> offered p pc then Some (Inl True)
       else case List.find (\<lambda>pr. p = protocol_name pr) (hs_protocols C) of
         None \<Rightarrow> Some (Inl False) | Some pr \<Rightarrow> Some (Inr pr) } }"

definition lws_client_interpret_server_handshake :: "'u hs_context \<Rightarrow> 'u env \<Rightarrow> byte list \<Rightarrow> 'u lws \<Rightarrow> (int \<times> 'u lws) option" where
  "lws_client_interpret_server_handshake C E sb wsi = do { ah \<leftarrow> hdr_ah (u_hdr wsi);
     alen \<leftarrow> lws_hdr_total_length ah WSI_TOKEN_ACCEPT;
     status \<leftarrow> (if alen = 0 then Some None else hdr_string ah WSI_TOKEN_HTTP);
     if status = None \<or> take 3 (the status) \<noteq> bytes ''101'' then Some (hs_bail E wsi)
     else do { (up, ah) \<leftarrow> expect_lower WSI_TOKEN_UPGRADE (bytes ''websocket'') ah;
       if \<not> up then Some (hs_bail E (set_ah ah wsi))
       else do { (con, ah) \<leftarrow> expect_lower WSI_TOKEN_CONNECTION (bytes ''upgrade'') ah;
         wsi \<leftarrow> Some (set_ah ah wsi);
         if \<not> con then Some (hs_bail E wsi)
         else do { choice \<leftarrow> server_choice C ah;
           case choice of Inl told \<Rightarrow> Some (if told then hs_bail E wsi else (1, wsi))
           | Inr pr \<Rightarrow> do { (okay, wsi) \<leftarrow> check_extensions C E sb ah (wsi\<lparr>protocol := pr\<rparr>);
               if \<not> okay then Some (hs_bail E wsi) else check_accept C E ah wsi } } } } }"

text \<open>
  The bytewise reading of the answer. \<open>inp\<close> is what the socket has, \<open>fin\<close> what \<open>recv\<close> returns after it: negative when there is
  nothing (more) to read, 0 at the end of the stream, when the last byte is parsed once more. The last component is what is left unread.
\<close>

fun recv_reply :: "byte option \<Rightarrow> int \<Rightarrow> byte list \<Rightarrow> 'u lws \<Rightarrow> (int \<times> 'u lws \<times> byte list) option" where
  "recv_reply c fin inp wsi = (if parser_state (u_hdr wsi) = WSI_PARSING_COMPLETE then Some (0, wsi, inp)
     else case inp of
       ch # s \<Rightarrow> do { (r, wsi) \<leftarrow> libwebsocket_parse wsi ch; if r \<noteq> 0 then Some (-1, wsi, s) else recv_reply (Some ch) fin s wsi }
     | [] \<Rightarrow> if fin < 0 then Some (-1, wsi, []) else do { ch \<leftarrow> c; (r, wsi) \<leftarrow> libwebsocket_parse wsi ch; Some (if r \<noteq> 0 then -1 else 0, wsi, []) })"

declare recv_reply.simps [simp del]

text \<open>The case \<open>LWS_CONNMODE_WS_CLIENT_WAITING_SERVER_REPLY\<close> of \<open>lws_client_socket_service\<close>, called with data to read.\<close>

definition server_reply :: "'u hs_context \<Rightarrow> 'u env \<Rightarrow> byte list \<Rightarrow> int \<Rightarrow> byte list \<Rightarrow> 'u lws \<Rightarrow> (int \<times> 'u lws \<times> byte list) option" where
  "server_reply C E sb fin inp wsi = do { (r, wsi, rest) \<leftarrow> recv_reply None fin inp wsi;
     if r \<noteq> 0 then Some (-1, wsi, rest)
     else if parser_state (u_hdr wsi) \<noteq> WSI_PARSING_COMPLETE then Some (0, wsi, rest)
     else do { (r, wsi) \<leftarrow> lws_client_interpret_server_handshake C E sb wsi; Some (r, wsi, rest) } }"

section \<open>The request that is sent\<close>

text \<open>Extensions that leave the connection alone, and user code that refuses them all and adds no headers, as that of the game client.\<close>

definition ext_quiet :: "'u env \<Rightarrow> bool" where
  "ext_quiet E \<longleftrightarrow> (\<forall>j r tok w. snd (snd (ext_cb E j r tok w)) = w)"

definition no_extras :: "'u hs_context \<Rightarrow> bool" where
  "no_extras C \<longleftrightarrow> (\<forall>x w. fst (confirm_ext C LWS_CALLBACK_CLIENT_CONFIRM_EXTENSION_SUPPORTED x w) \<noteq> 0 \<and>
       snd (confirm_ext C LWS_CALLBACK_CLIENT_CONFIRM_EXTENSION_SUPPORTED x w) = w) \<and> (\<forall>n w. append_hdrs C n w = ([], w))"

lemma ext_veto_quiet: "ext_quiet E \<Longrightarrow> snd (ext_veto E x js w) = w"
  by (induction js arbitrary: w) (auto simp: ext_quiet_def split: prod.splits, metis snd_conv)

lemma propose_none: "ext_quiet E \<Longrightarrow> no_extras C \<Longrightarrow> propose C E xs cnt bp w = Some (bp, w)"
proof (induction xs arbitrary: w)
  case (Cons x xs)
  have "snd (ext_veto E x [0..<length (hs_extensions C)] w) = w" using ext_veto_quiet[OF Cons.prems(1)] .
  moreover have "fst (confirm_ext C LWS_CALLBACK_CLIENT_CONFIRM_EXTENSION_SUPPORTED x w) \<noteq> 0"
    "snd (confirm_ext C LWS_CALLBACK_CLIENT_CONFIRM_EXTENSION_SUPPORTED x w) = w" using Cons.prems(2) by (auto simp: no_extras_def)
  ultimately show ?case using Cons.IH[OF Cons.prems] by (auto split: prod.splits)
qed simp

lemma ext_tell_quiet: "ext_quiet E \<Longrightarrow> ext_tell E js w = w"
  by (induction js arbitrary: w) (auto simp: ext_quiet_def)

text \<open>A client about to issue its request, with the strings in its table.\<close>

definition client_holds :: "nat \<Rightarrow> byte list \<Rightarrow> byte list \<Rightarrow> byte list option \<Rightarrow> byte list option \<Rightarrow> (nat \<rightharpoonup> byte list) \<Rightarrow> allocated_headers \<Rightarrow> bool" where
  "client_holds room uri host origin po mp ah \<longleftrightarrow> hdr_repr ah mp \<and> length (initial_handshake_hash_base64 ah) = 30 \<and>
     mp WSI_TOKEN_CLIENT_URI = Some uri \<and> mp WSI_TOKEN_CLIENT_HOST = Some host \<and> mp WSI_TOKEN_CLIENT_ORIGIN = origin \<and>
     mp WSI_TOKEN_CLIENT_SENT_PROTOCOLS = po \<and> (\<forall>t<18. mp t = None) \<and> ah_next_frag_index ah \<le> 40 \<and> ah_pos ah + 100 + room \<le> 1024"

definition sent_key :: "'u env \<Rightarrow> 'u lws \<Rightarrow> byte list" where
  "sent_key E c = b64_spec (os_random E (sys_calls c) 16)"

lemma c_dec_13: "c_dec (uint (13 :: byte)) = bytes ''13''"
  by (simp add: c_dec_def c_digits.simps)

lemma request_bytes:
  "request_text uri host key origin po = bytes ''GET '' @ uri @ bytes '' HTTP/1.1'' @ crlf @
     bytes ''Pragma: no-cache'' @ crlf @ bytes ''Cache-Control: no-cache'' @ crlf @ bytes ''Host: '' @ host @ crlf @
     bytes ''Upgrade: websocket'' @ crlf @ bytes ''Connection: Upgrade'' @ crlf @ bytes ''Sec-WebSocket-Key: '' @ key @ crlf @
     (case origin of None \<Rightarrow> [] | Some s \<Rightarrow> bytes ''Origin: http://'' @ s @ crlf) @
     (case po of None \<Rightarrow> [] | Some s \<Rightarrow> bytes ''Sec-WebSocket-Protocol: '' @ s @ crlf) @
     bytes ''Sec-WebSocket-Extensions: '' @ crlf @ bytes ''Sec-WebSocket-Version: 13'' @ crlf @ crlf"
  by (cases origin; cases po) (simp_all add: request_text_def request_lines_def get_line_def hdr_line_def set_names_def c_defs)

lemma length_request: "request_ok uri host origin po \<Longrightarrow> length key = 24 \<Longrightarrow> length (request_text uri host key origin po) < 2000"
  by (cases origin; cases po) (auto simp: request_bytes request_ok_def)

lemma cpy_optional_repr:
  "hdr_repr ah mp \<Longrightarrow> t < 23 \<Longrightarrow> cpy_optional ah t name bp = (case mp t of None \<Rightarrow> Some bp | Some v \<Rightarrow> cpyapp (name @ v @ crlf) bp)"
  by (simp add: cpy_optional_def repr_hdr_string)

lemma hdr_text_repr: "hdr_repr ah mp \<Longrightarrow> t < 23 \<Longrightarrow> hdr_text ah t = mp t"
  by (simp add: hdr_text_def repr_hdr_string)

lemma key_b64:
  assumes "length r = 16"
  shows "cstr (snd (lws_b64_encode_string r 40)) = b64_spec r" "length (b64_spec r) = 24" "value_ok (b64_spec r)"
proof -
  show l: "length (b64_spec r) = 24" using assms by (simp add: length_b64_spec)
  show "cstr (snd (lws_b64_encode_string r 40)) = b64_spec r"
    using b64_loop_ok[of 0 r 40 "[]"] l by (simp add: lws_b64_encode_string_def cstr_append_NUL b64_spec_no)
  have "b64_spec r \<noteq> []" using l by auto
  then show "value_ok (b64_spec r)" using b64_spec_no[of r] by (metis hd_in_set value_ok_def)
qed

lemma generate_ok:
  assumes c: "hdr_ah (u_hdr c) = Some ah" "client_holds room uri host origin po mp ah" "ietf_spec_revision c = 13"
    and req: "request_ok uri host origin po" and E: "\<forall>t n. length (os_random E t n) = n" "ext_quiet E" "no_extras C" "length sb = LWS_MAX_SOCKET_IO_BUF"
  defines "key \<equiv> sent_key E c"
  obtains b h where "libwebsockets_generate_client_handshake C E sb c = Some ((b, length (request_text uri host key origin po)),
      set_ah (ah\<lparr>initial_handshake_hash_base64 := b64_spec (SHA1 (key @ ws_guid)) @ 0 # h\<rparr>) (c\<lparr>sys_calls := sys_calls c + 1\<rparr>))"
    "take (length (request_text uri host key origin po)) b = request_text uri host key origin po" "length h = 1"
proof -
  let ?req = "request_text uri host key origin po" and ?acc = "b64_spec (SHA1 (key @ ws_guid))"
  have r: "length (os_random E (sys_calls c) 16) = 16" using E(1) by simp
  note k = key_b64[OF r, folded sent_key_def[of E c], folded key_def]
  have rep: "hdr_repr ah mp" using c(2) by (simp add: client_holds_def)
  have t: "hdr_text ah WSI_TOKEN_CLIENT_URI = Some uri" "hdr_text ah WSI_TOKEN_CLIENT_HOST = Some host"
    "cpy_optional ah WSI_TOKEN_CLIENT_ORIGIN nm bp = (case origin of None \<Rightarrow> Some bp | Some v \<Rightarrow> cpyapp (nm @ v @ crlf) bp)"
    "cpy_optional ah WSI_TOKEN_CLIENT_SENT_PROTOCOLS nm bp = (case po of None \<Rightarrow> Some bp | Some v \<Rightarrow> cpyapp (nm @ v @ crlf) bp)" for nm bp
    using hdr_text_repr[OF rep, of WSI_TOKEN_CLIENT_URI] hdr_text_repr[OF rep, of WSI_TOKEN_CLIENT_HOST]
      cpy_optional_repr[OF rep, of WSI_TOKEN_CLIENT_ORIGIN] cpy_optional_repr[OF rep, of WSI_TOKEN_CLIENT_SENT_PROTOCOLS] c(2)
    by (simp_all add: client_holds_def c_defs)
  obtain b where b: "cpyapp ?req (sb, 0) = Some (b, length ?req)" "take (length ?req) b = ?req"
    using cpyapp_room[of 0 ?req sb] length_request[OF req k(2)] E(4) by (simp add: LWS_MAX_SOCKET_IO_BUF_def)
  obtain x where x: "drop 29 (initial_handshake_hash_base64 ah) = x" "length x = 1" using c(2) by (simp add: client_holds_def)
  have bl: "blit (initial_handshake_hash_base64 ah) 0 (snd (accept_key key (int (length (initial_handshake_hash_base64 ah))))) = Some (?acc @ 0 # x)"
    using c(2) x(1) by (simp add: accept_key_text blit_def length_accept client_holds_def)
  have "libwebsockets_generate_client_handshake C E sb c = Some ((b, length ?req),
      set_ah (ah\<lparr>initial_handshake_hash_base64 := ?acc @ 0 # x\<rparr>) (c\<lparr>sys_calls := sys_calls c + 1\<rparr>))"
    using b(1) E(3) unfolding libwebsockets_generate_client_handshake_def c(1) request_bytes
    by (cases origin; cases po) (simp_all add: r k(1) t propose_none[OF E(2,3)] bl c(3) c_dec_13[simplified] no_extras_def sent_key_def[of E c, folded key_def, symmetric])
  then show ?thesis using b(2) x(2) by (intro that[of b x])
qed

section \<open>Lower case in the header table\<close>

lemma c_tolower_0 [simp]: "c_tolower c = 0 \<longleftrightarrow> c = 0"
proof -
  have "65 \<le> c \<Longrightarrow> c \<le> 90 \<Longrightarrow> c + 32 \<noteq> 0"
    by (simp add: word_le_nat_alt unat_eq_zero[symmetric] unat_plus_if' flip: unat_0_iff)
  then show ?thesis by (auto simp: c_tolower_def)
qed

lemma tolower_no_NUL: "0 \<notin> set v \<Longrightarrow> 0 \<notin> c_tolower ` set v"
  by (auto dest: sym[of 0])

lemma strtolower_string: "0 \<notin> set v \<Longrightarrow> strtolower (p @ v @ 0 # r) (length p) = Some (p @ map c_tolower v @ 0 # r)"
proof (induction v arbitrary: p)
  case Nil
  then show ?case by (simp add: strtolower.simps[of "p @ 0 # r"] rd_def)
next
  case (Cons c v)
  have "strtolower (p @ (c # v) @ 0 # r) (length p) = strtolower ((p @ [c_tolower c]) @ v @ 0 # r) (length (p @ [c_tolower c]))"
    using Cons.prems by (subst strtolower.simps) (simp add: rd_def list_update_append)
  also have "\<dots> = Some ((p @ [c_tolower c]) @ map c_tolower v @ 0 # r)" by (rule Cons.IH) (use Cons.prems in simp)
  finally show ?case by simp
qed

text \<open>A table whose data changes inside one value, and keeps its NULs, represents the map with that value changed.\<close>

lemma same_zeros:
  assumes "map (\<lambda>c. c = 0) xs = map (\<lambda>c. c = 0) ys"
  shows "length (cstr xs) = length (cstr ys) \<and> (0 \<in> set xs \<longleftrightarrow> 0 \<in> set ys)"
  using map_eq_imp_length_eq[OF assms] assms by (induction xs ys rule: list_induct2) auto

lemma ah_wf_data:
  assumes "ah_wf False ah" "map (\<lambda>c. c = 0) d = map (\<lambda>c. c = 0) (ah_data ah)"
  shows "ah_wf False (ah\<lparr>ah_data := d\<rparr>)"
proof -
  have "map (\<lambda>c. c = 0) (seg (ah\<lparr>ah_data := d\<rparr>) i) = map (\<lambda>c. c = 0) (seg ah i)" for i
    using assms(2) by (simp add: seg_def flip: drop_map take_map)
  from same_zeros[OF this] have "frag_closed (ah\<lparr>ah_data := d\<rparr>) i = frag_closed ah i" for i by (simp add: frag_closed_def)
  moreover have "length d = length (ah_data ah)" using map_eq_imp_length_eq[OF assms(2)] .
  ultimately show ?thesis using assms(1) by (simp add: ah_wf_def ah_sized_def)
qed

lemma take_outside:
  assumes "length v' = length v" "i + n \<le> length p \<or> length p + length v \<le> i"
  shows "take n (drop i (p @ v' @ r)) = take n (drop i (p @ v @ r))"
  using assms by auto

lemma repr_change:
  assumes rep: "hdr_repr ah mp" and t: "t < 23" "mp t = Some v"
    and d: "ah_data ah = p @ v @ r" "length p = frag_offset (ah_frags ah ! (ah_frag_index ah ! t))"
    and v': "length v' = length v" "0 \<notin> set v'"
  shows "hdr_repr (ah\<lparr>ah_data := p @ v' @ r\<rparr>) (mp(t \<mapsto> v'))"
proof -
  let ?ah = "ah\<lparr>ah_data := p @ v' @ r\<rparr>"
  have wf: "ah_wf False ah" and ap: "apart ah mp" using rep by (simp_all add: hdr_repr_def)
  have h: "holds_value ah (ah_frag_index ah ! u) w" if "u < 23" "mp u = Some w" for u w
    using rep that by (auto simp: hdr_repr_def split: option.splits)
  have "map (\<lambda>c. c = 0) v' = map (\<lambda>c. c = 0) v"
    using v' h[OF t] by (auto intro!: nth_equalityI simp: holds_value_def in_set_conv_nth) 
  then have "ah_wf False ?ah" using ah_wf_data[OF wf, of "p @ v' @ r"] d(1) by simp
  moreover have new: "holds_value ?ah (ah_frag_index ah ! t) v'"
  proof -
    let ?k = "ah_pos ah - length p"
    have sg: "seg ah (ah_frag_index ah ! t) = take ?k (v @ r)" "seg ?ah (ah_frag_index ah ! t) = take ?k (v' @ r)"
      using d by (simp_all add: seg_def drop_take del: take_append)
    obtain ys where ys: "seg ah (ah_frag_index ah ! t) = v @ 0 # ys" using h[OF t] by (auto simp: holds_value_def)
    then have "length (take ?k (v @ r)) = length v + 1 + length ys" using sg(1) by simp
    then have "length v \<le> ?k" by (simp add: min_def split: if_splits)
    then show ?thesis using h[OF t] v' ys sg by (simp add: holds_value_def)
  qed
  moreover have "holds_value ?ah (ah_frag_index ah ! u) w" if u: "u < 23" "mp u = Some w" "u \<noteq> t" for u w
  proof -
    let ?i = "frag_offset (ah_frags ah ! (ah_frag_index ah ! u))"
    obtain ys where s: "seg ah (ah_frag_index ah ! u) = w @ 0 # ys" using h[OF u(1,2)] by (auto simp: holds_value_def)
    have "?i + (length w + 1) \<le> length p \<or> length p + length v \<le> ?i"
      using ap u t unfolding apart_def d(2) by (metis Suc_eq_plus1 add_Suc_right less_imp_le_nat Suc_leI)
    then have far: "?i + min (length w + 1) (ah_pos ah - ?i) \<le> length p \<or> length p + length v \<le> ?i" by auto
    have "take (length w + 1) (seg ?ah (ah_frag_index ah ! u)) = take (length w + 1) (seg ah (ah_frag_index ah ! u))"
      unfolding seg_def drop_take take_take using take_outside[OF v'(1) far] d(1) by (simp del: take_append drop_append)
    then have "take (length w + 1) (seg ?ah (ah_frag_index ah ! u)) = w @ [0]" by (simp add: s)
    then have "seg ?ah (ah_frag_index ah ! u) = w @ 0 # drop (length w + 1) (seg ?ah (ah_frag_index ah ! u))"
      by (metis append_Cons append_Nil append.assoc append_take_drop_id)
    then show ?thesis using h[OF u(1,2)] by (auto simp: holds_value_def)
  qed
  moreover have "apart ?ah (mp(t \<mapsto> v'))" using ap t v'(1) by (auto simp: apart_def)
  ultimately show ?thesis using rep by (auto simp: hdr_repr_def split: option.splits)
qed

lemma expect_lower_repr:
  assumes rep: "hdr_repr ah mp" and t: "t < 23" "mp t = Some v" and low: "map c_tolower v = low"
  obtains d where "expect_lower t want ah = Some (low = want, ah\<lparr>ah_data := d\<rparr>)" "hdr_repr (ah\<lparr>ah_data := d\<rparr>) (mp(t \<mapsto> low))"
proof -
  let ?n = "ah_frag_index ah ! t" and ?i = "frag_offset (ah_frags ah ! (ah_frag_index ah ! t))"
  have wf: "ah_wf False ah" and h: "holds_value ah ?n v" using rep t by (auto simp: hdr_repr_def split: option.splits)
  obtain ys where ys: "seg ah ?n = v @ 0 # ys" and v: "0 \<notin> set v" using h by (auto simp: holds_value_def)
  have "drop ?i (ah_data ah) = (v @ 0 # ys) @ drop (ah_pos ah - ?i) (drop ?i (ah_data ah))"
    using ys append_take_drop_id[of "ah_pos ah - ?i" "drop ?i (ah_data ah)"] by (simp add: seg_def drop_take)
  then obtain r where r: "drop ?i (ah_data ah) = v @ 0 # r" by simp
  define p where "p = take ?i (ah_data ah)"
  have "?i \<le> ah_pos ah" "ah_pos ah \<le> length (ah_data ah)" using wf h by (auto simp: ah_wf_def ah_sized_def holds_value_def)
  then have lp: "length p = ?i" by (simp add: p_def)
  have d: "ah_data ah = p @ v @ 0 # r" using append_take_drop_id[of ?i "ah_data ah"] r by (simp add: p_def)
  let ?d = "p @ map c_tolower v @ 0 # r"
  have "lws_hdr_simple_ptr ah t = Some (Some ?i)"
    using hdr_reprD[OF rep] t h wf by (auto simp: lws_hdr_simple_ptr_def rd_def holds_value_def ah_wf_def ah_sized_def)
  moreover have "strtolower (ah_data ah) ?i = Some ?d" using strtolower_string[OF v, of p r] d lp by simp
  moreover have l: "0 \<notin> set (map c_tolower v)" using v tolower_no_NUL by simp
  then have "c_string_at ?d ?i = Some (map c_tolower v)" using lp by (auto simp: c_string_at_def cstr_append_NUL)
  ultimately have "expect_lower t want ah = Some (low = want, ah\<lparr>ah_data := ?d\<rparr>)" by (simp add: expect_lower_def flip: low)
  moreover have "hdr_repr (ah\<lparr>ah_data := ?d\<rparr>) (mp(t \<mapsto> low))"
    unfolding low[symmetric] by (rule repr_change[OF rep t, of p "0 # r"]) (use d lp l in simp_all)
  ultimately show ?thesis by (rule that)
qed

section \<open>The expected key\<close>

lemma repr_hash: "hdr_repr (ah\<lparr>initial_handshake_hash_base64 := x\<rparr>) mp = hdr_repr ah mp"
  by (simp add: hdr_repr_def apart_def holds_value_def seg_def ah_wf_def ah_sized_def frag_closed_def cong: option.case_cong)

definition same_hash :: "'u lws \<Rightarrow> 'u lws \<Rightarrow> bool" where
  "same_hash w w' \<longleftrightarrow> map_option initial_handshake_hash_base64 (hdr_ah (u_hdr w')) = map_option initial_handshake_hash_base64 (hdr_ah (u_hdr w))"

lemma put_char_hash: "put_char ch ah = Some ah' \<Longrightarrow> initial_handshake_hash_base64 ah' = initial_handshake_hash_base64 ah"
  by (auto simp: put_char_def split: bind_splits)

lemma new_frag_hash: "new_frag ah = Some ah' \<Longrightarrow> initial_handshake_hash_base64 ah' = initial_handshake_hash_base64 ah"
  by (auto simp: new_frag_def split: bind_splits)

lemma start_fragment_hash:
  "start_fragment t ah = Some (r, ah') \<Longrightarrow> initial_handshake_hash_base64 ah' = initial_handshake_hash_base64 ah"
  by (auto simp: start_fragment_def Let_def split: bind_splits if_splits dest!: new_frag_hash put_char_hash)

lemma parse_hash:
  assumes "libwebsocket_parse w ch = Some (r, w')"
  shows "same_hash w w'"
proof -
  have spc: "set_parsing_complete v = Some (r, v') \<Longrightarrow> same_hash v v'" for v v' :: "'a lws"
    by (auto simp: set_parsing_complete_def same_hash_def split: bind_splits if_splits)
  have nm: "parse_name ch w = Some (r, w') \<Longrightarrow> same_hash w w'"
    by (auto simp: parse_name_def Let_def st_defs split: bind_splits if_splits dest!: spc start_fragment_hash) (auto simp: same_hash_def)
  have tk: "parse_token t ch w = Some (r, w') \<Longrightarrow> same_hash w w'" for t
    by (auto simp: parse_token_def Let_def st_defs split: bind_splits if_splits dest!: spc put_char_hash) (auto simp: same_hash_def)
  show ?thesis using assms nm tk by (auto simp: libwebsocket_parse_def st_defs same_hash_def split: parser_state.splits if_splits)
qed

lemma recv_reply_parsed:
  "parse_bytes w s = Some (0, w', rest) \<Longrightarrow> parser_state (u_hdr w') = WSI_PARSING_COMPLETE \<Longrightarrow>
   recv_reply c fin s w = Some (0, w', rest) \<and> same_hash w w'"
proof (induction w s arbitrary: c rule: parse_bytes.induct)
  case (2 w ch s)
  show ?case
  proof (cases "parser_state (u_hdr w) = WSI_PARSING_COMPLETE")
    case False
    then obtain w1 where w1: "libwebsocket_parse w ch = Some (0, w1)" "parse_bytes w1 s = Some (0, w', rest)"
      using 2(2) by (auto split: bind_splits if_splits)
    then show ?thesis using 2(1)[OF False w1(1) refl _ w1(2) 2(3)] False parse_hash[OF w1(1)] recv_reply.simps[of c fin "ch # s" w]
      by (simp add: same_hash_def)
  next
    case True
    then show ?thesis using 2(2) recv_reply.simps[of c fin "ch # s" w] by (auto simp: same_hash_def)
  qed
qed (auto simp: recv_reply.simps same_hash_def)

section \<open>The answer that is read\<close>

definition reply_lines :: "byte list \<Rightarrow> byte list option \<Rightarrow> req_line list" where
  "reply_lines acc po = [Hdr WSI_TOKEN_HTTP 0 (bytes ''101 Switching Protocols''), Hdr WSI_TOKEN_UPGRADE 1 (bytes ''WebSocket''),
     Hdr WSI_TOKEN_CONNECTION 1 (bytes ''Upgrade''), Hdr WSI_TOKEN_ACCEPT 1 acc] @ (case po of None \<Rightarrow> [] | Some s \<Rightarrow> [Hdr WSI_TOKEN_PROTOCOL 1 s])"

lemma reply_bytes: "reply_text acc po = concat (map line_bytes (reply_lines acc po)) @ crlf"
  by (cases po) (simp_all add: reply_text_def reply_head_def reply_lines_def hdr_line_def set_names_def c_defs)

lemma reply_lines_ok:
  assumes "\<forall>t<18. mp t = None" "value_ok acc" "opt_ok value_ok po"
  shows "lines_ok mp (reply_lines acc po)"
  using assms by (cases po) (auto simp: reply_lines_def c_defs value_ok_def)

lemma reply_lines_map:
  fixes acc po mp0
  defines "mp \<equiv> lines_map mp0 (reply_lines acc po)"
  shows "mp WSI_TOKEN_HTTP = Some (bytes ''101 Switching Protocols'')" "mp WSI_TOKEN_UPGRADE = Some (bytes ''WebSocket'')"
    "mp WSI_TOKEN_CONNECTION = Some (bytes ''Upgrade'')" "mp WSI_TOKEN_ACCEPT = Some acc"
    "mp0 WSI_TOKEN_PROTOCOL = None \<Longrightarrow> mp WSI_TOKEN_PROTOCOL = po"
    "t \<notin> {WSI_TOKEN_HTTP, WSI_TOKEN_UPGRADE, WSI_TOKEN_CONNECTION, WSI_TOKEN_ACCEPT, WSI_TOKEN_PROTOCOL} \<Longrightarrow> mp t = mp0 t"
  unfolding mp_def by (cases po; simp add: reply_lines_def c_defs)+

lemma reply_lines_size:
  "length (lines_values (reply_lines acc po)) \<le> 5"
  "sum_list (map (\<lambda>v. length v + 1) (lines_values (reply_lines acc po))) \<le> 43 + length acc + 1 + opt_len po"
  by (cases po; simp add: reply_lines_def)+

lemma tolower_names: "map c_tolower (bytes ''WebSocket'') = bytes ''websocket''" "map c_tolower (bytes ''Upgrade'') = bytes ''upgrade''"
  by (simp_all add: c_tolower_def)

lemma offered_self: "p \<noteq> [] \<Longrightarrow> offered p p"
  by (simp add: offered.simps)

lemma server_choice_ok:
  assumes "hdr_repr ah mp" "mp WSI_TOKEN_PROTOCOL = po" "mp WSI_TOKEN_CLIENT_SENT_PROTOCOLS = po" "opt_ok (\<lambda>s. s \<noteq> []) po" "protocol_for C po = Some pr"
  shows "server_choice C ah = Some (Inr pr)"
proof -
  have "lws_hdr_total_length ah WSI_TOKEN_PROTOCOL = Some (opt_len po)" "hdr_text ah WSI_TOKEN_PROTOCOL = po"
    "hdr_string ah WSI_TOKEN_CLIENT_SENT_PROTOCOLS = Some po"
    using repr_total_length[OF assms(1), of WSI_TOKEN_PROTOCOL] hdr_text_repr[OF assms(1), of WSI_TOKEN_PROTOCOL]
      repr_hdr_string[OF assms(1), of WSI_TOKEN_CLIENT_SENT_PROTOCOLS] assms(2,3)
    by (simp_all add: opt_len_def WSI_TOKEN_PROTOCOL_def WSI_TOKEN_CLIENT_SENT_PROTOCOLS_def)
  then show ?thesis using assms(4,5)
    by (cases po) (auto simp: server_choice_def protocol_for_def offered_self split: option.splits list.splits)
qed

lemma check_accept_ok:
  assumes c: "active_extensions c = []" "ietf_spec_revision c = 13" "lws_rx_parse_state c = LWS_RXPS_NEW" "protocol c = pr"
    and ah: "hdr_repr ah mp" "mp WSI_TOKEN_ACCEPT = Some acc" "initial_handshake_hash_base64 ah = acc @ 0 # h" "0 \<notin> set acc"
    and E: "kernel_willing E" "user_calm E" "context_calm C" "ext_quiet E"
  obtains c' where "check_accept C E ah c = Some (0, c')" "ws_open C pr LWS_CONNMODE_WS_CLIENT c'" "wire c' = wire c"
proof -
  have a: "hdr_text ah WSI_TOKEN_ACCEPT = Some acc" using hdr_text_repr[OF ah(1), of WSI_TOKEN_ACCEPT] ah(2) by (simp add: WSI_TOKEN_ACCEPT_def)
  have x: "c_string_at (initial_handshake_hash_base64 ah) 0 = Some acc" using ah(3,4) by (simp add: c_string_at_def cstr_append_NUL)
  obtain u1 n1 where us: "libwebsocket_ensure_user_space C E c = (0, c\<lparr>user_space := u1, sys_calls := n1\<rparr>)"
    by (rule ensure_user_space_ok[OF E(1)])
  let ?c1 = "c\<lparr>user_space := u1, sys_calls := n1\<rparr>"
  obtain u2 a2 b2 n2 where f: "user_cb E LWS_CALLBACK_CLIENT_FILTER_PRE_ESTABLISH [] ?c1
      = (0, ?c1\<lparr>user_space := u2, pollin := a2, pollout := b2, sys_calls := n2\<rparr>)"
    using E(2) unfolding user_calm_def by blast
  let ?c2 = "?c1\<lparr>user_space := u2, pollin := a2, pollout := b2, sys_calls := n2, state := WSI_STATE_ESTABLISHED, mode := LWS_CONNMODE_WS_CLIENT\<rparr>"
  let ?c3 = "snd (open_ws C E ?c2)"
  obtain u a b n where g: "user_cb E LWS_CALLBACK_CLIENT_ESTABLISHED [] ?c3 = (0, ?c3\<lparr>user_space := u, pollin := a, pollout := b, sys_calls := n\<rparr>)"
    using E(2) unfolding user_calm_def by blast
  let ?c4 = "?c3\<lparr>user_space := u, pollin := a, pollout := b, sys_calls := n\<rparr>"
  have "check_accept C E ah c = Some (0, ?c4)"
    using a x us f g ext_tell_quiet[OF E(4)] open_ws_ok[OF E(1,3), of ?c2] by (simp add: check_accept_def)
  moreover have "ws_open C pr LWS_CONNMODE_WS_CLIENT ?c4" "wire ?c4 = wire c"
    unfolding open_ws_ok[OF E(1,3)] using c by (simp_all add: ws_open_def)
  ultimately show ?thesis by (rule that)
qed

text \<open>The first half of \<open>lws_client_interpret_server_handshake\<close> on a good answer, up to the choice of the protocol.\<close>

lemma interpret_names:
  assumes c: "hdr_ah (u_hdr c) = Some ah"
    and mp: "hdr_repr ah mp" "mp WSI_TOKEN_HTTP = Some (bytes ''101 Switching Protocols'')" "mp WSI_TOKEN_UPGRADE = Some (bytes ''WebSocket'')"
      "mp WSI_TOKEN_CONNECTION = Some (bytes ''Upgrade'')" "mp WSI_TOKEN_ACCEPT = Some acc" and acc: "acc \<noteq> []"
  obtains d where "lws_client_interpret_server_handshake C E sb c = do { choice \<leftarrow> server_choice C (ah\<lparr>ah_data := d\<rparr>);
      case choice of Inl told \<Rightarrow> Some (if told then hs_bail E (set_ah (ah\<lparr>ah_data := d\<rparr>) c) else (1, set_ah (ah\<lparr>ah_data := d\<rparr>) c))
      | Inr pr \<Rightarrow> do { (okay, wsi) \<leftarrow> check_extensions C E sb (ah\<lparr>ah_data := d\<rparr>) ((set_ah (ah\<lparr>ah_data := d\<rparr>) c)\<lparr>protocol := pr\<rparr>);
          if \<not> okay then Some (hs_bail E wsi) else check_accept C E (ah\<lparr>ah_data := d\<rparr>) wsi } }"
    "hdr_repr (ah\<lparr>ah_data := d\<rparr>) (mp(WSI_TOKEN_UPGRADE \<mapsto> bytes ''websocket'', WSI_TOKEN_CONNECTION \<mapsto> bytes ''upgrade''))"
proof -
  obtain d1 where d1: "expect_lower WSI_TOKEN_UPGRADE (bytes ''websocket'') ah = Some (True, ah\<lparr>ah_data := d1\<rparr>)"
      "hdr_repr (ah\<lparr>ah_data := d1\<rparr>) (mp(WSI_TOKEN_UPGRADE \<mapsto> bytes ''websocket''))"
    by (rule expect_lower_repr[OF mp(1) _ mp(3) tolower_names(1), of "bytes ''websocket''"]) (simp_all only: simp_thms, simp add: c_defs)
  let ?mp1 = "mp(WSI_TOKEN_UPGRADE \<mapsto> bytes ''websocket'')"
  have cn: "?mp1 WSI_TOKEN_CONNECTION = Some (bytes ''Upgrade'')" using mp(4) by (simp add: c_defs)
  have e: "ah\<lparr>ah_data := d1\<rparr>\<lparr>ah_data := d\<rparr> = ah\<lparr>ah_data := d\<rparr>" for d by simp
  obtain d2 where d2: "expect_lower WSI_TOKEN_CONNECTION (bytes ''upgrade'') (ah\<lparr>ah_data := d1\<rparr>) = Some (True, ah\<lparr>ah_data := d2\<rparr>)"
      "hdr_repr (ah\<lparr>ah_data := d2\<rparr>) (?mp1(WSI_TOKEN_CONNECTION \<mapsto> bytes ''upgrade''))"
    by (rule expect_lower_repr[OF d1(2) _ cn tolower_names(2), of "bytes ''upgrade''", unfolded e]) (simp_all only: simp_thms, simp add: c_defs)
  have st: "lws_hdr_total_length ah WSI_TOKEN_ACCEPT = Some (length acc)" "hdr_string ah WSI_TOKEN_HTTP = Some (Some (bytes ''101 Switching Protocols''))"
    using repr_total_length[OF mp(1), of WSI_TOKEN_ACCEPT] repr_hdr_string[OF mp(1), of WSI_TOKEN_HTTP] mp(2,5)
    by (simp_all add: WSI_TOKEN_ACCEPT_def WSI_TOKEN_HTTP_def)
  show ?thesis
    by (rule that[OF _ d2(2)]) (unfold lws_client_interpret_server_handshake_def c, use st acc d1(1) d2(1) in simp)
qed

lemma interpret_ok:
  assumes c: "hdr_ah (u_hdr c) = Some ah" "active_extensions c = []" "ietf_spec_revision c = 13" "lws_rx_parse_state c = LWS_RXPS_NEW"
    and mp: "hdr_repr ah mp" "mp WSI_TOKEN_HTTP = Some (bytes ''101 Switching Protocols'')" "mp WSI_TOKEN_UPGRADE = Some (bytes ''WebSocket'')"
      "mp WSI_TOKEN_CONNECTION = Some (bytes ''Upgrade'')" "mp WSI_TOKEN_ACCEPT = Some acc" "mp WSI_TOKEN_PROTOCOL = po"
      "mp WSI_TOKEN_EXTENSIONS = None" "mp WSI_TOKEN_CLIENT_SENT_PROTOCOLS = po"
    and acc: "initial_handshake_hash_base64 ah = acc @ 0 # h" "0 \<notin> set acc" "acc \<noteq> []"
    and po: "opt_ok (\<lambda>s. s \<noteq> []) po" "protocol_for C po = Some pr"
    and E: "kernel_willing E" "user_calm E" "context_calm C" "ext_quiet E"
  obtains c' where "lws_client_interpret_server_handshake C E sb c = Some (0, c')" "ws_open C pr LWS_CONNMODE_WS_CLIENT c'" "wire c' = wire c"
proof -
  let ?mp2 = "mp(WSI_TOKEN_UPGRADE \<mapsto> bytes ''websocket'', WSI_TOKEN_CONNECTION \<mapsto> bytes ''upgrade'')"
  obtain d where i: "lws_client_interpret_server_handshake C E sb c = do { choice \<leftarrow> server_choice C (ah\<lparr>ah_data := d\<rparr>);
      case choice of Inl told \<Rightarrow> Some (if told then hs_bail E (set_ah (ah\<lparr>ah_data := d\<rparr>) c) else (1, set_ah (ah\<lparr>ah_data := d\<rparr>) c))
      | Inr pr \<Rightarrow> do { (okay, wsi) \<leftarrow> check_extensions C E sb (ah\<lparr>ah_data := d\<rparr>) ((set_ah (ah\<lparr>ah_data := d\<rparr>) c)\<lparr>protocol := pr\<rparr>);
          if \<not> okay then Some (hs_bail E wsi) else check_accept C E (ah\<lparr>ah_data := d\<rparr>) wsi } }"
    and r: "hdr_repr (ah\<lparr>ah_data := d\<rparr>) ?mp2"
    by (rule interpret_names[OF c(1) mp(1-5) acc(3), of C E sb])
  let ?ah = "ah\<lparr>ah_data := d\<rparr>"
  have m: "?mp2 WSI_TOKEN_PROTOCOL = po" "?mp2 WSI_TOKEN_CLIENT_SENT_PROTOCOLS = po" "?mp2 WSI_TOKEN_EXTENSIONS = None" "?mp2 WSI_TOKEN_ACCEPT = Some acc"
    using mp by (simp_all add: c_defs)
  have ch: "server_choice C ?ah = Some (Inr pr)" by (rule server_choice_ok[OF r m(1,2) po])
  have ex: "check_extensions C E sb ?ah w = Some (True, w)" for w
    using repr_total_length[OF r, of WSI_TOKEN_EXTENSIONS] m(3) by (simp add: check_extensions_def) (simp add: WSI_TOKEN_EXTENSIONS_def)
  let ?c1 = "(set_ah ?ah c)\<lparr>protocol := pr\<rparr>"
  obtain c' where c': "check_accept C E ?ah ?c1 = Some (0, c')" "ws_open C pr LWS_CONNMODE_WS_CLIENT c'" "wire c' = wire ?c1"
    by (rule check_accept_ok[of ?c1 pr ?ah ?mp2 acc h E C, OF _ _ _ _ r m(4) _ _ E]) (use c acc in \<open>simp_all add: set_ah_def\<close>)
  have "lws_client_interpret_server_handshake C E sb c = Some (0, c')" using i ch ex c'(1) by simp
  then show ?thesis using c'(2,3) by (intro that[of c']) (simp_all add: set_ah_def)
qed

text \<open>
  A client that has sent its request: the table holds its strings and nothing else, and there is room for the answer, with \<open>room\<close> bytes for
  the name of a protocol.
\<close>

definition client_waits :: "nat \<Rightarrow> byte list \<Rightarrow> byte list option \<Rightarrow> 'u lws \<Rightarrow> bool" where
  "client_waits room acc po c \<longleftrightarrow> (\<exists>ah mp h. u_hdr c = \<lparr>hdr_ah = Some ah, lextable_pos = 0, parser_state = WSI_TOKEN_NAME_PART\<rparr> \<and>
     hdr_repr ah mp \<and> (\<forall>t<18. mp t = None) \<and> mp WSI_TOKEN_CLIENT_SENT_PROTOCOLS = po \<and>
     ah_next_frag_index ah \<le> 40 \<and> ah_pos ah + 100 + room \<le> 1024 \<and> initial_handshake_hash_base64 ah = acc @ 0 # h) \<and>
   active_extensions c = [] \<and> ietf_spec_revision c = 13 \<and> lws_rx_parse_state c = LWS_RXPS_NEW"

text \<open>Reading the answer of a server that names the protocol \<open>po'\<close>.\<close>

lemma reply_parsed:
  assumes c: "client_waits room acc po c" and acc: "value_ok acc" "length acc = 28" and po: "opt_ok value_ok po'" "opt_len po' \<le> room"
  obtains c1 ah mp h where "recv_reply None fin (reply_text acc po' @ rest) c = Some (0, c1, rest)"
    "parser_state (u_hdr c1) = WSI_PARSING_COMPLETE" "hdr_ah (u_hdr c1) = Some ah" "active_extensions c1 = []" "ietf_spec_revision c1 = 13"
    "lws_rx_parse_state c1 = LWS_RXPS_NEW" "wire c1 = wire c" "hdr_repr ah mp"
    "mp WSI_TOKEN_HTTP = Some (bytes ''101 Switching Protocols'')" "mp WSI_TOKEN_UPGRADE = Some (bytes ''WebSocket'')"
    "mp WSI_TOKEN_CONNECTION = Some (bytes ''Upgrade'')" "mp WSI_TOKEN_ACCEPT = Some acc" "mp WSI_TOKEN_PROTOCOL = po'"
    "mp WSI_TOKEN_EXTENSIONS = None" "mp WSI_TOKEN_CLIENT_SENT_PROTOCOLS = po" "initial_handshake_hash_base64 ah = acc @ 0 # h"
proof -
  obtain ah mp h where u: "u_hdr c = \<lparr>hdr_ah = Some ah, lextable_pos = 0, parser_state = WSI_TOKEN_NAME_PART\<rparr>"
    and ah: "hdr_repr ah mp" "\<forall>t<18. mp t = None" "mp WSI_TOKEN_CLIENT_SENT_PROTOCOLS = po"
      "ah_next_frag_index ah \<le> 40" "ah_pos ah + 100 + room \<le> 1024" "initial_handshake_hash_base64 ah = acc @ 0 # h"
    and x: "active_extensions c = []" "ietf_spec_revision c = 13" "lws_rx_parse_state c = LWS_RXPS_NEW"
    using c by (auto simp: client_waits_def)
  have w: "c = with_hdr c ah 0 WSI_TOKEN_NAME_PART" using u by (simp add: with_hdr_def)
  define mp' where "mp' = lines_map mp (reply_lines acc po')"
  note m = reply_lines_map[where ?mp0.0 = mp and acc = acc and po = po', folded mp'_def]
  have p: "mp' WSI_TOKEN_PROTOCOL = po'" "mp' WSI_TOKEN_EXTENSIONS = None" "mp' WSI_TOKEN_CLIENT_SENT_PROTOCOLS = po" "mp' WSI_TOKEN_VERSION = None"
    using m(5,6) ah(2,3) by (simp_all add: c_defs)
  obtain ah1 where ah1: "parse_bytes c (concat (map line_bytes (reply_lines acc po')) @ crlf @ rest)
      = parse_bytes (with_hdr c ah1 0 WSI_TOKEN_NAME_PART) (crlf @ rest)" "hdr_repr ah1 mp'"
    using parse_lines[OF ah(1) reply_lines_ok[OF ah(2) acc(1) po(1)], of c "crlf @ rest", folded mp'_def w]
      reply_lines_size[of acc po'] ah(4,5) acc(2) po(2) by force
  obtain q where pb: "parse_bytes c (reply_text acc po' @ rest) = Some (0,
      with_hdr (c\<lparr>ietf_spec_revision := 13, hdr_parsing_completed := True\<rparr>) ah1 q WSI_PARSING_COMPLETE, rest)"
    using parse_blank_line[OF ah1(2), of c rest] ah1(1) p(4) x(2) by (auto simp: reply_bytes split: option.splits)
  let ?c1 = "with_hdr (c\<lparr>ietf_spec_revision := 13, hdr_parsing_completed := True\<rparr>) ah1 q WSI_PARSING_COMPLETE"
  have r: "recv_reply None fin (reply_text acc po' @ rest) c = Some (0, ?c1, rest)" and sh: "same_hash c ?c1"
    using recv_reply_parsed[OF pb, of None fin] by auto
  have hash: "initial_handshake_hash_base64 ah1 = acc @ 0 # h" using sh u ah(6) by (simp add: same_hash_def)
  have c1: "parser_state (u_hdr ?c1) = WSI_PARSING_COMPLETE" "hdr_ah (u_hdr ?c1) = Some ah1" "active_extensions ?c1 = []"
    "ietf_spec_revision ?c1 = 13" "lws_rx_parse_state ?c1 = LWS_RXPS_NEW" "wire ?c1 = wire c"
    using x by (simp_all add: with_hdr_def)
  show ?thesis by (rule that[OF r c1 ah1(2) m(1-4) p(1-3) hash])
qed

lemma reply_ok:
  assumes c: "client_waits room acc po c" and acc: "value_ok acc" "length acc = 28"
    and po: "opt_ok value_ok po" "opt_ok (\<lambda>s. s \<noteq> []) po" "opt_len po \<le> room" "protocol_for C po = Some pr"
    and E: "kernel_willing E" "user_calm E" "context_calm C" "ext_quiet E"
  obtains c' where "server_reply C E sb fin (reply_text acc po @ rest) c = Some (0, c', rest)" "ws_open C pr LWS_CONNMODE_WS_CLIENT c'" "wire c' = wire c"
proof -
  have a: "0 \<notin> set acc" "acc \<noteq> []" using acc by (auto simp: value_ok_def)
  obtain c1 ah mp h where r: "recv_reply None fin (reply_text acc po @ rest) c = Some (0, c1, rest)" "parser_state (u_hdr c1) = WSI_PARSING_COMPLETE"
    and c1: "hdr_ah (u_hdr c1) = Some ah" "active_extensions c1 = []" "ietf_spec_revision c1 = 13" "lws_rx_parse_state c1 = LWS_RXPS_NEW"
    and w: "wire c1 = wire c" and ah: "hdr_repr ah mp"
    "mp WSI_TOKEN_HTTP = Some (bytes ''101 Switching Protocols'')" "mp WSI_TOKEN_UPGRADE = Some (bytes ''WebSocket'')"
    "mp WSI_TOKEN_CONNECTION = Some (bytes ''Upgrade'')" "mp WSI_TOKEN_ACCEPT = Some acc" "mp WSI_TOKEN_PROTOCOL = po"
    "mp WSI_TOKEN_EXTENSIONS = None" "mp WSI_TOKEN_CLIENT_SENT_PROTOCOLS = po" "initial_handshake_hash_base64 ah = acc @ 0 # h"
    by (rule reply_parsed[OF c acc po(1,3), of fin rest])
  obtain c' where c': "lws_client_interpret_server_handshake C E sb c1 = Some (0, c')" "ws_open C pr LWS_CONNMODE_WS_CLIENT c'" "wire c' = wire c1"
    by (rule interpret_ok[OF c1 ah a po(2,4) E])
  have "server_reply C E sb fin (reply_text acc po @ rest) c = Some (0, c', rest)" using r c'(1) by (simp add: server_reply_def)
  then show ?thesis using c'(2,3) w by (intro that[of c']) simp_all
qed

section \<open>Both ends together\<close>

lemma put_chars_hash: "put_chars s ah = Some (r, ah') \<Longrightarrow> initial_handshake_hash_base64 ah' = initial_handshake_hash_base64 ah"
  by (induction s arbitrary: ah) (auto split: bind_splits if_splits dest!: put_char_hash)

lemma stash_hash:
  "stash lws_hdr_simple_create kvs ah = Some (r, ah') \<Longrightarrow> initial_handshake_hash_base64 ah' = initial_handshake_hash_base64 ah"
proof (induction kvs arbitrary: ah)
  case (Cons kv kvs)
  have "lws_hdr_simple_create t v ah = Some (q, ah1) \<Longrightarrow> initial_handshake_hash_base64 ah1 = initial_handshake_hash_base64 ah" for t v q ah1
    by (auto simp: lws_hdr_simple_create_def Let_def split: bind_splits if_splits dest!: new_frag_hash put_chars_hash)
  then show ?case using Cons by (cases kv) (auto split: bind_splits if_splits)
qed simp

text \<open>The strings of \<open>libwebsocket_client_connect\<close> in a new table.\<close>

definition new_table :: "allocated_headers \<Rightarrow> allocated_headers" where
  "new_table block = block\<lparr>ah_frag_index := replicate WSI_TOKEN_COUNT 0, ah_next_frag_index := 0, ah_pos := 0\<rparr>"

definition block_ok :: "allocated_headers \<Rightarrow> bool" where
  "block_ok block \<longleftrightarrow> length (ah_frags block) = 46 \<and> length (ah_data block) = 1024 \<and> length (initial_handshake_hash_base64 block) = 30"

lemma connect_strings_map:
  fixes address path host origin po
  defines "mp \<equiv> map_of (rev (connect_strings address path host origin po))"
  shows "mp WSI_TOKEN_CLIENT_URI = Some path" "mp WSI_TOKEN_CLIENT_HOST = Some host" "mp WSI_TOKEN_CLIENT_ORIGIN = origin"
    "mp WSI_TOKEN_CLIENT_SENT_PROTOCOLS = po" "\<forall>t<18. mp t = None"
  unfolding mp_def by (cases origin; cases po; auto simp: connect_strings_def c_defs)+

lemma connect_stored:
  assumes block: "block_ok block" and req: "request_ok path host origin po" and addr: "0 \<notin> set address" "length address + room \<le> 100 + opt_len po"
  obtains ah mp where "stash lws_hdr_simple_create (connect_strings address path host origin po) (new_table block) = Some (0, ah)"
    "client_holds room path host origin po mp ah" "hdr_text ah WSI_TOKEN_CLIENT_PEER_ADDRESS = Some address"
proof -
  let ?kvs = "connect_strings address path host origin po" and ?n = "new_table block"
  have n: "hdr_repr ?n Map.empty" "ah_next_frag_index ?n = 0" "ah_pos ?n = 0"
    using fresh_repr[of block] block by (simp_all add: new_table_def block_ok_def)
  have ok: "\<forall>(t, v) \<in> set ?kvs. t < 23 \<and> 0 \<notin> set v"
    using req addr(1) by (cases origin; cases po) (auto simp: connect_strings_def c_defs request_ok_def uri_ok_def value_ok_def)
  have len: "length ?kvs \<le> 5" "sum_list (map (\<lambda>(t, v). length v + 1) ?kvs) + 100 + room \<le> 1024"
    using req addr(2) by (cases origin; cases po; auto simp: connect_strings_def request_ok_def)+
  obtain ah where ah: "stash lws_hdr_simple_create ?kvs ?n = Some (0, ah)" "hdr_repr ah (map_of (rev ?kvs))"
      "45 - ah_next_frag_index ah = 45 - length ?kvs" "1024 - ah_pos ah = 1024 - sum_list (map (\<lambda>(t, v). length v + 1) ?kvs)"
    using ah_store.stash_repr[OF n(1) ok] n(2,3) len by auto
  have h: "length (initial_handshake_hash_base64 ah) = 30" using stash_hash[OF ah(1)] block by (simp add: new_table_def block_ok_def)
  have s: "ah_sized ah" using ah(2) by (simp add: hdr_repr_def ah_wf_def)
  then have "ah_next_frag_index ah \<le> 40" "ah_pos ah + 100 + room \<le> 1024" using ah(3,4) len by (auto simp: ah_sized_def)
  then have "client_holds room path host origin po (map_of (rev ?kvs)) ah"
    using ah(2) h connect_strings_map[of address path host origin po] by (simp add: client_holds_def)
  moreover have "hdr_text ah WSI_TOKEN_CLIENT_PEER_ADDRESS = Some address"
    using hdr_text_repr[OF ah(2), of WSI_TOKEN_CLIENT_PEER_ADDRESS] by (cases origin; cases po) (simp_all add: connect_strings_def c_defs)
  ultimately show ?thesis using that ah(1) by blast
qed

lemma issue_ok:
  assumes c: "hdr_ah (u_hdr c) = Some ah" "client_holds room uri host origin po mp ah" "ietf_spec_revision c = 13"
      "active_extensions c = []" "lws_rx_parse_state c = LWS_RXPS_NEW"
    and req: "request_ok uri host origin po" and E: "kernel_willing E" "ext_quiet E" "no_extras C" "length sb = LWS_MAX_SOCKET_IO_BUF"
  defines "key \<equiv> sent_key E c"
  obtains c1 where "issue_handshake C E sb c = Some (True, c1)" "wire c1 = wire c @ request_text uri host key origin po"
    "mode c1 = LWS_CONNMODE_WS_CLIENT_WAITING_SERVER_REPLY" "client_waits room (b64_spec (SHA1 (key @ ws_guid))) po c1"
proof -
  let ?req = "request_text uri host key origin po" and ?acc = "b64_spec (SHA1 (key @ ws_guid))"
  obtain b h where g: "libwebsockets_generate_client_handshake C E sb c = Some ((b, length ?req),
      set_ah (ah\<lparr>initial_handshake_hash_base64 := ?acc @ 0 # h\<rparr>) (c\<lparr>sys_calls := sys_calls c + 1\<rparr>))"
    "take (length ?req) b = ?req"
    unfolding key_def by (rule generate_ok[OF c(1-3) req _ E(2-4)]) (use E(1) in \<open>simp_all add: kernel_willing_def\<close>)
  let ?ah = "ah\<lparr>initial_handshake_hash_base64 := ?acc @ 0 # h\<rparr>"
  let ?c1 = "c\<lparr>sys_calls := sys_calls c + 2, wire := wire c @ ?req, mode := LWS_CONNMODE_WS_CLIENT_WAITING_SERVER_REPLY,
     u_hdr := \<lparr>hdr_ah = Some ?ah, lextable_pos = 0, parser_state = WSI_TOKEN_NAME_PART\<rparr>\<rparr>"
  have "length ?req \<le> length b" using arg_cong[OF g(2), of length] by simp
  then have "issue_handshake C E sb c = Some (True, ?c1)"
    using g E(1) by (cases "u_hdr c") (simp add: issue_handshake_def kernel_willing_def set_ah_def upd_hdr_def)
  moreover have "client_waits room ?acc po ?c1"
    unfolding client_waits_def
    by (intro conjI exI[of _ ?ah] exI[of _ mp] exI[of _ h]) (use c in \<open>simp_all add: client_holds_def repr_hash\<close>)
  ultimately show ?thesis by (intro that[of ?c1]) simp_all
qed

section \<open>Properties\<close>

lemma accept_ok: "value_ok (b64_spec (SHA1 d))"
  using b64_spec_no[of "SHA1 d"] length_accept[of d] hd_in_set[of "b64_spec (SHA1 d)"] unfolding value_ok_def by metis

lemma hs_more_ok: "ext_quiet hs_env" "no_extras hs_sample"
  by (simp_all add: hs_env_def log_env_def ext_quiet_def hs_sample_def no_extras_def)

definition hs_client :: "byte list list lws" where
  "hs_client = (zero_lws sample_protocol [])\<lparr>mode := LWS_CONNMODE_WS_CLIENT_ISSUE_HANDSHAKE, ietf_spec_revision := 13\<rparr>"

lemma hs_client_ok: "ietf_spec_revision hs_client = 13" "active_extensions hs_client = []" "lws_rx_parse_state hs_client = LWS_RXPS_NEW"
  "block_ok sample_block" "wire hs_client = []" "request_ok (bytes ''/play'') (bytes ''srv'') (Some (bytes ''origin'')) None"
  by (simp_all add: hs_client_def zero_lws_def sample_block_def block_ok_def request_ok_def uri_ok_def value_ok_def)

text \<open>
  C2. The opening handshake works: a client stores the strings of its connection and sends its request; the server parses it, answers, and the client
  accepts the answer, whose key it has computed in advance, without taking a byte of what follows it. Both connections are then open, with
  empty buffers, ready to send and to receive messages. This holds for every path, host, origin and protocol (one or none) that fit into the header
  tables, whatever the random key is, for a client that offers no extensions and protocols whose receive buffer has a size an \<open>int\<close> can hold.
\<close>

theorem handshake_completes:
  assumes req: "request_ok path host origin po" "0 \<notin> set address" "length address \<le> 100" "block_ok block"
    and c: "ietf_spec_revision c = 13" "active_extensions c = []" "lws_rx_parse_state c = LWS_RXPS_NEW"
    and Ec: "kernel_willing Ec" "user_calm Ec" "ext_quiet Ec" "client_user Ec gotc" "length sb = LWS_MAX_SOCKET_IO_BUF"
    and Cc: "context_calm Cc" "no_extras Cc" "protocol_for Cc po = Some prc" "has_callback prc" "rx_fits prc"
    and s: "http_fresh s" and Es: "kernel_willing Es" "user_calm Es" "server_user Es gots" "length sb' = LWS_MAX_SOCKET_IO_BUF"
    and Cs: "context_calm Cs" "protocol_for Cs po = Some prs" "has_callback prs" "rx_fits prs"
  shows "\<exists>ah c1 s' c'.
    stash lws_hdr_simple_create (connect_strings address path host origin po) (new_table block) = Some (0, ah) \<and>
    issue_handshake Cc Ec sb (set_ah ah c) = Some (True, c1) \<and>
    libwebsocket_read Cs Es sb' s (drop (length (wire c)) (wire c1)) = Some (0, s') \<and>
    server_reply Cc Ec sb'' fin (drop (length (wire s)) (wire s') @ rest) c1 = Some (0, c', rest) \<and>
    mode c' = LWS_CONNMODE_WS_CLIENT \<and> protocol c' = prc \<and> tx_ready c' \<and> client_ready Ec gotc (rx_limit c') c' \<and>
    mode s' = LWS_CONNMODE_WS_SERVING \<and> protocol s' = prs \<and> tx_ready s' \<and> server_ready Es gots (rx_limit s') s'"
proof -
  have po: "opt_ok value_ok po" "opt_ok (\<lambda>s. s \<noteq> []) po" using req(1) by (auto simp: request_ok_def opt_ok_def split: option.splits)
  obtain ah mp where ah: "stash lws_hdr_simple_create (connect_strings address path host origin po) (new_table block) = Some (0, ah)"
      "client_holds (opt_len po) path host origin po mp ah"
    by (rule connect_stored[OF req(4,1,2), of "opt_len po"]) (use req(3) in simp_all)
  let ?c = "set_ah ah c" and ?key = "sent_key Ec (set_ah ah c)"
  let ?acc = "b64_spec (SHA1 (?key @ ws_guid))"
  have w: "wire ?c = wire c" by (simp add: set_ah_def)
  have k: "value_ok ?key" "length ?key = 24" using key_b64[of "os_random Ec (sys_calls ?c) 16"] Ec(1) by (simp_all add: sent_key_def kernel_willing_def)
  obtain c1 where c1: "issue_handshake Cc Ec sb ?c = Some (True, c1)" "wire c1 = wire ?c @ request_text path host ?key origin po"
      "client_waits (opt_len po) ?acc po c1"
    by (rule issue_ok[of ?c, OF _ ah(2) _ _ _ req(1) Ec(1,3) Cc(2) Ec(5)]) (use c in \<open>simp_all add: set_ah_def\<close>)
  obtain s' where s': "libwebsocket_read Cs Es sb' s (request_text path host ?key origin po) = Some (0, s')"
      "ws_open Cs prs LWS_CONNMODE_WS_SERVING s'" "wire s' = wire s @ reply_text ?acc po"
    by (rule read_ok[OF s req(1) k Cs(2,3) Es(1,2) Cs(1) Es(4)])
  obtain c' where c': "server_reply Cc Ec sb'' fin (reply_text ?acc po @ rest) c1 = Some (0, c', rest)" "ws_open Cc prc LWS_CONNMODE_WS_CLIENT c'"
    by (rule reply_ok[OF c1(3) accept_ok length_accept po order.refl Cc(3) Ec(1,2) Cc(1) Ec(3)])
  note ready = ws_open_tx[OF c'(2)] ws_open_tx[OF s'(2)] ws_open_rx(2)[OF c'(2) Cc(1,4,5) Ec(4)] ws_open_rx(1)[OF s'(2) Cs(1,3,4) Es(3)]
  show ?thesis
    by (rule exI[of _ ah], rule exI[of _ c1], rule exI[of _ s'], rule exI[of _ c'])
      (use ah(1) c1(1,2) s' c' ready w in \<open>simp add: ws_open_def\<close>)
qed

theorem handshake_completes_witness:
  "\<exists>ah c1 s' c'.
    stash lws_hdr_simple_create (connect_strings (bytes ''srv'') (bytes ''/play'') (bytes ''srv'') (Some (bytes ''origin'')) None) (new_table sample_block) = Some (0, ah) \<and>
    issue_handshake hs_sample hs_env (replicate 4096 0) (set_ah ah hs_client) = Some (True, c1) \<and>
    libwebsocket_read hs_sample hs_env (replicate 4096 0) hs_server (wire c1) = Some (0, s') \<and>
    server_reply hs_sample hs_env (replicate 4096 0) (-1) (wire s' @ [0x81]) c1 = Some (0, c', [0x81]) \<and>
    tx_ready c' \<and> client_ready hs_env id (rx_limit c') c' \<and> tx_ready s' \<and> server_ready hs_env id (rx_limit s') s'"
proof -
  have a: "0 \<notin> set (bytes ''srv'')" "length (bytes ''srv'') \<le> 100" "length (replicate 4096 (0::byte)) = LWS_MAX_SOCKET_IO_BUF"
    by (simp_all add: LWS_MAX_SOCKET_IO_BUF_def)
  from handshake_completes[OF hs_client_ok(6) a(1,2) hs_client_ok(4,1-3) hs_env_ok(1,2) hs_more_ok(1) hs_env_ok(4) a(3) hs_sample_ok(1) hs_more_ok(2)
      hs_sample_ok(2-4) hs_server_fresh(1) hs_env_ok(1-3) a(3) hs_sample_ok(1-4), of "replicate 4096 0" "-1" "[0x81]"]
  show ?thesis unfolding hs_client_ok(5) hs_server_fresh(2) list.size drop_0 by blast
qed

text \<open>
  C28. A client that has asked for no protocol, as the game client does, goes down when the server names one: it searches the list of the protocols it
  offered, which is a null pointer.
\<close>

theorem unasked_protocol_crash:
  assumes "client_waits room acc None c" "value_ok acc" "length acc = 28" "value_ok p" "p \<noteq> []" "length p \<le> room"
  shows "server_reply C E sb fin (reply_text acc (Some p) @ rest) c = None"
proof -
  have acc: "acc \<noteq> []" using assms(3) by auto
  obtain c1 ah mp where r: "recv_reply None fin (reply_text acc (Some p) @ rest) c = Some (0, c1, rest)" "parser_state (u_hdr c1) = WSI_PARSING_COMPLETE"
    and c1: "hdr_ah (u_hdr c1) = Some ah" and mp: "hdr_repr ah mp"
      "mp WSI_TOKEN_HTTP = Some (bytes ''101 Switching Protocols'')" "mp WSI_TOKEN_UPGRADE = Some (bytes ''WebSocket'')"
      "mp WSI_TOKEN_CONNECTION = Some (bytes ''Upgrade'')" "mp WSI_TOKEN_ACCEPT = Some acc"
    and p: "mp WSI_TOKEN_PROTOCOL = Some p" "mp WSI_TOKEN_CLIENT_SENT_PROTOCOLS = None"
    by (rule reply_parsed[OF assms(1-3), of "Some p" fin rest]) (use assms(4,6) in simp_all)
  have "\<exists>d. (server_choice C (ah\<lparr>ah_data := d\<rparr>) = None \<longrightarrow> lws_client_interpret_server_handshake C E sb c1 = None) \<and>
      hdr_repr (ah\<lparr>ah_data := d\<rparr>) (mp(WSI_TOKEN_UPGRADE \<mapsto> bytes ''websocket'', WSI_TOKEN_CONNECTION \<mapsto> bytes ''upgrade''))"
    by (rule interpret_names[OF c1 mp acc, of C E sb]) (rule exI, rule conjI[rotated], assumption, simp)
  then obtain d where i: "server_choice C (ah\<lparr>ah_data := d\<rparr>) = None \<longrightarrow> lws_client_interpret_server_handshake C E sb c1 = None"
    and rep: "hdr_repr (ah\<lparr>ah_data := d\<rparr>) (mp(WSI_TOKEN_UPGRADE \<mapsto> bytes ''websocket'', WSI_TOKEN_CONNECTION \<mapsto> bytes ''upgrade''))"
    by (elim exE conjE) (rule that)
  have "server_choice C (ah\<lparr>ah_data := d\<rparr>) = None"
    using repr_total_length[OF rep, of WSI_TOKEN_PROTOCOL] repr_hdr_string[OF rep, of WSI_TOKEN_CLIENT_SENT_PROTOCOLS]
      hdr_text_repr[OF rep, of WSI_TOKEN_PROTOCOL] p assms(5) by (simp add: server_choice_def c_defs)
  then show ?thesis using r i by (simp add: server_reply_def)
qed

theorem unasked_protocol_crash_witness:
  "\<exists>acc c. client_waits 5 acc None c \<and> server_reply hs_sample hs_env [] (-1) (reply_text acc (Some (bytes ''daif5''))) c = None"
proof -
  have a: "0 \<notin> set (bytes ''srv'')" "length (bytes ''srv'') + 5 \<le> 100 + opt_len None" "length (replicate 4096 (0::byte)) = LWS_MAX_SOCKET_IO_BUF"
    by (simp_all add: LWS_MAX_SOCKET_IO_BUF_def)
  obtain ah mp where ah: "client_holds 5 (bytes ''/play'') (bytes ''srv'') (Some (bytes ''origin'')) None mp ah"
    by (rule connect_stored[OF hs_client_ok(4,6) a(1,2)])
  obtain c :: "byte list list lws" where c: "client_waits 5 (b64_spec (SHA1 (sent_key hs_env (set_ah ah hs_client) @ ws_guid))) None c"
    by (rule issue_ok[of "set_ah ah hs_client", OF _ ah _ _ _ hs_client_ok(6) hs_env_ok(1) hs_more_ok a(3)]) (use hs_client_ok in \<open>simp_all add: set_ah_def\<close>)
  have "value_ok (bytes ''daif5'')" "bytes ''daif5'' \<noteq> []" "length (bytes ''daif5'') \<le> 5" by (simp_all add: value_ok_def)
  from unasked_protocol_crash[OF c accept_ok length_accept this, of hs_sample hs_env "[]" "-1" "[]"] c show ?thesis by auto
qed

end
