(* ===== verification/Slot_Frame.thy ===== *)
theory Slot_Frame
  imports Poll_Table Client_Handshake
begin

text \<open>
  Nothing the library does with a connection moves it in the poll table: sending, receiving, parsing and the handshakes leave \<open>sock\<close> and
  \<open>position_in_fds_table\<close> as they are, as long as user code and extensions do. One lemma for each operation, in the order of the calls.
\<close>

lemma slot_upd [simp]:
  "slot (upd_ws f w) = slot w" "slot (upd_hdr f' w) = slot w" "slot (w\<lparr>protocol := a\<rparr>) = slot w" "slot (w\<lparr>active_extensions := b\<rparr>) = slot w"
  "slot (w\<lparr>extension_data_pending := c\<rparr>) = slot w" "slot (w\<lparr>ietf_spec_revision := d\<rparr>) = slot w" "slot (w\<lparr>mode := e\<rparr>) = slot w"
  "slot (w\<lparr>state := g\<rparr>) = slot w" "slot (w\<lparr>lws_rx_parse_state := h\<rparr>) = slot w" "slot (w\<lparr>hdr_parsing_completed := i\<rparr>) = slot w"
  "slot (w\<lparr>user_space := j\<rparr>) = slot w" "slot (w\<lparr>u_hdr := k\<rparr>) = slot w" "slot (w\<lparr>u_ws := l\<rparr>) = slot w" "slot (w\<lparr>pollin := m\<rparr>) = slot w"
  "slot (w\<lparr>pollout := n\<rparr>) = slot w" "slot (w\<lparr>wire := q\<rparr>) = slot w" "slot (w\<lparr>sys_calls := r\<rparr>) = slot w"
  by (simp_all add: slot_def)

locale host =
  fixes E :: "'u env"
  assumes safe: "slot_safe E"
begin

lemmas proto0_slot [simp] = slot_safeD(1)[OF safe]
lemmas user_slot = slot_safeD(2)[OF safe]
lemmas ext_slot = slot_safeD(3)[OF safe]

lemma ext_slot' [simp]: "slot (snd (snd (ext_cb E x r tok w))) = slot w"
  using ext_slot[of x r tok w] by (metis prod.collapse)

lemma user_slot' [simp]: "slot (snd (user_cb E r bs w)) = slot w"
  using user_slot[of r bs w] by (metis prod.collapse)

text \<open>Sending.\<close>

lemma ext_loop_slot: "ext_loop E r xs tok w = (a, b, c, v) \<Longrightarrow> slot v = slot w"
proof (induction xs arbitrary: tok w a b c v)
  case (Cons x xs)
  obtain k tok' w' where e: "ext_cb E x r tok w = (k, tok', w')" by (metis prod_cases3)
  show ?case using Cons.prems Cons.IH ext_slot[OF e] e by (auto split: prod.splits if_splits)
qed simp

lemma ext_each_slot [simp]: "slot (snd (snd (ext_each E r xs tok w))) = slot w"
proof (induction xs arbitrary: tok w)
  case (Cons x xs)
  obtain k tok' w' where e: "ext_cb E x r tok w = (k, tok', w')" by (metis prod_cases3)
  show ?case using Cons[of tok' w'] ext_slot[OF e] e by (auto split: prod.splits)
qed simp

lemma ext_do_send_slot: "ext_do_send E xs tok w = (a, b, v) \<Longrightarrow> slot v = slot w"
proof (induction xs arbitrary: tok w)
  case (Cons x xs)
  obtain k tok' w' where e: "ext_cb E x LWS_EXT_CALLBACK_PACKET_TX_DO_SEND tok w = (k, tok', w')" by (metis prod_cases3)
  show ?case using Cons.prems Cons.IH ext_slot[OF e] e by (auto split: if_splits)
qed simp

lemma any_extension_slot: "lws_any_extension_handled E r tok xs w = (a, v) \<Longrightarrow> slot v = slot w"
proof (induction xs arbitrary: w)
  case (Cons x xs)
  obtain k tok' w' where e: "ext_cb E x r tok w = (k, tok', w')" by (metis prod_cases3)
  show ?case using Cons.prems Cons.IH ext_slot[OF e] e by (auto split: if_splits)
qed simp

lemma on_writable_slot [simp]: "slot (snd (libwebsocket_callback_on_writable E w)) = slot w"
proof -
  obtain h tok' w' where e: "ext_each E LWS_EXT_CALLBACK_REQUEST_ON_WRITEABLE (active_extensions w) no_tokens w = (h, tok', w')" by (metis prod_cases3)
  then have "slot w' = slot w" using ext_each_slot by (metis snd_conv)
  then show ?thesis using e by (simp add: libwebsocket_callback_on_writable_def)
qed

lemma truncated_slot [simp]: "slot (snd (handle_truncated_send E bs n w)) = slot w"
  by (auto simp: handle_truncated_send_def Let_def split: option.splits)

lemma truncated_slot': "handle_truncated_send E bs n w = (r, v) \<Longrightarrow> slot v = slot w"
  using truncated_slot[of bs n w] by simp

lemma issue_raw_slot: "lws_issue_raw E buf w = Some (r, v) \<Longrightarrow> slot v = slot w"
  by (auto simp: lws_issue_raw_def Let_def dest: ext_do_send_slot dest!: truncated_slot' split: prod.splits option.splits if_splits Option.bind_splits)

lemma pipe_choked_slot: "lws_send_pipe_choked E w = (r, v) \<Longrightarrow> slot v = slot w"
  by (auto simp: lws_send_pipe_choked_def)

lemma ext_access_slot: "ext_access_loop E tok w = Some (r, v) \<Longrightarrow> slot v = slot w"
proof -
  have "slot_safe F \<longrightarrow> slot (snd y) = slot w" if run: "ext_access_loop F tok w = Some y" for F :: "'u env" and tok w y
  proof (rule ext_access_loop.raw_induct[where P = "\<lambda>F tok w y. slot_safe F \<longrightarrow> slot (snd y) = slot w", OF _ run], goal_cases)
    case (1 f F tok w y)
    show ?case
    proof
      assume F: "slot_safe F"
      note h = host.ext_loop_slot[OF host.intro[OF F]] host.issue_raw_slot[OF host.intro[OF F]] host.on_writable_slot[OF host.intro[OF F]]
      obtain fatal again tok' w1 where l: "ext_loop F LWS_EXT_CALLBACK_PACKET_TX_PRESEND (active_extensions w) tok w = (fatal, again, tok', w1)"
        by (metis prod_cases4)
      have "f F no_tokens w' = Some y \<Longrightarrow> slot (snd y) = slot w'" for w' using 1(1) F by blast
      then show "slot (snd y) = slot w" using 1(2) l h(1)[OF l]
        by (auto simp: Let_def h(3) lws_send_pipe_choked_def dest!: h(2) split: if_splits prod.splits Option.bind_splits)
    qed
  qed
  then show "ext_access_loop E tok w = Some (r, v) \<Longrightarrow> slot v = slot w" using safe by fastforce
qed

lemma spill_slot: "pollout_spill E w = Some (r, v) \<Longrightarrow> slot v = slot w"
proof -
  have "slot_safe F \<longrightarrow> slot (snd y) = slot w" if run: "pollout_spill F w = Some y" for F :: "'u env" and w y
  proof (rule pollout_spill.raw_induct[where P = "\<lambda>F w y. slot_safe F \<longrightarrow> slot (snd y) = slot w", OF _ run], goal_cases)
    case (1 f F w y)
    show ?case
    proof
      assume F: "slot_safe F"
      note h = host.ext_loop_slot[OF host.intro[OF F]] host.issue_raw_slot[OF host.intro[OF F]]
      obtain fatal again tok' w1 where l: "ext_loop F LWS_EXT_CALLBACK_PACKET_TX_PRESEND (active_extensions w) no_tokens w = (fatal, again, tok', w1)"
        by (metis prod_cases4)
      have "f F w' = Some y \<Longrightarrow> slot (snd y) = slot w'" for w' using 1(1) F by blast
      then show "slot (snd y) = slot w" using 1(2) l h(1)[OF l]
        by (auto simp: Let_def lws_send_pipe_choked_def dest!: h(2) split: if_splits prod.splits Option.bind_splits)
    qed
  qed
  then show "pollout_spill E w = Some (r, v) \<Longrightarrow> slot v = slot w" using safe by fastforce
qed

lemma mask_generate_slot: "libwebsocket_0405_frame_mask_generate E w = (n, v) \<Longrightarrow> slot v = slot w"
  by (auto simp: libwebsocket_0405_frame_mask_generate_def Let_def split: if_splits)

lemma mask_frame_slot: "mask_frame E w wb = Some (Inl (r, v)) \<Longrightarrow> slot v = slot w" "mask_frame E w wb = Some (Inr (v, wb')) \<Longrightarrow> slot v = slot w"
  by (auto simp: mask_frame_def Let_def dest!: mask_generate_slot split: if_splits prod.splits Option.bind_splits)

lemma send_raw_slot: "send_raw E prot n w wb = Some (r, v) \<Longrightarrow> slot v = slot w"
  by (auto simp: send_raw_def Let_def lws_issue_raw_ext_access_def dest!: issue_raw_slot ext_access_slot split: if_splits Option.bind_splits)

lemma write_slot:
  assumes "libwebsocket_write E w mem off len prot = Some (r, v, mem')"
  shows "slot v = slot w"
proof -
  let ?w = "upd_ws (\<lambda>x. x\<lparr>clean_buffer := \<not> no_buffer_all_partial_tx (protocol w)\<rparr>) w"
  let ?t = "\<lparr>tok_mem = mem, tok_off = off, tok_len = c_int (int len), tok_moved = False\<rparr>"
  obtain a b tok w1 where l: "(if prot \<in> {LWS_WRITE_PING, LWS_WRITE_PONG, LWS_WRITE_CLOSE} then (False, False, ?t, ?w)
      else ext_loop E LWS_EXT_CALLBACK_PAYLOAD_TX (active_extensions ?w) ?t ?w) = (a, b, tok, w1)"
    by (metis prod_cases4)
  then have "slot w1 = slot w" using ext_loop_slot[of LWS_EXT_CALLBACK_PAYLOAD_TX "active_extensions ?w" ?t ?w] by (auto split: if_splits)
  then show ?thesis using assms unfolding libwebsocket_write_def Let_def l
    by (auto dest!: send_raw_slot mask_frame_slot split: if_splits Option.bind_splits sum.splits prod.splits)
qed

text \<open>Flow control and writable events.\<close>

lemma flow_slot [simp]: "slot (snd (rx_flow_control_internal E w)) = slot w" "slot (snd (libwebsocket_rx_flow_control b w)) = slot w"
  by (simp_all add: rx_flow_control_internal_def libwebsocket_rx_flow_control_def Let_def)

lemma rxflow_slot [simp]: "slot (snd (user_callback_handle_rxflow E r bs w)) = slot w"
proof -
  obtain n w' where u: "user_cb E r bs w = (n, w')" by force
  then show ?thesis using user_slot[OF u] by (simp add: user_callback_handle_rxflow_def)
qed

lemma rxflow_slot': "user_callback_handle_rxflow E r bs w = (n, v) \<Longrightarrow> slot v = slot w"
  using rxflow_slot[of r bs w] by simp

lemma is_writeable_slot: "ext_is_writeable E xs h w = (n, v) \<Longrightarrow> slot v = slot w"
proof (induction xs arbitrary: h w)
  case (Cons x xs)
  obtain k tok' w' where e: "ext_cb E x LWS_EXT_CALLBACK_IS_WRITEABLE no_tokens w = (k, tok', w')" by (metis prod_cases3)
  show ?case using Cons.prems Cons.IH ext_slot[OF e] e by simp
qed simp

lemma pollout_slot:
  assumes "lws_handle_POLLOUT_event E b w = Some (r, v)"
  shows "slot v = slot w"
proof -
  obtain h w1 where l: "ext_is_writeable E (active_extensions w) 0 w = (h, w1)" by force
  have n: "notify_action E x = (r, v) \<Longrightarrow> slot v = slot x" "user_service E b x = (r, v) \<Longrightarrow> slot v = slot x" for x
    by (auto simp: notify_action_def user_service_def dest!: rxflow_slot' split: if_splits)
  show ?thesis using assms is_writeable_slot[OF l] l unfolding lws_handle_POLLOUT_event_def
    by (auto dest!: n issue_raw_slot spill_slot split: option.splits if_splits Option.bind_splits prod.splits)
qed

text \<open>Receiving frames.\<close>

lemma set_slot [simp]: "slot (set_rxps x w) = slot w" "slot (set_nonce i c w) = slot w" "slot (or_length n c w) = slot w"
  "slot (set_length n c w) = slot w" "slot (handle_first c w) = slot w" "slot (rx_store tok w) = slot w" "slot (reset_head w) = slot w"
  by (simp_all add: set_rxps_def set_nonce_def or_length_def set_length_def handle_first_def rx_store_def reset_head_def)

lemma rx_write_slot: "rx_write E prot w = Some (r, v) \<Longrightarrow> slot v = slot w"
  by (auto simp: rx_write_def dest!: write_slot split: Option.bind_splits)

lemma ext_each_slot': "ext_each E r xs tok w = (a, b, v) \<Longrightarrow> slot v = slot w"
  using ext_each_slot[of r xs tok w] by simp

lemma rx_extended_slot: "rx_extended E w = Some (b, v) \<Longrightarrow> slot v = slot w"
  by (auto simp: rx_extended_def dest!: ext_each_slot' split: Option.bind_splits prod.splits)

lemma payload_up_slot:
  assumes "rx_payload_up E cb w = Some res" "\<And>bs w n v. cb bs w = (n, v) \<Longrightarrow> slot v = slot w"
  shows "res = Inl v \<Longrightarrow> slot v = slot w" "res = Inr (n, v) \<Longrightarrow> slot v = slot w"
  using assms(1) by (auto simp: rx_payload_up_def Let_def dest!: ext_loop_slot assms(2) split: Option.bind_splits prod.splits if_splits)

lemma server_up_slot:
  "rx_payload_up E (user_callback_handle_rxflow E reason) w = Some (Inl v) \<Longrightarrow> slot v = slot w"
  "rx_payload_up E (user_callback_handle_rxflow E reason) w = Some (Inr (n, v)) \<Longrightarrow> slot v = slot w"
  using payload_up_slot rxflow_slot' by blast+

lemma client_up_slot:
  "rx_payload_up E (user_cb E reason) w = Some (Inl v) \<Longrightarrow> slot v = slot w"
  "rx_payload_up E (user_cb E reason) w = Some (Inr (n, v)) \<Longrightarrow> slot v = slot w"
  using payload_up_slot user_slot by blast+

lemma server_spill_slot: "spill E w = Some (r, v) \<Longrightarrow> slot v = slot w"
  by (auto simp: spill_def Let_def dest!: rx_write_slot rx_extended_slot server_up_slot split: if_splits Option.bind_splits sum.splits)

lemma client_spill_slot: "client_spill E w = Some (r, v) \<Longrightarrow> slot v = slot w"
  by (auto simp: client_spill_def Let_def dest!: rx_write_slot rx_extended_slot client_up_slot split: if_splits Option.bind_splits sum.splits)

lemma rx_put_slot: "rx_put b c w = Some v \<Longrightarrow> slot v = slot w"
  by (auto simp: rx_put_def split: Option.bind_splits)

lemma rx_payload_slot:
  assumes "rx_payload sp b c w = Some (r, v)" "\<And>w r v. sp w = Some (r, v) \<Longrightarrow> slot v = slot w"
  shows "slot v = slot w"
  using assms(1) by (auto simp: rx_payload_def dest!: rx_put_slot assms(2) split: Option.bind_splits if_splits)

lemma rx_payload_slot': "rx_payload (spill E) b c w = Some (r, v) \<Longrightarrow> slot v = slot w"
  "rx_payload (client_spill E) b c w = Some (r, v) \<Longrightarrow> slot v = slot w"
  using rx_payload_slot server_spill_slot client_spill_slot by blast+

lemma rx_len64_slot:
  assumes "rx_len64 done c w = Some (r, v)" "\<And>w r v. done w = Some (r, v) \<Longrightarrow> slot v = slot w"
  shows "slot v = slot w"
  using assms(1) unfolding rx_len64_def by (cases "lws_rx_parse_state w") (auto dest!: assms(2) split: if_splits)

lemma rx_key_slot: "rx_key E c w = Some (r, v) \<Longrightarrow> slot v = slot w" "client_key E c w = Some (r, v) \<Longrightarrow> slot v = slot w"
  unfolding rx_key_def client_key_def Let_def
  by (cases "lws_rx_parse_state w"; auto dest!: server_spill_slot client_spill_slot split: if_splits)+

lemma rx_sm_slot: "libwebsocket_rx_sm E w c = Some (r, v) \<Longrightarrow> slot v = slot w"
  unfolding libwebsocket_rx_sm_def Let_def
  by (cases "lws_rx_parse_state w") (auto dest!: rx_key_slot rx_payload_slot'(1) rx_len64_slot split: if_splits)

lemma client_rx_sm_slot: "libwebsocket_client_rx_sm E w c = Some (r, v) \<Longrightarrow> slot v = slot w"
  unfolding libwebsocket_client_rx_sm_def Let_def client_payload_def
  by (cases "lws_rx_parse_state w")
    (auto dest!: rx_key_slot rx_payload_slot'(2) rx_len64_slot client_spill_slot split: if_splits)

lemma incoming_slot: "libwebsocket_interpret_incoming_packet E w bs = Some (r, v) \<Longrightarrow> slot v = slot w"
  by (induction bs arbitrary: w) (auto simp: Let_def dest!: rx_sm_slot split: if_splits Option.bind_splits)

lemma feed_slot: "feed (libwebsocket_client_rx_sm E) w bs = Some (r, v) \<Longrightarrow> slot v = slot w"
  by (induction bs arbitrary: w) (auto dest!: client_rx_sm_slot split: if_splits Option.bind_splits)

lemma client_all_slot: "client_all E w bs = Some (r, v) \<Longrightarrow> slot v = slot w"
  by (induction bs arbitrary: w) (auto dest!: client_rx_sm_slot split: if_splits Option.bind_splits)

end

text \<open>The header parser.\<close>

lemma complete_slot: "set_parsing_complete w = Some (r, v) \<Longrightarrow> slot v = slot w"
  by (auto simp: set_parsing_complete_def split: Option.bind_splits)

lemma set_ps_slot [simp]: "slot (set_ps ps w) = slot w" "slot (set_ah ah w) = slot w"
  by (simp_all add: set_ps_def set_ah_def)

lemma parse_slot: "libwebsocket_parse w ch = Some (r, v) \<Longrightarrow> slot v = slot w"
proof -
  have t: "parse_token t ch w = Some (r, v) \<Longrightarrow> slot v = slot w" for t
    by (auto simp: parse_token_def Let_def dest!: complete_slot split: if_splits Option.bind_splits)
  have n: "parse_name ch w = Some (r, v) \<Longrightarrow> slot v = slot w"
    by (auto simp: parse_name_def Let_def dest!: complete_slot split: if_splits Option.bind_splits)
  show "libwebsocket_parse w ch = Some (r, v) \<Longrightarrow> slot v = slot w"
    unfolding libwebsocket_parse_def by (cases "parser_state (u_hdr w)") (auto dest: t n split: if_splits)
qed

lemma parse_all_slot: "parse_all w bs = Some (r, v) \<Longrightarrow> slot v = slot w"
  by (induction bs arbitrary: w) (auto dest!: parse_slot split: if_splits Option.bind_splits)

text \<open>The handshakes; the callbacks they add have to leave the slot alone as well.\<close>

definition slot_calm :: "'u hs_context \<Rightarrow> bool" where
  "slot_calm C \<longleftrightarrow> (\<forall>r x w. slot (snd (confirm_ext C r x w)) = slot w) \<and> (\<forall>n w. slot (snd (append_hdrs C n w)) = slot w)"

locale handshaking_host = host E for E :: "'u env" +
  fixes C :: "'u hs_context"
  assumes calm: "slot_calm C"
begin

lemma confirm_slot: "confirm_ext C r x w = (n, v) \<Longrightarrow> slot v = slot w" "append_hdrs C k w = (h, v) \<Longrightarrow> slot v = slot w"
  using calm unfolding slot_calm_def by (metis snd_conv)+

lemma user_space_slot: "libwebsocket_ensure_user_space C E w = (r, v) \<Longrightarrow> slot v = slot w"
  by (auto simp: libwebsocket_ensure_user_space_def Let_def split: if_splits)

lemma ext_apply_slot: "ext_apply C E name xs bp cnt w = Some (bp', cnt', v) \<Longrightarrow> slot v = slot w"
proof (induction xs arbitrary: bp cnt w)
  case (Cons jx xs)
  obtain j x where jx: "jx = (j, x)" by force
  show ?case using Cons.prems Cons.IH unfolding jx
    by (auto simp: Let_def dest!: confirm_slot ext_slot split: if_splits Option.bind_splits prod.splits)
qed simp

lemma ext_scan_slot: "ext_scan C E c name bp cnt w = Some (bp', v) \<Longrightarrow> slot v = slot w"
proof -
  have "handshaking_host F D \<longrightarrow> slot (snd y) = slot w" if run: "ext_scan D F c name bp cnt w = Some y"
    for D :: "'u hs_context" and F c name bp cnt w y
  proof (rule ext_scan.raw_induct[where P = "\<lambda>D F c name bp cnt w y. handshaking_host F D \<longrightarrow> slot (snd y) = slot w", OF _ run], goal_cases)
    case (1 f D F c name bp cnt w y)
    show ?case
    proof
      assume h: "handshaking_host F D"
      have "f D F c name bp cnt w' = Some y \<Longrightarrow> slot (snd y) = slot w'" for c name bp cnt w' using 1(1) h by blast
      then show "slot (snd y) = slot w" using 1(2)
        by (auto dest!: handshaking_host.ext_apply_slot[OF h] split: if_splits prod.splits Option.bind_splits)
    qed
  qed
  then show "ext_scan C E c name bp cnt w = Some (bp', v) \<Longrightarrow> slot v = slot w" using handshaking_host_axioms by fastforce
qed

lemma reply_extensions_slot: "reply_extensions C E ah bp w = Some (r, bp', v) \<Longrightarrow> slot v = slot w"
  by (auto simp: reply_extensions_def dest!: ext_scan_slot split: if_splits Option.bind_splits)

lemma send_reply_slot: "send_reply E bp w = Some (r, v) \<Longrightarrow> slot v = slot w"
  by (auto simp: send_reply_def Let_def dest!: any_extension_slot write_slot split: if_splits Option.bind_splits prod.splits bool.splits)

lemma handshake_0405_slot: "handshake_0405 C E sb w = Some (r, v) \<Longrightarrow> slot v = slot w"
  by (auto simp: handshake_0405_def dest!: user_space_slot reply_extensions_slot send_reply_slot split: if_splits Option.bind_splits prod.splits)

lemma http_request_slot: "http_request C E ah w = Some (r, v) \<Longrightarrow> slot v = slot w"
  by (auto simp: http_request_def Let_def dest!: user_space_slot user_slot split: if_splits Option.bind_splits prod.splits)

lemma open_ws_slot: "open_ws C E w = (b, v) \<Longrightarrow> slot v = slot w"
  by (auto simp: open_ws_def Let_def split: if_splits)

lemma read_request_slot: "read_request C E sb w = Some (r, v) \<Longrightarrow> slot v = slot w"
  by (auto simp: read_request_def dest!: http_request_slot user_space_slot user_slot handshake_0405_slot open_ws_slot
      split: if_splits Option.bind_splits prod.splits option.splits)

lemma read_slot: "libwebsocket_read C E sb w buf = Some (r, v) \<Longrightarrow> slot v = slot w"
  by (auto simp: libwebsocket_read_def Let_def dest!: client_all_slot parse_all_slot read_request_slot feed_slot incoming_slot
      split: if_splits Option.bind_splits)

lemma ext_veto_slot: "ext_veto E name js w = (b, v) \<Longrightarrow> slot v = slot w"
  by (induction js arbitrary: w b) (auto dest!: ext_slot split: prod.splits)

lemma propose_slot: "propose C E xs cnt bp w = Some (bp', v) \<Longrightarrow> slot v = slot w"
  by (induction xs arbitrary: cnt bp w) (auto dest!: ext_veto_slot confirm_slot split: if_splits Option.bind_splits prod.splits)

lemma generate_slot: "libwebsockets_generate_client_handshake C E sb w = Some (bp, v) \<Longrightarrow> slot v = slot w"
  by (auto simp: libwebsockets_generate_client_handshake_def dest!: propose_slot confirm_slot split: if_splits Option.bind_splits prod.splits)

lemma issue_slot: "issue_handshake C E sb w = Some (b, v) \<Longrightarrow> slot v = slot w"
  by (auto simp: issue_handshake_def dest!: generate_slot split: if_splits Option.bind_splits)

lemma ext_setup_slot: "ext_setup E name xs n w = Some (m, v) \<Longrightarrow> slot v = slot w"
  by (induction xs arbitrary: n w) (auto simp: Let_def dest!: ext_slot split: if_splits prod.splits)

lemma ext_accept_slot: "ext_accept C E s name w = Some (b, v) \<Longrightarrow> slot v = slot w"
  by (induction s arbitrary: name w) (auto dest!: ext_setup_slot split: if_splits Option.bind_splits)

lemma check_extensions_slot: "check_extensions C E sb ah w = Some (b, v) \<Longrightarrow> slot v = slot w"
  by (auto simp: check_extensions_def dest!: ext_accept_slot split: if_splits Option.bind_splits)

lemma ext_tell_slot [simp]: "slot (ext_tell E js w) = slot w"
  by (induction js arbitrary: w) auto

lemma hs_bail_slot: "hs_bail E w = (r, v) \<Longrightarrow> slot v = slot w" "slot (snd (hs_bail E w)) = slot w"
  by (auto simp: hs_bail_def)

lemma check_accept_slot: "check_accept C E ah w = Some (r, v) \<Longrightarrow> slot v = slot w"
  by (auto simp: check_accept_def Let_def hs_bail_slot(2) dest!: hs_bail_slot(1) user_space_slot open_ws_slot split: if_splits Option.bind_splits prod.splits)

lemma interpret_slot: "lws_client_interpret_server_handshake C E sb w = Some (r, v) \<Longrightarrow> slot v = slot w"
  by (auto simp: lws_client_interpret_server_handshake_def dest!: hs_bail_slot(1) check_extensions_slot check_accept_slot
      split: if_splits Option.bind_splits sum.splits)

lemma recv_reply_slot: "recv_reply c fin inp w = Some (r, v, rest) \<Longrightarrow> slot v = slot w"
proof (induction inp arbitrary: c w)
  case Nil
  then show ?case by (subst (asm) recv_reply.simps) (auto dest!: parse_slot split: if_splits Option.bind_splits)
next
  case (Cons ch inp)
  show ?case using Cons.prems by (subst (asm) recv_reply.simps) (auto dest!: parse_slot Cons.IH split: if_splits Option.bind_splits)
qed

lemma server_reply_slot: "server_reply C E sb fin inp w = Some (r, v, rest) \<Longrightarrow> slot v = slot w"
  by (auto simp: server_reply_def dest!: recv_reply_slot interpret_slot split: if_splits Option.bind_splits)

end

end
