(* ===== verification/Sessions.thy ===== *)
theory Sessions
  imports Slot_Frame
begin

text \<open>
  The life of a connection in a context, \<^verbatim>\<open>lib/libwebsockets.c\<close>: closing and freeing it, its timeout, the pass over all connections once a second, the
  end of a context, and the operations on all connections of a protocol. \<open>now\<close> is what \<open>gettimeofday\<close> returns. \<open>None\<close> is undefined behaviour (also
  the use of a connection that has been freed), or not returning.
\<close>

section \<open>The program\<close>

definition LWS_CLOSE_STATUS_NOSTATUS :: u16 where "LWS_CLOSE_STATUS_NOSTATUS = 0"

definition libwebsocket_set_timeout :: "size_t \<Rightarrow> timeout_reason \<Rightarrow> int \<Rightarrow> 'u session \<Rightarrow> 'u session" where
  "libwebsocket_set_timeout now reason secs s = s\<lparr>pending_timeout_limit := now + of_int secs, pending_timeout := reason\<rparr>"

text \<open>The loop that lets the extensions flush what they hold back; the result tells whether sending worked.\<close>

partial_function (option) flush_pending_tx :: "'u env \<Rightarrow> 'u lws \<Rightarrow> (bool \<times> 'u lws) option" where
  "flush_pending_tx E wsi =
    (case ext_loop E LWS_EXT_CALLBACK_FLUSH_PENDING_TX (active_extensions wsi) no_tokens wsi of (fatal, again, tok, wsi) \<Rightarrow>
       if fatal then Some (False, wsi)
       else do { (n, wsi) \<leftarrow> (if tok_len tok \<noteq> 0 then lws_issue_raw E tok wsi else Some (0, wsi));
         if n \<noteq> tok_len tok then Some (False, wsi)
         else if again then flush_pending_tx E wsi else Some (True, wsi) })"

declare flush_pending_tx.simps [code]

text \<open>The buffers of a WebSocket connection are released.\<close>

definition free_ws_buffers :: "conn_state \<Rightarrow> 'u lws \<Rightarrow> 'u lws" where
  "free_ws_buffers old_state wsi =
    (if old_state = WSI_STATE_ESTABLISHED \<or> mode wsi = LWS_CONNMODE_WS_SERVING \<or> mode wsi = LWS_CONNMODE_WS_CLIENT
     then upd_ws (\<lambda>w. w\<lparr>rx_user_buffer := None, rxflow_buffer := None, truncated_send_malloc := None\<rparr>) wsi else wsi)"

definition tell_closed :: "'u env \<Rightarrow> conn_state \<Rightarrow> 'u lws \<Rightarrow> 'u lws" where
  "tell_closed E old_state wsi =
    (if has_callback (protocol wsi) \<and>
        old_state \<in> {WSI_STATE_ESTABLISHED, WSI_STATE_RETURNED_CLOSE_ALREADY, WSI_STATE_AWAITING_CLOSE_ACK}
     then snd (user_cb E LWS_CALLBACK_CLOSED [] wsi)
     else if mode wsi = LWS_CONNMODE_HTTP_SERVING_ACCEPTED then proto0_cb E LWS_CALLBACK_CLOSED_HTTP 0 0 wsi
     else wsi)"

text \<open>The extensions of the connection, then all those of the context, are told.\<close>

definition tell_extensions :: "'u hs_context \<Rightarrow> 'u env \<Rightarrow> 'u lws \<Rightarrow> 'u lws" where
  "tell_extensions C E wsi =
    (let wsi = snd (snd (ext_each E LWS_EXT_CALLBACK_DESTROY (active_extensions wsi) no_tokens wsi))
     in snd (snd (ext_each E LWS_EXT_CALLBACK_DESTROY_ANY_WSI_CLOSING [0..<length (hs_extensions C)] no_tokens wsi)))"

text \<open>The label \<open>just_kill_connection\<close>.\<close>

definition just_kill_connection :: "'u hs_context \<Rightarrow> 'u env \<Rightarrow> conn_state \<Rightarrow> nat \<Rightarrow> 'u lws_context \<Rightarrow> 'u lws_context option" where
  "just_kill_connection C E old_state p cx = do { (_, cx) \<leftarrow> remove_wsi_socket_from_fds E p cx;
     s \<leftarrow> wsis cx p;
     wsi \<leftarrow> Some (tell_extensions C E (tell_closed E old_state (free_ws_buffers old_state ((s_wsi s)\<lparr>state := WSI_STATE_DEAD_SOCKET\<rparr>))));
     Some (cx\<lparr>closed := closed cx @ (if sock wsi \<noteq> 0 then [sock wsi] else []), wsis := (wsis cx)(p := None)\<rparr>) }"

text \<open>The file of a connection that serves one is closed.\<close>

definition close_http_fd :: "'u env \<Rightarrow> nat \<Rightarrow> 'u lws_context \<Rightarrow> 'u lws_context option" where
  "close_http_fd E p cx = do { s \<leftarrow> wsis cx p;
     if mode (s_wsi s) = LWS_CONNMODE_HTTP_SERVING_ACCEPTED \<and> http_fd s \<noteq> 0
     then Some (upd_wsi p (proto0_cb E LWS_CALLBACK_CLOSED_HTTP 0 0) (upd_session p (\<lambda>s. s\<lparr>http_fd := 0\<rparr>) (cx\<lparr>closed := closed cx @ [http_fd s]\<rparr>)))
     else Some cx }"

text \<open>
  From the question whether the extensions agree on. The close frame is written from a cleared block with room for its reason.
\<close>

definition close_politely :: "'u hs_context \<Rightarrow> 'u env \<Rightarrow> size_t \<Rightarrow> conn_state \<Rightarrow> u16 \<Rightarrow> nat \<Rightarrow> 'u lws_context \<Rightarrow> 'u lws_context option" where
  "close_politely C E now old_state reason p cx = do { s \<leftarrow> wsis cx p;
     (vetoed, wsi) \<leftarrow> Some (lws_any_extension_handled E LWS_EXT_CALLBACK_CHECK_OK_TO_REALLY_CLOSE no_tokens (active_extensions (s_wsi s)) (s_wsi s));
     if vetoed then Some (upd_wsi p (\<lambda>_. wsi) cx)
     else do { (okay, wsi) \<leftarrow> flush_pending_tx E wsi;
       if okay \<and> old_state = WSI_STATE_ESTABLISHED \<and> reason \<noteq> LWS_CLOSE_STATUS_NOSTATUS then
         do { (n, wsi, _) \<leftarrow> libwebsocket_write E wsi (replicate (LWS_SEND_BUFFER_PRE_PADDING + 2 + LWS_SEND_BUFFER_POST_PADDING) 0)
                (LWS_SEND_BUFFER_PRE_PADDING + 2) 0 LWS_WRITE_CLOSE;
              if n \<ge> 0 then Some (upd_session p (\<lambda>s. libwebsocket_set_timeout now PENDING_TIMEOUT_CLOSE_ACK 1
                 (s\<lparr>s_wsi := wsi\<lparr>state := WSI_STATE_AWAITING_CLOSE_ACK\<rparr>\<rparr>)) cx)
              else just_kill_connection C E old_state p (upd_wsi p (\<lambda>_. wsi) cx) }
       else just_kill_connection C E old_state p (upd_wsi p (\<lambda>_. wsi) cx) } }"

definition libwebsocket_close_and_free_session ::
    "'u hs_context \<Rightarrow> 'u env \<Rightarrow> size_t \<Rightarrow> nat option \<Rightarrow> u16 \<Rightarrow> 'u lws_context \<Rightarrow> 'u lws_context option" where
  "libwebsocket_close_and_free_session C E now ptr reason cx = (case ptr of None \<Rightarrow> Some cx
    | Some p \<Rightarrow> do { s \<leftarrow> wsis cx p;
        old_state \<leftarrow> Some (state (s_wsi s));
        if old_state = WSI_STATE_DEAD_SOCKET then Some cx
        else if old_state = WSI_STATE_AWAITING_CLOSE_ACK then just_kill_connection C E old_state p cx
        else
          let cx = upd_wsi p (upd_ws (\<lambda>w. w\<lparr>close_reason := reason\<rparr>)) cx in
          if mode (s_wsi s) \<in> {LWS_CONNMODE_WS_CLIENT_WAITING_CONNECT, LWS_CONNMODE_WS_CLIENT_ISSUE_HANDSHAKE}
          then just_kill_connection C E old_state p (upd_wsi p (\<lambda>wsi. upd_hdr (\<lambda>hd. hd\<lparr>hdr_ah := None\<rparr>)
                 (proto0_cb E LWS_CALLBACK_CLIENT_CONNECTION_ERROR 0 0 wsi)) cx)
          else do { cx \<leftarrow> close_http_fd E p cx; close_politely C E now old_state reason p cx } })"

text \<open>The caller passes the seconds as an \<open>unsigned int\<close>; they are compared with an \<open>unsigned long\<close>.\<close>

definition libwebsocket_service_timeout_check ::
    "'u hs_context \<Rightarrow> 'u env \<Rightarrow> size_t \<Rightarrow> nat \<Rightarrow> u32 \<Rightarrow> 'u lws_context \<Rightarrow> (int \<times> 'u lws_context) option" where
  "libwebsocket_service_timeout_check C E now p sec cx = do { s \<leftarrow> wsis cx p;
     cx \<leftarrow> Some (upd_wsi p (\<lambda>wsi. snd (snd (ext_each E LWS_EXT_CALLBACK_1HZ (active_extensions wsi) no_tokens wsi))) cx);
     if pending_timeout s = NO_PENDING_TIMEOUT then Some (0, cx)
     else if ucast sec > pending_timeout_limit s
     then do { cx \<leftarrow> libwebsocket_close_and_free_session C E now (Some p) LWS_CLOSE_STATUS_NOSTATUS cx; Some (1, cx) }
     else Some (0, cx) }"

text \<open>The loop over the table in \<open>libwebsocket_service_fd\<close>; the result tells whether the socket \<open>our_fd\<close> has timed out.\<close>

partial_function (option) timeout_loop :: "'u hs_context \<Rightarrow> 'u env \<Rightarrow> size_t \<Rightarrow> int \<Rightarrow> int \<Rightarrow> bool \<Rightarrow> 'u lws_context \<Rightarrow> (bool \<times> 'u lws_context) option" where
  "timeout_loop C E now our_fd n timed_out cx = (if n \<ge> fds_count cx then Some (timed_out, cx)
     else do { e \<leftarrow> rdi (fds cx) n; ptr \<leftarrow> rdi (lws_lookup cx) (pfd_fd e);
       case ptr of None \<Rightarrow> timeout_loop C E now our_fd (n + 1) timed_out cx
       | Some p \<Rightarrow> do { (r, cx) \<leftarrow> libwebsocket_service_timeout_check C E now p (ucast now) cx;
           timeout_loop C E now our_fd (n + 1) (timed_out \<or> (r \<noteq> 0 \<and> pfd_fd e = our_fd)) cx } })"

declare timeout_loop.simps [code]

text \<open>The loop of \<open>libwebsocket_context_destroy\<close>, in which \<open>n\<close> is always 0.\<close>

partial_function (option) destroy_loop :: "'u hs_context \<Rightarrow> 'u env \<Rightarrow> size_t \<Rightarrow> 'u lws_context \<Rightarrow> 'u lws_context option" where
  "destroy_loop C E now cx = (if 0 \<ge> fds_count cx then Some cx
     else do { e \<leftarrow> rdi (fds cx) 0; ptr \<leftarrow> rdi (lws_lookup cx) (pfd_fd e);
       cx \<leftarrow> libwebsocket_close_and_free_session C E now ptr LWS_CLOSE_STATUS_NOSTATUS cx;
       destroy_loop C E now cx })"

declare destroy_loop.simps [code]

text \<open>A loop over all connections of a protocol, told apart by its record.\<close>

fun protocol_loop :: "('u lws \<Rightarrow> 'u lws) \<Rightarrow> libwebsocket_protocols \<Rightarrow> nat list \<Rightarrow> 'u lws_context \<Rightarrow> 'u lws_context option" where
  "protocol_loop f prot [] cx = Some cx"
| "protocol_loop f prot (n # ns) cx = do { e \<leftarrow> rd (fds cx) n; ptr \<leftarrow> rdi (lws_lookup cx) (pfd_fd e);
     case ptr of None \<Rightarrow> protocol_loop f prot ns cx
     | Some p \<Rightarrow> do { s \<leftarrow> wsis cx p;
         protocol_loop f prot ns (if protocol (s_wsi s) = prot then upd_wsi p f cx else cx) } }"

definition libwebsocket_callback_on_writable_all_protocol :: "'u env \<Rightarrow> libwebsocket_protocols \<Rightarrow> 'u lws_context \<Rightarrow> 'u lws_context option" where
  "libwebsocket_callback_on_writable_all_protocol E prot cx =
     protocol_loop (\<lambda>wsi. snd (libwebsocket_callback_on_writable E wsi)) prot [0..<nat (fds_count cx)] cx"

definition libwebsocket_rx_flow_allow_all_protocol :: "libwebsocket_protocols \<Rightarrow> 'u lws_context \<Rightarrow> 'u lws_context option" where
  "libwebsocket_rx_flow_allow_all_protocol prot cx =
     protocol_loop (\<lambda>wsi. snd (libwebsocket_rx_flow_control True wsi)) prot [0..<nat (fds_count cx)] cx"

section \<open>Changes that leave the table alone\<close>

definition same_table :: "'u lws_context \<Rightarrow> 'u lws_context \<Rightarrow> bool" where
  "same_table cx cx' \<longleftrightarrow> slot_of cx' = slot_of cx \<and> map pfd_fd (fds cx') = map pfd_fd (fds cx) \<and> lws_lookup cx' = lws_lookup cx \<and>
     fds_count cx' = fds_count cx \<and> max_fds cx' = max_fds cx \<and> listen_service_fd cx' = listen_service_fd cx \<and>
     dangling cx' = dangling cx"

lemma same_table_refl [simp]: "same_table cx cx"
  by (simp add: same_table_def)

lemma same_table_trans: "same_table cx cx' \<Longrightarrow> same_table cx' cx'' \<Longrightarrow> same_table cx cx''"
  by (simp add: same_table_def)

lemma same_tableD:
  assumes "same_table cx cx'"
  shows "table_ok cx' = table_ok cx" "table_map cx' = table_map cx" "sock_of cx' = sock_of cx" "socks cx' = socks cx" "max_fds cx' = max_fds cx"
    "listen_service_fd cx' = listen_service_fd cx" "dangling cx' = dangling cx"
proof -
  have "map pfd_fd (fds cx') = map pfd_fd (fds cx)" "fds_count cx' = fds_count cx" using assms by (simp_all add: same_table_def)
  then have sk: "socks cx' = socks cx" "length (fds cx') = length (fds cx)"
    by (simp_all add: socks_def flip: take_map) (metis length_map)
  then show "table_ok cx' = table_ok cx" "table_map cx' = table_map cx" "sock_of cx' = sock_of cx" "socks cx' = socks cx" "max_fds cx' = max_fds cx"
    "listen_service_fd cx' = listen_service_fd cx" "dangling cx' = dangling cx" using assms by (auto simp: same_table_def table_ok_def slot_ok_alt table_map_def sock_of_slot fun_eq_iff)
qed

lemma same_upd_session: "(\<And>s. wsis cx p = Some s \<Longrightarrow> slot (s_wsi (f s)) = slot (s_wsi s)) \<Longrightarrow> same_table cx (upd_session p f cx)"
  by (auto simp: same_table_def upd_session_def slot_of_def fun_eq_iff option.map_comp) (cases "wsis cx p"; simp)

lemma same_upd_wsi: "(\<And>s. wsis cx p = Some s \<Longrightarrow> slot (f (s_wsi s)) = slot (s_wsi s)) \<Longrightarrow> same_table cx (upd_wsi p f cx)"
  unfolding upd_wsi_def by (rule same_upd_session) simp

lemma same_closed [simp]: "same_table cx (cx\<lparr>closed := c\<rparr>)"
  by (simp add: same_table_def)

section \<open>Closing\<close>

text \<open>Freeing a connection that is not in the table.\<close>

lemma free_ok:
  fixes c :: "int list"
  assumes "table_ok cx" "table_map cx k = None" "sock_of cx p = Some k"
  defines "cx' \<equiv> cx\<lparr>closed := c, wsis := (wsis cx)(p := None)\<rparr>"
  shows "table_ok cx'" "table_map cx' = table_map cx" "socks cx' = socks cx"
proof -
  show sk: "socks cx' = socks cx" by (simp add: cx'_def socks_def)
  then show "table_map cx' = table_map cx" by (simp add: table_map_def cx'_def fun_eq_iff)
  have "slot_ok cx' n" if n: "n < length (socks cx)" for n
  proof -
    have s: "slot_ok cx n" using assms(1) n by (simp add: table_ok_def)
    then obtain q where q: "lws_lookup cx ! nat (socks cx ! n) = Some q" "slot_of cx q = Some (socks cx ! n, int n)" by (auto simp: slot_ok_alt)
    have "socks cx ! n \<noteq> k" using dom_table_map[OF assms(1)] assms(2) nth_mem[OF n] by auto
    then have "q \<noteq> p" using q(2) assms(3) by (auto simp: sock_of_slot)
    then have "slot_of cx' q = slot_of cx q" by (simp add: slot_of_def cx'_def)
    then show ?thesis using s q unfolding slot_ok_alt sk by (simp add: cx'_def)
  qed
  then show "table_ok cx'" using assms(1) sk by (simp add: table_ok_def) (simp add: cx'_def)
qed

text \<open>However a close ends, the table is in order: the connection is still in it, or out of it and freed.\<close>

definition closing_result :: "int \<Rightarrow> nat \<Rightarrow> 'u lws_context \<Rightarrow> 'u lws_context \<Rightarrow> bool" where
  "closing_result k p cx cx' \<longleftrightarrow> table_ok cx' \<and> max_fds cx' = max_fds cx \<and> listen_service_fd cx' = listen_service_fd cx \<and>
     (\<forall>q. q \<noteq> p \<longrightarrow> sock_of cx' q = sock_of cx q) \<and>
     (table_map cx' = table_map cx \<and> sock_of cx' p = sock_of cx p \<or> table_map cx' = (table_map cx)(k := None) \<and> wsis cx' p = None)"

lemma others_sock: "others_same p cx cx' \<Longrightarrow> q \<noteq> p \<Longrightarrow> sock_of cx' q = sock_of cx q"
proof -
  assume "others_same p cx cx'" "q \<noteq> p"
  then have "map_option (\<lambda>s. sock (s_wsi s)) (map_option unplaced (wsis cx' q)) = map_option (\<lambda>s. sock (s_wsi s)) (map_option unplaced (wsis cx q))"
    by (simp add: others_same_def)
  then show "sock_of cx' q = sock_of cx q" by (simp add: sock_of_def option.map_comp comp_def unplaced_def)
qed

lemma closing_same: "table_ok cx \<Longrightarrow> same_table cx cx' \<Longrightarrow> closing_result k p cx cx'"
  by (simp add: closing_result_def same_tableD)

lemma closing_after: "same_table cx cx1 \<Longrightarrow> closing_result k p cx1 cx' \<Longrightarrow> closing_result k p cx cx'"
  by (simp add: closing_result_def same_tableD)

text \<open>The file that is closed with a connection.\<close>

definition http_file :: "'u session \<Rightarrow> int list" where
  "http_file s = (if state (s_wsi s) \<noteq> WSI_STATE_AWAITING_CLOSE_ACK \<and> mode (s_wsi s) = LWS_CONNMODE_HTTP_SERVING_ACCEPTED \<and> http_fd s \<noteq> 0
     then [http_fd s] else [])"

context handshaking_host
begin

lemma tell_slot [simp]: "slot (tell_extensions C E w) = slot w" "slot (tell_closed E old w) = slot w" "slot (free_ws_buffers old w) = slot w"
  by (simp_all add: tell_extensions_def tell_closed_def free_ws_buffers_def Let_def)

lemma kill_ok:
  assumes "table_ok cx" "table_map cx k = Some p"
  obtains cx' where "just_kill_connection C E old p cx = Some cx'" "table_ok cx'" "table_map cx' = (table_map cx)(k := None)" "wsis cx' p = None"
    "closed cx' = closed cx @ (if k \<noteq> 0 then [k] else [])" "others_same p cx cx'" "length (socks cx') + 1 = length (socks cx)" "max_fds cx' = max_fds cx"
    "listen_service_fd cx' = listen_service_fd cx"
    "\<And>m. m < length (socks cx) \<Longrightarrow> socks cx ! m = k \<Longrightarrow> socks cx' = fill_gap (socks cx) m"
proof -
  obtain cx1 where r: "remove_wsi_socket_from_fds E p cx = Some (0, cx1)" "table_ok cx1" "table_map cx1 = (table_map cx)(k := None)"
    "sock_of cx1 = sock_of cx" "length (socks cx1) + 1 = length (socks cx)" "max_fds cx1 = max_fds cx" "closed cx1 = closed cx" "others_same p cx cx1"
    "\<And>m. m < length (socks cx) \<Longrightarrow> socks cx ! m = k \<Longrightarrow> socks cx1 = fill_gap (socks cx) m" "listen_service_fd cx1 = listen_service_fd cx"
    using remove_ok[OF assms(1) safe assms(2)] by metis
  have k: "sock_of cx1 p = Some k" using table_mapE[OF assms] r(4) by (metis sock_of_def option.map(2))
  then obtain s where s: "wsis cx1 p = Some s" "sock (s_wsi s) = k" by (auto simp: sock_of_def)
  let ?w = "tell_extensions C E (tell_closed E old (free_ws_buffers old ((s_wsi s)\<lparr>state := WSI_STATE_DEAD_SOCKET\<rparr>)))"
  have "slot ?w = slot (s_wsi s)" by simp
  then have "sock ?w = k" using s(2) slot_eqD(1) by metis
  then have "just_kill_connection C E old p cx = Some (cx1\<lparr>closed := closed cx @ (if k \<noteq> 0 then [k] else []), wsis := (wsis cx1)(p := None)\<rparr>)"
    using r(1,7) s(1) by (simp add: just_kill_connection_def)
  then show ?thesis
    using that free_ok[OF r(2) _ k] r(3,5,6,8-10) by (simp add: others_same_def)
qed

lemma flush_slot: "flush_pending_tx E w = Some (b, v) \<Longrightarrow> slot v = slot w"
proof -
  have "host F \<longrightarrow> slot (snd y) = slot w" if run: "flush_pending_tx F w = Some y" for F :: "'u env" and w y
  proof (rule flush_pending_tx.raw_induct[where P = "\<lambda>F w y. host F \<longrightarrow> slot (snd y) = slot w", OF _ run], goal_cases)
    case (1 f F w y)
    show ?case
    proof
      assume h: "host F"
      obtain fatal again tok' w1 where l: "ext_loop F LWS_EXT_CALLBACK_FLUSH_PENDING_TX (active_extensions w) no_tokens w = (fatal, again, tok', w1)"
        by (metis prod_cases4)
      have "f F w' = Some y \<Longrightarrow> slot (snd y) = slot w'" for w' using 1(1) h by blast
      then show "slot (snd y) = slot w" using 1(2) l host.ext_loop_slot[OF h l]
        by (auto dest!: host.issue_raw_slot[OF h] split: if_splits prod.splits Option.bind_splits)
    qed
  qed
  then show "flush_pending_tx E w = Some (b, v) \<Longrightarrow> slot v = slot w" using host_axioms by fastforce
qed

lemma kill_result:
  assumes "table_ok cx" "table_map cx k = Some p" "just_kill_connection C E old p cx = Some cx'"
  shows "closing_result k p cx cx'"
proof (rule kill_ok[OF assms(1,2), of old], goal_cases)
  case (1 cx1)
  then show ?case using assms(3) others_sock[OF 1(6)] by (simp add: closing_result_def)
qed

lemma http_fd_same: "close_http_fd E p cx = Some cx' \<Longrightarrow> same_table cx cx'"
proof -
  have "same_table cx (upd_wsi p (proto0_cb E LWS_CALLBACK_CLOSED_HTTP 0 0) (upd_session p (\<lambda>s. s\<lparr>http_fd := 0\<rparr>) (cx\<lparr>closed := c\<rparr>)))" for c
    by (rule same_table_trans[OF same_table_trans[OF same_closed same_upd_session] same_upd_wsi]) simp_all
  then show "close_http_fd E p cx = Some cx' \<Longrightarrow> same_table cx cx'" by (auto simp: close_http_fd_def split: Option.bind_splits if_splits)
qed

lemma politely_result:
  assumes ok: "table_ok cx" "table_map cx k = Some p" and run: "close_politely C E now old reason p cx = Some cx'"
  shows "closing_result k p cx cx'"
proof -
  obtain s where s: "wsis cx p = Some s" using table_mapE[OF ok] by metis
  obtain b w1 where v: "lws_any_extension_handled E LWS_EXT_CALLBACK_CHECK_OK_TO_REALLY_CLOSE no_tokens (active_extensions (s_wsi s)) (s_wsi s) = (b, w1)"
    by force
  have w1: "slot w1 = slot (s_wsi s)" using any_extension_slot[OF v] .
  have put: "same_table cx (upd_wsi p (\<lambda>_. w) cx)" if "slot w = slot (s_wsi s)" for w using that s by (intro same_upd_wsi) simp
  have await: "same_table cx (upd_session p (\<lambda>s. libwebsocket_set_timeout now PENDING_TIMEOUT_CLOSE_ACK 1 (s\<lparr>s_wsi := w\<lparr>state := WSI_STATE_AWAITING_CLOSE_ACK\<rparr>\<rparr>)) cx)"
    if "slot w = slot (s_wsi s)" for w using that s by (intro same_upd_session) (simp add: libwebsocket_set_timeout_def)
  have kill: "closing_result k p cx cx'" if "slot w = slot (s_wsi s)" "just_kill_connection C E old p (upd_wsi p (\<lambda>_. w) cx) = Some cx'" for w
    using kill_result[OF _ _ that(2)] same_tableD[OF put[OF that(1)]] ok closing_after[OF put[OF that(1)]] by simp
  show ?thesis using run s v w1
    by (auto simp: close_politely_def dest!: flush_slot write_slot intro: kill closing_same[OF ok(1) put] closing_same[OF ok(1) await]
        split: if_splits Option.bind_splits prod.splits)
qed

lemma close_result:
  assumes ok: "table_ok cx" "table_map cx k = Some p"
    and run: "libwebsocket_close_and_free_session C E now (Some p) reason cx = Some cx'"
  shows "closing_result k p cx cx'"
proof -
  obtain s where s: "wsis cx p = Some s" using table_mapE[OF ok] by metis
  let ?cx = "upd_wsi p (upd_ws (\<lambda>w. w\<lparr>close_reason := reason\<rparr>)) cx"
  let ?cx2 = "upd_wsi p (\<lambda>wsi. upd_hdr (\<lambda>hd. hd\<lparr>hdr_ah := None\<rparr>) (proto0_cb E LWS_CALLBACK_CLIENT_CONNECTION_ERROR 0 0 wsi)) ?cx"
  have a: "same_table cx ?cx" by (rule same_upd_wsi) simp
  have b: "same_table cx ?cx2" by (rule same_table_trans[OF a same_upd_wsi]) simp
  have c: "closing_result k p cx cx'" if "close_http_fd E p ?cx = Some cx1" "close_politely C E now old reason p cx1 = Some cx'" for cx1 old
    using politely_result[OF _ _ that(2)] same_tableD[OF same_table_trans[OF a http_fd_same[OF that(1)]]] ok
      closing_after[OF same_table_trans[OF a http_fd_same[OF that(1)]]] by simp
  have d: "closing_result k p cx cx'" if "just_kill_connection C E old p ?cx2 = Some cx'" for old
    using kill_result[OF _ _ that] same_tableD[OF b] ok closing_after[OF b] by simp
  show ?thesis using run s ok
    by (auto simp: libwebsocket_close_and_free_session_def Let_def dest: c d kill_result[OF ok] intro: closing_same split: if_splits Option.bind_splits)
qed

text \<open>Without extensions, and when no close frame is due, the connection is gone and its socket is closed.\<close>

lemma flush_none: "active_extensions w = [] \<Longrightarrow> flush_pending_tx E w = Some (True, w)"
  by (simp add: flush_pending_tx.simps[of E w] no_tokens_def)

lemma close_ok:
  assumes ok: "table_ok cx" "table_map cx k = Some p"
    and s: "wsis cx p = Some s" "active_extensions (s_wsi s) = []" "state (s_wsi s) \<noteq> WSI_STATE_DEAD_SOCKET"
    and reason: "reason = LWS_CLOSE_STATUS_NOSTATUS \<or> state (s_wsi s) \<noteq> WSI_STATE_ESTABLISHED"
  obtains cx' where "libwebsocket_close_and_free_session C E now (Some p) reason cx = Some cx'" "table_ok cx'"
    "table_map cx' = (table_map cx)(k := None)" "wsis cx' p = None" "closed cx' = closed cx @ http_file s @ (if k \<noteq> 0 then [k] else [])"
    "others_same p cx cx'" "length (socks cx') + 1 = length (socks cx)" "max_fds cx' = max_fds cx"
    "\<And>m. m < length (socks cx) \<Longrightarrow> socks cx ! m = k \<Longrightarrow> socks cx' = fill_gap (socks cx) m"
proof -
  define old where "old = state (s_wsi s)"
  define cx1 where "cx1 = (if old = WSI_STATE_AWAITING_CLOSE_ACK then cx else
     let cx = upd_wsi p (upd_ws (\<lambda>w. w\<lparr>close_reason := reason\<rparr>)) cx in
     if mode (s_wsi s) \<in> {LWS_CONNMODE_WS_CLIENT_WAITING_CONNECT, LWS_CONNMODE_WS_CLIENT_ISSUE_HANDSHAKE}
     then upd_wsi p (\<lambda>wsi. upd_hdr (\<lambda>hd. hd\<lparr>hdr_ah := None\<rparr>) (proto0_cb E LWS_CALLBACK_CLIENT_CONNECTION_ERROR 0 0 wsi)) cx
     else if mode (s_wsi s) = LWS_CONNMODE_HTTP_SERVING_ACCEPTED \<and> http_fd s \<noteq> 0
     then upd_wsi p (proto0_cb E LWS_CALLBACK_CLOSED_HTTP 0 0) (upd_session p (\<lambda>s. s\<lparr>http_fd := 0\<rparr>) (cx\<lparr>closed := closed cx @ [http_fd s]\<rparr>))
     else cx)"
  have run: "libwebsocket_close_and_free_session C E now (Some p) reason cx = just_kill_connection C E old p cx1"
    using s reason
    by (auto simp: libwebsocket_close_and_free_session_def cx1_def old_def[symmetric] Let_def close_http_fd_def close_politely_def upd_wsi_def upd_session_def
        flush_none slot_safeD(6)[OF safe])
  have same: "same_table cx cx1"
    unfolding cx1_def Let_def by (auto intro!: same_upd_wsi same_upd_session same_table_trans[OF _ same_upd_wsi] same_table_trans[OF _ same_upd_session]
        same_table_trans[OF _ same_closed])
  have cl: "closed cx1 = closed cx @ http_file s"
    by (auto simp: cx1_def http_file_def old_def Let_def upd_wsi_def upd_session_def)
  have oth: "others_same p cx cx1" by (simp add: others_same_def cx1_def Let_def upd_wsi_def upd_session_def)
  obtain cx' where k: "just_kill_connection C E old p cx1 = Some cx'" "table_ok cx'" "table_map cx' = (table_map cx1)(k := None)" "wsis cx' p = None"
    "closed cx' = closed cx1 @ (if k \<noteq> 0 then [k] else [])" "others_same p cx1 cx'" "length (socks cx') + 1 = length (socks cx1)" "max_fds cx' = max_fds cx1"
    "\<And>m. m < length (socks cx1) \<Longrightarrow> socks cx1 ! m = k \<Longrightarrow> socks cx' = fill_gap (socks cx1) m"
    using kill_ok[of cx1 k p old] ok same_tableD[OF same] by metis
  show ?thesis
    by (rule that[of cx']) (use k run same_tableD[OF same] cl oth in \<open>simp_all add: others_same_def\<close>)
qed

end

section \<open>A sample\<close>

text \<open>Two connections in the table, both waiting for the answer to a close frame until second 10.\<close>

definition waiting_session :: "int \<Rightarrow> int \<Rightarrow> byte list list session" where
  "waiting_session k n = (sample_session k)\<lparr>s_wsi := (zero_lws sample_protocol [])\<lparr>sock := k, position_in_fds_table := n\<rparr>,
     pending_timeout := PENDING_TIMEOUT_CLOSE_ACK, pending_timeout_limit := 10\<rparr>"

definition two_conns :: "byte list list lws_context" where
  "two_conns = (empty_context 8 [0 \<mapsto> waiting_session 5 0, 1 \<mapsto> waiting_session 6 1])\<lparr>fds_count := 2,
     fds := \<lparr>pfd_fd = 5, pfd_revents = 0\<rparr> # \<lparr>pfd_fd = 6, pfd_revents = 0\<rparr> # replicate 6 \<lparr>pfd_fd = 0, pfd_revents = 0\<rparr>,
     lws_lookup := [None, None, None, None, None, Some 0, Some 1, None]\<rparr>"

lemma two_fields:
  "fds_count two_conns = 2" "max_fds two_conns = 8" "lws_lookup two_conns = [None, None, None, None, None, Some 0, Some 1, None]" "length (fds two_conns) = 8"
  "socks two_conns = [5, 6]" "wsis two_conns 0 = Some (waiting_session 5 0)" "wsis two_conns (Suc 0) = Some (waiting_session 6 1)" "closed two_conns = []"
  by (simp_all add: two_conns_def empty_context_def socks_def)

lemma waiting_fields: "sock (s_wsi (waiting_session k n)) = k" "position_in_fds_table (s_wsi (waiting_session k n)) = n"
  "pending_timeout (waiting_session k n) = PENDING_TIMEOUT_CLOSE_ACK" "pending_timeout_limit (waiting_session k n) = 10"
  "active_extensions (s_wsi (waiting_session k n)) = []" "state (s_wsi (waiting_session k n)) = WSI_STATE_HTTP" "http_fd (waiting_session k n) = 0"
  "mode (s_wsi (waiting_session k n)) = LWS_CONNMODE_HTTP_SERVING"
  by (simp_all add: waiting_session_def zero_lws_def sample_session_def)

lemma two_table: "table_ok two_conns" "table_map two_conns = [5 \<mapsto> 0, 6 \<mapsto> 1]"
  by (auto simp: table_ok_def two_fields slot_ok_def waiting_fields less_Suc_eq numeral_2_eq_2 table_map_def fun_eq_iff)

lemma hs_calm: "slot_calm hs_sample"
  by (simp add: slot_calm_def hs_sample_def)

interpretation sample_host: handshaking_host hs_env hs_sample
  by unfold_locales (rule hs_env_slots, rule hs_calm)

section \<open>The end of a context\<close>

text \<open>Connections that close at once: no extension is active, and they are not dead already.\<close>

definition closes_at_once :: "'u session \<Rightarrow> bool" where
  "closes_at_once s \<longleftrightarrow> active_extensions (s_wsi s) = [] \<and> state (s_wsi s) \<noteq> WSI_STATE_DEAD_SOCKET"

definition all_close :: "'u lws_context \<Rightarrow> bool" where
  "all_close cx \<longleftrightarrow> (\<forall>p \<in> ran (table_map cx). case wsis cx p of None \<Rightarrow> False | Some s \<Rightarrow> closes_at_once s)"

lemma all_closeD: "all_close cx \<Longrightarrow> table_map cx k = Some p \<Longrightarrow> wsis cx p = Some s \<Longrightarrow> closes_at_once s"
  by (auto simp: all_close_def ran_def split: option.splits)

lemma all_closeI: "(\<And>k p. table_map cx k = Some p \<Longrightarrow> \<exists>s. wsis cx p = Some s \<and> closes_at_once s) \<Longrightarrow> all_close cx"
  by (fastforce simp: all_close_def ran_def split: option.splits)

text \<open>
  The descriptors a connection holds as far as the code knows: the file it is sending and its socket, where the code takes a socket with the
  number 0 for none (\<open>if (wsi->sock)\<close>).
\<close>

definition held_by :: "'u lws_context \<Rightarrow> int \<Rightarrow> int multiset" where
  "held_by cx k = (case table_map cx k of None \<Rightarrow> {#}
     | Some p \<Rightarrow> mset ((case wsis cx p of None \<Rightarrow> [] | Some s \<Rightarrow> http_file s) @ (if k \<noteq> 0 then [k] else [])))"

lemma unplaced_fields:
  assumes "unplaced s' = unplaced s"
  shows "http_file s' = http_file s" "closes_at_once s' = closes_at_once s" "pending_timeout s' = pending_timeout s"
    "pending_timeout_limit s' = pending_timeout_limit s"
proof -
  have "http_file (unplaced x) = http_file x" "closes_at_once (unplaced x) = closes_at_once x" "pending_timeout (unplaced x) = pending_timeout x"
    "pending_timeout_limit (unplaced x) = pending_timeout_limit x" for x :: "'u session"
    by (simp_all add: unplaced_def http_file_def closes_at_once_def)
  then show "http_file s' = http_file s" "closes_at_once s' = closes_at_once s" "pending_timeout s' = pending_timeout s"
    "pending_timeout_limit s' = pending_timeout_limit s" using assms by metis+
qed

lemma others_sameD:
  assumes "others_same p cx cx'" "q \<noteq> p"
  shows "wsis cx' q = None \<longleftrightarrow> wsis cx q = None"
    "wsis cx q = Some s \<Longrightarrow> \<exists>s'. wsis cx' q = Some s' \<and> unplaced s' = unplaced s"
proof -
  have "map_option unplaced (wsis cx' q) = map_option unplaced (wsis cx q)" using assms by (simp add: others_same_def)
  then show "wsis cx' q = None \<longleftrightarrow> wsis cx q = None" "wsis cx q = Some s \<Longrightarrow> \<exists>s'. wsis cx' q = Some s' \<and> unplaced s' = unplaced s"
    by (cases "wsis cx q"; cases "wsis cx' q"; simp)+
qed

text \<open>What a close does in the terms of the interface.\<close>

lemma dispose_ok:
  assumes h: "handshaking_host E C" and ok: "table_ok cx" "all_close cx" and k: "table_map cx k = Some p"
  obtains cx' where "libwebsocket_close_and_free_session C E now (Some p) LWS_CLOSE_STATUS_NOSTATUS cx = Some cx'"
    "table_ok cx'" "all_close cx'" "table_map cx' = (table_map cx)(k := None)" "mset (closed cx') = mset (closed cx) + held_by cx k"
    "\<forall>j \<in> dom (table_map cx) - {k}. held_by cx' j = held_by cx j" "{q. wsis cx' q = None} = insert p {q. wsis cx q = None}"
    "\<And>m. m < length (socks cx) \<Longrightarrow> socks cx ! m = k \<Longrightarrow> socks cx' = fill_gap (socks cx) m" "others_same p cx cx'"
proof -
  obtain s where s: "wsis cx p = Some s" using table_mapE[OF ok(1) k] by metis
  have cs: "closes_at_once s" using all_closeD[OF ok(2) k s] .
  obtain cx' where c: "libwebsocket_close_and_free_session C E now (Some p) LWS_CLOSE_STATUS_NOSTATUS cx = Some cx'" "table_ok cx'"
    "table_map cx' = (table_map cx)(k := None)" "wsis cx' p = None" "closed cx' = closed cx @ http_file s @ (if k \<noteq> 0 then [k] else [])"
    "others_same p cx cx'" "\<And>m. m < length (socks cx) \<Longrightarrow> socks cx ! m = k \<Longrightarrow> socks cx' = fill_gap (socks cx) m"
    using handshaking_host.close_ok[OF h ok(1) k s, of LWS_CLOSE_STATUS_NOSTATUS now] cs unfolding closes_at_once_def by metis
  have np: "q \<noteq> p" if "table_map cx j = Some q" "j \<noteq> k" for j q using table_map_inj[OF ok(1) that(1)] k that(2) by blast
  have old: "\<exists>s s'. wsis cx q = Some s \<and> wsis cx' q = Some s' \<and> unplaced s' = unplaced s" if j: "table_map cx j = Some q" "j \<noteq> k" for j q
    using others_sameD(2)[OF c(6) np[OF j]] table_mapE[OF ok(1) j(1)] by metis
  have "all_close cx'"
  proof (rule all_closeI)
    fix j q
    assume "table_map cx' j = Some q"
    then have j: "table_map cx j = Some q" "j \<noteq> k" using c(3) by (auto split: if_splits)
    obtain s s' where "wsis cx q = Some s" "wsis cx' q = Some s'" "unplaced s' = unplaced s" using old[OF j] by blast
    then show "\<exists>s. wsis cx' q = Some s \<and> closes_at_once s" using all_closeD[OF ok(2) j(1)] unplaced_fields(2) by blast
  qed
  moreover have "held_by cx' j = held_by cx j" if j: "j \<in> dom (table_map cx) - {k}" for j
  proof -
    obtain q where q: "table_map cx j = Some q" "j \<noteq> k" using j by auto
    obtain s s' where "wsis cx q = Some s" "wsis cx' q = Some s'" "unplaced s' = unplaced s" using old[OF q] by blast
    then show ?thesis using unplaced_fields(1)[of s' s] q c(3) by (simp add: held_by_def)
  qed
  moreover have "mset (closed cx') = mset (closed cx) + held_by cx k" using c(5) s k by (simp add: held_by_def)
  moreover have "{q. wsis cx' q = None} = insert p {q. wsis cx q = None}" 
  proof (rule set_eqI)
    show "x \<in> {q. wsis cx' q = None} \<longleftrightarrow> x \<in> insert p {q. wsis cx q = None}" for x
      using others_sameD(1)[OF c(6), of x] c(4) by (cases "x = p") auto
  qed
  ultimately show ?thesis using that c by blast
qed

interpretation closing: fd_dispose "\<lambda>cx. handshaking_host E C \<and> table_ok cx \<and> all_close cx" table_map
    "\<lambda>p. libwebsocket_close_and_free_session C E now (Some p) LWS_CLOSE_STATUS_NOSTATUS" "\<lambda>cx. mset (closed cx)" held_by "\<lambda>cx. {p. wsis cx p = None}"
  for E :: "'u env" and C now
proof
  fix cx cx' :: "'u lws_context" and k p
  assume ok: "handshaking_host E C \<and> table_ok cx \<and> all_close cx"
  show "finite (dom (table_map cx))" using dom_table_map[of cx] ok by simp
  assume k: "table_map cx k = Some p"
  obtain cx1 where c: "libwebsocket_close_and_free_session C E now (Some p) LWS_CLOSE_STATUS_NOSTATUS cx = Some cx1"
    "table_ok cx1" "all_close cx1" "table_map cx1 = (table_map cx)(k := None)" "mset (closed cx1) = mset (closed cx) + held_by cx k"
    "\<forall>j \<in> dom (table_map cx) - {k}. held_by cx1 j = held_by cx j" "{q. wsis cx1 q = None} = insert p {q. wsis cx q = None}"
    using dispose_ok[of E C cx k p now] ok k by metis
  show "\<exists>t'. libwebsocket_close_and_free_session C E now (Some p) LWS_CLOSE_STATUS_NOSTATUS cx = Some t' \<and>
      (handshaking_host E C \<and> table_ok t' \<and> all_close t') \<and> table_map t' = (table_map cx)(k := None)" using c ok by blast
  show "mset (closed cx') = mset (closed cx) + held_by cx k \<and> (\<forall>j \<in> dom (table_map cx) - {k}. held_by cx' j = held_by cx j) \<and>
      {p. wsis cx' p = None} = insert p {p. wsis cx p = None}"
    if "libwebsocket_close_and_free_session C E now (Some p) LWS_CLOSE_STATUS_NOSTATUS cx = Some cx'"
    using c that by simp
qed

text \<open>The loop takes the connection in slot 0 each time.\<close>

definition first_conn :: "'u lws_context \<Rightarrow> nat" where
  "first_conn cx = the (table_map cx (socks cx ! 0))"

lemma first_conn_in: "table_ok cx \<Longrightarrow> table_map cx \<noteq> Map.empty \<Longrightarrow> table_map cx (socks cx ! 0) = Some (first_conn cx)"
proof -
  assume a: "table_ok cx" "table_map cx \<noteq> Map.empty"
  then have "0 < length (socks cx)" using dom_table_map[OF a(1)] by auto
  then show "table_map cx (socks cx ! 0) = Some (first_conn cx)" using dom_table_map[OF a(1)] nth_mem[of 0 "socks cx"] by (auto simp: first_conn_def domD simp flip: domIff)
qed

lemma destroy_drains:
  assumes "handshaking_host E C" "table_ok cx" "all_close cx" "card (dom (table_map cx)) = n"
  shows "destroy_loop C E now cx =
    drain (\<lambda>p. libwebsocket_close_and_free_session C E now (Some p) LWS_CLOSE_STATUS_NOSTATUS) first_conn n cx"
  using assms(2-4)
proof (induction n arbitrary: cx)
  case 0
  then have "socks cx = []" using dom_table_map[of cx] by auto
  then have "fds_count cx \<le> 0" using length_socks[OF 0(1)] by simp
  then show ?case by (simp add: destroy_loop.simps)
next
  case (Suc n)
  have ne: "table_map cx \<noteq> Map.empty" using Suc.prems(3) by auto
  then have k: "table_map cx (socks cx ! 0) = Some (first_conn cx)" using first_conn_in Suc.prems(1) by blast
  have z: "0 < length (socks cx)" using ne dom_table_map[OF Suc.prems(1)] by (cases "socks cx") auto
  then have c: "0 < fds_count cx" "socks cx ! 0 = pfd_fd (fds cx ! 0)" "0 < length (fds cx)"
    using length_socks[OF Suc.prems(1)] by (auto simp: socks_def)
  obtain cx' where d: "libwebsocket_close_and_free_session C E now (Some (first_conn cx)) LWS_CLOSE_STATUS_NOSTATUS cx = Some cx'"
    "table_ok cx'" "all_close cx'" "table_map cx' = (table_map cx)(socks cx ! 0 := None)"
    using dispose_ok[OF assms(1) Suc.prems(1,2) k] by metis
  have "card (dom (table_map cx')) = n" using d(4) k Suc.prems(3) by (simp add: card_Diff_singleton domI)
  then have IH: "destroy_loop C E now cx' = drain (\<lambda>p. libwebsocket_close_and_free_session C E now (Some p) LWS_CLOSE_STATUS_NOSTATUS) first_conn n cx'"
    using Suc.IH d by blast
  have lk: "rdi (lws_lookup cx) (socks cx ! 0) = Some (Some (first_conn cx))"
  proof -
    obtain n where "lws_lookup cx ! nat (socks cx ! 0) = Some (first_conn cx)" "0 \<le> socks cx ! 0" "socks cx ! 0 < max_fds cx"
      using table_mapE[OF Suc.prems(1) k] by metis
    then show ?thesis using Suc.prems(1) by (simp add: rdi_def rd_def table_ok_def)
  qed
  show ?case using c d IH lk by (simp add: destroy_loop.simps[of C E now cx] rdi_def[of "fds cx"] rd_def)
qed

text \<open>
  C10. \<open>libwebsocket_context_destroy\<close> ends and closes everything: when no extension holds a connection back, its loop, which never advances, empties the
  table; every connection is freed, and every socket and every file that was being sent is closed exactly once. A socket with the number 0, which the
  code takes for no socket, is left open.
\<close>

theorem destroy_closes_all:
  assumes "slot_safe E" "slot_calm C" "table_ok cx" "all_close cx"
  shows "\<exists>cx'. destroy_loop C E now cx = Some cx' \<and> fds_count cx' = 0 \<and> (\<forall>p \<in> ran (table_map cx). wsis cx' p = None) \<and>
     mset (closed cx') = mset (closed cx) + (\<Sum>k \<in> dom (table_map cx). held_by cx k)"
proof -
  have h: "handshaking_host E C" using assms(1,2) by (simp add: handshaking_host_def host_def handshaking_host_axioms_def)
  let ?n = "card (dom (table_map cx))"
  have pick: "first_conn t \<in> ran (table_map t)" if "handshaking_host E C \<and> table_ok t \<and> all_close t" "table_map t \<noteq> Map.empty" for t
    using first_conn_in[of t] that by (auto simp: ran_def)
  obtain cx' where d: "destroy_loop C E now cx = Some cx'" "table_ok cx'" "table_map cx' = Map.empty"
    using closing.drain_empties[of E C cx first_conn ?n now] pick destroy_drains[OF h assms(3,4)] h assms(3,4) by auto
  have "socks cx' = []" using dom_table_map[OF d(2)] d(3) by simp
  then have "fds_count cx' = 0" using length_socks[OF d(2)] d(2) by (simp add: table_ok_def)
  moreover have "mset (closed cx') = mset (closed cx) + (\<Sum>k \<in> dom (table_map cx). held_by cx k) \<and> ran (table_map cx) \<subseteq> {p. wsis cx' p = None} \<and>
      {p. wsis cx p = None} \<subseteq> {p. wsis cx' p = None}"
    by (rule closing.drain_disposes[of E C cx first_conn ?n now cx']) (use pick destroy_drains[OF h assms(3,4), of ?n now] h assms(3,4) d(1) in auto)
  ultimately show ?thesis using d(1) by auto
qed

lemma two_close: "all_close two_conns"
  by (auto intro!: all_closeI simp: two_table two_fields closes_at_once_def waiting_fields split: if_splits)

theorem destroy_closes_all_witness:
  "\<exists>cx'. destroy_loop hs_sample hs_env 0 two_conns = Some cx' \<and> fds_count cx' = 0 \<and> (\<forall>p \<in> {0, 1}. wsis cx' p = None) \<and> mset (closed cx') = {#6, 5#}"
proof -
  have "ran (table_map two_conns) = {0, 1}" "dom (table_map two_conns) = {5, 6}" by (auto simp: two_table)
  then show ?thesis using destroy_closes_all[OF hs_env_slots hs_calm two_table(1) two_close, of 0]
    by (simp add: two_fields held_by_def two_table http_file_def waiting_fields)
qed

section \<open>Timeouts\<close>

text \<open>Whether the time of a connection, or of the connection with socket \<open>k\<close>, has run out.\<close>

definition expired :: "size_t \<Rightarrow> 'u session \<Rightarrow> bool" where
  "expired now s \<longleftrightarrow> pending_timeout s \<noteq> NO_PENDING_TIMEOUT \<and> ucast (ucast now :: u32) > pending_timeout_limit s"

definition expired_at :: "size_t \<Rightarrow> 'u lws_context \<Rightarrow> int \<Rightarrow> bool" where
  "expired_at now cx k = (case table_map cx k of None \<Rightarrow> False | Some p \<Rightarrow> (case wsis cx p of None \<Rightarrow> False | Some s \<Rightarrow> expired now s))"

text \<open>The pass over the sockets as a function on lists: the last one takes the place of one that goes, and is not looked at.\<close>

function sweep :: "('a \<Rightarrow> bool) \<Rightarrow> nat \<Rightarrow> 'a list \<Rightarrow> 'a list" where
  "sweep P n xs = (if n \<ge> length xs then xs else sweep P (n + 1) (if P (xs ! n) then fill_gap xs n else xs))"
  by pat_completeness auto
termination
  by (relation "measure (\<lambda>(P, n, xs). length xs - n)") auto

declare sweep.simps [simp del]

lemma sweep_set:
  "distinct xs \<Longrightarrow> set (sweep P n xs) \<subseteq> set xs \<and> (\<forall>x \<in> set xs - set (sweep P n xs). P x) \<and> length (sweep P n xs) \<le> length xs"
proof (induction P n xs rule: sweep.induct)
  case (1 P n xs)
  show ?case
  proof (cases "n < length xs")
    case True
    show ?thesis
    proof (cases "P (xs ! n)")
      case P: True
      have "set (fill_gap xs n) = set xs - {xs ! n}" "distinct (fill_gap xs n)"
        using set_fill_gap[OF 1(2) True] distinct_fill_gap[OF 1(2) True] by simp_all
      then have "set (sweep P (n + 1) (fill_gap xs n)) \<subseteq> set xs - {xs ! n}"
        "\<forall>x \<in> set xs - {xs ! n} - set (sweep P (n + 1) (fill_gap xs n)). P x" "length (sweep P (n + 1) (fill_gap xs n)) \<le> length xs - 1"
        using 1(1) True P by auto
      moreover have "sweep P n xs = sweep P (n + 1) (fill_gap xs n)" using True P by (subst sweep.simps) simp
      ultimately show ?thesis using P by auto
    next
      case False
      then have "sweep P n xs = sweep P (n + 1) xs" using True by (subst sweep.simps) simp
      then show ?thesis using 1 True False by simp
    qed
  qed (simp add: sweep.simps)
qed

lemma sweep_cong: "(\<And>x. x \<in> set xs \<Longrightarrow> P x = Q x) \<Longrightarrow> distinct xs \<Longrightarrow> sweep P n xs = sweep Q n xs"
proof (induction P n xs rule: sweep.induct)
  case (1 P n xs)
  show ?case
  proof (cases "n < length xs")
    case True
    have d: "distinct (fill_gap xs n)" "set (fill_gap xs n) = set xs - {xs ! n}"
      using set_fill_gap[OF 1(3) True] distinct_fill_gap[OF 1(3) True] by simp_all
    have "P (xs ! n) = Q (xs ! n)" using 1(2) nth_mem[OF True] by blast
    then show ?thesis using 1 d True by (cases "Q (xs ! n)") (simp_all add: sweep.simps[of P n xs] sweep.simps[of Q n xs])
  qed (simp add: sweep.simps[of _ n xs])
qed

lemma sweep_progress: "distinct xs \<Longrightarrow> x \<in> set (drop n xs) \<Longrightarrow> P x \<Longrightarrow> length (sweep P n xs) < length xs"
proof (induction P n xs rule: sweep.induct)
  case (1 P n xs)
  have n: "n < length xs" using 1(3) by (metis drop_all empty_iff list.set(1) not_le)
  show ?case
  proof (cases "P (xs ! n)")
    case True
    have "length (sweep P (n + 1) (fill_gap xs n)) \<le> length xs - 1" using sweep_set[OF distinct_fill_gap[OF 1(2) n], of P "n + 1"] by simp
    then show ?thesis using True n by (subst sweep.simps) simp
  next
    case False
    then have "x \<in> set (drop (n + 1) xs)" using 1(3,4) n by (auto simp: Cons_nth_drop_Suc[symmetric])
    then show ?thesis using 1 n False by (subst sweep.simps) simp
  qed
qed

lemma expired_other:
  assumes "table_ok cx" "table_map cx k = Some p" "others_same p cx cx'" "table_map cx' = (table_map cx)(k := None)" "j \<noteq> k"
  shows "expired_at now cx' j = expired_at now cx j"
proof (cases "table_map cx j")
  case (Some q)
  have "q \<noteq> p" using table_map_inj[OF assms(1) Some] assms(2,5) by blast
  moreover obtain s where "wsis cx q = Some s" using table_mapE[OF assms(1) Some] by metis
  ultimately obtain s' where "wsis cx' q = Some s'" "unplaced s' = unplaced s" using others_sameD(2)[OF assms(3)] by blast
  then show ?thesis using \<open>wsis cx q = Some s\<close> Some assms(4,5) unplaced_fields(3,4)[of s' s] by (simp add: expired_at_def expired_def)
qed (use assms in \<open>simp add: expired_at_def\<close>)

text \<open>A check of one connection.\<close>

lemma timeout_check:
  assumes "active_extensions (s_wsi s) = []" "wsis cx p = Some s"
  shows "libwebsocket_service_timeout_check C E now p (ucast now) cx = (if expired now s
     then map_option (Pair 1) (libwebsocket_close_and_free_session C E now (Some p) LWS_CLOSE_STATUS_NOSTATUS cx) else Some (0, cx))"
proof -
  have "upd_wsi p (\<lambda>wsi. snd (snd (ext_each E LWS_EXT_CALLBACK_1HZ (active_extensions wsi) no_tokens wsi))) cx = cx"
    using assms by (auto simp: upd_wsi_def upd_session_def fun_upd_idem)
  then show ?thesis using assms(2)
    by (cases "libwebsocket_close_and_free_session C E now (Some p) LWS_CLOSE_STATUS_NOSTATUS cx")
      (simp_all add: libwebsocket_service_timeout_check_def expired_def)
qed

lemma timeout_loop_sweeps:
  assumes h: "handshaking_host E C"
  shows "table_ok cx \<Longrightarrow> all_close cx \<Longrightarrow> socks cx = xs \<Longrightarrow> \<exists>t' cx'. timeout_loop C E now our (int n) t cx = Some (t', cx') \<and> table_ok cx' \<and> all_close cx' \<and>
     socks cx' = sweep (expired_at now cx) n xs \<and> (t' \<longleftrightarrow> t \<or> our \<in> set xs - set (socks cx'))"
proof (induction "length xs - n" arbitrary: n xs t cx rule: less_induct)
  case less
  have ls: "length xs = nat (fds_count cx)" "0 \<le> fds_count cx" using length_socks[OF less(2)] less(2,4) by (simp_all add: table_ok_def)
  show ?case
  proof (cases "n < length xs")
    case False
    then have "fds_count cx \<le> int n" using ls by linarith
    then show ?thesis using less(2-4) False by (simp add: timeout_loop.simps[of C E now our "int n"] sweep.simps[of _ n xs])
  next
    case True
    let ?k = "xs ! n"
    obtain p s where p: "lws_lookup cx ! nat ?k = Some p" "wsis cx p = Some s" "0 \<le> ?k" "?k < max_fds cx" "table_map cx ?k = Some p"
      using table_slot[OF less(2), of n] True less(4) by metis
    have s: "active_extensions (s_wsi s) = []" using all_closeD[OF less(3) p(5,2)] by (simp add: closes_at_once_def)
    have e: "rdi (fds cx) (int n) = Some (fds cx ! n)" "pfd_fd (fds cx ! n) = ?k" using True ls less(2,4) by (auto simp: rdi_def rd_def table_ok_def socks_def)
    have l: "rdi (lws_lookup cx) ?k = Some (Some p)" using p less(2) by (simp add: rdi_def rd_def table_ok_def)
    have step: "timeout_loop C E now our (int n) t cx = do { (r, cx) \<leftarrow> libwebsocket_service_timeout_check C E now p (ucast now) cx;
        timeout_loop C E now our (int (n + 1)) (t \<or> (r \<noteq> 0 \<and> ?k = our)) cx }"
    proof -
      have "\<not> fds_count cx \<le> int n" using True ls by linarith
      then show ?thesis using e l by (simp add: timeout_loop.simps[of C E now our "int n"] add.commute)
    qed
    have ex: "expired_at now cx ?k = expired now s" using p by (simp add: expired_at_def)
    show ?thesis
    proof (cases "expired now s")
      case False
      then show ?thesis using less(1)[of xs "n + 1" cx t] less(2-4) True step timeout_check[OF s p(2)] ex by (simp add: sweep.simps[of _ n xs])
    next
      case ext: True
      obtain cx1 where c: "libwebsocket_close_and_free_session C E now (Some p) LWS_CLOSE_STATUS_NOSTATUS cx = Some cx1" "table_ok cx1" "all_close cx1"
        "table_map cx1 = (table_map cx)(?k := None)" "socks cx1 = fill_gap xs n" "others_same p cx cx1"
        using dispose_ok[OF h less(2,3) p(5)] less(4) True by metis
      have d: "distinct xs" using distinct_socks[OF less(2)] less(4) by simp
      have m: "length (fill_gap xs n) - (n + 1) < length xs - n" using True by simp
      note g = set_fill_gap[OF d True] distinct_fill_gap[OF d True]
      obtain t' cx' where r: "timeout_loop C E now our (int (n + 1)) (t \<or> ?k = our) cx1 = Some (t', cx')" "table_ok cx'" "all_close cx'"
        "socks cx' = sweep (expired_at now cx1) (n + 1) (fill_gap xs n)" "t' \<longleftrightarrow> (t \<or> ?k = our) \<or> our \<in> set (fill_gap xs n) - set (socks cx')"
        using less(1)[OF m c(2,3,5), of "t \<or> ?k = our"] by blast
      have "sweep (expired_at now cx1) (n + 1) (fill_gap xs n) = sweep (expired_at now cx) (n + 1) (fill_gap xs n)"
        using expired_other[OF less(2) p(5) c(6,4)] g by (intro sweep_cong) auto
      then have sk: "socks cx' = sweep (expired_at now cx) n xs" using r(4) True ex ext by (simp add: sweep.simps[of _ n xs])
      have "set (socks cx') \<subseteq> set xs - {?k}" using sweep_set[OF g(2), of "expired_at now cx1" "n + 1"] r(4) g(1) by simp
      then have "t' \<longleftrightarrow> t \<or> our \<in> set xs - set (socks cx')" using r(5) g(1) nth_mem[OF True] by auto
      then show ?thesis using r(1-3) sk step timeout_check[OF s p(2)] ext c(1) by auto
    qed
  qed
qed

section \<open>Properties of timeouts\<close>

lemma host_intro: "slot_safe E \<Longrightarrow> slot_calm C \<Longrightarrow> handshaking_host E C"
  by (simp add: handshaking_host_def host_def handshaking_host_axioms_def)

text \<open>
  C11. The pass over the connections once a second: it returns with a well-formed table; only connections whose time has run out are closed, and if there is
  one, at least one is closed; and it tells the caller exactly when the connection that is being served has gone.
\<close>

theorem timeout_pass:
  assumes "slot_safe E" "slot_calm C" "table_ok cx" "all_close cx"
  shows "\<exists>timed_out cx'. timeout_loop C E now our_fd 0 False cx = Some (timed_out, cx') \<and> table_ok cx' \<and> set (socks cx') \<subseteq> set (socks cx) \<and>
     (\<forall>k \<in> set (socks cx) - set (socks cx'). expired_at now cx k) \<and>
     ((\<exists>k \<in> set (socks cx). expired_at now cx k) \<longrightarrow> length (socks cx') < length (socks cx)) \<and>
     (timed_out \<longleftrightarrow> our_fd \<in> set (socks cx) - set (socks cx'))"
proof -
  have d: "distinct (socks cx)" using distinct_socks[OF assms(3)] .
  obtain t cx' where "timeout_loop C E now our_fd (int 0) False cx = Some (t, cx')" "table_ok cx'"
    "socks cx' = sweep (expired_at now cx) 0 (socks cx)" "t \<longleftrightarrow> our_fd \<in> set (socks cx) - set (socks cx')"
    using timeout_loop_sweeps[OF host_intro[OF assms(1,2)] assms(3,4) refl, of now our_fd 0 False] by auto
  moreover have "length (sweep (expired_at now cx) 0 (socks cx)) < length (socks cx)" if "k \<in> set (socks cx)" "expired_at now cx k" for k
    using sweep_progress[OF d, of k 0] that by simp
  ultimately show ?thesis using sweep_set[OF d, of "expired_at now cx" 0] by auto
qed

lemma two_expired: "expired_at 20 two_conns 5" "expired_at 20 two_conns 6"
  by (simp_all add: expired_at_def two_table two_fields expired_def waiting_fields)

theorem timeout_pass_witness:
  "\<exists>timed_out cx'. timeout_loop hs_sample hs_env 20 5 0 False two_conns = Some (timed_out, cx') \<and> table_ok cx' \<and>
     length (socks cx') < 2 \<and> (timed_out \<longleftrightarrow> 5 \<in> {5, 6} - set (socks cx'))"
  using timeout_pass[OF hs_env_slots hs_calm two_table(1) two_close, of 20 5] two_expired by (auto simp: two_fields)

text \<open>
  A pass misses connections: when the first of two connections is closed, the second is moved into its slot and the loop goes on behind it. Although the
  time of both has run out, only one is closed.
\<close>

theorem timeout_pass_skips:
  assumes "slot_safe E" "slot_calm C" "table_ok cx" "all_close cx" "socks cx = [a, b]" "expired_at now cx a" "expired_at now cx b"
  shows "\<exists>timed_out cx'. timeout_loop C E now our_fd 0 False cx = Some (timed_out, cx') \<and> socks cx' = [b]"
proof -
  have "sweep (expired_at now cx) 0 [a, b] = [b]" using assms(6) by (simp add: sweep.simps fill_gap_def)
  then show ?thesis using timeout_loop_sweeps[OF host_intro[OF assms(1,2)] assms(3,4,5), of now our_fd 0 False] by auto
qed

theorem timeout_pass_skips_witness:
  "\<exists>timed_out cx'. timeout_loop hs_sample hs_env 20 5 0 False two_conns = Some (timed_out, cx') \<and> socks cx' = [6]"
  by (rule timeout_pass_skips[OF hs_env_slots hs_calm two_table(1) two_close two_fields(5) two_expired])

end
