(* ===== verification/Service.thy ===== *)
theory Service
  imports Sessions
begin

text \<open>
  The service loop: \<open>libwebsocket_service\<close> and \<open>libwebsocket_service_fd\<close> of \<^verbatim>\<open>lib/libwebsockets.c\<close>, the sockets of a server (\<^verbatim>\<open>lib/server.c\<close>) with the
  sending of files (\<^verbatim>\<open>lib/output.c\<close>), those of a client (\<^verbatim>\<open>lib/client.c\<close>), and connecting (\<^verbatim>\<open>lib/client-handshake.c\<close>), in the build without TLS.
\<close>

section \<open>The system\<close>

definition POLLERR :: nat where "POLLERR = 8"
definition POLLHUP :: nat where "POLLHUP = 16"
definition AWAITING_TIMEOUT :: int where "AWAITING_TIMEOUT = 5"
definition LWS_CLOSE_STATUS_PROTOCOL_ERR :: u16 where "LWS_CLOSE_STATUS_PROTOCOL_ERR = 1002"
definition SPEC_LATEST_SUPPORTED :: int where "SPEC_LATEST_SUPPORTED = 13"

datatype recv_result = Received "byte list" | Recv_again | Recv_interrupted | Recv_failed
datatype connect_result = Connected | Connect_pending | Connect_failed

text \<open>
  What the kernel, the resolver and \<open>malloc\<close> answer, by the number of the call: the seconds of the clock; \<open>recv\<close> into a buffer, and byte by byte (what is
  there, and the result after it); \<open>accept\<close> and \<open>socket\<close>, given the sockets of the context that are open; \<open>setsockopt\<close> failing; a block for a
  connection, given which are in use, and for a header table; whether a name resolves; \<open>connect\<close>; the contents of a file from an offset on; the events on the
  listening socket, and on all; and from the user code, the verdict on a new connection, and the null pointer for its memory.
\<close>

record 'u io =
  io_now :: size_t
  io_recv :: "nat \<Rightarrow> int \<Rightarrow> recv_result"
  io_stream :: "nat \<Rightarrow> int \<Rightarrow> byte list \<times> int"
  io_accept :: "nat \<Rightarrow> int list \<Rightarrow> int option"
  io_socket :: "nat \<Rightarrow> int list \<Rightarrow> int option"
  io_setsockopt :: "nat \<Rightarrow> bool"
  io_malloc :: "nat \<Rightarrow> (nat \<Rightarrow> bool) \<Rightarrow> nat option"
  io_header_block :: "nat \<Rightarrow> allocated_headers option"
  io_host :: "nat \<Rightarrow> byte list \<Rightarrow> bool"
  io_connect :: "nat \<Rightarrow> int \<Rightarrow> connect_result"
  io_read :: "int \<Rightarrow> nat \<Rightarrow> byte list option"
  io_listen :: "nat \<Rightarrow> nat"
  io_poll :: "nat \<Rightarrow> int list \<Rightarrow> int \<times> nat list"
  io_filter :: "int \<Rightarrow> 'u lws \<Rightarrow> int \<times> 'u lws"
  io_null :: 'u

definition tick :: "'u lws_context \<Rightarrow> 'u lws_context" where
  [st_defs]: "tick cx = cx\<lparr>sys_no := sys_no cx + 1\<rparr>"

text \<open>A \<open>struct pollfd *\<close>: an entry of the table, or one of the caller's own.\<close>

datatype pollptr = Slot nat | Local pollfd

definition pfd_at :: "pollptr \<Rightarrow> 'u lws_context \<Rightarrow> pollfd option" where
  "pfd_at ptr cx = (case ptr of Slot n \<Rightarrow> rd (fds cx) n | Local e \<Rightarrow> Some e)"

definition set_revents :: "pollptr \<Rightarrow> nat \<Rightarrow> 'u lws_context \<Rightarrow> 'u lws_context" where
  "set_revents ptr r cx = (case ptr of Slot n \<Rightarrow> cx\<lparr>fds := (fds cx)[n := (fds cx ! n)\<lparr>pfd_revents := r\<rparr>]\<rparr> | Local _ \<Rightarrow> cx)"

section \<open>Files over HTTP\<close>

text \<open>
  The loop of \<open>libwebsockets_serve_http_file_fragment\<close>. The offset of the file is \<open>filepos\<close>, since \<open>lseek\<close> takes back what was read and not sent.
\<close>

partial_function (option) file_loop :: "'u env \<Rightarrow> 'u io \<Rightarrow> 'u session \<Rightarrow> (int \<times> 'u session) option" where
  "file_loop E io s = (case lws_send_pipe_choked E (s_wsi s) of (choked, wsi) \<Rightarrow>
     if choked then Some (0, s\<lparr>s_wsi := snd (libwebsocket_callback_on_writable E wsi)\<rparr>)
     else case io_read io (http_fd s) (unat (http_filepos s)) of
       None \<Rightarrow> Some (-1, s\<lparr>s_wsi := wsi\<rparr>)
     | Some bs \<Rightarrow> do {
         (m, wsi) \<leftarrow> (if bs = [] then Some (0, wsi)
            else do { (m, wsi, _) \<leftarrow> libwebsocket_write E wsi bs 0 (length bs) LWS_WRITE_HTTP; Some (m, wsi) });
         if m < 0 then Some (-1, s\<lparr>s_wsi := wsi\<rparr>)
         else
           let s = s\<lparr>s_wsi := wsi, http_filepos := http_filepos s + of_int m\<rparr> in
           if http_filepos s = http_filelen s
           then Some (1, s\<lparr>s_wsi := (if has_callback (protocol wsi)
               then snd (user_callback_handle_rxflow E LWS_CALLBACK_HTTP_FILE_COMPLETION [] (wsi\<lparr>state := WSI_STATE_HTTP\<rparr>))
               else wsi\<lparr>state := WSI_STATE_HTTP\<rparr>)\<rparr>)
           else file_loop E io s })"

declare file_loop.simps [code]

text \<open>Opening the file: its descriptor and size, a negative descriptor when it cannot be opened.\<close>

definition http_400 :: "byte list" where
  "http_400 = bytes ''HTTP/1.0 400 Bad'' @ crlf @ bytes ''Server: libwebsockets'' @ crlf @ crlf"

definition http_200 :: "byte list \<Rightarrow> u32 \<Rightarrow> byte list" where
  "http_200 content_type len = bytes ''HTTP/1.0 200 OK'' @ crlf @ bytes ''Server: libwebsockets'' @ crlf @ bytes ''Content-Type: '' @ content_type @ crlf @
     bytes ''Content-Length: '' @ c_digits (unat len) @ crlf @ crlf"

definition libwebsockets_serve_http_file :: "'u env \<Rightarrow> 'u io \<Rightarrow> byte list \<Rightarrow> int \<times> size_t \<Rightarrow> byte list \<Rightarrow> 'u session \<Rightarrow> (int \<times> 'u session) option" where
  "libwebsockets_serve_http_file E io sb file content_type s = (case file of (fd, len) \<Rightarrow>
     if fd < 1 then do { (b, p) \<leftarrow> cpyapp http_400 (sb, 0);
       (_, wsi, _) \<leftarrow> libwebsocket_write E (s_wsi s) b 0 p LWS_WRITE_HTTP; Some (-1, s\<lparr>s_wsi := wsi, http_fd := 0\<rparr>) }
     else do { (b, p) \<leftarrow> cpyapp (http_200 content_type (ucast len)) (sb, 0);
       s \<leftarrow> Some (s\<lparr>http_fd := fd, http_filelen := len\<rparr>);
       (ret, wsi, _) \<leftarrow> libwebsocket_write E (s_wsi s) b 0 p LWS_WRITE_HTTP;
       if ret \<noteq> int p then Some (-1, s\<lparr>s_wsi := wsi\<rparr>)
       else file_loop E io (s\<lparr>s_wsi := wsi\<lparr>state := WSI_STATE_HTTP_ISSUING_FILE\<rparr>, http_filepos := 0\<rparr>) })"

section \<open>The sockets of a server\<close>

text \<open>\<open>libwebsocket_read\<close> on a connection of the context; after an error the connection is closed.\<close>

definition read_conn :: "'u hs_context \<Rightarrow> 'u env \<Rightarrow> 'u io \<Rightarrow> nat \<Rightarrow> byte list \<Rightarrow> 'u lws_context \<Rightarrow> (int \<times> 'u lws_context) option" where
  "read_conn C E io p buf cx = do { s \<leftarrow> wsis cx p;
     (n, wsi) \<leftarrow> libwebsocket_read C E (service_buffer cx) (s_wsi s) buf;
     cx \<leftarrow> Some (upd_wsi p (\<lambda>_. wsi) cx);
     if n < 0 then do { cx \<leftarrow> libwebsocket_close_and_free_session C E (io_now io) (Some p) LWS_CLOSE_STATUS_NOSTATUS cx; Some (-1, cx) }
     else Some (n, cx) }"

text \<open>\<open>recv\<close> into the service buffer.\<close>

definition recv_buffer :: "'u io \<Rightarrow> int \<Rightarrow> 'u lws_context \<Rightarrow> (recv_result \<times> 'u lws_context) option" where
  "recv_buffer io fd cx = (case io_recv io (sys_no cx) fd of
     Received bs \<Rightarrow> do { sb \<leftarrow> blit (service_buffer cx) 0 bs; Some (Received bs, tick (cx\<lparr>service_buffer := sb\<rparr>)) }
   | r \<Rightarrow> Some (r, tick cx))"

definition libwebsocket_create_new_server_wsi :: "'u hs_context \<Rightarrow> 'u io \<Rightarrow> 'u lws_context \<Rightarrow> (nat option \<times> 'u lws_context) option" where
  "libwebsocket_create_new_server_wsi C io cx = (case io_malloc io (sys_no cx) (\<lambda>p. wsis cx p \<noteq> None) of
     None \<Rightarrow> Some (None, tick cx)
   | Some p \<Rightarrow> (case (io_header_block io (sys_no cx + 1), hs_protocols C) of
       (None, _) \<Rightarrow> Some (None, tick (tick cx))
     | (Some ah, []) \<Rightarrow> None
     | (Some ah, prot # _) \<Rightarrow>
         Some (Some p, (tick (tick cx))\<lparr>wsis := (wsis cx)(p \<mapsto> \<lparr>s_wsi = snd (lws_allocate_header_table (Some ah) (zero_lws prot (io_null io))),
           pending_timeout = NO_PENDING_TIMEOUT, pending_timeout_limit = 0, http_fd = 0, http_filepos = 0, http_filelen = 0\<rparr>)\<rparr>)))"

text \<open>The calls of \<open>setsockopt\<close> for keepalive stop at the first that fails; the others are not checked.\<close>

definition lws_set_socket_options :: "'u io \<Rightarrow> 'u lws_context \<Rightarrow> int \<times> 'u lws_context" where
  "lws_set_socket_options io cx = (if ka_time cx \<noteq> 0 \<and> list_ex (\<lambda>i. io_setsockopt io (sys_no cx + i)) [0, 1, 2, 3] then (1, tick cx) else (0, tick cx))"

text \<open>The case \<open>LWS_CONNMODE_SERVER_LISTENER\<close>: a client connects. The result of the insertion is not looked at.\<close>

definition accept_conn :: "'u hs_context \<Rightarrow> 'u env \<Rightarrow> 'u io \<Rightarrow> nat \<Rightarrow> 'u lws_context \<Rightarrow> 'u lws_context option" where
  "accept_conn C E io p cx = (case io_accept io (sys_no cx) (socks cx) of
     None \<Rightarrow> Some (tick cx)
   | Some fd \<Rightarrow> do { cx \<leftarrow> Some (snd (lws_set_socket_options io (tick cx)));
       s \<leftarrow> wsis cx p;
       (n, wsi) \<leftarrow> Some (io_filter io fd (s_wsi s));
       cx \<leftarrow> Some (upd_wsi p (\<lambda>_. wsi) cx);
       if n \<noteq> 0 then Some (cx\<lparr>closed := closed cx @ [fd]\<rparr>)
       else do { (q, cx) \<leftarrow> libwebsocket_create_new_server_wsi C io cx;
         case q of None \<Rightarrow> Some (cx\<lparr>closed := closed cx @ [fd]\<rparr>)
         | Some q \<Rightarrow> do { (_, cx) \<leftarrow> insert_wsi_socket_into_fds E q (upd_wsi q (\<lambda>wsi. wsi\<lparr>sock := fd\<rparr>) cx); Some cx } } })"

text \<open>Headers and other data coming in; the first component tells whether the connection is still there.\<close>

definition http_in :: "'u hs_context \<Rightarrow> 'u env \<Rightarrow> 'u io \<Rightarrow> int \<Rightarrow> nat \<Rightarrow> 'u lws_context \<Rightarrow> (bool \<times> 'u lws_context) option" where
  "http_in C E io fd p cx = do { (r, cx) \<leftarrow> recv_buffer io fd cx;
     case r of
       Received [] \<Rightarrow> do { cx \<leftarrow> libwebsocket_close_and_free_session C E (io_now io) (Some p) LWS_CLOSE_STATUS_NOSTATUS
           (upd_wsi p (\<lambda>wsi. if hdr_parsing_completed wsi then wsi else upd_hdr (\<lambda>hd. hd\<lparr>hdr_ah := None\<rparr>) wsi) cx); Some (False, cx) }
     | Received bs \<Rightarrow> do { (n, cx) \<leftarrow> read_conn C E io p bs cx; Some (n \<ge> 0, cx) }
     | Recv_failed \<Rightarrow> do { cx \<leftarrow> libwebsocket_close_and_free_session C E (io_now io) (Some p) LWS_CLOSE_STATUS_NOSTATUS cx; Some (False, cx) }
     | _ \<Rightarrow> Some (False, cx) }"

definition http_out :: "'u hs_context \<Rightarrow> 'u env \<Rightarrow> 'u io \<Rightarrow> nat \<Rightarrow> 'u lws_context \<Rightarrow> 'u lws_context option" where
  "http_out C E io p cx0 = do { cx \<leftarrow> Some (upd_wsi p (\<lambda>wsi. wsi\<lparr>pollout := False\<rparr>) cx0); s \<leftarrow> wsis cx p;
     (n, s) \<leftarrow> (if state (s_wsi s) \<noteq> WSI_STATE_HTTP_ISSUING_FILE
        then (case user_callback_handle_rxflow E LWS_CALLBACK_HTTP_WRITEABLE [] (s_wsi s) of (n, wsi) \<Rightarrow> Some (if n < 0 then -1 else 0, s\<lparr>s_wsi := wsi\<rparr>))
        else file_loop E io s);
     cx \<leftarrow> Some (upd_session p (\<lambda>_. s) cx);
     if n \<noteq> 0 then libwebsocket_close_and_free_session C E (io_now io) (Some p) LWS_CLOSE_STATUS_NOSTATUS cx else Some cx }"

definition lws_server_socket_service :: "'u hs_context \<Rightarrow> 'u env \<Rightarrow> 'u io \<Rightarrow> pollfd \<Rightarrow> nat \<Rightarrow> 'u lws_context \<Rightarrow> (int \<times> 'u lws_context) option" where
  "lws_server_socket_service C E io e p cx = do { s \<leftarrow> wsis cx p;
     if mode (s_wsi s) \<in> {LWS_CONNMODE_HTTP_SERVING, LWS_CONNMODE_HTTP_SERVING_ACCEPTED} then do {
       (there, cx) \<leftarrow> (if pfd_revents e AND POLLIN \<noteq> 0 then http_in C E io (pfd_fd e) p cx else Some (True, cx));
       if \<not> there \<or> pfd_revents e AND POLLOUT = 0 then Some (0, cx)
       else do { cx \<leftarrow> http_out C E io p cx; Some (0, cx) } }
     else if mode (s_wsi s) = LWS_CONNMODE_SERVER_LISTENER \<and> pfd_revents e AND POLLIN \<noteq> 0
     then do { cx \<leftarrow> accept_conn C E io p cx; Some (0, cx) }
     else Some (0, cx) }"

section \<open>The sockets of a client\<close>

text \<open>
  \<open>libwebsocket_client_connect_2\<close>; \<open>svc\<close> is \<open>libwebsocket_service_fd\<close>. The first component of the result is whether the pointer to the
  connection is returned, rather than NULL. At the label \<open>oom4\<close> the connection is freed but not taken out of the table: if it
  was there, the table has a dangling pointer from then on.
\<close>

definition oom4 :: "nat \<Rightarrow> 'u lws_context \<Rightarrow> (bool \<times> 'u lws_context) option" where
  "oom4 p cx = Some (False, cx\<lparr>dangling := dangling cx \<or> in_table p cx, wsis := (wsis cx)(p := None)\<rparr>)"

definition connect_failed :: "'u hs_context \<Rightarrow> 'u env \<Rightarrow> 'u io \<Rightarrow> nat \<Rightarrow> 'u lws_context \<Rightarrow> (bool \<times> 'u lws_context) option" where
  "connect_failed C E io p cx = do { cx \<leftarrow> libwebsocket_close_and_free_session C E (io_now io) (Some p) LWS_CLOSE_STATUS_NOSTATUS cx; Some (False, cx) }"

text \<open>A socket is opened and put into the table; \<open>None\<close> inside tells that this failed.\<close>

definition open_socket :: "'u env \<Rightarrow> 'u io \<Rightarrow> nat \<Rightarrow> 'u lws_context \<Rightarrow> (bool \<times> 'u lws_context) option" where
  "open_socket E io p cx = (case io_socket io (sys_no cx) (socks cx) of
     None \<Rightarrow> Some (False, tick cx)
   | Some fd \<Rightarrow> (case lws_set_socket_options io (tick cx) of (r, cx) \<Rightarrow>
       if r \<noteq> 0 then Some (False, upd_wsi p (\<lambda>wsi. wsi\<lparr>sock := fd\<rparr>) (cx\<lparr>closed := closed cx @ [fd]\<rparr>))
       else do { (_, cx) \<leftarrow> insert_wsi_socket_into_fds E p (upd_wsi p (\<lambda>wsi. wsi\<lparr>sock := fd, mode := LWS_CONNMODE_WS_CLIENT_WAITING_CONNECT\<rparr>) cx);
         Some (True, upd_session p (libwebsocket_set_timeout (io_now io) PENDING_TIMEOUT_AWAITING_CONNECT_RESPONSE AWAITING_TIMEOUT) cx) }))"

definition proxy_request :: "byte list \<Rightarrow> u16 \<Rightarrow> byte list" where
  "proxy_request ads port = bytes ''CONNECT '' @ ads @ bytes '':'' @ c_digits (unat port) @ bytes '' HTTP/1.0'' @ crlf @
     bytes ''User-agent: libwebsockets'' @ crlf @ crlf"

text \<open>Connected to the proxy: the request that is in the service buffer, \<open>plen\<close> bytes, is sent.\<close>

definition ask_proxy :: "'u hs_context \<Rightarrow> 'u env \<Rightarrow> 'u io \<Rightarrow> nat \<Rightarrow> nat \<Rightarrow> 'u lws_context \<Rightarrow> (bool \<times> 'u lws_context) option" where
  "ask_proxy C E io plen p cx = do { s \<leftarrow> wsis cx p; ah \<leftarrow> hdr_ah (u_hdr (s_wsi s));
     (r, ah) \<leftarrow> lws_hdr_simple_create WSI_TOKEN_CLIENT_PEER_ADDRESS (http_proxy_address cx) ah;
     if r \<noteq> 0 then connect_failed C E io p (upd_wsi p (set_ah ah) cx)
     else do { ah \<leftarrow> Some (ah\<lparr>c_port := of_nat (http_proxy_port cx)\<rparr>);
       wsi \<leftarrow> Some (set_ah ah (s_wsi s));
       bs \<leftarrow> Some (take plen (service_buffer cx));
       n \<leftarrow> Some (os_send E (sys_calls wsi) bs);
       wsi \<leftarrow> Some (wsi\<lparr>sys_calls := sys_calls wsi + 1\<rparr>);
       if n < 0 then connect_failed C E io p (upd_wsi p (\<lambda>_. wsi) cx)
       else Some (True, upd_session p (\<lambda>s. libwebsocket_set_timeout (io_now io) PENDING_TIMEOUT_AWAITING_PROXY_RESPONSE AWAITING_TIMEOUT
         (s\<lparr>s_wsi := wsi\<lparr>wire := wire wsi @ take (nat n) bs, mode := LWS_CONNMODE_WS_CLIENT_WAITING_PROXY_REPLY\<rparr>\<rparr>)) cx) } }"

text \<open>Connected to the server: the handshake is issued by servicing the socket as if there was something to read.\<close>

definition issue_directly :: "(pollptr option \<Rightarrow> 'u lws_context \<Rightarrow> (int \<times> 'u lws_context) option) \<Rightarrow> 'u hs_context \<Rightarrow> 'u env \<Rightarrow> 'u io \<Rightarrow> nat \<Rightarrow>
    'u lws_context \<Rightarrow> (bool \<times> 'u lws_context) option" where
  "issue_directly svc C E io p cx = do { s \<leftarrow> wsis cx p;
     (n, cx) \<leftarrow> svc (Some (Local \<lparr>pfd_fd = sock (s_wsi s), pfd_revents = POLLIN\<rparr>))
       (upd_session p (\<lambda>s. libwebsocket_set_timeout (io_now io) PENDING_TIMEOUT_SENT_CLIENT_HANDSHAKE AWAITING_TIMEOUT
         (s\<lparr>s_wsi := (s_wsi s)\<lparr>mode := LWS_CONNMODE_WS_CLIENT_ISSUE_HANDSHAKE\<rparr>\<rparr>)) cx);
     if n < 0 then connect_failed C E io p cx else Some (n = 0, cx) }"

definition libwebsocket_client_connect_2 :: "(pollptr option \<Rightarrow> 'u lws_context \<Rightarrow> (int \<times> 'u lws_context) option) \<Rightarrow> 'u hs_context \<Rightarrow> 'u env \<Rightarrow> 'u io \<Rightarrow> nat \<Rightarrow>
    'u lws_context \<Rightarrow> (bool \<times> 'u lws_context) option" where
  "libwebsocket_client_connect_2 svc C E io p cx = do { s \<leftarrow> wsis cx p; ah \<leftarrow> hdr_ah (u_hdr (s_wsi s));
     ads \<leftarrow> hdr_text ah WSI_TOKEN_CLIENT_PEER_ADDRESS;
     (sb, plen) \<leftarrow> (if http_proxy_port cx \<noteq> 0 then cpyapp (proxy_request ads (c_port ah)) (service_buffer cx, 0) else Some (service_buffer cx, 0));
     okay \<leftarrow> Some (io_host io (sys_no cx) (if http_proxy_port cx \<noteq> 0 then http_proxy_address cx else ads));
     cx \<leftarrow> Some (tick (cx\<lparr>service_buffer := sb\<rparr>));
     if \<not> okay then oom4 p cx
     else do { (okay, cx) \<leftarrow> (if sock (s_wsi s) < 0 then open_socket E io p cx else Some (True, cx));
       if \<not> okay then oom4 p cx
       else do { s \<leftarrow> wsis cx p;
         r \<leftarrow> Some (io_connect io (sys_no cx) (sock (s_wsi s)));
         cx \<leftarrow> Some (tick cx);
         case r of
           Connect_pending \<Rightarrow> Some (True, upd_wsi p (\<lambda>wsi. proto0_cb E LWS_CALLBACK_SET_MODE_POLL_FD (sock wsi) POLLOUT (wsi\<lparr>pollout := True\<rparr>)) cx)
         | Connect_failed \<Rightarrow> connect_failed C E io p cx
         | Connected \<Rightarrow> if http_proxy_port cx \<noteq> 0 then ask_proxy C E io plen p cx else issue_directly svc C E io p cx } } }"

text \<open>The case \<open>LWS_CONNMODE_WS_CLIENT_ISSUE_HANDSHAKE\<close>; the result is 0 whether or not the connection has been closed.\<close>

definition issue_service :: "'u hs_context \<Rightarrow> 'u env \<Rightarrow> 'u io \<Rightarrow> nat \<Rightarrow> 'u lws_context \<Rightarrow> (int \<times> 'u lws_context) option" where
  "issue_service C E io p cx = do { s \<leftarrow> wsis cx p;
     (there, wsi) \<leftarrow> issue_handshake C E (service_buffer cx) (s_wsi s);
     if there then Some (0, upd_session p (\<lambda>s. libwebsocket_set_timeout (io_now io) PENDING_TIMEOUT_AWAITING_SERVER_RESPONSE AWAITING_TIMEOUT (s\<lparr>s_wsi := wsi\<rparr>)) cx)
     else do { cx \<leftarrow> libwebsocket_close_and_free_session C E (io_now io) (Some p) LWS_CLOSE_STATUS_NOSTATUS (upd_wsi p (\<lambda>_. wsi) cx); Some (0, cx) } }"

definition proxy_reply :: "'u hs_context \<Rightarrow> 'u env \<Rightarrow> 'u io \<Rightarrow> pollfd \<Rightarrow> nat \<Rightarrow> 'u lws_context \<Rightarrow> (int \<times> 'u lws_context) option" where
  "proxy_reply C E io e p cx = (let hang_up = (\<lambda>cx. do { cx \<leftarrow> libwebsocket_close_and_free_session C E (io_now io) (Some p) LWS_CLOSE_STATUS_NOSTATUS cx; Some (0, cx) }) in
     if pfd_revents e AND (POLLERR OR POLLHUP) \<noteq> 0 then hang_up cx
     else do { s \<leftarrow> wsis cx p; (r, cx) \<leftarrow> recv_buffer io (sock (s_wsi s)) cx;
       case r of Recv_again \<Rightarrow> Some (0, cx)
       | Received bs \<Rightarrow> do { sb \<leftarrow> wr (service_buffer cx) 13 0; cx \<leftarrow> Some (cx\<lparr>service_buffer := sb\<rparr>);
           if cstr sb \<noteq> bytes ''HTTP/1.0 200 '' then hang_up cx
           else issue_service C E io p (upd_session p (libwebsocket_set_timeout (io_now io) NO_PENDING_TIMEOUT 0) cx) }
       | _ \<Rightarrow> hang_up cx })"

definition reply_service :: "'u hs_context \<Rightarrow> 'u env \<Rightarrow> 'u io \<Rightarrow> pollfd \<Rightarrow> nat \<Rightarrow> 'u lws_context \<Rightarrow> (int \<times> 'u lws_context) option" where
  "reply_service C E io e p cx = (let close = (\<lambda>reason n cx. do { cx \<leftarrow> libwebsocket_close_and_free_session C E (io_now io) (Some p) reason cx; Some (n, cx) }) in
     if pfd_revents e AND (POLLERR OR POLLHUP) \<noteq> 0 then close LWS_CLOSE_STATUS_NOSTATUS (-1) cx
     else if pfd_revents e AND POLLIN = 0 then Some (0, cx)
     else do { s \<leftarrow> wsis cx p; (inp, fin) \<leftarrow> Some (io_stream io (sys_no cx) (sock (s_wsi s)));
       (r, wsi, _) \<leftarrow> server_reply C E (service_buffer cx) fin inp (s_wsi s);
       cx \<leftarrow> Some (upd_session p (\<lambda>s. (if state wsi = WSI_STATE_ESTABLISHED then libwebsocket_set_timeout (io_now io) NO_PENDING_TIMEOUT 0 else id) (s\<lparr>s_wsi := wsi\<rparr>)) (tick cx));
       if r < 0 then close LWS_CLOSE_STATUS_NOSTATUS (-1) cx
       else if r = 2 then close LWS_CLOSE_STATUS_NOSTATUS 1 cx
       else if r \<noteq> 0 then close LWS_CLOSE_STATUS_PROTOCOL_ERR 1 cx
       else Some (0, cx) })"

definition lws_client_socket_service :: "(pollptr option \<Rightarrow> 'u lws_context \<Rightarrow> (int \<times> 'u lws_context) option) \<Rightarrow> 'u hs_context \<Rightarrow> 'u env \<Rightarrow> 'u io \<Rightarrow> pollfd \<Rightarrow> nat \<Rightarrow>
    'u lws_context \<Rightarrow> (int \<times> 'u lws_context) option" where
  "lws_client_socket_service svc C E io e p cx = do { s \<leftarrow> wsis cx p;
     case mode (s_wsi s) of
       LWS_CONNMODE_WS_CLIENT_WAITING_CONNECT \<Rightarrow> do { (there, cx) \<leftarrow> libwebsocket_client_connect_2 svc C E io p cx; Some (if there then 0 else -1, cx) }
     | LWS_CONNMODE_WS_CLIENT_WAITING_PROXY_REPLY \<Rightarrow> proxy_reply C E io e p cx
     | LWS_CONNMODE_WS_CLIENT_ISSUE_HANDSHAKE \<Rightarrow> issue_service C E io p cx
     | LWS_CONNMODE_WS_CLIENT_WAITING_SERVER_REPLY \<Rightarrow> reply_service C E io e p cx
     | _ \<Rightarrow> Some (0, cx) }"

section \<open>An open WebSocket\<close>

text \<open>
  The loop at \<open>drain\<close>: the token goes through the extensions and to \<open>libwebsocket_read\<close>. The result: \<open>Inl True\<close> for \<open>close_and_handled\<close>, \<open>Inl False\<close> when
  the connection has been closed, \<open>Inr\<close> otherwise.
\<close>

partial_function (option) rx_loop :: "'u hs_context \<Rightarrow> 'u env \<Rightarrow> 'u io \<Rightarrow> nat \<Rightarrow> lws_tokens \<Rightarrow> 'u lws_context \<Rightarrow> ((bool + unit) \<times> 'u lws_context) option" where
  "rx_loop C E io p tok cx = do { s \<leftarrow> wsis cx p;
     (fatal, more, tok, wsi) \<leftarrow> Some (ext_loop E LWS_EXT_CALLBACK_PACKET_RX_PREPARSE (active_extensions (s_wsi s)) tok (s_wsi s));
     cx \<leftarrow> Some (upd_wsi p (\<lambda>_. wsi) cx);
     if fatal then Some (Inl True, cx)
     else do { (n, cx) \<leftarrow> (if tok_len tok \<noteq> 0 then do { bs \<leftarrow> tok_bytes tok; read_conn C E io p bs cx } else Some (0, cx));
       if n < 0 then Some (Inl False, cx)
       else if more then rx_loop C E io p no_tokens cx
       else Some (Inr (), cx) } }"

declare rx_loop.simps [code]

text \<open>What comes after it when a stopped flow has been drained.\<close>

definition drained :: "'u env \<Rightarrow> nat \<Rightarrow> 'u lws_context \<Rightarrow> 'u lws_context" where
  "drained E p = upd_wsi p (\<lambda>wsi. if rxflow_buffer (u_ws wsi) \<noteq> None \<and> rxflow_pos (u_ws wsi) = rxflow_len (u_ws wsi)
     then snd (rx_flow_control_internal E (upd_ws (\<lambda>w. w\<lparr>rxflow_buffer := None\<rparr>) wsi)) else wsi)"

definition ws_service :: "'u hs_context \<Rightarrow> 'u env \<Rightarrow> 'u io \<Rightarrow> pollfd \<Rightarrow> nat \<Rightarrow> 'u lws_context \<Rightarrow> (int \<times> 'u lws_context) option" where
  "ws_service C E io e p cx =
    (let close_and_handled = (\<lambda>cx. do { cx \<leftarrow> libwebsocket_close_and_free_session C E (io_now io) (Some p) LWS_CLOSE_STATUS_NOSTATUS cx; Some (1, cx) });
         rx = (\<lambda>draining tok cx. do { (r, cx) \<leftarrow> rx_loop C E io p tok cx;
           case r of Inl True \<Rightarrow> close_and_handled cx | Inl False \<Rightarrow> Some (0, cx) | Inr _ \<Rightarrow> Some (0, if draining then drained E p cx else cx) }) in
     if pfd_revents e AND POLLIN = 0 \<and> pfd_revents e AND (POLLERR OR POLLHUP) \<noteq> 0 then close_and_handled cx
     else do { s \<leftarrow> wsis cx p;
       (n, wsi) \<leftarrow> (if pfd_revents e AND POLLOUT \<noteq> 0 \<and> state (s_wsi s) = WSI_STATE_ESTABLISHED then lws_handle_POLLOUT_event E True (s_wsi s) else Some (0, s_wsi s));
       cx \<leftarrow> Some (upd_wsi p (\<lambda>_. wsi) cx);
       if n < 0 then close_and_handled cx
       else case (rxflow_buffer (u_ws wsi), rxflow_change_to (u_ws wsi) AND LWS_RXFLOW_ALLOW \<noteq> 0) of
         (Some blk, True) \<Rightarrow> rx True \<lparr>tok_mem = blk, tok_off = rxflow_pos (u_ws wsi),
             tok_len = int (rxflow_len (u_ws wsi)) - int (rxflow_pos (u_ws wsi)), tok_moved = False\<rparr> cx
       | _ \<Rightarrow> if pfd_revents e AND POLLIN = 0 then Some (0, cx)
           else do { (r, cx) \<leftarrow> recv_buffer io (pfd_fd e) cx;
             case r of Received [] \<Rightarrow> close_and_handled cx
             | Received bs \<Rightarrow> rx False \<lparr>tok_mem = service_buffer cx, tok_off = 0, tok_len = int (length bs), tok_moved = False\<rparr> cx
             | Recv_failed \<Rightarrow> close_and_handled cx
             | _ \<Rightarrow> Some (0, cx) } })"

section \<open>Servicing a socket\<close>

text \<open>The check for timeouts, once a second. Without a \<open>pollfd\<close>, descriptor 0 timing out leads to a null pointer.\<close>

definition check_timeouts :: "'u hs_context \<Rightarrow> 'u env \<Rightarrow> 'u io \<Rightarrow> pollptr option \<Rightarrow> 'u lws_context \<Rightarrow> (bool \<times> 'u lws_context) option" where
  "check_timeouts C E io ptr cx = (if last_timeout_check_s cx = io_now io then Some (False, cx)
     else do { our_fd \<leftarrow> (case ptr of None \<Rightarrow> Some 0 | Some q \<Rightarrow> do { e \<leftarrow> pfd_at q cx; Some (pfd_fd e) });
       (timed_out, cx) \<leftarrow> timeout_loop C E (io_now io) our_fd 0 False (cx\<lparr>last_timeout_check_s := io_now io\<rparr>);
       case (timed_out, ptr) of (True, None) \<Rightarrow> None | (True, Some q) \<Rightarrow> Some (True, set_revents q 0 cx) | _ \<Rightarrow> Some (False, cx) })"

text \<open>
  One turn of the loop that lets the listening socket, in slot \<open>idx\<close> when the function was entered, have its share; the first component tells whether
  there was a connection waiting.
\<close>

definition listen_turn :: "(pollptr option \<Rightarrow> 'u lws_context \<Rightarrow> (int \<times> 'u lws_context) option) \<Rightarrow> 'u io \<Rightarrow> nat \<Rightarrow> 'u lws_context \<Rightarrow> (bool \<times> 'u lws_context) option" where
  "listen_turn svc io idx cx = do { _ \<leftarrow> rd (fds cx) idx; r \<leftarrow> Some (io_listen io (sys_no cx));
     cx \<leftarrow> Some (set_revents (Slot idx) r (tick cx));
     if r \<noteq> 0 then do { (_, cx) \<leftarrow> svc (Some (Slot idx)) cx; Some (True, cx\<lparr>listen_service_extraseen := listen_service_extraseen cx + 1\<rparr>) }
     else Some (False, if listen_service_extraseen cx \<noteq> 0 then cx\<lparr>listen_service_extraseen := listen_service_extraseen cx - 1\<rparr> else cx) }"

definition piggyback :: "(pollptr option \<Rightarrow> 'u lws_context \<Rightarrow> (int \<times> 'u lws_context) option) \<Rightarrow> 'u io \<Rightarrow> pollptr \<Rightarrow> nat \<Rightarrow> 'u lws_context \<Rightarrow> 'u lws_context option" where
  "piggyback svc io ptr idx cx = (if listen_service_fd cx = 0 \<or> ptr = Slot idx then Some cx
     else
       let cx = cx\<lparr>listen_service_count := listen_service_count cx + 1\<rparr> in
       if listen_service_extraseen cx = 0 \<and> listen_service_count cx \<noteq> listen_service_modulo cx then Some cx
       else let m = (if listen_service_extraseen cx > 5 then 2 else 1 :: nat) in
         do { (more, cx) \<leftarrow> listen_turn svc io idx (cx\<lparr>listen_service_count := 0\<rparr>);
           if m = 2 \<and> more then do { (_, cx) \<leftarrow> listen_turn svc io idx cx; Some cx } else Some cx })"

text \<open>The switch on the mode of the connection.\<close>

definition service_conn :: "(pollptr option \<Rightarrow> 'u lws_context \<Rightarrow> (int \<times> 'u lws_context) option) \<Rightarrow> 'u hs_context \<Rightarrow> 'u env \<Rightarrow> 'u io \<Rightarrow> pollfd \<Rightarrow> nat \<Rightarrow>
    'u lws_context \<Rightarrow> (int \<times> 'u lws_context) option" where
  "service_conn svc C E io e p cx = do { s \<leftarrow> wsis cx p;
     if mode (s_wsi s) \<in> {LWS_CONNMODE_HTTP_SERVING, LWS_CONNMODE_HTTP_SERVING_ACCEPTED, LWS_CONNMODE_SERVER_LISTENER, LWS_CONNMODE_SSL_ACK_PENDING}
     then lws_server_socket_service C E io e p cx
     else if mode (s_wsi s) \<in> {LWS_CONNMODE_WS_SERVING, LWS_CONNMODE_WS_CLIENT} then ws_service C E io e p cx
     else lws_client_socket_service svc C E io e p cx }"

text \<open>
  \<open>libwebsocket_service_fd\<close>, which calls itself for the listening socket and for a connection that has just been made; the first argument bounds the
  depth of the calls.
\<close>

fun libwebsocket_service_fd :: "nat \<Rightarrow> 'u hs_context \<Rightarrow> 'u env \<Rightarrow> 'u io \<Rightarrow> pollptr option \<Rightarrow> 'u lws_context \<Rightarrow> (int \<times> 'u lws_context) option" where
  "libwebsocket_service_fd 0 C E io ptr cx = None"
| "libwebsocket_service_fd (Suc d) C E io ptr cx = do {
     idx \<leftarrow> (if listen_service_fd cx = 0 then Some 0
        else do { l \<leftarrow> rdi (lws_lookup cx) (listen_service_fd cx); q \<leftarrow> l; s \<leftarrow> wsis cx q; Some (nat (position_in_fds_table (s_wsi s))) });
     (timed_out, cx) \<leftarrow> check_timeouts C E io ptr cx;
     case (timed_out, ptr) of (True, _) \<Rightarrow> Some (0, cx) | (_, None) \<Rightarrow> Some (0, cx)
     | (False, Some q) \<Rightarrow> do { e \<leftarrow> pfd_at q cx; l \<leftarrow> rdi (lws_lookup cx) (pfd_fd e);
         case l of None \<Rightarrow> Some (0, cx)
         | Some p \<Rightarrow> do { cx \<leftarrow> piggyback (libwebsocket_service_fd d C E io) io q idx cx;
             e \<leftarrow> pfd_at q cx;
             (n, cx) \<leftarrow> service_conn (libwebsocket_service_fd d C E io) C E io e p cx;
             Some (n, set_revents q 0 cx) } } }"

section \<open>The loop\<close>

partial_function (option) service_loop :: "nat \<Rightarrow> 'u hs_context \<Rightarrow> 'u env \<Rightarrow> 'u io \<Rightarrow> int \<Rightarrow> 'u lws_context \<Rightarrow> (int \<times> 'u lws_context) option" where
  "service_loop d C E io n cx = (if n \<ge> fds_count cx then Some (0, cx)
     else do { e \<leftarrow> rdi (fds cx) n;
       if pfd_revents e = 0 then service_loop d C E io (n + 1) cx
       else do { (m, cx) \<leftarrow> libwebsocket_service_fd d C E io (Some (Slot (nat n))) cx;
         if m < 0 then Some (-1, cx)
         else if m \<noteq> 0 then service_loop d C E io n cx
         else service_loop d C E io (n + 1) cx } })"

declare service_loop.simps [code]

definition libwebsocket_service :: "nat \<Rightarrow> 'u hs_context \<Rightarrow> 'u env \<Rightarrow> 'u io \<Rightarrow> 'u lws_context \<Rightarrow> (int \<times> 'u lws_context) option" where
  "libwebsocket_service d C E io cx = (case io_poll io (sys_no cx) (socks cx) of (n, rs) \<Rightarrow>
     let cx = tick cx in
     if n = 0 then do { (_, cx) \<leftarrow> libwebsocket_service_fd d C E io None cx; Some (0, cx) }
     else if n < 0 then Some (-1, cx)
     else service_loop d C E io 0 (cx\<lparr>fds := map2 (\<lambda>e r. e\<lparr>pfd_revents := r\<rparr>) (take (length rs) (fds cx)) rs @ drop (length rs) (fds cx)\<rparr>))"

section \<open>Making a connection\<close>

definition libwebsocket_client_connect ::
    "nat \<Rightarrow> 'u hs_context \<Rightarrow> 'u env \<Rightarrow> 'u io \<Rightarrow> byte list \<Rightarrow> int \<Rightarrow> byte list \<Rightarrow> byte list \<Rightarrow> byte list option \<Rightarrow> byte list option \<Rightarrow> int \<Rightarrow>
      'u lws_context \<Rightarrow> (nat option \<times> 'u lws_context) option" where
  "libwebsocket_client_connect d C E io address port path hostname origin prot version cx =
    (case io_malloc io (sys_no cx) (\<lambda>p. wsis cx p \<noteq> None) of
       None \<Rightarrow> Some (None, tick cx)
     | Some p \<Rightarrow> (case (io_header_block io (sys_no cx + 1), hs_protocols C) of
         (None, _) \<Rightarrow> Some (None, tick (tick cx))
       | (Some blk, []) \<Rightarrow> None
       | (Some blk, prot0 # _) \<Rightarrow> do {
           wsi \<leftarrow> Some (snd (lws_allocate_header_table (Some blk) ((zero_lws prot0 (io_null io))\<lparr>sock := -1, state := WSI_STATE_CLIENT_UNCONNECTED,
             ietf_spec_revision := of_int (if version = -1 then SPEC_LATEST_SUPPORTED else version)\<rparr>)));
           ah \<leftarrow> hdr_ah (u_hdr wsi);
           (r, ah) \<leftarrow> stash lws_hdr_simple_create (connect_strings address path hostname origin prot) (ah\<lparr>c_port := of_int port\<rparr>);
           cx \<leftarrow> Some (tick (tick cx));
           if r \<noteq> 0 then Some (None, cx)
           else
             let (handled, wsi) = lws_any_extension_handled E LWS_EXT_CALLBACK_CAN_PROXY_CLIENT_CONNECTION
                   \<lparr>tok_mem = address @ [0], tok_off = 0, tok_len = port, tok_moved = False\<rparr> [0..<length (hs_extensions C)] (set_ah ah wsi);
                 s = \<lparr>s_wsi = wsi, pending_timeout = NO_PENDING_TIMEOUT, pending_timeout_limit = 0, http_fd = 0, http_filepos = 0, http_filelen = 0\<rparr> in
             if handled then Some (Some p, cx\<lparr>wsis := (wsis cx)(p \<mapsto>
               libwebsocket_set_timeout (io_now io) PENDING_TIMEOUT_AWAITING_EXTENSION_CONNECT_RESPONSE AWAITING_TIMEOUT
                 (s\<lparr>s_wsi := wsi\<lparr>mode := LWS_CONNMODE_WS_CLIENT_WAITING_EXTENSION_CONNECT\<rparr>\<rparr>))\<rparr>)
             else do { (there, cx) \<leftarrow> libwebsocket_client_connect_2 (libwebsocket_service_fd d C E io) C E io p (cx\<lparr>wsis := (wsis cx)(p \<mapsto> s)\<rparr>);
               Some (if there then Some p else None, cx) } }))"

definition libwebsocket_client_connect_extended ::
    "nat \<Rightarrow> 'u hs_context \<Rightarrow> 'u env \<Rightarrow> 'u io \<Rightarrow> byte list \<Rightarrow> int \<Rightarrow> byte list \<Rightarrow> byte list \<Rightarrow> byte list option \<Rightarrow> byte list option \<Rightarrow> int \<Rightarrow> 'u option \<Rightarrow>
      'u lws_context \<Rightarrow> (nat option \<times> 'u lws_context) option" where
  "libwebsocket_client_connect_extended d C E io address port path hostname origin prot version userdata cx = do {
     (ptr, cx) \<leftarrow> libwebsocket_client_connect d C E io address port path hostname origin prot version cx;
     case ptr of None \<Rightarrow> Some (None, cx)
     | Some p \<Rightarrow> do { s \<leftarrow> wsis cx p;
         Some (Some p, case userdata of Some u \<Rightarrow> if user_space (s_wsi s) = io_null io then upd_wsi p (\<lambda>wsi. wsi\<lparr>user_space := u\<rparr>) cx else cx | None \<Rightarrow> cx) } }"

end
