(* ===== verification/Service_Safety.thy ===== *)
theory Service_Safety
  imports Service
begin

text \<open>
  Servicing never loses track of a connection: between any two calls into the library the poll table is well-formed and holds every connection
  that is allocated.
\<close>

section \<open>Partial correctness\<close>

text \<open>What holds of the result, if there is one.\<close>

definition post :: "('a \<Rightarrow> bool) \<Rightarrow> 'a option \<Rightarrow> bool" where
  "post Q m \<longleftrightarrow> (\<forall>y. m = Some y \<longrightarrow> Q y)"

lemma post_simps [simp]: "post Q (Some y) = Q y" "post Q None" "post Q (m \<bind> f) = post (\<lambda>y. post Q (f y)) m"
  "post Q (map_option g m) = post (\<lambda>y. Q (g y)) m"
  by (auto simp: post_def split: Option.bind_splits)

lemma postD: "post Q m \<Longrightarrow> m = Some y \<Longrightarrow> Q y"
  by (simp add: post_def)

lemma postI: "(\<And>y. m = Some y \<Longrightarrow> Q y) \<Longrightarrow> post Q m"
  by (simp add: post_def)

lemma post_pairI: "(\<And>a b. m = Some (a, b) \<Longrightarrow> Q (a, b)) \<Longrightarrow> post Q m"
  by (auto simp: post_def)

lemma post_conn: "(\<And>s. wsis cx p = Some s \<Longrightarrow> Q s) \<Longrightarrow> post Q (wsis cx p)"
  by (simp add: post_def)

section \<open>What closing leaves alone\<close>

text \<open>The time of the last check, the listening socket, and the record of dangling pointers.\<close>

definition clock :: "'u lws_context \<Rightarrow> size_t \<times> int \<times> bool" where
  "clock cx = (last_timeout_check_s cx, listen_service_fd cx, dangling cx)"

lemma clock_upd [simp]: "clock (upd_wsi p f cx) = clock cx" "clock (upd_session p g cx) = clock cx" "clock (tick cx) = clock cx"
  "clock (cx\<lparr>service_buffer := sb\<rparr>) = clock cx" "clock (cx\<lparr>closed := c\<rparr>) = clock cx" "clock (cx\<lparr>wsis := w\<rparr>) = clock cx"
  "clock (cx\<lparr>fds := a\<rparr>) = clock cx" "clock (cx\<lparr>lws_lookup := b\<rparr>) = clock cx" "clock (cx\<lparr>fds_count := n\<rparr>) = clock cx"
  "clock (set_revents q r cx) = clock cx"
  by (simp_all add: clock_def upd_wsi_def upd_session_def tick_def set_revents_def split: pollptr.splits)

lemma insert_clock: "(\<And>r cx'. clock cx' = clock cx \<Longrightarrow> Q (r, cx')) \<Longrightarrow> post Q (insert_wsi_socket_into_fds E p cx)"
  by (auto simp: insert_wsi_socket_into_fds_def intro!: post_conn postI[of "wri a b c" for a b c])

lemma remove_clock: "(\<And>r cx'. clock cx' = clock cx \<Longrightarrow> Q (r, cx')) \<Longrightarrow> post Q (remove_wsi_socket_from_fds E p cx)"
  by (auto simp: remove_wsi_socket_from_fds_def del_poll_fd_def intro!: post_conn postI[of "rdi a b" for a b] postI[of "wri a b c" for a b c]
      postI[of "x :: nat option" for x])

lemma kill_clock: "(\<And>cx'. clock cx' = clock cx \<Longrightarrow> Q cx') \<Longrightarrow> post Q (just_kill_connection C E old p cx)"
  by (auto simp: just_kill_connection_def intro!: remove_clock post_conn)

lemma close_clock: "(\<And>cx'. clock cx' = clock cx \<Longrightarrow> Q cx') \<Longrightarrow> post Q (libwebsocket_close_and_free_session C E now ptr reason cx)"
  by (auto simp: libwebsocket_close_and_free_session_def Let_def close_http_fd_def close_politely_def split: option.splits prod.splits
      intro!: post_conn kill_clock postI[of "flush_pending_tx a b" for a b] postI[of "libwebsocket_write a b c d e f" for a b c d e f])

section \<open>The invariant\<close>

text \<open>
  The table is well-formed, the connections that are allocated are those in the table, and none has been freed behind its back.
\<close>

definition tracked :: "'u lws_context \<Rightarrow> bool" where
  "tracked cx \<longleftrightarrow> \<not> dangling cx \<and> table_ok cx \<and> (\<forall>p k. sock_of cx p = Some k \<longrightarrow> table_map cx k = Some p)"

text \<open>
  What is known of the system: descriptors are fresh and below the size of the table (it is \<open>getdtablesize ()\<close>), \<open>malloc\<close> gives blocks that are
  not in use, and the user's verdict on a new connection leaves the listening socket in its slot. Whether names may fail to resolve is the parameter
  \<open>faulty\<close>. And no extension takes over connections.
\<close>

definition system_ok :: "bool \<Rightarrow> int \<Rightarrow> 'u io \<Rightarrow> bool" where
  "system_ok faulty lim io \<longleftrightarrow> (\<forall>n ks fd. io_accept io n ks = Some fd \<longrightarrow> fd \<notin> set ks \<and> 0 \<le> fd \<and> fd < lim) \<and>
     (\<forall>n ks fd. io_socket io n ks = Some fd \<longrightarrow> fd \<notin> set ks \<and> 0 \<le> fd \<and> fd < lim) \<and>
     (\<forall>n used p. io_malloc io n used = Some p \<longrightarrow> \<not> used p) \<and> (faulty \<or> (\<forall>n name. io_host io n name)) \<and>
     (\<forall>fd w. slot (snd (io_filter io fd w)) = slot w)"

definition no_takeover :: "'u env \<Rightarrow> bool" where
  "no_takeover E \<longleftrightarrow> (\<forall>x tok w. fst (ext_cb E x LWS_EXT_CALLBACK_CAN_PROXY_CLIENT_CONNECTION tok w) = 0)"

text \<open>Nothing is lost, unless a name has failed to resolve and a connection has been freed behind the table's back.\<close>

definition in_order :: "bool \<Rightarrow> int \<Rightarrow> 'u lws_context \<Rightarrow> bool" where
  "in_order faulty lim cx \<longleftrightarrow> faulty \<and> dangling cx \<or> tracked cx \<and> max_fds cx = lim"

lemma in_order_tracked: "in_order faulty lim cx \<Longrightarrow> \<not> dangling cx \<Longrightarrow> tracked cx \<and> table_ok cx \<and> max_fds cx = lim"
  "in_order False lim cx \<Longrightarrow> tracked cx \<and> table_ok cx \<and> \<not> dangling cx \<and> max_fds cx = lim"
  by (auto simp: in_order_def tracked_def)

lemma tracked_conn: "tracked cx \<Longrightarrow> wsis cx p = Some s \<Longrightarrow> table_map cx (sock (s_wsi s)) = Some p"
  by (simp add: tracked_def sock_of_def)

lemma tracked_sock: "tracked cx \<Longrightarrow> wsis cx p = Some s \<Longrightarrow> 0 \<le> sock (s_wsi s)"
  using tracked_conn table_mapE unfolding tracked_def by metis

lemma in_order_same: "same_table cx cx' \<Longrightarrow> in_order faulty lim cx' = in_order faulty lim cx"
  by (simp add: in_order_def tracked_def same_tableD)

lemma closing_keeps:
  assumes "tracked cx" "table_map cx k = Some p" "closing_result k p cx cx'" "dangling cx' = dangling cx"
  shows "tracked cx'" "max_fds cx' = max_fds cx"
proof -
  have ok: "table_ok cx" and all: "\<And>q j. sock_of cx q = Some j \<Longrightarrow> table_map cx j = Some q" using assms(1) by (auto simp: tracked_def)
  have "table_map cx' j = Some q" if q: "sock_of cx' q = Some j" for q j
  proof (cases "q = p")
    case True
    then have "wsis cx' p \<noteq> None" using q by (auto simp: sock_of_def)
    then have "table_map cx' = table_map cx" "sock_of cx p = Some j" using assms(3) q True by (auto simp: closing_result_def)
    then show ?thesis using all True by simp
  next
    case False
    then have "table_map cx j = Some q" using q assms(3) all by (simp add: closing_result_def)
    moreover have "j \<noteq> k" using False assms(2) calculation by auto
    ultimately show ?thesis using assms(3) by (auto simp: closing_result_def)
  qed
  then show "tracked cx'" "max_fds cx' = max_fds cx" using assms by (simp_all add: tracked_def closing_result_def)
qed

text \<open>A connection \<open>p\<close> that is being made, and not in the table yet.\<close>

definition making :: "bool \<Rightarrow> int \<Rightarrow> nat \<Rightarrow> 'u lws_context \<Rightarrow> bool" where
  "making faulty lim p cx \<longleftrightarrow> in_order faulty lim (cx\<lparr>wsis := (wsis cx)(p := None)\<rparr>)"

lemma making_table:
  assumes "making faulty lim p cx" "\<not> dangling cx"
  shows "table_ok cx" "max_fds cx = lim" "q \<noteq> p \<Longrightarrow> sock_of cx q = Some k \<Longrightarrow> table_map cx k = Some q" "\<not> in_table p cx"
proof -
  let ?cx = "cx\<lparr>wsis := (wsis cx)(p := None)\<rparr>"
  have ok: "table_ok ?cx" and all: "\<And>q k. sock_of ?cx q = Some k \<Longrightarrow> table_map ?cx k = Some q" and m: "max_fds ?cx = lim"
    using assms by (auto simp: making_def in_order_def tracked_def)
  show "max_fds cx = lim" using m by simp
  have sk: "socks ?cx = socks cx" "table_map ?cx = table_map cx" by (simp_all add: socks_def table_map_def fun_eq_iff)
  have "slot_ok cx n" if n: "n < length (socks cx)" for n
  proof -
    have "slot_ok ?cx n" using ok n sk by (simp add: table_ok_def)
    then show ?thesis unfolding slot_ok_alt sk by (auto simp: slot_of_def split: if_splits)
  qed
  then show "table_ok cx" using ok by (simp add: table_ok_def sk)
  show "table_map cx k = Some q" if "q \<noteq> p" "sock_of cx q = Some k" using that all[of q k] sk by (simp add: sock_of_def)
  have "p \<notin> ran (table_map ?cx)"
  proof
    assume "p \<in> ran (table_map ?cx)"
    then obtain k where "table_map ?cx k = Some p" by (auto simp: ran_def)
    from table_mapE[OF ok this] show False by auto
  qed
  moreover have "in_table p ?cx = in_table p cx" by (simp add: in_table_def)
  ultimately show "\<not> in_table p cx" using in_table_iff[OF ok, of p] by simp
qed

lemma making_upd: "making faulty lim p (upd_wsi p f cx) = making faulty lim p cx" "making faulty lim p (upd_session p g cx) = making faulty lim p cx"
  by (simp_all add: making_def upd_wsi_def upd_session_def)

lemma making_new: "in_order faulty lim cx \<Longrightarrow> wsis cx p = None \<Longrightarrow> making faulty lim p (cx\<lparr>wsis := (wsis cx)(p \<mapsto> s)\<rparr>)"
  by (simp add: making_def fun_upd_idem)

lemma insert_order:
  assumes m: "making faulty lim p cx" and E: "slot_safe E" and p: "wsis cx p = Some s" "sock (s_wsi s) = k" and k: "0 \<le> k" "k < lim" "k \<notin> set (socks cx)"
    and Q: "\<And>r cx'. in_order faulty lim cx' \<Longrightarrow> Q (r, cx')"
  shows "post Q (insert_wsi_socket_into_fds E p cx)"
proof (cases "dangling cx")
  case True
  then have "faulty" using m by (simp add: making_def in_order_def tracked_def)
  then show ?thesis using True Q insert_clock[of cx Q] by (simp add: in_order_def clock_def)
next
  case nd: False
  note ok = making_table(1,2)[OF m nd] and all = making_table(3)[OF m nd]
  have fresh: "table_map cx k = None" using k(3) by (simp add: table_map_def)
  obtain cx1 where i: "insert_wsi_socket_into_fds E p cx = Some (0, cx1)" "table_ok cx1" "table_map cx1 = (table_map cx)(k \<mapsto> p)"
    "sock_of cx1 = sock_of cx" "max_fds cx1 = max_fds cx"
    using insert_ok[OF ok(1) E p k(1) _ fresh table_room[OF ok(1) k(1) _ fresh]] k ok(2) by metis
  have sp: "sock_of cx p = Some k" using p by (simp add: sock_of_def)
  have "table_map cx1 j = Some q" if q: "sock_of cx1 q = Some j" for q j
    using q i(3,4) sp all[of q j] fresh by (cases "q = p") auto
  moreover have "\<not> dangling cx1" using postD[OF insert_clock i(1), of "\<lambda>(_, cx1). dangling cx1 = dangling cx"] nd by (simp add: clock_def)
  ultimately have "in_order faulty lim cx1" using i ok(2) by (simp add: in_order_def tracked_def)
  then show ?thesis using i(1) Q by simp
qed

section \<open>Changes that do not touch the table\<close>

lemma same_fields [simp]:
  "same_table cx (tick cx)" "same_table cx (cx\<lparr>service_buffer := b\<rparr>)" "same_table cx (cx\<lparr>last_timeout_check_s := t\<rparr>)"
  "same_table cx (cx\<lparr>listen_service_count := n\<rparr>)" "same_table cx (cx\<lparr>listen_service_extraseen := m\<rparr>)" "same_table cx (set_revents q r cx)"
proof -
  show "same_table cx (set_revents q r cx)"
  proof (cases q)
    case (Slot n)
    have "map pfd_fd ((fds cx)[n := (fds cx ! n)\<lparr>pfd_revents := r\<rparr>]) = map pfd_fd (fds cx)"
      by (cases "n < length (fds cx)") (simp_all add: map_update list_update_same_conv list_update_beyond)
    then show ?thesis using Slot by (simp add: set_revents_def same_table_def slot_of_def fun_eq_iff)
  qed (simp add: set_revents_def)
qed (simp_all add: same_table_def slot_of_def fun_eq_iff tick_def)

lemma in_order_fields [simp]:
  "in_order faulty lim (tick cx) = in_order faulty lim cx" "in_order faulty lim (cx\<lparr>service_buffer := b\<rparr>) = in_order faulty lim cx"
  "in_order faulty lim (cx\<lparr>last_timeout_check_s := t\<rparr>) = in_order faulty lim cx" "in_order faulty lim (cx\<lparr>listen_service_count := n\<rparr>) = in_order faulty lim cx"
  "in_order faulty lim (cx\<lparr>listen_service_extraseen := m\<rparr>) = in_order faulty lim cx" "in_order faulty lim (set_revents q r cx) = in_order faulty lim cx"
  "in_order faulty lim (cx\<lparr>closed := c\<rparr>) = in_order faulty lim cx"
  by (simp_all add: in_order_same[OF same_fields(1)] in_order_same[OF same_fields(2)] in_order_same[OF same_fields(3)] in_order_same[OF same_fields(4)]
      in_order_same[OF same_fields(5)] in_order_same[OF same_fields(6)] in_order_same[OF same_closed])

lemma in_order_wsi: "(\<And>s. wsis cx p = Some s \<Longrightarrow> slot (f (s_wsi s)) = slot (s_wsi s)) \<Longrightarrow> in_order faulty lim (upd_wsi p f cx) = in_order faulty lim cx"
  by (intro in_order_same same_upd_wsi)

lemma in_order_session: "(\<And>s. wsis cx p = Some s \<Longrightarrow> slot (s_wsi (f s)) = slot (s_wsi s)) \<Longrightarrow> in_order faulty lim (upd_session p f cx) = in_order faulty lim cx"
  by (intro in_order_same same_upd_session)

lemma in_order_put: "wsis cx p = Some s \<Longrightarrow> slot (f (s_wsi s)) = slot (s_wsi s) \<Longrightarrow> in_order faulty lim (upd_wsi p f cx) = in_order faulty lim cx"
  "wsis cx p = Some s \<Longrightarrow> slot (s_wsi (g s)) = slot (s_wsi s) \<Longrightarrow> in_order faulty lim (upd_session p g cx) = in_order faulty lim cx"
  by (rule in_order_wsi in_order_session; simp)+

lemma set_timeout_wsi [simp]: "s_wsi (libwebsocket_set_timeout now r n s) = s_wsi s"
  by (simp add: libwebsocket_set_timeout_def)

lemma tick_wsis [simp]: "wsis (tick cx) = wsis cx" "service_buffer (tick cx) = service_buffer cx" "socks (tick cx) = socks cx"
  by (simp_all add: tick_def socks_def)

lemma making_fields [simp]: "making faulty lim p (tick cx) = making faulty lim p cx" "making faulty lim p (cx\<lparr>service_buffer := b\<rparr>) = making faulty lim p cx"
  "making faulty lim p (cx\<lparr>closed := c\<rparr>) = making faulty lim p cx"
proof -
  have "same_table (cx\<lparr>wsis := (wsis cx)(p := None)\<rparr>) ((f cx)\<lparr>wsis := (wsis (f cx))(p := None)\<rparr>)" if "\<And>cx. same_table cx (f cx)" "\<And>cx. wsis (f cx) = wsis cx" for f
    using that(1)[of cx] that(2) by (simp add: same_table_def slot_of_def fun_eq_iff)
  from in_order_same[OF this] show "making faulty lim p (tick cx) = making faulty lim p cx" "making faulty lim p (cx\<lparr>service_buffer := b\<rparr>) = making faulty lim p cx"
    "making faulty lim p (cx\<lparr>closed := c\<rparr>) = making faulty lim p cx" unfolding making_def by simp_all
qed

section \<open>Each operation keeps the connections in order\<close>

text \<open>Sending a file.\<close>

context host
begin

lemma file_slot: "(\<And>r s'. slot (s_wsi s') = slot (s_wsi s) \<Longrightarrow> Q (r, s')) \<Longrightarrow> post Q (file_loop E io s)"
proof (rule postI)
  have "host F \<longrightarrow> slot (s_wsi (snd y)) = slot (s_wsi s)" if run: "file_loop F io s = Some y" for F :: "'u env" and io s y
  proof (rule file_loop.raw_induct[where P = "\<lambda>F io s y. host F \<longrightarrow> slot (s_wsi (snd y)) = slot (s_wsi s)", OF _ run], goal_cases)
    case (1 f F io s y)
    show ?case
    proof
      assume h: "host F"
      have IH: "post (\<lambda>y. slot (s_wsi (snd y)) = slot (s_wsi s')) (f F io s')" for s' using 1(1) h by (auto simp: post_def)
      have w: "post Q (libwebsocket_write F v bs a b c)" if "\<And>m v' e. slot v' = slot v \<Longrightarrow> Q (m, v', e)" for Q v bs a b c
        by (rule postI) (auto dest: host.write_slot[OF h] intro!: that)
      show "slot (s_wsi (snd y)) = slot (s_wsi s)"
        by (rule postD[OF _ 1(2)])
          (auto simp: Let_def host.rxflow_slot[OF h] host.on_writable_slot[OF h] intro!: w postI[OF trans[OF postD[OF IH]]] dest!: host.pipe_choked_slot[OF h]
            split: prod.splits option.splits)
    qed
  qed
  then show "Q y" if "\<And>r s'. slot (s_wsi s') = slot (s_wsi s) \<Longrightarrow> Q (r, s')" "file_loop E io s = Some y" for y
    using that host_axioms by (metis prod.collapse)
qed

end

text \<open>The operation that services a socket, where another one calls it.\<close>

definition keeps_order :: "bool \<Rightarrow> int \<Rightarrow> (pollptr option \<Rightarrow> 'u lws_context \<Rightarrow> (int \<times> 'u lws_context) option) \<Rightarrow> bool" where
  "keeps_order faulty lim svc \<longleftrightarrow> (\<forall>ptr cx. in_order faulty lim cx \<longrightarrow> post (\<lambda>(_, cx). in_order faulty lim cx) (svc ptr cx))"

locale serving = handshaking_host E C for E :: "'u env" and C +
  fixes io :: "'u io" and lim :: int and faulty :: bool
  assumes kernel: "system_ok faulty lim io" and direct: "no_takeover E"
begin

lemma close_order:
  assumes "in_order faulty lim cx" "\<And>cx'. in_order faulty lim cx' \<Longrightarrow> Q cx'"
  shows "post Q (libwebsocket_close_and_free_session C E now ptr reason cx)"
proof (rule postI, rule assms(2))
  fix cx'
  assume run: "libwebsocket_close_and_free_session C E now ptr reason cx = Some cx'"
  show "in_order faulty lim cx'"
  proof (cases ptr)
    case None
    then show ?thesis using run assms(1) by (simp add: libwebsocket_close_and_free_session_def)
  next
    case (Some p)
    then obtain s where s: "wsis cx p = Some s" using run by (auto simp: libwebsocket_close_and_free_session_def split: Option.bind_splits)
    have d: "dangling cx' = dangling cx" using postD[OF close_clock run, of "\<lambda>cx'. dangling cx' = dangling cx"] by (simp add: clock_def)
    show ?thesis
    proof (cases "dangling cx")
      case False
      then have t: "tracked cx" "table_ok cx" "max_fds cx = lim" using in_order_tracked(1)[OF assms(1)] by simp_all
      have "closing_result (sock (s_wsi s)) p cx cx'" using close_result[OF t(2) tracked_conn[OF t(1) s]] run Some by blast
      from closing_keeps[OF t(1) tracked_conn[OF t(1) s] this d] show ?thesis using t(3) by (simp add: in_order_def)
    qed (use d assms(1) in \<open>simp add: in_order_def tracked_def\<close>)
  qed
qed

lemma timeout_check_order:
  "in_order faulty lim cx \<Longrightarrow> (\<And>r cx'. in_order faulty lim cx' \<Longrightarrow> Q (r, cx')) \<Longrightarrow> post Q (libwebsocket_service_timeout_check C E now p sec cx)"
  by (auto simp: libwebsocket_service_timeout_check_def in_order_wsi intro!: post_conn close_order)

lemma recv_order: "in_order faulty lim cx \<Longrightarrow> (\<And>r cx'. in_order faulty lim cx' \<Longrightarrow> Q (r, cx')) \<Longrightarrow> post Q (recv_buffer io fd cx)"
  by (auto simp: recv_buffer_def intro!: postI split: Option.bind_splits recv_result.splits)

lemma read_wsi: "(\<And>r v. slot v = slot w \<Longrightarrow> Q (r, v)) \<Longrightarrow> post Q (libwebsocket_read C E sb w buf)"
  by (auto intro!: post_pairI dest: read_slot)

lemma read_order: "in_order faulty lim cx \<Longrightarrow> (\<And>r cx'. in_order faulty lim cx' \<Longrightarrow> Q (r, cx')) \<Longrightarrow> post Q (read_conn C E io p buf cx)"
  by (auto simp: read_conn_def in_order_put intro!: post_conn read_wsi close_order)

lemma http_in_order: "in_order faulty lim cx \<Longrightarrow> (\<And>r cx'. in_order faulty lim cx' \<Longrightarrow> Q (r, cx')) \<Longrightarrow> post Q (http_in C E io fd p cx)"
  by (auto simp: http_in_def in_order_wsi intro!: recv_order read_order close_order split: recv_result.splits list.splits)

lemma http_out_order:
  assumes "in_order faulty lim cx" "\<And>cx'. in_order faulty lim cx' \<Longrightarrow> Q cx'"
  shows "post Q (http_out C E io p cx)"
proof -
  let ?cx = "upd_wsi p (\<lambda>wsi. wsi\<lparr>pollout := False\<rparr>) cx"
  have fin: "in_order faulty lim (upd_session p (\<lambda>_. s') ?cx)" if "wsis cx p = Some s" "slot (s_wsi s') = slot (s_wsi s)" for s s'
    using that assms(1) by (simp add: in_order_put in_order_wsi)
  show ?thesis
    unfolding http_out_def
    by (simp, intro post_conn) (auto intro!: file_slot close_order assms(2) intro: fin dest!: rxflow_slot' split: prod.splits)
qed

lemma malloc_new: "io_malloc io n used = Some p \<Longrightarrow> \<not> used p"
  using kernel unfolding system_ok_def by blast

lemma new_wsi_order:
  assumes "in_order faulty lim cx" "\<And>cx'. in_order faulty lim cx' \<Longrightarrow> Q (None, cx')"
    "\<And>p s cx'. making faulty lim p cx' \<Longrightarrow> wsis cx' p = Some s \<Longrightarrow> socks cx' = socks cx \<Longrightarrow> Q (Some p, cx')"
  shows "post Q (libwebsocket_create_new_server_wsi C io cx)"
proof (cases "io_malloc io (sys_no cx) (\<lambda>p. wsis cx p \<noteq> None)")
  case (Some p)
  have "wsis cx p = None" using malloc_new[OF Some] by simp
  then have "making faulty lim p ((tick (tick cx))\<lparr>wsis := (wsis (tick (tick cx)))(p \<mapsto> s)\<rparr>)" for s using assms(1) by (intro making_new) simp_all
  moreover have "socks ((tick (tick cx))\<lparr>wsis := w\<rparr>) = socks cx" for w by (simp add: socks_def tick_def)
  ultimately show ?thesis using Some assms by (auto simp: libwebsocket_create_new_server_wsi_def split: option.splits list.splits)
qed (use assms in \<open>simp add: libwebsocket_create_new_server_wsi_def\<close>)

lemma accept_order:
  assumes "in_order faulty lim cx" "\<And>cx'. in_order faulty lim cx' \<Longrightarrow> Q cx'"
  shows "post Q (accept_conn C E io p cx)"
proof (cases "io_accept io (sys_no cx) (socks cx)")
  case (Some fd)
  have fd: "fd \<notin> set (socks cx)" "0 \<le> fd" "fd < lim" using kernel Some by (auto simp: system_ok_def)
  have opt: "in_order faulty lim (snd (lws_set_socket_options io cx))" "socks (snd (lws_set_socket_options io cx)) = socks cx"
    "wsis (snd (lws_set_socket_options io cx)) = wsis cx" if "in_order faulty lim cx" for cx using that by (simp_all add: lws_set_socket_options_def)
  have filter: "slot v = slot w" if "io_filter io fd w = (n, v)" for n v w using kernel that unfolding system_ok_def by (metis snd_conv)
  have sk: "socks (upd_wsi q f cx) = socks cx" for q f and cx :: "'u lws_context" by (simp add: socks_def)
  let ?cx = "snd (lws_set_socket_options io (tick cx))"
  have o1: "in_order faulty lim ?cx" "socks ?cx = socks cx" "wsis ?cx = wsis cx" using opt[of "tick cx"] assms(1) by simp_all
  have new: "post Q (libwebsocket_create_new_server_wsi C io cx1 \<bind> (\<lambda>(q, cx). case q of None \<Rightarrow> Some (cx\<lparr>closed := closed cx @ [fd]\<rparr>)
      | Some q \<Rightarrow> insert_wsi_socket_into_fds E q (upd_wsi q (\<lambda>wsi. wsi\<lparr>sock := fd\<rparr>) cx) \<bind> (\<lambda>(_, cx). Some cx)))" if "in_order faulty lim cx1" "socks cx1 = socks cx" for cx1
    unfolding post_simps using that assms(2) fd
    by (intro new_wsi_order) (auto simp: making_upd sk intro!: insert_order[OF _ safe])
  show ?thesis
    unfolding accept_conn_def Some option.case post_simps
  proof (rule post_conn)
    fix s
    assume s: "wsis ?cx p = Some s"
    obtain n v where f: "io_filter io fd (s_wsi s) = (n, v)" by force
    have "in_order faulty lim (upd_wsi p (\<lambda>_. v) ?cx)" using o1 in_order_put(1)[of ?cx p s "\<lambda>_. v"] s filter[OF f] by simp
    then show "post Q (case io_filter io fd (s_wsi s) of (n, wsi) \<Rightarrow> Some (upd_wsi p (\<lambda>_. wsi) ?cx) \<bind> (\<lambda>cx. if n \<noteq> 0 then Some (cx\<lparr>closed := closed cx @ [fd]\<rparr>)
        else libwebsocket_create_new_server_wsi C io cx \<bind> (\<lambda>(q, cx). case q of None \<Rightarrow> Some (cx\<lparr>closed := closed cx @ [fd]\<rparr>)
          | Some q \<Rightarrow> insert_wsi_socket_into_fds E q (upd_wsi q (\<lambda>wsi. wsi\<lparr>sock := fd\<rparr>) cx) \<bind> (\<lambda>(_, cx). Some cx))))"
      using new[of "upd_wsi p (\<lambda>_. v) ?cx"] o1(2) f assms(2) by (simp add: sk)
  qed
qed (use assms in \<open>simp add: accept_conn_def\<close>)

lemma server_order: "in_order faulty lim cx \<Longrightarrow> (\<And>r cx'. in_order faulty lim cx' \<Longrightarrow> Q (r, cx')) \<Longrightarrow> post Q (lws_server_socket_service C E io e p cx)"
  by (auto simp: lws_server_socket_service_def intro!: post_conn http_in_order http_out_order accept_order)

text \<open>The sockets of a client.\<close>

lemma failed_order: "in_order faulty lim cx \<Longrightarrow> (\<And>b cx'. in_order faulty lim cx' \<Longrightarrow> Q (b, cx')) \<Longrightarrow> post Q (connect_failed C E io p cx)"
  by (auto simp: connect_failed_def intro!: close_order)

lemma open_order:
  assumes "making faulty lim p cx" "wsis cx p = Some s" "\<And>cx'. making faulty lim p cx' \<Longrightarrow> Q (False, cx')" "\<And>cx'. in_order faulty lim cx' \<Longrightarrow> Q (True, cx')"
  shows "post Q (open_socket E io p cx)"
proof (cases "io_socket io (sys_no cx) (socks cx)")
  case (Some fd)
  have fd: "fd \<notin> set (socks cx)" "0 \<le> fd" "fd < lim" using kernel Some by (auto simp: system_ok_def)
  have sk: "socks (upd_wsi q f cx) = socks cx" for q f and cx :: "'u lws_context" by (simp add: socks_def)
  have "post Q (insert_wsi_socket_into_fds E p (upd_wsi p (\<lambda>wsi. wsi\<lparr>sock := fd, mode := LWS_CONNMODE_WS_CLIENT_WAITING_CONNECT\<rparr>) (tick (tick cx))) \<bind>
      (\<lambda>(_, cx). Some (True, upd_session p (libwebsocket_set_timeout (io_now io) PENDING_TIMEOUT_AWAITING_CONNECT_RESPONSE AWAITING_TIMEOUT) cx)))"
    unfolding post_simps using assms fd
    by (intro insert_order[OF _ safe, where k = fd and s = "s\<lparr>s_wsi := (s_wsi s)\<lparr>sock := fd, mode := LWS_CONNMODE_WS_CLIENT_WAITING_CONNECT\<rparr>\<rparr>"])
      (auto simp: making_upd sk in_order_session)
  then show ?thesis using assms Some by (auto simp: open_socket_def lws_set_socket_options_def making_upd)
qed (use assms in \<open>simp add: open_socket_def\<close>)

lemma ask_proxy_order: "in_order faulty lim cx \<Longrightarrow> (\<And>b cx'. in_order faulty lim cx' \<Longrightarrow> Q (b, cx')) \<Longrightarrow> post Q (ask_proxy C E io plen p cx)"
  by (auto simp: ask_proxy_def Let_def in_order_put in_order_wsi
      intro!: post_conn post_pairI[of "lws_hdr_simple_create a b c" for a b c] failed_order postI[of "hdr_ah x" for x])

lemma issue_wsi: "(\<And>b v. slot v = slot w \<Longrightarrow> Q (b, v)) \<Longrightarrow> post Q (issue_handshake C E sb w)"
  by (auto intro!: post_pairI dest: issue_slot)

lemma issue_order: "in_order faulty lim cx \<Longrightarrow> (\<And>r cx'. in_order faulty lim cx' \<Longrightarrow> Q (r, cx')) \<Longrightarrow> post Q (issue_service C E io p cx)"
  by (auto simp: issue_service_def in_order_put intro!: post_conn issue_wsi close_order)

lemma proxy_order: "in_order faulty lim cx \<Longrightarrow> (\<And>r cx'. in_order faulty lim cx' \<Longrightarrow> Q (r, cx')) \<Longrightarrow> post Q (proxy_reply C E io e p cx)"
  by (auto simp: proxy_reply_def Let_def in_order_session intro!: post_conn recv_order close_order issue_order postI[of "wr x y z" for x y z] split: recv_result.splits)

lemma reply_wsi: "(\<And>r v x. slot v = slot w \<Longrightarrow> Q (r, v, x)) \<Longrightarrow> post Q (server_reply C E sb fin inp w)"
  by (rule postI) (auto dest: server_reply_slot)

lemma reply_order: "in_order faulty lim cx \<Longrightarrow> (\<And>r cx'. in_order faulty lim cx' \<Longrightarrow> Q (r, cx')) \<Longrightarrow> post Q (reply_service C E io e p cx)"
  by (auto simp: reply_service_def Let_def in_order_put intro!: post_conn reply_wsi close_order split: prod.splits)

text \<open>Operations that service a socket themselves.\<close>

lemma svc_order: "keeps_order faulty lim svc \<Longrightarrow> in_order faulty lim cx \<Longrightarrow> (\<And>r cx'. in_order faulty lim cx' \<Longrightarrow> Q (r, cx')) \<Longrightarrow> post Q (svc ptr cx)"
  by (fastforce simp: keeps_order_def post_def)

lemma directly_order:
  "keeps_order faulty lim svc \<Longrightarrow> in_order faulty lim cx \<Longrightarrow> (\<And>b cx'. in_order faulty lim cx' \<Longrightarrow> Q (b, cx')) \<Longrightarrow> post Q (issue_directly svc C E io p cx)"
  by (auto simp: issue_directly_def in_order_session intro!: post_conn svc_order failed_order)

text \<open>The label \<open>oom4\<close>, for a connection outside the table and for one in it.\<close>

lemma in_order_making: "in_order faulty lim cx \<Longrightarrow> dangling cx \<Longrightarrow> making faulty lim p cx"
  by (simp add: making_def in_order_def tracked_def)

lemma oom4_making: "making faulty lim p cx \<Longrightarrow> \<exists>cx'. oom4 p cx = Some (False, cx') \<and> in_order faulty lim cx'"
proof (cases "dangling cx")
  case False
  moreover assume m: "making faulty lim p cx"
  ultimately have "dangling cx \<or> in_table p cx \<longleftrightarrow> dangling cx" using making_table(4) by blast
  then have "oom4 p cx = Some (False, cx\<lparr>wsis := (wsis cx)(p := None)\<rparr>)" unfolding oom4_def by simp
  then show ?thesis using m by (simp add: making_def)
qed (simp add: oom4_def making_def in_order_def tracked_def)

lemma lost_order:
  assumes "in_order faulty lim cx" "wsis cx p = Some s" "faulty"
  shows "\<exists>cx'. oom4 p cx = Some (False, cx') \<and> in_order faulty lim cx'"
proof (cases "dangling cx")
  case False
  then have t: "tracked cx" "table_ok cx" using in_order_tracked(1)[OF assms(1)] by simp_all
  then have "in_table p cx" using in_table_iff[OF t(2)] tracked_conn[OF t(1) assms(2)] by (auto simp: ran_def)
  then show ?thesis using assms(3) by (simp add: oom4_def in_order_def)
qed (use assms(3) in \<open>simp add: oom4_def in_order_def\<close>)

lemma connect_2_order:
  assumes svc: "keeps_order faulty lim svc" and cx: "in_order faulty lim cx \<or> making faulty lim p cx \<and> (\<forall>s. wsis cx p = Some s \<longrightarrow> sock (s_wsi s) < 0)"
    and Q: "\<And>b cx'. in_order faulty lim cx' \<Longrightarrow> Q (b, cx')"
  shows "post Q (libwebsocket_client_connect_2 svc C E io p cx)"
proof -
  define fin where "fin plen cx = wsis cx p \<bind> (\<lambda>s. case io_connect io (sys_no cx) (sock (s_wsi s)) of
      Connect_pending \<Rightarrow> Some (True, upd_wsi p (\<lambda>wsi. proto0_cb E LWS_CALLBACK_SET_MODE_POLL_FD (sock wsi) POLLOUT (wsi\<lparr>pollout := True\<rparr>)) (tick cx))
    | Connect_failed \<Rightarrow> connect_failed C E io p (tick cx)
    | Connected \<Rightarrow> if http_proxy_port (tick cx) \<noteq> 0 then ask_proxy C E io plen p (tick cx) else issue_directly svc C E io p (tick cx))" for plen cx
  have fin: "post Q (fin plen cx)" if "in_order faulty lim cx" for plen cx
    using that Q by (auto simp: fin_def in_order_wsi intro!: post_conn failed_order ask_proxy_order directly_order[OF svc] split: connect_result.splits)
  have oom: "post Q (oom4 p cx1)" if "making faulty lim p cx1" for cx1
    using oom4_making[OF that] Q by auto
  define opened where "opened s plen cx = (if sock (s_wsi s) < 0 then open_socket E io p cx else Some (True, cx)) \<bind>
      (\<lambda>(okay, cx). if \<not> okay then oom4 p cx else fin plen cx)" for s :: "'u session" and plen cx
  have body: "post Q (opened s plen cx1)"
    if "wsis cx p = Some s" "in_order faulty lim cx1 = in_order faulty lim cx" "making faulty lim p cx1 = making faulty lim p cx" "wsis cx1 = wsis cx" for s cx1 plen
  proof (cases "sock (s_wsi s) < 0")
    case True
    have "making faulty lim p cx" using cx in_order_making[of cx p] tracked_sock[OF _ that(1)] True by (auto simp: in_order_def)
    then show ?thesis using True that by (auto simp: opened_def intro!: open_order[where s = s] fin oom)
  next
    case False
    then show ?thesis using that(1,2) cx fin by (auto simp: opened_def)
  qed
  have "libwebsocket_client_connect_2 svc C E io p cx = wsis cx p \<bind> (\<lambda>s. hdr_ah (u_hdr (s_wsi s)) \<bind> (\<lambda>ah. hdr_text ah WSI_TOKEN_CLIENT_PEER_ADDRESS \<bind>
      (\<lambda>ads. (if http_proxy_port cx \<noteq> 0 then cpyapp (proxy_request ads (c_port ah)) (service_buffer cx, 0) else Some (service_buffer cx, 0)) \<bind>
      (\<lambda>(sb, plen). if \<not> io_host io (sys_no cx) (if http_proxy_port cx \<noteq> 0 then http_proxy_address cx else ads) then oom4 p (tick (cx\<lparr>service_buffer := sb\<rparr>))
        else opened s plen (tick (cx\<lparr>service_buffer := sb\<rparr>))))))"
    by (simp add: libwebsocket_client_connect_2_def fin_def opened_def cong: if_cong)
  moreover have lost: "post Q (oom4 p cx1)" if "wsis cx p = Some s" "\<not> io_host io n name"
      "in_order faulty lim cx1 = in_order faulty lim cx" "making faulty lim p cx1 = making faulty lim p cx" "wsis cx1 = wsis cx" for s cx1 n name
    using cx that lost_order[of cx1 p s] oom[of cx1] kernel Q by (auto simp: system_ok_def)
  ultimately show ?thesis by (auto intro!: body lost post_conn postI[of "hdr_ah x" for x] postI[of "hdr_text x y" for x y] postI[of "cpyapp x y" for x y])
qed

lemma client_order:
  "keeps_order faulty lim svc \<Longrightarrow> in_order faulty lim cx \<Longrightarrow> (\<And>r cx'. in_order faulty lim cx' \<Longrightarrow> Q (r, cx')) \<Longrightarrow> post Q (lws_client_socket_service svc C E io e p cx)"
  by (auto simp: lws_client_socket_service_def intro!: post_conn connect_2_order proxy_order issue_order reply_order split: connection_mode.splits)

text \<open>An open WebSocket.\<close>

lemma rx_loop_order:
  assumes "in_order faulty lim cx" "\<And>r cx'. in_order faulty lim cx' \<Longrightarrow> Q (r, cx')"
  shows "post Q (rx_loop C E io p tok cx)"
proof (rule postI)
  fix y
  assume run: "rx_loop C E io p tok cx = Some y"
  have "serving F D io lim faulty \<longrightarrow> in_order faulty lim cx \<longrightarrow> in_order faulty lim (snd y)" if run: "rx_loop D F io p tok cx = Some y"
    for D :: "'u hs_context" and F io p tok cx y
  proof (rule rx_loop.raw_induct[where P = "\<lambda>D F io p tok cx y. serving F D io lim faulty \<longrightarrow> in_order faulty lim cx \<longrightarrow> in_order faulty lim (snd y)", OF _ run], goal_cases)
    case (1 f D F io p tok cx y)
    show ?case
    proof (intro impI)
      assume s: "serving F D io lim faulty" and i: "in_order faulty lim cx"
      then have h: "host F" by (simp add: serving_def handshaking_host_def)
      have IH: "post Q (f D F io p no_tokens cx)" if "in_order faulty lim cx" "\<And>y. in_order faulty lim (snd y) \<Longrightarrow> Q y" for cx Q
        using 1(1) s that by (auto simp: post_def)
      show "in_order faulty lim (snd y)"
        by (rule postD[OF _ 1(2)])
          (use i in \<open>auto simp: in_order_put intro!: post_conn serving.read_order[OF s] IH postI[of "tok_bytes t" for t] dest!: host.ext_loop_slot[OF h] split: prod.splits\<close>)
    qed
  qed
  then have "in_order faulty lim (snd y)" using run assms(1) serving_axioms by blast
  then show "Q y" using assms(2) by (metis prod.collapse)
qed

lemma pollout_wsi: "(\<And>r v. slot v = slot w \<Longrightarrow> Q (r, v)) \<Longrightarrow> post Q (lws_handle_POLLOUT_event E b w)"
  by (auto intro!: post_pairI dest: pollout_slot)

lemma drained_order: "in_order faulty lim (drained E p cx) = in_order faulty lim cx"
  unfolding drained_def by (rule in_order_wsi) simp

lemma ws_order:
  assumes cx: "in_order faulty lim cx" and Q: "\<And>r cx'. in_order faulty lim cx' \<Longrightarrow> Q (r, cx')"
  shows "post Q (ws_service C E io e p cx)"
proof -
  define cl where "cl cx = libwebsocket_close_and_free_session C E (io_now io) (Some p) LWS_CLOSE_STATUS_NOSTATUS cx \<bind> (\<lambda>cx. Some (1 :: int, cx))" for cx
  define rx where "rx d tok cx = rx_loop C E io p tok cx \<bind> (\<lambda>(r, cx). case r of Inl True \<Rightarrow> cl cx | Inl False \<Rightarrow> Some (0 :: int, cx)
      | Inr _ \<Rightarrow> Some (0, if d then drained E p cx else cx))" for d tok cx
  have cl: "post Q (cl cx)" if "in_order faulty lim cx" for cx using that Q by (auto simp: cl_def intro!: close_order)
  have rx: "post Q (rx d tok cx)" if "in_order faulty lim cx" for d tok cx
    using that Q by (auto simp: rx_def drained_order intro!: rx_loop_order cl split: sum.splits bool.splits)
  define rest where "rest wsi cx = (case (rxflow_buffer (u_ws wsi), rxflow_change_to (u_ws wsi) AND LWS_RXFLOW_ALLOW \<noteq> 0) of
         (Some blk, True) \<Rightarrow> rx True \<lparr>tok_mem = blk, tok_off = rxflow_pos (u_ws wsi),
             tok_len = int (rxflow_len (u_ws wsi)) - int (rxflow_pos (u_ws wsi)), tok_moved = False\<rparr> cx
       | _ \<Rightarrow> if pfd_revents e AND POLLIN = 0 then Some (0, cx)
           else recv_buffer io (pfd_fd e) cx \<bind> (\<lambda>(r, cx).
             case r of Received [] \<Rightarrow> cl cx
             | Received bs \<Rightarrow> rx False \<lparr>tok_mem = service_buffer cx, tok_off = 0, tok_len = int (length bs), tok_moved = False\<rparr> cx
             | Recv_failed \<Rightarrow> cl cx
             | _ \<Rightarrow> Some (0, cx)))" for wsi :: "'u lws" and cx
  have rest: "post Q (rest wsi cx)" if "in_order faulty lim cx" for wsi cx
    using that Q by (auto simp: rest_def intro!: rx cl recv_order split: option.splits bool.splits recv_result.splits list.splits)
  define first where "first s = (if pfd_revents e AND POLLOUT \<noteq> 0 \<and> state (s_wsi s) = WSI_STATE_ESTABLISHED
      then lws_handle_POLLOUT_event E True (s_wsi s) else Some (0, s_wsi s))" for s :: "'u session"
  have first: "post Q' (first s)" if "\<And>n v. slot v = slot (s_wsi s) \<Longrightarrow> Q' (n, v)" for s Q' using that by (auto simp: first_def intro!: pollout_wsi)
  show ?thesis
    unfolding ws_service_def Let_def cl_def[symmetric] rx_def[symmetric] first_def[symmetric] rest_def[symmetric] using cx
    by (auto simp: in_order_put intro!: cl post_conn first rest)
qed

text \<open>Servicing a socket.\<close>

lemma timeouts_order:
  assumes "in_order faulty lim cx" "\<And>r cx'. in_order faulty lim cx' \<Longrightarrow> Q (r, cx')"
  shows "post Q (timeout_loop C E now our_fd n t cx)"
proof (rule postI)
  fix y
  assume run: "timeout_loop C E now our_fd n t cx = Some y"
  have "serving F D io lim faulty \<longrightarrow> in_order faulty lim cx \<longrightarrow> in_order faulty lim (snd y)" if run: "timeout_loop D F now our_fd n t cx = Some y"
    for D :: "'u hs_context" and F now our_fd n t cx y
  proof (rule timeout_loop.raw_induct[where P = "\<lambda>D F now our_fd n t cx y. serving F D io lim faulty \<longrightarrow> in_order faulty lim cx \<longrightarrow> in_order faulty lim (snd y)", OF _ run], goal_cases)
    case (1 f D F now our_fd n t cx y)
    show ?case
    proof (intro impI)
      assume s: "serving F D io lim faulty" and i: "in_order faulty lim cx"
      have IH: "post Q (f D F now our_fd n t cx)" if "in_order faulty lim cx" "\<And>y. in_order faulty lim (snd y) \<Longrightarrow> Q y" for n t cx Q
        using 1(1) s that by (auto simp: post_def)
      show "in_order faulty lim (snd y)"
        by (rule postD[OF _ 1(2)])
          (use i in \<open>auto intro!: serving.timeout_check_order[OF s] IH postI[of "rdi a b" for a b] split: option.splits\<close>)
    qed
  qed
  then have "in_order faulty lim (snd y)" using run assms(1) serving_axioms by blast
  then show "Q y" using assms(2) by (metis prod.collapse)
qed

lemma check_timeouts_order: "in_order faulty lim cx \<Longrightarrow> (\<And>r cx'. in_order faulty lim cx' \<Longrightarrow> Q (r, cx')) \<Longrightarrow> post Q (check_timeouts C E io ptr cx)"
  by (auto simp: check_timeouts_def intro!: timeouts_order postI[of "pfd_at a b" for a b] split: option.splits bool.splits)

lemma listen_order:
  "keeps_order faulty lim svc \<Longrightarrow> in_order faulty lim cx \<Longrightarrow> (\<And>r cx'. in_order faulty lim cx' \<Longrightarrow> Q (r, cx')) \<Longrightarrow> post Q (listen_turn svc io idx cx)"
  by (auto simp: listen_turn_def intro!: svc_order postI[of "rd a b" for a b])

lemma piggyback_order:
  "keeps_order faulty lim svc \<Longrightarrow> in_order faulty lim cx \<Longrightarrow> (\<And>cx'. in_order faulty lim cx' \<Longrightarrow> Q cx') \<Longrightarrow> post Q (piggyback svc io ptr idx cx)"
  by (auto simp: piggyback_def Let_def intro!: listen_order)

lemma conn_order:
  "keeps_order faulty lim svc \<Longrightarrow> in_order faulty lim cx \<Longrightarrow> (\<And>r cx'. in_order faulty lim cx' \<Longrightarrow> Q (r, cx')) \<Longrightarrow> post Q (service_conn svc C E io e p cx)"
  by (auto simp: service_conn_def intro!: post_conn server_order ws_order client_order)

lemma service_fd_keeps: "keeps_order faulty lim (libwebsocket_service_fd d C E io)"
proof (induction d)
  case (Suc d)
  show ?case unfolding keeps_order_def
    by (auto intro!: check_timeouts_order piggyback_order[OF Suc] conn_order[OF Suc] postI[of "rdi a b" for a b] postI[of "pfd_at a b" for a b] post_conn
        postI[of "a :: nat option" for a] split: option.splits bool.splits)
qed (simp add: keeps_order_def)

lemmas service_fd_order = svc_order[OF service_fd_keeps]

lemma loop_order:
  assumes "in_order faulty lim cx" "\<And>r cx'. in_order faulty lim cx' \<Longrightarrow> Q (r, cx')"
  shows "post Q (service_loop d C E io n cx)"
proof (rule postI)
  fix y
  assume run: "service_loop d C E io n cx = Some y"
  have "serving F D io lim faulty \<longrightarrow> in_order faulty lim cx \<longrightarrow> in_order faulty lim (snd y)" if run: "service_loop d D F io n cx = Some y"
    for d and D :: "'u hs_context" and F io n cx y
  proof (rule service_loop.raw_induct[where P = "\<lambda>d D F io n cx y. serving F D io lim faulty \<longrightarrow> in_order faulty lim cx \<longrightarrow> in_order faulty lim (snd y)", OF _ run], goal_cases)
    case (1 f d D F io n cx y)
    show ?case
    proof (intro impI)
      assume s: "serving F D io lim faulty" and i: "in_order faulty lim cx"
      have IH: "post Q (f d D F io n cx)" if "in_order faulty lim cx" "\<And>y. in_order faulty lim (snd y) \<Longrightarrow> Q y" for n cx Q
        using 1(1) s that by (auto simp: post_def)
      show "in_order faulty lim (snd y)"
        by (rule postD[OF _ 1(2)])
          (use i in \<open>auto intro!: serving.service_fd_order[OF s] IH postI[of "rdi a b" for a b]\<close>)
    qed
  qed
  then have "in_order faulty lim (snd y)" using run assms(1) serving_axioms by blast
  then show "Q y" using assms(2) by (metis prod.collapse)
qed

lemma service_order:
  assumes "in_order faulty lim cx" "\<And>r cx'. in_order faulty lim cx' \<Longrightarrow> Q (r, cx')"
  shows "post Q (libwebsocket_service d C E io cx)"
proof -
  have "map pfd_fd (map2 (\<lambda>e r. e\<lparr>pfd_revents := r\<rparr>) (take (length rs) fs) rs) = map pfd_fd (take (length rs) fs)" for rs fs
    by (rule nth_equalityI) auto
  then have "map pfd_fd (map2 (\<lambda>e r. e\<lparr>pfd_revents := r\<rparr>) (take (length rs) fs) rs @ drop (length rs) fs) = map pfd_fd fs" for rs fs
    by (metis append_take_drop_id map_append)
  then have "same_table cx (cx\<lparr>fds := map2 (\<lambda>e r. e\<lparr>pfd_revents := r\<rparr>) (take (length rs) (fds cx)) rs @ drop (length rs) (fds cx)\<rparr>)" for rs cx
    by (simp add: same_table_def)
  note polled = in_order_same[OF this]
  show ?thesis
    using assms by (auto simp: libwebsocket_service_def Let_def polled intro!: service_fd_order loop_order split: prod.splits)
qed

lemma not_handled: "lws_any_extension_handled E LWS_EXT_CALLBACK_CAN_PROXY_CLIENT_CONNECTION tok xs w = (a, v) \<Longrightarrow> \<not> a \<and> sock v = sock w"
proof
  assume e: "lws_any_extension_handled E LWS_EXT_CALLBACK_CAN_PROXY_CLIENT_CONNECTION tok xs w = (a, v)"
  then show "sock v = sock w" using any_extension_slot slot_eqD(1) by metis
  show "\<not> a" using e
  proof (induction xs arbitrary: w)
    case (Cons x xs)
    have "fst (ext_cb E x LWS_EXT_CALLBACK_CAN_PROXY_CLIENT_CONNECTION tok w) = 0" using direct by (simp add: no_takeover_def)
    then show ?case using Cons by (auto split: prod.splits)
  qed simp
qed

lemma stash_order: "post Q (stash f xs ah)" if "\<And>r ah. Q (r, ah)"
  using that by (intro post_pairI) blast

lemma connect_order:
  assumes "in_order faulty lim cx" "\<And>r cx'. in_order faulty lim cx' \<Longrightarrow> Q (r, cx')"
  shows "post Q (libwebsocket_client_connect d C E io address port path hostname origin prot version cx)"
proof (cases "io_malloc io (sys_no cx) (\<lambda>p. wsis cx p \<noteq> None)")
  case (Some p)
  have "wsis cx p = None" using malloc_new[OF Some] by simp
  then have new: "making faulty lim p ((tick (tick cx))\<lparr>wsis := (wsis (tick (tick cx)))(p \<mapsto> s)\<rparr>)" for s using assms(1) by (intro making_new) simp_all
  show ?thesis
    unfolding libwebsocket_client_connect_def Some option.case
    using assms new
    by (auto simp: Let_def set_ah_def upd_hdr_def lws_allocate_header_table_def intro!: stash_order connect_2_order[OF service_fd_keeps] postI[of "hdr_ah x" for x] dest!: not_handled split: option.splits list.splits prod.splits)
qed (use assms in \<open>simp add: libwebsocket_client_connect_def\<close>)

end

end
