(* ===== verification/Api.thy ===== *)
theory Api
  imports Service_Safety
begin

text \<open>
  Whole runs of the library: what user code and its event loop may call, in any order, with a kernel that answers differently each time.
\<close>

section \<open>Calls into the library\<close>

inductive api_step :: "'u hs_context \<Rightarrow> 'u env \<Rightarrow> bool \<Rightarrow> int \<Rightarrow> 'u lws_context \<Rightarrow> 'u lws_context \<Rightarrow> bool" for C E faulty lim where
  service: "system_ok faulty lim io \<Longrightarrow> libwebsocket_service d C E io cx = Some (r, cx') \<Longrightarrow> api_step C E faulty lim cx cx'"
| service_fd: "system_ok faulty lim io \<Longrightarrow> libwebsocket_service_fd d C E io ptr cx = Some (r, cx') \<Longrightarrow> api_step C E faulty lim cx cx'"
| connect: "system_ok faulty lim io \<Longrightarrow> libwebsocket_client_connect d C E io address port path hostname origin prot version cx = Some (ptr, cx') \<Longrightarrow>
    api_step C E faulty lim cx cx'"
| writable_all: "libwebsocket_callback_on_writable_all_protocol E pr cx = Some cx' \<Longrightarrow> api_step C E faulty lim cx cx'"
| allow_all: "libwebsocket_rx_flow_allow_all_protocol pr cx = Some cx' \<Longrightarrow> api_step C E faulty lim cx cx'"
| writable: "wsis cx p = Some s \<Longrightarrow> api_step C E faulty lim cx (upd_wsi p (\<lambda>wsi. snd (libwebsocket_callback_on_writable E wsi)) cx)"
| flow: "wsis cx p = Some s \<Longrightarrow> api_step C E faulty lim cx (upd_wsi p (\<lambda>wsi. snd (libwebsocket_rx_flow_control b wsi)) cx)"
| send: "wsis cx p = Some s \<Longrightarrow> libwebsocket_write E (s_wsi s) mem off len prot = Some (r, wsi, mem') \<Longrightarrow> api_step C E faulty lim cx (upd_wsi p (\<lambda>_. wsi) cx)"
| serve_file: "wsis cx p = Some s \<Longrightarrow> libwebsockets_serve_http_file E io (service_buffer cx) file content_type s = Some (r, s') \<Longrightarrow>
    api_step C E faulty lim cx (upd_session p (\<lambda>_. s') cx)"
| set_timeout: "wsis cx p = Some s \<Longrightarrow> api_step C E faulty lim cx (upd_session p (libwebsocket_set_timeout now reason secs) cx)"

text \<open>The operations outside the service loop.\<close>

lemma protocol_loop_order:
  assumes "in_order faulty lim cx" "\<And>w. slot (f w) = slot w" "\<And>cx'. in_order faulty lim cx' \<Longrightarrow> Q cx'"
  shows "post Q (protocol_loop f prot ns cx)"
  using assms(1)
proof (induction ns arbitrary: cx)
  case (Cons n ns)
  then show ?case using assms(2)
    by (auto simp: in_order_wsi intro!: postI[of "rd a b" for a b] postI[of "rdi a b" for a b] post_conn split: option.splits)
qed (simp add: assms(3))

context host
begin

lemma serve_slot:
  assumes "libwebsockets_serve_http_file E io sb file ct s = Some (r, s')"
  shows "slot (s_wsi s') = slot (s_wsi s)"
proof -
  have w: "post Q (libwebsocket_write E v bs a b c)" if "\<And>m v' e. slot v' = slot v \<Longrightarrow> Q (m, v', e)" for Q v bs a b c
    by (rule postI) (auto dest: write_slot intro!: that)
  have "post (\<lambda>y. slot (s_wsi (snd y)) = slot (s_wsi s)) (libwebsockets_serve_http_file E io sb file ct s)"
    by (auto simp: libwebsockets_serve_http_file_def intro!: w file_slot postI[of "cpyapp a b" for a b] split: prod.splits)
  from postD[OF this assms] show ?thesis by simp
qed

end

lemma api_order:
  assumes h: "slot_safe E" "slot_calm C" "no_takeover E" and step: "api_step C E faulty lim cx cx'" and ok: "in_order faulty lim cx"
  shows "in_order faulty lim cx'"
proof -
  have hh: "handshaking_host E C" using host_intro[OF h(1,2)] .
  then have hE: "host E" by (simp add: handshaking_host_def)
  have sv: "serving E C io lim faulty" if "system_ok faulty lim io" for io
    using hh h(3) that by (simp add: serving_def serving_axioms_def)
  note slots = host.on_writable_slot[OF hE] host.flow_slot[OF hE]
  from step ok show ?thesis
  proof cases
    case (service io d r)
    then show ?thesis using postD[OF serving.service_order[OF sv ok, of io "\<lambda>(_, cx). in_order faulty lim cx"]] by auto
  next
    case (service_fd io d ptr r)
    then show ?thesis using postD[OF serving.service_fd_order[OF sv ok, of io "\<lambda>(_, cx). in_order faulty lim cx"]] by auto
  next
    case (connect io)
    then show ?thesis using postD[OF serving.connect_order[OF sv ok, of io "\<lambda>(_, cx). in_order faulty lim cx"]] by auto
  next
    case writable_all
    then show ?thesis using postD[OF protocol_loop_order[OF ok slots(1), of "in_order faulty lim"]] by (simp add: libwebsocket_callback_on_writable_all_protocol_def)
  next
    case allow_all
    then show ?thesis using postD[OF protocol_loop_order[OF ok slots(3), of "in_order faulty lim"]] by (simp add: libwebsocket_rx_flow_allow_all_protocol_def)
  next
    case (send p s)
    then show ?thesis using ok host.write_slot[OF hE] by (auto simp: in_order_put)
  next
    case (serve_file p s)
    then show ?thesis using ok host.serve_slot[OF hE] by (auto simp: in_order_put)
  qed (use ok slots in \<open>auto simp: in_order_wsi in_order_session\<close>)
qed

lemma run_order:
  assumes "slot_safe E" "slot_calm C" "no_takeover E" "(api_step C E faulty lim)\<^sup>*\<^sup>* cx cx'" "in_order faulty lim cx"
  shows "in_order faulty lim cx'"
  using assms(4,5) by (induction rule: rtranclp_induct) (use api_order[OF assms(1-3)] in blast)+

lemma allocated_iff:
  assumes "tracked cx"
  shows "wsis cx p \<noteq> None \<longleftrightarrow> p \<in> ran (table_map cx)"
proof
  assume "wsis cx p \<noteq> None"
  then show "p \<in> ran (table_map cx)" using tracked_conn[OF assms] by (auto simp: ran_def)
next
  assume "p \<in> ran (table_map cx)"
  then obtain k where k: "table_map cx k = Some p" by (auto simp: ran_def)
  have "table_ok cx" using assms by (simp add: tracked_def)
  then show "wsis cx p \<noteq> None" using table_mapE[OF _ k] by (metis option.distinct(1))
qed

section \<open>A sample kernel\<close>

text \<open>Descriptors from 3 on; whether a connection is made at once is a parameter.\<close>

definition fresh_fd :: "int \<Rightarrow> int list \<Rightarrow> int option" where
  "fresh_fd lim ks = List.find (\<lambda>k. k \<notin> set ks) [3..lim - 1]"

definition sample_io :: "int \<Rightarrow> connect_result \<Rightarrow> byte list list io" where
  "sample_io lim con = \<lparr>io_now = 0, io_recv = \<lambda>_ _. Recv_again, io_stream = \<lambda>_ _. ([], 0), io_accept = \<lambda>_. fresh_fd lim, io_socket = \<lambda>_. fresh_fd lim,
     io_setsockopt = \<lambda>_. False, io_malloc = \<lambda>_ used. List.find (Not \<circ> used) [0..<100], io_header_block = \<lambda>_. Some sample_block, io_host = \<lambda>_ _. True,
     io_connect = \<lambda>_ _. con, io_read = \<lambda>_ _. None, io_listen = \<lambda>_. 0, io_poll = \<lambda>_ ks. (0, map (\<lambda>_. 0) ks), io_filter = \<lambda>_ w. (0, w), io_null = []\<rparr>"

lemma sample_kernel: "system_ok faulty lim (sample_io lim con)"
  by (auto simp: system_ok_def sample_io_def fresh_fd_def find_Some_iff)

lemma hs_direct: "no_takeover hs_env"
  by (simp add: no_takeover_def hs_env_def log_env_def)

lemma empty_tracked: "0 \<le> lim \<Longrightarrow> tracked (empty_context lim Map.empty)"
  by (simp add: tracked_def table_ok_def empty_context_def socks_def sock_of_def)

interpretation sample_serving: serving hs_env hs_sample "sample_io 8 con" 8 faulty for con faulty
  using host_intro[OF hs_env_slots hs_calm] sample_kernel hs_direct by (simp add: serving_def serving_axioms_def)

lemma sample_pending: "map_option (\<lambda>(p, cx). fds_count cx) (libwebsocket_client_connect 1 hs_sample hs_env (sample_io 8 Connect_pending)
   (bytes ''srv'') 80 (bytes ''/play'') (bytes ''srv'') None None (-1) (empty_context 8 Map.empty)) = Some 1"
  by code_simp

text \<open>The first connection of an empty context, with a \<open>connect\<close> that is pending.\<close>

definition sample_connect :: "(nat option \<times> byte list list lws_context) option" where
  "sample_connect = libwebsocket_client_connect 1 hs_sample hs_env (sample_io 8 Connect_pending)
     (bytes ''srv'') 80 (bytes ''/play'') (bytes ''srv'') None None (-1) (empty_context 8 Map.empty)"

lemma sample_waiting: "(case sample_connect of Some (Some p, cx) \<Rightarrow>
     (case wsis cx p of Some s \<Rightarrow> (case hdr_ah (u_hdr (s_wsi s)) of Some ah \<Rightarrow> p = 0 \<and> mode (s_wsi s) = LWS_CONNMODE_WS_CLIENT_WAITING_CONNECT \<and> sock (s_wsi s) = 3 \<and>
        hdr_text ah WSI_TOKEN_CLIENT_PEER_ADDRESS = Some (bytes ''srv'') \<and> http_proxy_port cx = 0 \<and> listen_service_fd cx = 0 \<and> last_timeout_check_s cx = 0 \<and>
        \<not> dangling cx
      | None \<Rightarrow> False) | None \<Rightarrow> False) | _ \<Rightarrow> False)"
  by code_simp

section \<open>Properties\<close>

text \<open>
  C3. No connection is ever lost, one defect apart. Whatever the library is asked to do, in whatever order, after every call the poll table is
  well-formed, and the connections that are allocated are exactly those in it: each is found under its own socket and knows its slot. Of the system it is
  assumed that descriptors are fresh and below the size of the table and that \<open>malloc\<close> gives unused blocks; everything else may fail at any time. The
  defect: when the lookup of a host name fails (\<open>faulty\<close>), a connection may be freed while it is in the table, and \<open>dangling\<close> tells that this has happened;
  where names resolve it does not.
\<close>

theorem connections_tracked:
  assumes "slot_safe E" "slot_calm C" "no_takeover E" "tracked cx" "(api_step C E faulty (max_fds cx))\<^sup>*\<^sup>* cx cx'"
  shows "if dangling cx' then faulty
    else tracked cx' \<and> max_fds cx' = max_fds cx \<and> (\<forall>p. wsis cx' p \<noteq> None \<longleftrightarrow> p \<in> ran (table_map cx'))"
proof -
  have "in_order faulty (max_fds cx) cx'" using run_order[OF assms(1-3,5)] assms(4) by (simp add: in_order_def)
  then show ?thesis using allocated_iff[of cx'] by (auto simp: in_order_def tracked_def)
qed

theorem connections_tracked_witness:
  "\<exists>ptr cx'. libwebsocket_client_connect 1 hs_sample hs_env (sample_io 8 Connect_pending) (bytes ''srv'') 80 (bytes ''/play'') (bytes ''srv'') None None (-1)
     (empty_context 8 Map.empty) = Some (ptr, cx') \<and> fds_count cx' = 1 \<and> \<not> dangling cx' \<and> tracked cx'"
proof -
  obtain ptr cx' where c: "libwebsocket_client_connect 1 hs_sample hs_env (sample_io 8 Connect_pending) (bytes ''srv'') 80 (bytes ''/play'') (bytes ''srv'') None None (-1)
     (empty_context 8 Map.empty) = Some (ptr, cx')" "fds_count cx' = 1" using sample_pending by auto
  have m: "max_fds (empty_context 8 Map.empty :: byte list list lws_context) = 8" by (simp add: empty_context_def)
  have "(api_step hs_sample hs_env False 8)\<^sup>*\<^sup>* (empty_context 8 Map.empty) cx'" using api_step.connect[OF sample_kernel c(1)] by blast
  from connections_tracked[OF hs_env_slots hs_calm hs_direct empty_tracked, of 8 False cx'] this c show ?thesis by (simp add: m split: if_splits)
qed

text \<open>
  C38. The defect of a lookup that fails: a connection whose \<open>connect\<close> is pending is serviced by looking its host up again. When that fails, the connection is freed, but its
  socket stays in the poll table, which still points to it; the next time the socket is serviced the freed connection is used.
\<close>

theorem lookup_failure_dangles:
  assumes "tracked cx" "wsis cx p = Some s" "mode (s_wsi s) = LWS_CONNMODE_WS_CLIENT_WAITING_CONNECT" "hdr_ah (u_hdr (s_wsi s)) = Some ah"
    and "hdr_text ah WSI_TOKEN_CLIENT_PEER_ADDRESS = Some ads" "http_proxy_port cx = 0" "\<not> io_host io (sys_no cx) ads"
    and "listen_service_fd cx = 0" "last_timeout_check_s cx = io_now io"
  defines "e \<equiv> Some (Local \<lparr>pfd_fd = sock (s_wsi s), pfd_revents = POLLOUT\<rparr>)"
  shows "\<exists>cx'. libwebsocket_service_fd (Suc d) C E io e cx = Some (-1, cx') \<and> dangling cx' \<and> wsis cx' p = None \<and> table_map cx' (sock (s_wsi s)) = Some p \<and>
    libwebsocket_service_fd (Suc d) C E io e cx' = None"
proof -
  have t: "table_ok cx" "table_map cx (sock (s_wsi s)) = Some p" using assms(1) tracked_conn[OF assms(1,2)] by (simp_all add: tracked_def)
  obtain n where k: "0 \<le> sock (s_wsi s)" "sock (s_wsi s) < max_fds cx" "lws_lookup cx ! nat (sock (s_wsi s)) = Some p" using table_mapE[OF t] by metis
  have l: "rdi (lws_lookup cx) (sock (s_wsi s)) = Some (Some p)" using k t(1) by (simp add: rdi_def rd_def table_ok_def)
  have i: "in_table p cx" using in_table_iff[OF t(1)] t(2) by (auto simp: ran_def)
  let ?cx = "(tick cx)\<lparr>dangling := True, wsis := (wsis cx)(p := None)\<rparr>"
  have "service_conn svc C E io e p cx = Some (-1, ?cx)" for svc e
    using assms(2-7) i
    by (simp add: service_conn_def lws_client_socket_service_def libwebsocket_client_connect_2_def oom4_def) (simp add: in_table_def tick_def)
  then have "libwebsocket_service_fd (Suc d) C E io e cx = Some (-1, ?cx)"
    using assms(8,9) l by (simp add: e_def check_timeouts_def pfd_at_def piggyback_def set_revents_def)
  moreover have "libwebsocket_service_fd (Suc d) C E io e ?cx = None"
    using assms(8,9) l by (simp add: e_def check_timeouts_def pfd_at_def piggyback_def service_conn_def tick_def)
  moreover have "table_map ?cx (sock (s_wsi s)) = Some p" using t(2) by (auto simp: table_map_def socks_def tick_def split: if_splits)
  ultimately show ?thesis by simp
qed

theorem lookup_failure_dangles_witness:
  "\<exists>cx cx'. sample_connect = Some (Some 0, cx) \<and>
   libwebsocket_service_fd 1 hs_sample hs_env ((sample_io 8 Connect_pending)\<lparr>io_host := \<lambda>_ _. False\<rparr>) (Some (Local \<lparr>pfd_fd = 3, pfd_revents = POLLOUT\<rparr>)) cx =
     Some (-1, cx') \<and> wsis cx' 0 = None \<and> table_map cx' 3 = Some 0"
proof -
  obtain cx s ah where c: "sample_connect = Some (Some 0, cx)" "wsis cx 0 = Some s" "mode (s_wsi s) = LWS_CONNMODE_WS_CLIENT_WAITING_CONNECT" "sock (s_wsi s) = 3"
      "hdr_ah (u_hdr (s_wsi s)) = Some ah" "hdr_text ah WSI_TOKEN_CLIENT_PEER_ADDRESS = Some (bytes ''srv'')" "http_proxy_port cx = 0" "listen_service_fd cx = 0"
      "last_timeout_check_s cx = 0" "\<not> dangling cx"
  proof (cases sample_connect)
    case (Some y)
    note w = sample_waiting[unfolded Some option.case]
    obtain p cx where y: "y = (Some p, cx)" using w by (cases y) (auto split: option.split_asm)
    note w = w[unfolded y prod.case option.case]
    obtain s where s: "wsis cx p = Some s" using w by (auto split: option.split_asm)
    note w = w[unfolded s option.case]
    obtain ah where ah: "hdr_ah (u_hdr (s_wsi s)) = Some ah" using w by (auto split: option.split_asm)
    note w = w[unfolded ah option.case]
    have "p = 0" using w by blast
    then show thesis by (intro that[of cx s ah]) (use w Some y s ah in simp_all)
  qed (use sample_waiting in simp)
  have "(api_step hs_sample hs_env True 8)\<^sup>*\<^sup>* (empty_context 8 Map.empty) cx"
    using api_step.connect[OF sample_kernel c(1)[unfolded sample_connect_def]] by blast
  from run_order[OF hs_env_slots hs_calm hs_direct this] have "in_order True 8 cx" using empty_tracked[of 8] by (simp add: in_order_def empty_context_def)
  then have "tracked cx" using c(10) by (simp add: in_order_def)
  from lookup_failure_dangles[OF this c(2,3,5,6,7) _ c(8), of "(sample_io 8 Connect_pending)\<lparr>io_host := \<lambda>_ _. False\<rparr>" 0 hs_sample hs_env]
  show ?thesis using c(1,4,9) by (auto simp: sample_io_def)
qed

end
