(* ===== verification/Connect.thy ===== *)
theory Connect
  imports Api
begin

text \<open>
  Making a connection from end to end: from the call of \<open>libwebsocket_client_connect\<close> to the request on the wire, through the poll table and the service
  of the new socket; and what is left when the request cannot be sent.
\<close>

section \<open>A network that is up\<close>

text \<open>
  There is a block \<open>p\<close> for the connection and one for its header table, names resolve, there is a descriptor \<open>fd\<close>, and the connection is made at once.
\<close>

definition network_up :: "'u io \<Rightarrow> 'u lws_context \<Rightarrow> nat \<Rightarrow> int \<Rightarrow> allocated_headers \<Rightarrow> bool" where
  "network_up io cx p fd blk \<longleftrightarrow> io_malloc io (sys_no cx) (\<lambda>p. wsis cx p \<noteq> None) = Some p \<and> io_header_block io (sys_no cx + 1) = Some blk \<and>
     (\<forall>n name. io_host io n name) \<and> (\<forall>n. io_socket io n (socks cx) = Some fd) \<and> (\<forall>n. \<not> io_setsockopt io n) \<and> (\<forall>n. io_connect io n fd = Connected)"

text \<open>No proxy, no listening socket, and the timeouts have been looked at this second.\<close>

definition plain_client :: "'u io \<Rightarrow> 'u lws_context \<Rightarrow> bool" where
  "plain_client io cx \<longleftrightarrow> http_proxy_port cx = 0 \<and> listen_service_fd cx = 0 \<and> last_timeout_check_s cx = io_now io \<and>
     length (service_buffer cx) = LWS_MAX_SOCKET_IO_BUF"

definition poll_quiet :: "'u env \<Rightarrow> bool" where
  "poll_quiet E \<longleftrightarrow> (\<forall>r k n w. proto0_cb E r k n w = w)"

definition client_wsi :: "libwebsocket_protocols \<Rightarrow> 'u \<Rightarrow> allocated_headers \<Rightarrow> 'u lws" where
  "client_wsi pr u ah = set_ah ah ((zero_lws pr u)\<lparr>sock := -1, state := WSI_STATE_CLIENT_UNCONNECTED, ietf_spec_revision := 13\<rparr>)"

lemma quiet_handled: "ext_quiet E \<Longrightarrow> snd (lws_any_extension_handled E r tok xs w) = w"
proof (induction xs)
  case (Cons x xs)
  have "snd (snd (ext_cb E x r tok w)) = w" using Cons(2) by (simp add: ext_quiet_def)
  then show ?case using Cons by (auto split: prod.splits)
qed simp

text \<open>Servicing a connection that has just been made issues its handshake.\<close>

lemma service_issues:
  assumes ok: "table_ok cx" "table_map cx k = Some p" "wsis cx p = Some s" "mode (s_wsi s) = LWS_CONNMODE_WS_CLIENT_ISSUE_HANDSHAKE"
    and cx: "listen_service_fd cx = 0" "last_timeout_check_s cx = io_now io"
  shows "libwebsocket_service_fd (Suc d) C E io (Some (Local \<lparr>pfd_fd = k, pfd_revents = r\<rparr>)) cx = issue_service C E io p cx"
proof -
  obtain n where k: "0 \<le> k" "k < max_fds cx" "lws_lookup cx ! nat k = Some p" using table_mapE[OF ok(1,2)] by metis
  have l: "rdi (lws_lookup cx) k = Some (Some p)" using k ok(1) by (simp add: rdi_def rd_def table_ok_def)
  have "service_conn svc C E io e p cx = issue_service C E io p cx" for svc e
    using ok(3,4) by (simp add: service_conn_def lws_client_socket_service_def)
  then show ?thesis using cx l by (simp add: check_timeouts_def pfd_at_def piggyback_def set_revents_def)
qed

lemma issue_service_result: "issue_service C E io p cx = Some (r, cx') \<Longrightarrow> r = 0"
  by (auto simp: issue_service_def split: Option.bind_splits if_splits)

lemma hdr_ah_set: "hdr_ah (u_hdr (set_ah ah w)) = Some ah" "sock (set_ah ah w) = sock w"
  by (simp_all add: set_ah_def upd_hdr_def)

lemma insert_fields:
  assumes "insert_wsi_socket_into_fds E p cx = Some (0, cx')" "wsis cx p = Some s"
  shows "\<exists>c. wsis cx' p = Some (s\<lparr>s_wsi := proto0_cb E LWS_CALLBACK_ADD_POLL_FD (sock (s_wsi s)) POLLIN
      ((s_wsi s)\<lparr>position_in_fds_table := c, pollin := True, pollout := False\<rparr>)\<rparr>)"
    "plain_client io cx' = plain_client io cx" "service_buffer cx' = service_buffer cx"
  using assms by (auto simp: insert_wsi_socket_into_fds_def upd_wsi_def upd_session_def plain_client_def split: if_splits Option.bind_splits)

lemma plain_fields [simp]: "plain_client io (tick cx) = plain_client io cx" "plain_client io (upd_session p f cx) = plain_client io cx"
  "plain_client io (upd_wsi p g cx) = plain_client io cx" "plain_client io (cx\<lparr>wsis := w\<rparr>) = plain_client io cx"
  by (simp_all add: plain_client_def tick_def upd_wsi_def upd_session_def)

text \<open>The way to the handshake: the new connection is in the table, and its handshake is issued.\<close>

definition issuing_wsi :: "int \<Rightarrow> int \<Rightarrow> 'u lws \<Rightarrow> 'u lws" where
  "issuing_wsi fd c w = w\<lparr>sock := fd, mode := LWS_CONNMODE_WS_CLIENT_ISSUE_HANDSHAKE, position_in_fds_table := c, pollin := True, pollout := False\<rparr>"

context serving
begin

lemma open_reaches:
  assumes nf: "\<not> faulty" and quiet: "poll_quiet E" and cx: "making faulty lim p cx" "wsis cx p = Some s" "plain_client io cx"
    and up: "\<forall>n. io_socket io n (socks cx) = Some fd" "\<forall>n. \<not> io_setsockopt io n"
  obtains cx' s' c where "open_socket E io p cx = Some (True, cx')" "in_order faulty lim cx'" "table_map cx' fd = Some p" "wsis cx' p = Some s'" "plain_client io cx'"
    "s_wsi s' = (s_wsi s)\<lparr>sock := fd, mode := LWS_CONNMODE_WS_CLIENT_WAITING_CONNECT, position_in_fds_table := c, pollin := True, pollout := False\<rparr>"
    "service_buffer cx' = service_buffer cx"
proof -
  let ?w = "\<lambda>wsi. wsi\<lparr>sock := fd, mode := LWS_CONNMODE_WS_CLIENT_WAITING_CONNECT\<rparr>" and ?T = "libwebsocket_set_timeout (io_now io) PENDING_TIMEOUT_AWAITING_CONNECT_RESPONSE AWAITING_TIMEOUT"
  let ?cx = "upd_wsi p ?w (tick (tick cx))"
  have "io_socket io 0 (socks cx) = Some fd" using up(1) by blast
  then have fd: "fd \<notin> set (socks cx)" "0 \<le> fd" "fd < lim" using kernel by (auto simp: system_ok_def)
  have m: "making faulty lim p ?cx" using cx(1) by (simp add: making_upd)
  have nd: "\<not> dangling ?cx" using m nf by (simp add: making_def in_order_def tracked_def)
  have s: "wsis ?cx p = Some (s\<lparr>s_wsi := ?w (s_wsi s)\<rparr>)" using cx(2) by simp
  have sk: "socks ?cx = socks cx" by (simp add: socks_def tick_def)
  have none: "table_map ?cx fd = None" using fd(1) sk by (simp add: table_map_def)
  then have room: "fds_count ?cx < max_fds ?cx" using table_room[OF making_table(1)[OF m nd] fd(2)] fd making_table(2)[OF m nd] by simp
  from none obtain cx1 where i: "insert_wsi_socket_into_fds E p ?cx = Some (0, cx1)"
    using insert_ok[OF making_table(1)[OF m nd] safe s _ fd(2) _ _ room] fd(3) making_table(2)[OF m nd] by auto
  have o: "in_order faulty lim cx1"
    using postD[OF insert_order[OF m safe s _ fd(2,3), of "\<lambda>(_, cx). in_order faulty lim cx"] i] fd(1) sk by simp
  obtain c where c: "wsis cx1 p = Some (s\<lparr>s_wsi := (?w (s_wsi s))\<lparr>position_in_fds_table := c, pollin := True, pollout := False\<rparr>\<rparr>)"
    using insert_fields(1)[OF i s] quiet by (auto simp: poll_quiet_def)
  have "open_socket E io p cx = Some (True, upd_session p ?T cx1)"
    using up i by (simp add: open_socket_def lws_set_socket_options_def)
  moreover have "in_order faulty lim (upd_session p ?T cx1)" using o by (simp add: in_order_session)
  moreover have s': "wsis (upd_session p ?T cx1) p = Some (?T (s\<lparr>s_wsi := (?w (s_wsi s))\<lparr>position_in_fds_table := c, pollin := True, pollout := False\<rparr>\<rparr>))"
    using c by (simp add: upd_session_def)
  moreover have "plain_client io (upd_session p ?T cx1)" "service_buffer (upd_session p ?T cx1) = service_buffer cx"
    using insert_fields(2,3)[OF i s] cx(3) by (simp_all add: upd_session_def)
  moreover have "table_map (upd_session p ?T cx1) fd = Some p" using tracked_conn[OF _ s'] calculation(2) nf by (simp add: in_order_def)
  ultimately show ?thesis by (intro that[OF _ _ _ s', where c = c]) simp_all
qed

lemma connect_reaches:
  assumes nf: "\<not> faulty" and quiet: "ext_quiet E" "poll_quiet E" and cx: "in_order faulty lim cx" "plain_client io cx" "network_up io cx p fd blk"
    and pr: "hs_protocols C = pr # prs"
    and ah: "stash lws_hdr_simple_create (connect_strings address path hostname origin prot) (new_table (blk\<lparr>c_port := of_int port\<rparr>)) = Some (0, ah)"
      "hdr_text ah WSI_TOKEN_CLIENT_PEER_ADDRESS \<noteq> None"
  obtains cx1 s1 c where "in_order faulty lim cx1" "table_map cx1 fd = Some p" "wsis cx1 p = Some s1" "s_wsi s1 = issuing_wsi fd c (client_wsi pr (io_null io) ah)"
    "libwebsocket_client_connect (Suc d) C E io address port path hostname origin prot (-1) cx = map_option (\<lambda>(_, cx). (Some p, cx)) (issue_service C E io p cx1)"
    "service_buffer cx1 = service_buffer cx"
proof -
  let ?w = "client_wsi pr (io_null io) ah"
  let ?s = "\<lparr>s_wsi = ?w, pending_timeout = NO_PENDING_TIMEOUT, pending_timeout_limit = 0, http_fd = 0, http_filepos = 0, http_filelen = 0\<rparr>"
  let ?cx = "(tick (tick cx))\<lparr>wsis := (wsis cx)(p \<mapsto> ?s)\<rparr>"
  define svc where "svc = libwebsocket_service_fd (Suc d) C E io"
  have p: "io_malloc io (sys_no cx) (\<lambda>p. wsis cx p \<noteq> None) = Some p" "wsis cx p = None" using cx(3) malloc_new[of "sys_no cx" "\<lambda>p. wsis cx p \<noteq> None" p] by (auto simp: network_up_def)
  have m: "making faulty lim p ?cx" using making_new[of faulty lim "tick (tick cx)" p ?s] cx(1) p(2) by simp
  have nh: "lws_any_extension_handled E LWS_EXT_CALLBACK_CAN_PROXY_CLIENT_CONNECTION tok xs w = (False, w)" for tok xs w
    using not_handled[of tok xs w] quiet_handled[OF quiet(1), of _ tok xs w] by (metis prod.collapse)
  have start: "libwebsocket_client_connect (Suc d) C E io address port path hostname origin prot (-1) cx =
      map_option (\<lambda>(there, cx). (if there then Some p else None, cx)) (libwebsocket_client_connect_2 svc C E io p ?cx)"
  proof -
    have "snd (lws_allocate_header_table (Some blk) w) = set_ah (new_table blk) w" for w :: "'u lws"
      by (simp add: lws_allocate_header_table_def new_table_def set_ah_def)
    moreover have "(new_table blk)\<lparr>c_port := x\<rparr> = new_table (blk\<lparr>c_port := x\<rparr>)" "set_ah b (set_ah a w) = set_ah b w" for x a b and w :: "'u lws"
      by (simp_all add: new_table_def set_ah_def upd_hdr_def)
    ultimately show ?thesis
      using p(1) cx(3) ah(1) by (simp add: libwebsocket_client_connect_def network_up_def pr nh hdr_ah_set client_wsi_def SPEC_LATEST_SUPPORTED_def
          map_conv_bind_option comp_def case_prod_unfold flip: svc_def)
  qed
  have up: "\<forall>n. io_socket io n (socks (tick ?cx)) = Some fd" "\<forall>n. \<not> io_setsockopt io n" "io_connect io n fd = Connected" "io_host io n name" for n name
    using cx(3) kernel by (simp_all add: network_up_def socks_def tick_def system_ok_def)
  obtain cx1 s1 c where o: "open_socket E io p (tick ?cx) = Some (True, cx1)" "in_order faulty lim cx1" "table_map cx1 fd = Some p" "wsis cx1 p = Some s1" "plain_client io cx1"
    "s_wsi s1 = ?w\<lparr>sock := fd, mode := LWS_CONNMODE_WS_CLIENT_WAITING_CONNECT, position_in_fds_table := c, pollin := True, pollout := False\<rparr>"
    "service_buffer cx1 = service_buffer (tick ?cx)"
    by (rule open_reaches[OF nf quiet(2), of p "tick ?cx" ?s fd]) (use m cx(2) up in simp_all)
  let ?f = "\<lambda>s. libwebsocket_set_timeout (io_now io) PENDING_TIMEOUT_SENT_CLIENT_HANDSHAKE AWAITING_TIMEOUT (s\<lparr>s_wsi := (s_wsi s)\<lparr>mode := LWS_CONNMODE_WS_CLIENT_ISSUE_HANDSHAKE\<rparr>\<rparr>)"
  let ?cx1 = "upd_session p ?f (tick cx1)"
  have s1: "wsis ?cx1 p = Some (?f s1)" using o(4) by (simp add: upd_session_def)
  have o1: "in_order faulty lim ?cx1" using o(2) by (simp add: in_order_session)
  have k: "sock (s_wsi (?f s1)) = fd" using o(6) by simp
  have t: "table_map ?cx1 fd = Some p" using tracked_conn[OF _ s1] o1 nf k by (simp add: in_order_def)
  have "plain_client io ?cx1" using o(5) by simp
  then have "svc (Some (Local \<lparr>pfd_fd = fd, pfd_revents = POLLIN\<rparr>)) ?cx1 = issue_service C E io p ?cx1"
    using o1 nf unfolding svc_def by (intro service_issues[OF _ t s1]) (simp_all add: in_order_def tracked_def plain_client_def)
  then have direct: "issue_directly svc C E io p (tick cx1) = map_option (\<lambda>(_, cx). (True, cx)) (issue_service C E io p ?cx1)"
    using o(4,6) issue_service_result[of C E io p ?cx1]
    by (cases "issue_service C E io p ?cx1") (auto simp: issue_directly_def)
  define cx0 where "cx0 = ?cx"
  obtain ads where ads: "hdr_text ah WSI_TOKEN_CLIENT_PEER_ADDRESS = Some ads" using ah(2) by auto
  have cx0: "cx0\<lparr>service_buffer := service_buffer cx0\<rparr> = cx0" "wsis cx0 p = Some ?s" "http_proxy_port cx0 = 0" "open_socket E io p (tick cx0) = Some (True, cx1)"
    using cx(2) o(1) by (simp_all add: cx0_def plain_client_def tick_def)
  have w: "hdr_ah (u_hdr ?w) = Some ah" "sock ?w < 0" by (simp_all add: client_wsi_def hdr_ah_set)
  have "http_proxy_port (tick cx1) = 0" "io_connect io n (sock (s_wsi s1)) = Connected" for n using o(5,6) up(3) by (simp_all add: plain_client_def tick_def)
  then have "libwebsocket_client_connect_2 svc C E io p cx0 = map_option (\<lambda>(_, cx). (True, cx)) (issue_service C E io p ?cx1)"
    using o(4) up(4) direct ads cx0 w by (simp add: libwebsocket_client_connect_2_def)
  then have all: "libwebsocket_client_connect (Suc d) C E io address port path hostname origin prot (-1) cx = map_option (\<lambda>(_, cx). (Some p, cx)) (issue_service C E io p ?cx1)"
    using start by (simp add: cx0_def option.map_comp comp_def case_prod_unfold)
  have "s_wsi (?f s1) = issuing_wsi fd c ?w" using o(6) by (simp add: issuing_wsi_def)
  moreover have "service_buffer ?cx1 = service_buffer cx" using o(7) by (simp add: upd_session_def tick_def)
  ultimately show ?thesis by (rule that[OF o1 t s1 _ all])
qed

end

section \<open>Properties\<close>

text \<open>What is known of user code, extensions and the system when a connection is made.\<close>

lemma connect_ready:
  assumes E: "slot_safe E" "ext_quiet E" "poll_quiet E" "no_takeover E" "\<forall>t n. length (os_random E t n) = n" and C: "slot_calm C" "no_extras C" "hs_protocols C = pr # prs"
    and io: "system_ok True (max_fds cx) io" "plain_client io cx" "network_up io cx p fd blk" "block_ok blk" and cx: "tracked cx"
    and req: "request_ok path hostname origin prot" "0 \<notin> set address" "length address \<le> 100"
  obtains cx1 s1 b wsi where "in_order False (max_fds cx) cx1" "table_map cx1 fd = Some p" "wsis cx1 p = Some s1"
    "libwebsocket_client_connect (Suc d) C E io address port path hostname origin prot (-1) cx = map_option (\<lambda>(_, cx). (Some p, cx)) (issue_service C E io p cx1)"
    "libwebsockets_generate_client_handshake C E (service_buffer cx1) (s_wsi s1) =
       Some ((b, length (request_text path hostname (b64_spec (os_random E 0 16)) origin prot)), wsi)"
    "take (length (request_text path hostname (b64_spec (os_random E 0 16)) origin prot)) b = request_text path hostname (b64_spec (os_random E 0 16)) origin prot"
    "wire wsi = []" "slot wsi = slot (s_wsi s1)" "mode wsi = LWS_CONNMODE_WS_CLIENT_ISSUE_HANDSHAKE" "state wsi = WSI_STATE_CLIENT_UNCONNECTED"
proof -
  have "system_ok False (max_fds cx) io" using io(1,3) unfolding system_ok_def network_up_def by blast
  then have sv: "serving E C io (max_fds cx) False" using host_intro[OF E(1) C(1)] E(4) by (simp add: serving_def serving_axioms_def)
  let ?blk = "blk\<lparr>c_port := of_int port\<rparr>"
  obtain ah mp where ah: "stash lws_hdr_simple_create (connect_strings address path hostname origin prot) (new_table ?blk) = Some (0, ah)"
      "client_holds 0 path hostname origin prot mp ah" "hdr_text ah WSI_TOKEN_CLIENT_PEER_ADDRESS = Some address"
    by (rule connect_stored[of ?blk path hostname origin prot address 0]) (use io(4) req in \<open>simp_all add: block_ok_def\<close>)
  obtain cx1 s1 c where c: "in_order False (max_fds cx) cx1" "table_map cx1 fd = Some p" "wsis cx1 p = Some s1" "s_wsi s1 = issuing_wsi fd c (client_wsi pr (io_null io) ah)"
    "libwebsocket_client_connect (Suc d) C E io address port path hostname origin prot (-1) cx = map_option (\<lambda>(_, cx). (Some p, cx)) (issue_service C E io p cx1)"
    "service_buffer cx1 = service_buffer cx"
    by (rule serving.connect_reaches[OF sv _ E(2,3) _ io(2,3) C(3) ah(1)]) (use cx ah(3) in \<open>simp_all add: in_order_def\<close>)
  let ?w = "s_wsi s1"
  have w: "hdr_ah (u_hdr ?w) = Some ah" "ietf_spec_revision ?w = 13" "sys_calls ?w = 0" "wire ?w = []" "mode ?w = LWS_CONNMODE_WS_CLIENT_ISSUE_HANDSHAKE"
    "state ?w = WSI_STATE_CLIENT_UNCONNECTED"
    using c(4) by (simp_all add: issuing_wsi_def client_wsi_def zero_lws_def set_ah_def upd_hdr_def)
  have sb: "length (service_buffer cx1) = LWS_MAX_SOCKET_IO_BUF" using io(2) c(6) by (simp add: plain_client_def)
  have key: "sent_key E ?w = b64_spec (os_random E 0 16)" using w(3) by (simp add: sent_key_def)
  let ?req = "request_text path hostname (b64_spec (os_random E 0 16)) origin prot"
  obtain b h where g: "libwebsockets_generate_client_handshake C E (service_buffer cx1) ?w = Some ((b, length ?req),
      set_ah (ah\<lparr>initial_handshake_hash_base64 := b64_spec (SHA1 (b64_spec (os_random E 0 16) @ ws_guid)) @ 0 # h\<rparr>) (?w\<lparr>sys_calls := sys_calls ?w + 1\<rparr>))"
    "take (length ?req) b = ?req"
    by (rule generate_ok[OF w(1) ah(2) w(2) req(1) E(5,2) C(2) sb, unfolded key])
  show ?thesis by (rule that[OF c(1-3,5) g]) (use w in \<open>simp_all add: set_ah_def upd_hdr_def slot_def\<close>)
qed

text \<open>
  C4. Connecting works from end to end: on a network that is up, \<open>libwebsocket_client_connect\<close> returns a new connection. It is in the poll table under its
  socket, waits for the server's answer under a timeout of five seconds, and exactly its upgrade request, with a random key, has been sent. The poll table
  stays in order. This holds for every address, path, host, origin and protocol that fit into the header table.
\<close>

theorem connect_sends_request:
  assumes "slot_safe E" "ext_quiet E" "poll_quiet E" "no_takeover E" "kernel_willing E" "slot_calm C" "no_extras C" "hs_protocols C = pr # prs"
    and "system_ok True (max_fds cx) io" "plain_client io cx" "network_up io cx p fd blk" "block_ok blk" "tracked cx"
    and "request_ok path hostname origin prot" "0 \<notin> set address" "length address \<le> 100"
  shows "\<exists>cx' s. libwebsocket_client_connect (Suc d) C E io address port path hostname origin prot (-1) cx = Some (Some p, cx') \<and>
    tracked cx' \<and> table_map cx' fd = Some p \<and> wsis cx' p = Some s \<and> mode (s_wsi s) = LWS_CONNMODE_WS_CLIENT_WAITING_SERVER_REPLY \<and>
    pending_timeout s = PENDING_TIMEOUT_AWAITING_SERVER_RESPONSE \<and> pending_timeout_limit s = io_now io + 5 \<and>
    wire (s_wsi s) = request_text path hostname (b64_spec (os_random E 0 16)) origin prot"
proof -
  let ?req = "request_text path hostname (b64_spec (os_random E 0 16)) origin prot"
  have r: "\<forall>t n. length (os_random E t n) = n" using assms(5) by (simp add: kernel_willing_def)
  obtain cx1 s1 b wsi where c: "in_order False (max_fds cx) cx1" "table_map cx1 fd = Some p" "wsis cx1 p = Some s1"
    "libwebsocket_client_connect (Suc d) C E io address port path hostname origin prot (-1) cx = map_option (\<lambda>(_, cx). (Some p, cx)) (issue_service C E io p cx1)"
    "libwebsockets_generate_client_handshake C E (service_buffer cx1) (s_wsi s1) = Some ((b, length ?req), wsi)" "take (length ?req) b = ?req"
    "wire wsi = []" "slot wsi = slot (s_wsi s1)"
    by (rule connect_ready[OF assms(1-4) r assms(6-16)])
  let ?w = "upd_hdr (\<lambda>hd. hd\<lparr>parser_state := WSI_TOKEN_NAME_PART, lextable_pos := 0\<rparr>)
      (wsi\<lparr>sys_calls := sys_calls wsi + 1, wire := ?req, mode := LWS_CONNMODE_WS_CLIENT_WAITING_SERVER_REPLY\<rparr>)"
  have "length ?req \<le> length b" using arg_cong[OF c(6), of length] by simp
  then have i: "issue_handshake C E (service_buffer cx1) (s_wsi s1) = Some (True, ?w)"
    using c(5-7) assms(5) by (simp add: issue_handshake_def kernel_willing_def)
  let ?f = "\<lambda>s. libwebsocket_set_timeout (io_now io) PENDING_TIMEOUT_AWAITING_SERVER_RESPONSE AWAITING_TIMEOUT (s\<lparr>s_wsi := ?w\<rparr>)"
  have same: "same_table cx1 (upd_session p ?f cx1)" using c(3,8) by (intro same_upd_session) simp
  have "issue_service C E io p cx1 = Some (0, upd_session p ?f cx1)" using c(3) i by (simp add: issue_service_def)
  moreover have "tracked (upd_session p ?f cx1)" "table_map (upd_session p ?f cx1) fd = Some p"
    using c(1,2) in_order_same[OF same] same_tableD(2)[OF same] by (auto simp: in_order_def)
  ultimately show ?thesis
    using c(3,4) by (simp add: upd_session_def libwebsocket_set_timeout_def AWAITING_TIMEOUT_def upd_hdr_def)
qed

lemma sample_up: "network_up (sample_io 8 Connected) (empty_context 8 Map.empty) 0 3 sample_block" "plain_client (sample_io 8 con) (empty_context 8 Map.empty)"
  "fds_count (empty_context 8 Map.empty) = 0" "max_fds (empty_context 8 m) = 8"
  by (simp_all add: network_up_def plain_client_def sample_io_def empty_context_def socks_def fresh_fd_def upto.simps upt_rec[of 0])

lemma sample_strings: "request_ok (bytes ''/play'') (bytes ''srv'') (Some (bytes ''origin'')) None" "0 \<notin> set (bytes ''srv'')" "length (bytes ''srv'') \<le> 100"
  using hs_client_ok(6) by simp_all

theorem connect_sends_request_witness:
  "\<exists>cx' s. libwebsocket_client_connect 1 hs_sample hs_env (sample_io 8 Connected) (bytes ''srv'') 80 (bytes ''/play'') (bytes ''srv'') (Some (bytes ''origin'')) None (-1)
     (empty_context 8 Map.empty) = Some (Some 0, cx') \<and> tracked cx' \<and> table_map cx' 3 = Some 0 \<and> wsis cx' 0 = Some s \<and> pending_timeout_limit s = 5 \<and>
     wire (s_wsi s) = request_text (bytes ''/play'') (bytes ''srv'') (b64_spec (replicate 16 0x11)) (Some (bytes ''origin'')) None"
proof -
  have E: "poll_quiet hs_env" "os_random hs_env 0 16 = replicate 16 0x11" "hs_protocols hs_sample = [sample_protocol]" "io_now (sample_io 8 Connected) = 0"
    by (simp_all add: poll_quiet_def hs_env_def log_env_def hs_sample_def sample_io_def)
  show ?thesis
    using connect_sends_request[OF hs_env_slots hs_more_ok(1) E(1) hs_direct hs_env_ok(1) hs_calm hs_more_ok(2) E(3) _ sample_up(2,1) hs_client_ok(4) empty_tracked sample_strings,
        of 0 80] sample_kernel[of True 8 Connected]
    by (auto simp: sample_up(4) E(2,4))
qed

text \<open>
  C26. When sending the request fails, the service routine closes and frees the connection but reports success: \<open>libwebsocket_client_connect\<close> returns the
  pointer to the connection that has been freed, where the documentation promises NULL.
\<close>

theorem connect_returns_freed:
  assumes "slot_safe E" "ext_quiet E" "poll_quiet E" "no_takeover E" "\<forall>t n. length (os_random E t n) = n" "slot_calm C" "no_extras C" "hs_protocols C = pr # prs"
    and "system_ok True (max_fds cx) io" "plain_client io cx" "network_up io cx p fd blk" "block_ok blk" "tracked cx"
    and "request_ok path hostname origin prot" "0 \<notin> set address" "length address \<le> 100" "\<forall>t bs. os_send E t bs < 0"
  shows "\<exists>cx'. libwebsocket_client_connect (Suc d) C E io address port path hostname origin prot (-1) cx = Some (Some p, cx') \<and>
    wsis cx' p = None \<and> table_map cx' fd = None"
proof -
  let ?req = "request_text path hostname (b64_spec (os_random E 0 16)) origin prot"
  obtain cx1 s1 b wsi where c: "in_order False (max_fds cx) cx1" "table_map cx1 fd = Some p" "wsis cx1 p = Some s1"
    "libwebsocket_client_connect (Suc d) C E io address port path hostname origin prot (-1) cx = map_option (\<lambda>(_, cx). (Some p, cx)) (issue_service C E io p cx1)"
    "libwebsockets_generate_client_handshake C E (service_buffer cx1) (s_wsi s1) = Some ((b, length ?req), wsi)"
    "slot wsi = slot (s_wsi s1)" "mode wsi = LWS_CONNMODE_WS_CLIENT_ISSUE_HANDSHAKE" "state wsi = WSI_STATE_CLIENT_UNCONNECTED"
    by (rule connect_ready[OF assms(1-16)])
  let ?w = "wsi\<lparr>sys_calls := sys_calls wsi + 1\<rparr>"
  have i: "issue_handshake C E (service_buffer cx1) (s_wsi s1) = Some (False, ?w)" using c(5) assms(17) by (simp add: issue_handshake_def)
  let ?g = "\<lambda>wsi. upd_hdr (\<lambda>hd. hd\<lparr>hdr_ah := None\<rparr>) (proto0_cb E LWS_CALLBACK_CLIENT_CONNECTION_ERROR 0 0 wsi)"
  let ?cx = "upd_wsi p ?g (upd_wsi p (upd_ws (\<lambda>w. w\<lparr>close_reason := LWS_CLOSE_STATUS_NOSTATUS\<rparr>)) (upd_wsi p (\<lambda>_. ?w) cx1))"
  have h: "handshaking_host E C" using host_intro[OF assms(1,6)] .
  then have q: "slot (proto0_cb E r k n w) = slot w" for r k n w using slot_safeD(1)[OF assms(1)] by simp
  have same: "same_table cx1 ?cx"
    by (intro same_table_trans[OF same_upd_wsi same_table_trans[OF same_upd_wsi same_upd_wsi]]) (use c(3,6) q in simp_all)
  obtain cx' where k: "just_kill_connection C E WSI_STATE_CLIENT_UNCONNECTED p ?cx = Some cx'" "table_map cx' = (table_map ?cx)(fd := None)" "wsis cx' p = None"
    by (rule handshaking_host.kill_ok[OF h, of ?cx fd p WSI_STATE_CLIENT_UNCONNECTED]) (use c(1,2) same_tableD[OF same] in \<open>simp_all add: in_order_def tracked_def\<close>)
  have "libwebsocket_close_and_free_session C E (io_now io) (Some p) LWS_CLOSE_STATUS_NOSTATUS (upd_wsi p (\<lambda>_. ?w) cx1) = Some cx'"
    using c(3,7,8) k(1) by (simp add: libwebsocket_close_and_free_session_def)
  then have "issue_service C E io p cx1 = Some (0, cx')" using c(3) i by (simp add: issue_service_def)
  then show ?thesis using c(4) k(2,3) by simp
qed

definition cut_off :: "byte list list env" where
  "cut_off = hs_env\<lparr>os_send := \<lambda>t bs. -1\<rparr>"

theorem connect_returns_freed_witness:
  "\<exists>cx'. libwebsocket_client_connect 1 hs_sample cut_off (sample_io 8 Connected) (bytes ''srv'') 80 (bytes ''/play'') (bytes ''srv'') (Some (bytes ''origin'')) None (-1)
     (empty_context 8 Map.empty) = Some (Some 0, cx') \<and> wsis cx' 0 = None"
proof -
  have E: "slot_safe cut_off" "ext_quiet cut_off" "poll_quiet cut_off" "no_takeover cut_off" "\<forall>t n. length (os_random cut_off t n) = n" "\<forall>t bs. os_send cut_off t bs < 0"
    "hs_protocols hs_sample = [sample_protocol]"
    using hs_env_slots hs_more_ok(1) hs_direct hs_env_ok(1)
    by (simp_all add: cut_off_def slot_safe_def ext_quiet_def no_takeover_def kernel_willing_def poll_quiet_def hs_env_def log_env_def hs_sample_def)
  show ?thesis
    using connect_returns_freed[OF E(1-5) hs_calm hs_more_ok(2) E(7) _ sample_up(2,1) hs_client_ok(4) empty_tracked sample_strings E(6), of 0 80] sample_kernel[of True 8 Connected]
    by (auto simp: sample_up(4))
qed

end
