(* ===== verification/Service_Depth.thy ===== *)
theory Service_Depth
  imports Connect
begin

text \<open>
  How deep \<open>libwebsocket_service_fd\<close> calls itself: without a listening socket the only nested call issues the handshake of a connection that has just been made, and
  makes no further call. So the depth 2 that the model of the client uses is never exhausted, and a larger one makes no difference.
\<close>

section \<open>The pass over the timeouts leaves the clock and the listening socket alone\<close>

lemma timeout_check_clock: "(\<And>r cx'. clock cx' = clock cx \<Longrightarrow> Q (r, cx')) \<Longrightarrow> post Q (libwebsocket_service_timeout_check C E now p sec cx)"
  by (auto simp: libwebsocket_service_timeout_check_def intro!: post_conn close_clock)

lemma timeouts_clock: "timeout_loop C E now our_fd n t cx = Some (r, cx') \<Longrightarrow> clock cx' = clock cx"
proof -
  assume run: "timeout_loop C E now our_fd n t cx = Some (r, cx')"
  have "clock (snd (r, cx')) = clock cx"
  proof (rule timeout_loop.raw_induct[where P = "\<lambda>D F now our_fd n t cx y. clock (snd y) = clock cx", OF _ run], goal_cases)
    case (1 f D F now our_fd n t cx y)
    have IH: "post Q (f D F now our_fd n t cx1)" if "\<And>y. clock (snd y) = clock cx1 \<Longrightarrow> Q y" for n t cx1 Q using 1(1) that by (auto simp: post_def)
    show ?case
      by (rule postD[OF _ 1(2)]) (auto intro!: timeout_check_clock IH postI[of "rdi a b" for a b] split: option.splits)
  qed
  then show ?thesis by simp
qed

lemma check_timeouts_clock: "check_timeouts C E io ptr cx = Some (r, cx') \<Longrightarrow> clock cx' = (io_now io, listen_service_fd cx, dangling cx)"
  by (auto simp: check_timeouts_def clock_def dest!: timeouts_clock split: if_splits Option.bind_splits option.splits bool.splits)
    (auto simp: set_revents_def split: pollptr.splits)

section \<open>The depth\<close>

context serving
begin

lemma directly_depth:
  assumes "in_order faulty lim cx" "clock cx = (io_now io, 0, False)"
  shows "issue_directly (libwebsocket_service_fd (Suc d) C E io) C E io p cx = issue_directly (libwebsocket_service_fd (Suc 0) C E io) C E io p cx"
proof (cases "wsis cx p")
  case (Some s)
  let ?f = "\<lambda>s. libwebsocket_set_timeout (io_now io) PENDING_TIMEOUT_SENT_CLIENT_HANDSHAKE AWAITING_TIMEOUT (s\<lparr>s_wsi := (s_wsi s)\<lparr>mode := LWS_CONNMODE_WS_CLIENT_ISSUE_HANDSHAKE\<rparr>\<rparr>)"
  let ?cx = "upd_session p ?f cx"
  have o: "in_order faulty lim ?cx" using assms(1) by (simp add: in_order_session)
  have s: "wsis ?cx p = Some (?f s)" using Some by (simp add: upd_session_def)
  have t: "table_map ?cx (sock (s_wsi s)) = Some p" using tracked_conn[OF _ s] o assms(2) by (simp add: in_order_def clock_def upd_session_def)
  have c: "listen_service_fd ?cx = 0" "last_timeout_check_s ?cx = io_now io" using assms(2) by (simp_all add: clock_def upd_session_def)
  have "libwebsocket_service_fd (Suc k) C E io (Some (Local \<lparr>pfd_fd = sock (s_wsi s), pfd_revents = POLLIN\<rparr>)) ?cx = issue_service C E io p ?cx" for k
    using o assms(2) by (intro service_issues[OF _ t s _ c]) (auto simp: in_order_def tracked_def clock_def upd_session_def)
  then show ?thesis using Some by (simp only: issue_directly_def bind.simps)
qed (simp add: issue_directly_def)

lemma connect_2_depth:
  assumes "in_order faulty lim cx" "clock cx = (io_now io, 0, False)"
  shows "libwebsocket_client_connect_2 (libwebsocket_service_fd (Suc d) C E io) C E io p cx = libwebsocket_client_connect_2 (libwebsocket_service_fd (Suc 0) C E io) C E io p cx"
proof (cases "wsis cx p")
  case (Some s)
  have "\<not> sock (s_wsi s) < 0" using tracked_sock[OF _ Some] assms by (auto simp: in_order_def clock_def)
  moreover have "issue_directly (libwebsocket_service_fd (Suc d) C E io) C E io p (tick (tick (cx\<lparr>service_buffer := sb\<rparr>))) =
      issue_directly (libwebsocket_service_fd (Suc 0) C E io) C E io p (tick (tick (cx\<lparr>service_buffer := sb\<rparr>)))" for sb
    using assms by (intro directly_depth) simp_all
  ultimately show ?thesis using Some unfolding libwebsocket_client_connect_2_def
    by (simp del: libwebsocket_service_fd.simps cong: if_cong connect_result.case_cong)
qed (simp add: libwebsocket_client_connect_2_def)

lemma conn_depth:
  assumes "in_order faulty lim cx" "clock cx = (io_now io, 0, False)"
  shows "service_conn (libwebsocket_service_fd (Suc d) C E io) C E io e p cx = service_conn (libwebsocket_service_fd (Suc 0) C E io) C E io e p cx"
  unfolding service_conn_def lws_client_socket_service_def connect_2_depth[OF assms, of d] ..

lemma fd_depth:
  assumes "in_order faulty lim cx" "listen_service_fd cx = 0" "\<not> dangling cx"
  shows "libwebsocket_service_fd (Suc (Suc d)) C E io ptr cx = libwebsocket_service_fd (Suc (Suc 0)) C E io ptr cx"
proof (cases "check_timeouts C E io ptr cx")
  case None
  then show ?thesis using assms(2) by (simp only: libwebsocket_service_fd.simps bind.simps if_True)
next
  case (Some y)
  obtain t cx1 where y: "y = (t, cx1)" by force
  have o: "in_order faulty lim cx1" using postD[OF check_timeouts_order[OF assms(1), of "\<lambda>(_, cx). in_order faulty lim cx"] Some] y by simp
  have c: "clock cx1 = (io_now io, 0, False)" using check_timeouts_clock[OF Some[unfolded y]] assms(2,3) by simp
  then have "piggyback svc io q idx cx1 = Some cx1" for svc q idx by (simp add: piggyback_def clock_def)
  then show ?thesis using assms(2) Some y conn_depth[OF o c, of d] by (simp only: libwebsocket_service_fd.simps bind.simps if_True prod.case)
qed

end

text \<open>Depth 2 is enough for a context without a listening socket.\<close>

lemma depth_enough:
  assumes "slot_safe E" "slot_calm C" "no_takeover E" "system_ok faulty (max_fds cx) io" "tracked cx" "listen_service_fd cx = 0"
  shows "libwebsocket_service_fd (Suc (Suc d)) C E io ptr cx = libwebsocket_service_fd 2 C E io ptr cx"
proof -
  have "serving E C io (max_fds cx) faulty" using host_intro[OF assms(1,2)] assms(3,4) by (simp add: serving_def serving_axioms_def)
  from serving.fd_depth[OF this, of cx d ptr] assms(5,6) show ?thesis by (simp add: in_order_def tracked_def numeral_2_eq_2 del: libwebsocket_service_fd.simps)
qed

end
