(* ===== verification/Http_File.thy ===== *)
theory Http_File
  imports Api
begin

text \<open>
  Files over HTTP: \<open>libwebsockets_serve_http_file\<close> and its loop, \<^verbatim>\<open>lib/output.c\<close>, send the header and the file, whole and in order; a file that has become shorter
  keeps the loop going for ever.
\<close>

text \<open>User code that is told of the end of a file, and of changes of the events, sends nothing.\<close>

definition silent :: "'u env \<Rightarrow> bool" where
  "silent E \<longleftrightarrow> (\<forall>r bs w. wire (snd (user_cb E r bs w)) = wire w) \<and> (\<forall>r k n w. wire (proto0_cb E r k n w) = wire w) \<and>
     (\<forall>x r tok w. wire (snd (snd (ext_cb E x r tok w))) = wire w)"

lemma silent_ext: "silent E \<Longrightarrow> wire (snd (snd (ext_each E r xs tok w))) = wire w"
proof (induction xs arbitrary: tok w)
  case (Cons x xs)
  obtain k tok' w' where e: "ext_cb E x r tok w = (k, tok', w')" by (metis prod_cases3)
  then have "wire w' = wire w" using Cons(2) unfolding silent_def by (metis snd_conv)
  then show ?case using Cons e by (simp split: prod.splits) (metis snd_conv)
qed simp

lemma silent_writable: "silent E \<Longrightarrow> wire (snd (libwebsocket_callback_on_writable E w)) = wire w"
  using silent_ext[of E LWS_EXT_CALLBACK_REQUEST_ON_WRITEABLE "active_extensions w" no_tokens w]
  by (auto simp: libwebsocket_callback_on_writable_def silent_def split: prod.splits)

lemma silent_rxflow:
  assumes "silent E"
  shows "wire (snd (user_callback_handle_rxflow E r bs w)) = wire w"
proof -
  have "wire (snd (rx_flow_control_internal E w)) = wire w" for w
    using assms silent_writable[OF assms, of w] by (simp add: rx_flow_control_internal_def Let_def upd_ws_def silent_def)
  moreover obtain n w' where u: "user_cb E r bs w = (n, w')" by force
  moreover have "wire w' = wire w" using assms u unfolding silent_def by (metis snd_conv)
  ultimately show ?thesis by (simp add: user_callback_handle_rxflow_def)
qed

text \<open>Nothing waits to be sent, and no extension is active.\<close>

definition idle :: "'u lws \<Rightarrow> bool" where
  "idle w \<longleftrightarrow> active_extensions w = [] \<and> truncated_send_malloc (u_ws w) = None"

lemma size_t_inj: "a < 2 ^ 64 \<Longrightarrow> b < 2 ^ 64 \<Longrightarrow> (of_nat a :: size_t) = of_nat b \<longleftrightarrow> a = b"
  by (simp add: word_of_nat_eq_iff take_bit_nat_eq_self)

lemma write_piece:
  assumes "\<forall>t bs. os_send E t bs = int (length bs)" "idle w" "length bs < 2 ^ 31"
  shows "\<exists>w'. (if bs = [] then Some (0, w) else do { (m, wsi, _) \<leftarrow> libwebsocket_write E w bs 0 (length bs) LWS_WRITE_HTTP; Some (m, wsi) }) =
      Some (int (length bs), w') \<and> wire w' = wire w @ bs \<and> idle w'"
proof (cases "bs = []")
  case False
  then have "libwebsocket_write E w bs 0 (length bs) LWS_WRITE_HTTP = Some (int (length bs), w\<lparr>sys_calls := sys_calls w + 1, wire := wire w @ bs\<rparr>, bs)"
    using write_http[of w "length bs" 0 bs E] assms by (simp add: idle_def)
  then show ?thesis using False assms(2) by (simp add: idle_def)
qed (use assms(2) in simp)

lemma file_step:
  assumes "lws_send_pipe_choked E (s_wsi s) = (False, v)" "io_read io (http_fd s) (unat (http_filepos s)) = Some bs"
    "(if bs = [] then Some (0, v) else do { (m, wsi, _) \<leftarrow> libwebsocket_write E v bs 0 (length bs) LWS_WRITE_HTTP; Some (m, wsi) }) = Some (int n, w)"
    "http_filepos s + of_nat n = pos"
  shows "file_loop E io s = (if pos = http_filelen s
      then Some (1, s\<lparr>http_filepos := pos, s_wsi := (if has_callback (protocol w)
        then snd (user_callback_handle_rxflow E LWS_CALLBACK_HTTP_FILE_COMPLETION [] (w\<lparr>state := WSI_STATE_HTTP\<rparr>)) else w\<lparr>state := WSI_STATE_HTTP\<rparr>)\<rparr>)
      else file_loop E io (s\<lparr>s_wsi := w, http_filepos := pos\<rparr>))"
  by (subst file_loop.simps) (simp add: assms(1,2,4) assms(3)[unfolded bind_assoc] Let_def)

lemma file_loop_sends:
  assumes E: "\<forall>t bs. os_send E t bs = int (length bs)" "\<forall>t. \<not> os_pipe_choked E t" "silent E"
    and io: "\<forall>pos. io_read io (http_fd s) pos = Some (take 4096 (drop pos content))"
    and s: "idle (s_wsi s)" "http_filelen s = of_nat (length content)" "http_filepos s = of_nat off" "off \<le> length content" and len: "length content < 2 ^ 64"
  shows "\<exists>s'. file_loop E io s = Some (1, s') \<and> wire (s_wsi s') = wire (s_wsi s) @ drop off content \<and> http_fd s' = http_fd s"
  using io s
proof (induction "length content - off" arbitrary: off s rule: less_induct)
  case less
  let ?w = "(s_wsi s)\<lparr>sys_calls := sys_calls (s_wsi s) + 1\<rparr>" and ?bs = "take 4096 (drop off content)"
  have pos: "unat (http_filepos s) = off" using less(5,6) len by (simp add: unsigned_of_nat take_bit_nat_eq_self)
  have choke: "lws_send_pipe_choked E (s_wsi s) = (False, ?w)" using E(2) by (simp add: lws_send_pipe_choked_def)
  have "length ?bs < 2 ^ 31" by (simp add: min_less_iff_disj)
  then obtain w where w: "(if ?bs = [] then Some (0, ?w) else do { (m, wsi, _) \<leftarrow> libwebsocket_write E ?w ?bs 0 (length ?bs) LWS_WRITE_HTTP; Some (m, wsi) }) =
      Some (int (length ?bs), w)" "wire w = wire (s_wsi s) @ ?bs" "idle w"
    using write_piece[OF E(1), of ?w ?bs] less(3) by (auto simp: idle_def)
  let ?s = "s\<lparr>s_wsi := w, http_filepos := of_nat (off + length ?bs)\<rparr>"
  have step: "file_loop E io s = (if off + length ?bs = length content
      then Some (1, s\<lparr>http_filepos := of_nat (off + length ?bs), s_wsi := (if has_callback (protocol w)
               then snd (user_callback_handle_rxflow E LWS_CALLBACK_HTTP_FILE_COMPLETION [] (w\<lparr>state := WSI_STATE_HTTP\<rparr>)) else w\<lparr>state := WSI_STATE_HTTP\<rparr>)\<rparr>)
      else file_loop E io ?s)"
  proof -
    have "off + length ?bs \<le> length content" using less(6) by simp
    then have e: "(of_nat (off + length ?bs) :: size_t) = of_nat (length content) \<longleftrightarrow> off + length ?bs = length content"
      using len by (intro size_t_inj) linarith+
    have "http_filepos s + of_nat (length ?bs) = of_nat (off + length ?bs)" using less(5) by simp
    then show ?thesis using file_step[OF choke _ w(1)] less(2,4) pos e by simp
  qed
  show ?case
  proof (cases "off + length ?bs = length content")
    case True
    then have "?bs = drop off content" using less(6) by simp
    then show ?thesis using step True w(2) silent_rxflow[OF E(3)] by simp
  next
    case False
    then have l: "length ?bs = 4096" "off + 4096 \<le> length content" using less(6) by auto
    then have m: "length content - (off + 4096) < length content - off" by linarith
    from l obtain s' where "file_loop E io ?s = Some (1, s')" "wire (s_wsi s') = wire w @ drop (off + 4096) content" "http_fd s' = http_fd s"
      using less(1)[OF m, of ?s] less(2,4) w(3) by auto
    moreover have "?bs @ drop (off + 4096) content = drop off content" by (metis add.commute append_take_drop_id drop_drop)
    ultimately show ?thesis using step False w(2) by simp
  qed
qed

section \<open>Properties\<close>

text \<open>
  C12. Serving a file over HTTP works: when the socket takes what it is given, the client receives the header, with the type and the length of the file as the
  code prints it (an \<open>unsigned int\<close>: modulo $2^{32}$, so that it is the true length only below 4 GiB), and then the
  whole file in order, and the result says that it is complete. This holds for every file of less than $2^{64}$ bytes, also an empty one, and every header that
  fits into the service buffer, whose size fits an \<open>int\<close>.
\<close>

theorem file_served:
  assumes "\<forall>t bs. os_send E t bs = int (length bs)" "\<forall>t. \<not> os_pipe_choked E t" "silent E" "idle (s_wsi s)" "0 < fd"
    and "\<forall>pos. io_read io fd pos = Some (take 4096 (drop pos content))" "length content < 2 ^ 64"
    and "length (http_200 content_type (of_nat (length content))) < length sb" "length sb \<le> 2 ^ 31"
  shows "\<exists>s'. libwebsockets_serve_http_file E io sb (fd, of_nat (length content)) content_type s = Some (1, s') \<and>
    wire (s_wsi s') = wire (s_wsi s) @ http_200 content_type (of_nat (length content)) @ content \<and> http_fd s' = fd"
proof -
  let ?h = "http_200 content_type (of_nat (length content))" and ?w = "s_wsi s"
  have len: "(ucast (of_nat (length content) :: size_t) :: u32) = of_nat (length content)" by (simp add: unsigned_of_nat word_of_nat_eq_iff)
  let ?b = "?h @ 0 # drop (length ?h + 1) sb"
  have c: "cpyapp ?h (sb, 0) = Some (?b, length ?h)" using cpyapp_room[of 0 ?h sb] assms(8) by simp
  let ?w1 = "?w\<lparr>sys_calls := sys_calls ?w + 1, wire := wire ?w @ ?h\<rparr>"
  have "0 < length ?h" by (simp add: http_200_def)
  then have wr: "libwebsocket_write E ?w ?b 0 (length ?h) LWS_WRITE_HTTP = Some (int (length ?h), ?w1, ?b)"
    using write_http[of ?w "length ?h" 0 ?b E] assms(1,4,8,9) by (simp add: idle_def)
  let ?s = "s\<lparr>http_fd := fd, http_filelen := of_nat (length content), s_wsi := ?w1\<lparr>state := WSI_STATE_HTTP_ISSUING_FILE\<rparr>, http_filepos := 0\<rparr>"
  have "libwebsockets_serve_http_file E io sb (fd, of_nat (length content)) content_type s = file_loop E io ?s"
    using assms(5) c wr len by (simp add: libwebsockets_serve_http_file_def)
  moreover obtain s' where "file_loop E io ?s = Some (1, s')" "wire (s_wsi s') = wire (s_wsi ?s) @ drop 0 content" "http_fd s' = http_fd ?s"
    using file_loop_sends[OF assms(1-3), of io ?s content 0] assms(4,6,7) by (auto simp: idle_def)
  ultimately show ?thesis by simp
qed

definition file_io :: "byte list \<Rightarrow> byte list list io" where
  "file_io content = (sample_io 8 Connected)\<lparr>io_read := \<lambda>fd pos. Some (take 4096 (drop pos content))\<rparr>"

lemma file_sample: "\<forall>t bs. os_send hs_env t bs = int (length bs)" "\<forall>t. \<not> os_pipe_choked hs_env t" "silent hs_env" "idle (s_wsi (sample_session 3))"
  "\<forall>pos. io_read (file_io content) fd pos = Some (take 4096 (drop pos content))" "wire (s_wsi (sample_session 3)) = []" "http_filepos (sample_session 3) = 0"
  by (simp_all add: hs_env_def log_env_def silent_def idle_def file_io_def sample_session_def zero_lws_def zero_ws_def)

theorem file_served_witness:
  "\<exists>s'. libwebsockets_serve_http_file hs_env (file_io (bytes ''hello'')) (replicate 200 0) (7, 5) (bytes ''text/html'') (sample_session 3) = Some (1, s') \<and>
     wire (s_wsi s') = bytes ''HTTP/1.0 200 OK'' @ crlf @ bytes ''Server: libwebsockets'' @ crlf @ bytes ''Content-Type: text/html'' @ crlf @
       bytes ''Content-Length: 5'' @ crlf @ crlf @ bytes ''hello''"
  using file_served[OF file_sample(1-4) _ file_sample(5), of 7 "bytes ''hello''" "bytes ''text/html''" "replicate 200 0"]
  by (auto simp: http_200_def c_digits.simps file_sample(6))

text \<open>
  A file that is shorter than it was when its length was taken is never finished: \<open>read\<close> returns nothing, the position does not move, and as long as the
  socket can take more the loop of \<open>libwebsockets_serve_http_file_fragment\<close> does not end.
\<close>

theorem shrunk_file_hangs:
  assumes "\<forall>t. \<not> os_pipe_choked E t" "io_read io (http_fd s) (unat (http_filepos s)) = Some []" "http_filepos s \<noteq> http_filelen s"
  shows "file_loop E io s = None"
proof (rule ccontr)
  assume "file_loop E io s \<noteq> None"
  then obtain y where run: "file_loop E io s = Some y" by auto
  have "\<not> ((\<forall>t. \<not> os_pipe_choked E t) \<and> io_read io (http_fd s) (unat (http_filepos s)) = Some [] \<and> http_filepos s \<noteq> http_filelen s)"
  proof (rule file_loop.raw_induct[where P = "\<lambda>E io s y. \<not> ((\<forall>t. \<not> os_pipe_choked E t) \<and> io_read io (http_fd s) (unat (http_filepos s)) = Some [] \<and>
      http_filepos s \<noteq> http_filelen s)", OF _ run], goal_cases)
    case (1 f E io s y)
    show ?case
    proof
      assume h: "(\<forall>t. \<not> os_pipe_choked E t) \<and> io_read io (http_fd s) (unat (http_filepos s)) = Some [] \<and> http_filepos s \<noteq> http_filelen s"
      then have "f E io (s\<lparr>s_wsi := (s_wsi s)\<lparr>sys_calls := sys_calls (s_wsi s) + 1\<rparr>\<rparr>) = Some y"
        using 1(2) by (simp add: lws_send_pipe_choked_def Let_def)
      from 1(1)[OF this] h show False by simp
    qed
  qed
  then show False using assms by blast
qed

theorem shrunk_file_hangs_witness:
  "file_loop hs_env (file_io []) ((sample_session 3)\<lparr>http_filelen := 5\<rparr>) = None"
  by (rule shrunk_file_hangs) (simp_all add: file_sample)

end
