(* ===== verification/Ws_Run.thy ===== *)
theory Ws_Run
  imports Api
begin

text \<open>
  \<open>WsThread::run\<close> of \<^verbatim>\<open>neof5/WsThread.cpp\<close>: the loop of the client around \<open>libwebsocket_service\<close>, which connects once, on its first turn. The flags
  \<open>was_closed\<close> (set by the callback) and \<open>force_exit\<close> (set by a signal) are read before every turn; \<open>io n\<close> and \<open>stop n\<close> are what the system and they say in turn \<open>n\<close>.
\<close>

partial_function (option) run_loop :: "'u hs_context \<Rightarrow> 'u env \<Rightarrow> (nat \<Rightarrow> 'u io) \<Rightarrow> (nat \<Rightarrow> bool) \<Rightarrow> byte list \<Rightarrow> int \<Rightarrow> byte list \<Rightarrow> nat \<Rightarrow> nat option \<Rightarrow>
    'u lws_context \<Rightarrow> (int \<times> nat option \<times> 'u lws_context) option" where
  "run_loop C E io stop hostname port path n mSocket cx = (if stop n then Some (0, mSocket, cx)
     else do { (r, cx) \<leftarrow> libwebsocket_service 2 C E (io n) cx;
       if r < 0 then Some (0, mSocket, cx)
       else if mSocket \<noteq> None then run_loop C E io stop hostname port path (n + 1) mSocket cx
       else do { (mSocket, cx) \<leftarrow> libwebsocket_client_connect 2 C E (io n) hostname port path hostname (Some (bytes ''origin'')) None (-1) cx;
         if mSocket = None then Some (-1, mSocket, cx) else run_loop C E io stop hostname port path (n + 1) mSocket cx } })"

declare run_loop.simps [code]

text \<open>The context is created without a listening socket; then the loop runs.\<close>

definition run :: "'u hs_context \<Rightarrow> 'u env \<Rightarrow> (nat \<Rightarrow> 'u io) \<Rightarrow> (nat \<Rightarrow> bool) \<Rightarrow> 'u lws_context option \<Rightarrow> byte list \<Rightarrow> int \<Rightarrow> byte list \<Rightarrow>
    (int \<times> nat option \<times> 'u lws_context option) option" where
  "run C E io stop mContext hostname port path = (case mContext of None \<Rightarrow> Some (1, None, None)
     | Some cx \<Rightarrow> map_option (\<lambda>(ret, mSocket, cx). (ret, mSocket, Some cx)) (run_loop C E io stop hostname port path 0 None cx))"

text \<open>Every turn is a sequence of calls into the library.\<close>

lemma run_loop_steps:
  assumes "run_loop C E io stop hostname port path n mSocket cx = Some (ret, mSocket', cx')" "\<forall>n. system_ok faulty lim (io n)"
  shows "(api_step C E faulty lim)\<^sup>*\<^sup>* cx cx'"
proof -
  have "(\<forall>n. system_ok faulty lim (io n)) \<longrightarrow> (api_step C E faulty lim)\<^sup>*\<^sup>* cx (snd (snd (ret, mSocket', cx')))"
  proof (rule run_loop.raw_induct[where P = "\<lambda>C E io stop hostname port path n mSocket cx y. (\<forall>n. system_ok faulty lim (io n)) \<longrightarrow> (api_step C E faulty lim)\<^sup>*\<^sup>* cx (snd (snd y))",
      OF _ assms(1)], goal_cases)
    case (1 f C E io stop hostname port path n mSocket cx y)
    show ?case
    proof
      assume sys: "\<forall>n. system_ok faulty lim (io n)"
      note serve = api_step.service[OF spec[OF sys, of n], of 2 C E] and conn = api_step.connect[OF spec[OF sys, of n], of 2 C E]
      have IH: "f C E io stop hostname port path m k cx1 = Some y \<Longrightarrow> (api_step C E faulty lim)\<^sup>*\<^sup>* cx1 (snd (snd y))" for m k cx1 using 1(1) sys by blast
      show "(api_step C E faulty lim)\<^sup>*\<^sup>* cx (snd (snd y))" using 1(2)
        by (auto split: if_splits Option.bind_splits dest!: serve conn IH) (blast intro: converse_rtranclp_into_rtranclp)+
    qed
  qed
  then show ?thesis using assms(2) by simp
qed

text \<open>
  The thread of the client does not lose a connection: when it ends, for whatever reason, its poll table is well-formed and holds every connection that is still
  allocated, so that the destructor finds them; unless a host name has failed to resolve and a connection has been freed behind the back of the table.
\<close>

theorem run_tracked:
  assumes "slot_safe E" "slot_calm C" "no_takeover E" "tracked cx" "\<forall>n. system_ok faulty (max_fds cx) (io n)"
    and "run C E io stop (Some cx) hostname port path = Some (ret, mSocket, Some cx')"
  shows "in_order faulty (max_fds cx) cx'"
proof -
  obtain m where "run_loop C E io stop hostname port path 0 None cx = Some (ret, m, cx')" using assms(6) by (auto simp: run_def)
  from run_order[OF assms(1-3) run_loop_steps[OF this assms(5)]] show ?thesis using assms(4) by (simp add: in_order_def)
qed

end
