(* ===== verification/Spec2Isabelle.thy ===== *)
theory Spec2Isabelle
  imports Minilex Json_Grammar Ws_Thread Service_Depth Http_File Ws_Run
begin

text \<open>
  A verification library for Neof5Client, the client of a card game server: a player program in C++ on top of the WebSocket library
  libwebsockets 1.23 in C, which the repository carries and builds. Paths below are relative to
  \<^verbatim>\<open>src/Neof5Client/jni\<close>, with \<^verbatim>\<open>lib\<close> for \<^verbatim>\<open>libwebsockets-1.23/lib\<close>.

  \<^bold>\<open>The program and its parts.\<close> The game server sends JSON texts over a WebSocket. Bytes of the socket run through the receive state
  machine of the library (\<^verbatim>\<open>lib/client-parser.c\<close>), which calls the user code in \<^verbatim>\<open>neof5/WsThread.cpp\<close> with the payload; it passes the text to
  \<^verbatim>\<open>neof5/Neof5Protocol.cpp\<close>, which parses it with \<^verbatim>\<open>neof5/picojson.h\<close>, builds the state of the game
  (\<^verbatim>\<open>DaifugoContext.cpp\<close>, \<^verbatim>\<open>PlayerInfo.cpp\<close>, \<^verbatim>\<open>Cards.cpp\<close>) and asks a player (\<^verbatim>\<open>PoorPlayer.cpp\<close> or \<^verbatim>\<open>SagePlayer.cpp\<close>, both bound by
  \<^verbatim>\<open>DaifugoRule.cpp\<close>) for cards. The answer is queued, and when the socket is writable it is framed, masked and sent by \<^verbatim>\<open>lib/output.c\<close>.
  The server side of the library (\<^verbatim>\<open>lib/parsers.c\<close>) receives what this client sends, so statements about what arrives are made
  against it. A connection starts with an HTTP exchange: the client builds a request (\<^verbatim>\<open>lib/client.c\<close>), the server collects its headers with the
  parser of \<^verbatim>\<open>lib/parsers.c\<close>, answers the key with \<^verbatim>\<open>lib/sha-1.c\<close> and \<^verbatim>\<open>lib/base64-decode.c\<close> (\<^verbatim>\<open>lib/handshake.c\<close>, \<^verbatim>\<open>lib/server-handshake.c\<close>), and
  the client checks the answer. All sockets of a process belong to a context, which keeps them in a table for \<open>poll\<close>; \<open>libwebsocket_service\<close>
  (\<^verbatim>\<open>lib/libwebsockets.c\<close>) waits for events and hands each socket to the code for its mode (\<^verbatim>\<open>lib/server.c\<close>, \<^verbatim>\<open>lib/client.c\<close>,
  \<^verbatim>\<open>lib/client-handshake.c\<close>), and \<open>WsThread::run\<close> calls it in a loop.

  \<^bold>\<open>Theories, from the bottom.\<close>
  \<^item> \<open>Lws_Prelude\<close>: bytes and C strings, checked array reads and writes, shared lemmas on lists, options and words.
  \<^item> \<open>Base64\<close>: \<^verbatim>\<open>base64-decode.c\<close>. The encoder is RFC 4648, with the exact condition on the output buffer, and the \<open>decode\<close> table
    inverts it.
  \<^item> \<open>Sha1\<close>: \<^verbatim>\<open>sha-1.c\<close>, the block function with its sixteen-word schedule and the buffering, equal to FIPS 180-1 (locale \<open>hash_stream\<close>).
  \<^item> \<open>Lextable\<close>, \<open>Minilex\<close>: the byte table that recognises header names, what it accepts, and the generator \<^verbatim>\<open>minilex.c\<close>
    that prints it.
  \<^item> \<open>Lws_Types\<close>: \<open>struct libwebsocket\<close> with its \<open>struct _lws_websocket_related\<close> as the record \<open>lws\<close>, the header table as \<open>allocated_headers\<close>, the
    enumerations of the two headers, and \<open>env\<close>, the surroundings of a connection.
  \<^item> \<open>Headers\<close>, \<open>Header_Lines\<close>: the header table and \<open>libwebsocket_parse\<close>, first its memory safety on any input, then what whole header lines are
    turned into (locale \<open>header_store\<close>).
  \<^item> \<open>Output\<close>: \<^verbatim>\<open>output.c\<close>: \<open>libwebsocket_write\<close>, partial sends and their continuation when the socket is writable.
  \<^item> \<open>Frame_Rx\<close>, \<open>Frame_Safety\<close>: the two receive state machines with control frames, extensions and flow control; memory safety on any
    input, delivery of any sequence of frames (locale \<open>frame_receiver\<close>) and the two round trips with \<open>Output\<close>.
  \<^item> \<open>Server_Handshake\<close>, \<open>Client_Handshake\<close>: \<open>libwebsocket_read\<close> and \<open>handshake_0405\<close>, and the client's \<open>libwebsockets_generate_client_handshake\<close>
    and \<open>lws_client_interpret_server_handshake\<close>, over the header table; run against each other they leave both connections in
    the states that the statements about messages start from.
  \<^item> \<open>Poll_Table\<close>: \<open>struct libwebsocket_context\<close> as the record \<open>lws_context\<close>, with a heap \<open>wsis\<close> of connections by address (the record \<open>session\<close> adds
    the timeout and the HTTP part to \<open>lws\<close>), and \<open>insert_wsi_socket_into_fds\<close> and \<open>remove_wsi_socket_from_fds\<close>, which implement a map from sockets
    to connections (locales \<open>fd_map\<close>, \<open>fd_close\<close>, \<open>fd_dispose\<close>).
  \<^item> \<open>Slot_Frame\<close>: no operation on one connection moves it in the table (locales \<open>host\<close>, \<open>handshaking_host\<close>: what user code and extensions leave alone).
  \<^item> \<open>Sessions\<close>: \<open>libwebsocket_close_and_free_session\<close>, timeouts, the end of a context: everything is closed exactly once.
  \<^item> \<open>Service\<close>: the service loop with \<open>lws_server_socket_service\<close>, \<open>lws_client_socket_service\<close>, open WebSockets, connecting, and
    files over HTTP. \<open>Service_Safety\<close> shows for each operation (locale \<open>serving\<close>), and \<open>Api\<close> for every sequence of calls
    into the library (the step relation \<open>api_step\<close>), that the poll table stays well-formed and holds exactly the connections that are allocated, unless the
    lookup of a host name has failed.
  \<^item> \<open>Connect\<close>: \<open>libwebsocket_client_connect\<close> from end to end. \<open>Service_Depth\<close>: the depth of the calls of \<open>libwebsocket_service_fd\<close>.
    \<open>Http_File\<close>: \<open>libwebsockets_serve_http_file\<close> sends the file. \<open>Ws_Run\<close>: \<open>WsThread::run\<close> over the service loop.
  \<^item> \<open>Cards\<close>, \<open>Daifugo_Rule\<close>: cards, sets of cards as 64-bit masks that refine finite sets (locale \<open>set_container\<close>), and both rule classes, whose
    verdict is stated over the sets (locale \<open>put_rule\<close>).
  \<^item> \<open>Poor_Player\<close>, \<open>Sage_Hands\<close>, \<open>Sage_Player\<close>: the players. Both put only legal hands of their own cards. The poor player puts exactly the
    weakest legal run of neighbours in its hand; the enumeration of the sage player is complete below four cards.
  \<^item> \<open>Json\<close>: the values, \<open>serialize\<close> and \<open>parse\<close> of picojson. \<open>Json_Grammar\<close>: the grammar of JSON texts with their values as inductive
    predicates; the parser returns on every input and accepts exactly that language.
  \<^item> \<open>Neof5_Protocol\<close>: the messages of the game, over the locale \<open>player\<close> (\<^verbatim>\<open>IPlayer.hpp\<close>), which both players instantiate.
  \<^item> \<open>Ws_Thread\<close>: \<open>callback_func\<close> and the send queue, over the connection of \<open>Output\<close> and the protocol.

  \<^bold>\<open>State and errors.\<close> A C object is a record and a function on it passes it on. Memory is checked: a read or write outside its array, a
  null pointer that is followed, or a loop that would not end gives \<open>None\<close> in the models of C code, and \<open>Undef\<close> in the models of C++ code,
  where \<open>Throw\<close> is an exception. So a theorem that a function returns \<open>Some\<close> or \<open>Ok\<close> includes its memory safety and its termination. Machine
  integers have their width wherever the code can reach its limits (\<open>32 word\<close> hashes and masks, \<open>64 word\<close> frame lengths and sets of cards); where \<open>output.c\<close>
  passes a length through an \<open>int\<close>, the conversions \<open>c_int\<close> (to 32 bits, signed) and \<open>c_size\<close> (to \<open>size_t\<close>) are written out; an integer
  that stays small is \<open>nat\<close> or \<open>int\<close>. The build is LP64 and little-endian, with extensions and without OpenSSL.

  \<^bold>\<open>Parameters.\<close> What is not code of the repository is an argument: the kernel, the user code of the library and the extensions (\<open>env\<close>,
  with \<open>kernel_ok\<close> and \<open>kernel_willing\<close>: the kernel takes what it is given and has memory and random bytes), the context with its
  protocols and extensions (\<open>hs_context\<close>), what the system answers to the service loop (\<open>io\<close>, with \<open>system_ok\<close>: descriptors are fresh and below the size
  of the table, \<open>malloc\<close> gives blocks that are not in use; unless its first argument \<open>faulty\<close> is set, names resolve as well), the conversions between \<open>double\<close> and text (\<open>numfmt\<close>, with
  \<open>num_ok\<close>: \<open>strtod\<close> reads back what \<open>snprintf\<close> printed), the arithmetic of \<open>double\<close>, the clock, the random numbers and the addresses
  of tree nodes (the parameters of the sage player). Each property that assumes something of them has a witness with concrete functions.

  \<^bold>\<open>Bounds and fuel.\<close> Recursions that do not end structurally carry a bound, and the theorems show that the bound is enough, so
  running out of it never happens: the walk over the fragments of a header is bounded by their number; the nesting of the calls of the JSON parser by twice the
  length of the text plus one; the calls of \<open>libwebsocket_service_fd\<close> to itself by 2, which is shown to be enough for a client (\<open>depth_enough\<close>); \<open>_genAllCombination\<close> by the size of the hand plus one, because every call takes a card away;
  \<open>_think_recursive\<close> by the size of the deck plus two, because every level puts a card. Where a property of the program needs a limit (messages
  of at most 6000 bytes, SHA-1 below \<open>2 ^ 61\<close> bytes) the limit is a hypothesis and what happens beyond it is a theorem of its own where it matters.

  \<^bold>\<open>Where the code does not do what it means to\<close>, a theorem says so: the server loses its place after an empty masked frame, a partial write of
  a data frame is dropped, a client's close reason is sent malformed, a request without a key makes the server free a block twice, a server that names a protocol
  nobody asked for makes the client follow a null pointer, connecting returns a freed connection when the request cannot be sent, a lookup of a host name that fails frees a connection
  which stays in the poll table (the flag \<open>dangling\<close>, which the code does not have, records that), a write of 4 GiB or more is cut to its low 32 bits, a pass over the timeouts skips
  connections, a file that has become shorter is sent for ever, the rule for sequences never applies, the players leave
  their arrays when out of time or short of cards, and a long text overruns the send buffer.

  \<^bold>\<open>Not modelled.\<close> All of TLS, which the build leaves out; \<open>libwebsocket_create_context\<close> and the rest of \<open>libwebsocket_context_destroy\<close>, which are
  sequences of system calls (the listening socket, privileges, random device); calls of the library from inside a callback, other than
  \<open>libwebsocket_write\<close> and requests for a writable callback, and user code that polls by itself; the overlap of the members of the union in \<open>struct libwebsocket\<close>, which are
  separate fields here; the deflate extensions, wrappers of zlib,
  for which \<open>env\<close> has any extension; the parse contexts and error texts of picojson that the client does not use; log output; the entry points
  \<^verbatim>\<open>clientmain.cpp\<close> and \<^verbatim>\<open>jnimain.cpp\<close>; the Windows port with its copy of zlib, and the test programs.
\<close>

text \<open>
  C1. One turn of the game, end to end: the client receives the message of a turn, printed as
  \<open>serialize\<close> prints it, its player thinks, and the next time the socket is
  writable the answer goes out. The game server then receives, after what was queued before and the remarks of the player, one
  \<open>Put\<close> message, as one text message, whose cards are the player's own and legal in the game of the turn, or no
  cards. This holds for the sage player within its time limit, whatever random numbers and mask keys it draws.
\<close>

theorem turn_reaches_server:
  assumes "turn_ok N to_int ctx t ps" "in_time Sg ctx (handler th)"
    and "mSocket th" "tx_buf_ok (tx_buf th)" "list_all sendable (sendQueue th)"
    and "tx_ready c" "mode c = LWS_CONNMODE_WS_CLIENT" "kernel_ok E" "proto0_quiet E"
    and "server_ready Es got lim s" "mode s \<noteq> LWS_CONNMODE_WS_CLIENT" "user_safe Es flow_open lim" "WS_MESSAGE_SIZE_MAX \<le> lim"
  shows "\<exists>th1 c1 th2 c2 s' tw h.
    callback_func E (onMessage N to_int (sage_player Sg)) LWS_CALLBACK_CLIENT_RECEIVE (turn_text N ctx t ps) (th, c) = Some (0, th1, c1) \<and>
    callback_func E (onMessage N to_int (sage_player Sg)) LWS_CALLBACK_CLIENT_WRITEABLE [] (th1, c1) = Some (0, th2, c2) \<and> sendQueue th2 = [] \<and>
    libwebsocket_interpret_incoming_packet Es s (drop (length (wire c)) (wire c2)) = Some (0, s') \<and>
    got (user_space s') = got (user_space s) @ sendQueue th @ map (tweet_msg N) tw @ [put_msg N (cards_text h)] \<and>
    cards_in h \<subseteq> cards_in (deck ctx) \<and> legal_put (ctxKakumei ctx) (cards_in h) (cards_in (ba_last ctx))"
  using sage.turn_played[OF assms, of "[]"] by blast

theorem turn_reaches_server_witness:
  "\<exists>th1 c1 th2 c2 s' tw h.
    callback_func sample_env sample_handler LWS_CALLBACK_CLIENT_RECEIVE (turn_text sample_numfmt (sample_ctx 0x3013 [0x300]) False [])
      (sample_thread [], sample_conn LWS_CONNMODE_WS_CLIENT) = Some (0, th1, c1) \<and>
    callback_func sample_env sample_handler LWS_CALLBACK_CLIENT_WRITEABLE [] (th1, c1) = Some (0, th2, c2) \<and> sendQueue th2 = [] \<and>
    libwebsocket_interpret_incoming_packet log_env (log_conn LWS_CONNMODE_WS_SERVING) (wire c2) = Some (0, s') \<and>
    user_space s' = map (tweet_msg sample_numfmt) tw @ [put_msg sample_numfmt (cards_text h)] \<and>
    cards_in h \<subseteq> cards_in 0x3013 \<and> legal_put False (cards_in h) (cards_in 0x300)"
proof -
  have "num_ok sample_numfmt False" by (simp add: sample_numfmt_def num_ok_def num_char_def)
  moreover have "ctx_ok (sample_ctx 0x3013 [0x300])" by code_simp
  ultimately have turn: "turn_ok sample_numfmt of_bool (sample_ctx 0x3013 [0x300]) False []"
    by (simp add: turn_ok_def sample_ctx_def)
  have time: "in_time (sample_sage_env False) (sample_ctx 0x3013 [0x300]) (handler (sample_thread []))"
    by (simp add: in_time_def sample_sage_env_def)
  have c: "deck (sample_ctx 0x3013 [0x300]) = 0x3013" "ba_last (sample_ctx 0x3013 [0x300]) = 0x300" "ctxKakumei (sample_ctx 0x3013 [0x300]) = False"
    by (simp_all add: sample_ctx_def ba_last_def)
  have q: "list_all sendable (sendQueue (sample_thread []))" "WS_MESSAGE_SIZE_MAX \<le> 6000" "LWS_CONNMODE_WS_SERVING \<noteq> LWS_CONNMODE_WS_CLIENT"
    by (simp_all add: sample_thread_fields WS_MESSAGE_SIZE_MAX_def)
  have m: "mode (log_conn LWS_CONNMODE_WS_SERVING) \<noteq> LWS_CONNMODE_WS_CLIENT" by (simp add: log_conn_fields)
  show ?thesis
    using turn_reaches_server[OF turn time sample_thread_fields(2,3) q(1) sample_ready(1,2) sample_thread_fields(5,6) log_ready(1) m log_user(1) q(2)]
    unfolding c sample_thread_fields sample_ready sample_handler_def[symmetric] log_conn_fields list.size drop_0 id_apply append_Nil .
qed

end
